(* ===== verification/Prelude.thy ===== *)
theory Prelude
  imports Main "HOL-Library.Word" "HOL-Library.Multiset"
begin

text \<open>
  Shared material of the development: the machine types the sources use, the part of the C++
  standard library they rely on (byte strings with a capacity, character classes, decimal
  printing), and generic lemmas on lists, words and multisets.

  Bytes are \<^typ>\<open>char\<close>, byte strings \<^typ>\<open>string\<close>. \<open>int64_t\<close> values are \<^typ>\<open>int\<close> with the
  two's complement wrap-around \<open>i64\<close> written where an operation can leave the range; \<open>uint64_t\<close>,
  \<open>uint32_t\<close>, \<open>uint16_t\<close> and \<open>uint8_t\<close> fields are words; sizes that count allocated
  objects (\<open>size_t\<close>) are \<^typ>\<open>nat\<close>.
\<close>

unbundle bit_operations_syntax

section \<open>Machine integers\<close>

type_synonym u8 = "8 word"
type_synonym u16 = "16 word"
type_synonym u32 = "32 word"
type_synonym u64 = "64 word"

definition INT64_MAX :: int where
  "INT64_MAX = 9223372036854775807"

definition INT64_MIN :: int where
  "INT64_MIN = - 9223372036854775808"

definition UINT64_MAX :: nat where
  "UINT64_MAX = 18446744073709551615"

text \<open>The value an \<open>int64_t\<close> holds after an operation whose exact result is \<open>x\<close>.\<close>

definition i64 :: "int \<Rightarrow> int" where
  "i64 x = (x + 9223372036854775808) mod 18446744073709551616 - 9223372036854775808"

definition in_i64 :: "int \<Rightarrow> bool" where
  "in_i64 x \<longleftrightarrow> INT64_MIN \<le> x \<and> x \<le> INT64_MAX"

text \<open>A signed result outside the range is undefined behaviour in C++: there is no value.\<close>

definition exact_i64 :: "int \<Rightarrow> int option" where
  "exact_i64 x = (if in_i64 x then Some x else None)"

text \<open>Integer division of the source language truncates.\<close>

definition c_div :: "int \<Rightarrow> int \<Rightarrow> int" where
  "c_div a b = sgn a * sgn b * (\<bar>a\<bar> div \<bar>b\<bar>)"

section \<open>Characters\<close>

text \<open>\<open>(uint8_t)c\<close> and the value of a plain (signed) \<open>char\<close>.\<close>

definition byte_of :: "char \<Rightarrow> nat" where
  "byte_of c = of_char c"

definition schar :: "char \<Rightarrow> int" where
  "schar c = (let n = int (byte_of c) in if n < 128 then n else n - 256)"

definition isdigit :: "char \<Rightarrow> bool" where
  "isdigit c \<longleftrightarrow> 48 \<le> byte_of c \<and> byte_of c \<le> 57"

text \<open>\<open>isspace\<close> of the C locale: space, tab, newline, vertical tab, form feed, return.\<close>

definition isspace :: "char \<Rightarrow> bool" where
  "isspace c \<longleftrightarrow> byte_of c = 32 \<or> 9 \<le> byte_of c \<and> byte_of c \<le> 13"

definition tolower :: "char \<Rightarrow> char" where
  "tolower c = (if 65 \<le> byte_of c \<and> byte_of c \<le> 90 then char_of (byte_of c + 32) else c)"

definition lower :: "string \<Rightarrow> string" where
  "lower s = map tolower s"

text \<open>The two bytes that end every protocol line.\<close>

abbreviation CR :: char where "CR \<equiv> CHR 0x0D"
abbreviation LF :: char where "LF \<equiv> CHR 0x0A"
abbreviation CRLF :: string where "CRLF \<equiv> [CR, LF]"

section \<open>Decimal printing\<close>

text \<open>\<open>std::to_string\<close>, and the conversions \<open>%u\<close>, \<open>%zu\<close>, \<open>%lld\<close> of \<open>snprintf\<close>.\<close>

definition digit_char :: "nat \<Rightarrow> char" where
  "digit_char d = char_of (48 + d)"

fun nat_dec :: "nat \<Rightarrow> string" where
  "nat_dec n = (if n < 10 then [digit_char n] else nat_dec (n div 10) @ [digit_char (n mod 10)])"

declare nat_dec.simps [simp del]

definition int_dec :: "int \<Rightarrow> string" where
  "int_dec i = (if i < 0 then CHR ''-'' # nat_dec (nat (- i)) else nat_dec (nat i))"

definition digit_val :: "char \<Rightarrow> nat" where
  "digit_val c = byte_of c - 48"

fun dec_val :: "nat \<Rightarrow> string \<Rightarrow> nat" where
  "dec_val acc [] = acc"
| "dec_val acc (c # cs) = dec_val (acc * 10 + digit_val c) cs"

section \<open>Strings with a capacity\<close>

text \<open>
  \<open>std::string\<close> as libstdc++ implements it: the characters and the value \<open>capacity()\<close> returns.
  A string whose capacity is the 15 bytes of the inline buffer is \<^emph>\<open>local\<close>; every heap buffer
  is larger. Memory accounting in the sources reads \<open>capacity()\<close>, so the model keeps it.
\<close>

record cstr =
  chars :: string
  scap :: nat

definition SSO :: nat where
  "SSO = 15"

text \<open>A string constructed from its bytes (\<open>std::string(data, n)\<close>, a copy, \<open>to_string\<close>).\<close>

definition str_new :: "string \<Rightarrow> cstr" where
  "str_new s = \<lparr>chars = s, scap = max SSO (length s)\<rparr>"

text \<open>Growth of a buffer of capacity \<open>c\<close> that must hold \<open>n\<close> bytes.\<close>

definition str_grow :: "nat \<Rightarrow> nat \<Rightarrow> nat" where
  "str_grow c n = (if n \<le> c then c else max n (2 * c))"

definition str_assign :: "cstr \<Rightarrow> string \<Rightarrow> cstr" where
  "str_assign d s = \<lparr>chars = s, scap = str_grow (scap d) (length s)\<rparr>"

text \<open>
  \<open>d = std::move(s)\<close>: a local source is copied into the buffer the target already has; a heap
  source hands its buffer over and takes the target's in exchange. The source ends empty.
\<close>

definition str_move :: "cstr \<Rightarrow> cstr \<Rightarrow> cstr \<times> cstr" where
  "str_move d s =
     (if scap s = SSO then (d\<lparr>chars := chars s\<rparr>, s\<lparr>chars := []\<rparr>)
      else (s, \<lparr>chars = [], scap = scap d\<rparr>))"

definition str_clear :: "cstr \<Rightarrow> cstr" where
  "str_clear s = s\<lparr>chars := []\<rparr>"

definition str_append :: "cstr \<Rightarrow> string \<Rightarrow> cstr" where
  "str_append d s = \<lparr>chars = chars d @ s, scap = str_grow (scap d) (length (chars d) + length s)\<rparr>"

definition str_resize :: "cstr \<Rightarrow> nat \<Rightarrow> char \<Rightarrow> cstr" where
  "str_resize d n c =
     (if length (chars d) < n then str_append d (replicate (n - length (chars d)) c)
      else d\<lparr>chars := take n (chars d)\<rparr>)"

abbreviation str_empty :: cstr where
  "str_empty \<equiv> str_new []"

section \<open>Lemmas\<close>

named_theorems cstr_simps "how the string operations act on characters and capacity"

lemma chars_str [cstr_simps, simp]:
  "chars (str_new s) = s"
  "chars (str_assign d s) = s"
  "chars (str_clear d) = []"
  "chars (str_append d s) = chars d @ s"
  "chars (fst (str_move d e)) = chars e"
  "chars (snd (str_move d e)) = []"
  by (simp_all add: str_new_def str_assign_def str_clear_def str_append_def str_move_def)

lemma str_grow_bound: "n \<le> str_grow c n" "c \<le> str_grow c n"
  by (auto simp: str_grow_def)

lemma in_i64_i64: "in_i64 (i64 x)"
proof -
  have "0 \<le> (x + 9223372036854775808) mod 18446744073709551616"
    and "(x + 9223372036854775808) mod 18446744073709551616 < 18446744073709551616"
    by simp_all
  then show ?thesis
    by (simp add: in_i64_def i64_def INT64_MAX_def INT64_MIN_def)
qed

lemma exact_i64_simps: "in_i64 x \<Longrightarrow> exact_i64 x = Some x" "\<not> in_i64 x \<Longrightarrow> exact_i64 x = None"
  "exact_i64 x = Some y \<longleftrightarrow> in_i64 x \<and> y = x" "exact_i64 x = None \<longleftrightarrow> \<not> in_i64 x"
  by (auto simp: exact_i64_def)

lemma i64_id: "in_i64 x \<Longrightarrow> i64 x = x"
  by (simp add: in_i64_def i64_def INT64_MAX_def INT64_MIN_def)

lemma map_eqI_Some: "(\<And>x v. m x = Some v \<longleftrightarrow> m' x = Some v) \<Longrightarrow> m = m'"
  by (rule ext) (metis not_Some_eq)

text \<open>Decimal digits.\<close>

lemma byte_of_char_of: "n < 256 \<Longrightarrow> byte_of (char_of n) = n"
  by (simp add: byte_of_def)

lemma digit_char_digit: "d < 10 \<Longrightarrow> isdigit (digit_char d) \<and> digit_val (digit_char d) = d"
  by (simp add: isdigit_def digit_val_def digit_char_def byte_of_char_of)

lemma digit_not_CR: "isdigit c \<Longrightarrow> c \<noteq> CR"
  by (auto simp: isdigit_def byte_of_def)

lemma nat_dec_digits: "c \<in> set (nat_dec n) \<Longrightarrow> isdigit c"
proof (induction n rule: nat_dec.induct)
  case (1 n)
  then show ?case by (subst (asm) (2) nat_dec.simps) (auto split: if_splits simp: digit_char_digit)
qed

lemma nat_dec_ne [simp]: "nat_dec n \<noteq> []"
  by (subst nat_dec.simps) simp

text \<open>Evaluation of character and decimal operations on literals.\<close>

lemmas char_eval = lower_def tolower_def byte_of_def char_of_eq_iff isdigit_def digit_val_def
  INT64_MAX_def INT64_MIN_def UINT64_MAX_def nat_dec.simps int_dec_def digit_char_def take_bit_eq_mod

end
