(* ===== verification/Ttl_Heap.thy ===== *)
theory Ttl_Heap
  imports Prelude
begin

text \<open>
  The expiry heap: \<open>ds/heap.h\<close>, \<open>ds/heap.cpp\<close> and the vector operations \<open>heap_delete\<close>,
  \<open>heap_upsert\<close> and \<open>entry_set_ttl\<close> of \<open>core/state.cpp\<close>. A heap item carries the expiry time
  and a pointer \<open>ref\<close> to the \<open>heap_idx\<close> field of its entry; every move of an item inside the
  array writes the new position through that pointer. The pointed-to fields are a store
  \<open>heap_idx :: addr \<Rightarrow> nat\<close> indexed by the address of the entry.
\<close>

section \<open>Model\<close>

type_synonym addr = nat

record heap_item =
  val :: u64
  ref :: addr

text \<open>\<open>g_data.heap\<close> together with the \<open>heap_idx\<close> fields of all entries.\<close>

record ttl_heap =
  items :: "heap_item list"
  heap_idx :: "addr \<Rightarrow> nat"

definition NO_TTL :: nat where
  "NO_TTL = 18446744073709551615"

definition heap_parent :: "nat \<Rightarrow> nat" where
  "heap_parent i = (i + 1) div 2 - 1"

definition heap_left :: "nat \<Rightarrow> nat" where
  "heap_left i = i * 2 + 1"

definition heap_right :: "nat \<Rightarrow> nat" where
  "heap_right i = i * 2 + 2"

text \<open>The loop of \<open>heap_up\<close>: \<open>t\<close> is the saved item, \<open>pos\<close> the hole that travels up.\<close>

function heap_up_loop ::
  "heap_item \<Rightarrow> heap_item list \<Rightarrow> (addr \<Rightarrow> nat) \<Rightarrow> nat \<Rightarrow> heap_item list \<times> (addr \<Rightarrow> nat) \<times> nat"
where
  "heap_up_loop t a idx pos =
     (if 0 < pos \<and> val t < val (a ! heap_parent pos)
      then heap_up_loop t (a[pos := a ! heap_parent pos])
             (idx(ref (a ! heap_parent pos) := pos)) (heap_parent pos)
      else (a, idx, pos))"
  by pat_completeness auto
termination
  by (relation "measure (\<lambda>(t, a, idx, pos). pos)") (auto simp: heap_parent_def)

definition heap_up :: "heap_item list \<Rightarrow> (addr \<Rightarrow> nat) \<Rightarrow> nat \<Rightarrow> heap_item list \<times> (addr \<Rightarrow> nat)" where
  "heap_up a idx pos =
     (let t = a ! pos; (a, idx, pos) = heap_up_loop t a idx pos
      in (a[pos := t], idx(ref t := pos)))"

text \<open>The child that takes the place of a hole at \<open>pos\<close>, or \<open>pos\<close> itself.\<close>

definition heap_min_pos :: "heap_item \<Rightarrow> heap_item list \<Rightarrow> nat \<Rightarrow> nat \<Rightarrow> nat" where
  "heap_min_pos t a pos len =
     (let l = heap_left pos; r = heap_right pos;
          (min_pos, min_val) =
            (if l < len \<and> val (a ! l) < val t then (l, val (a ! l)) else (pos, val t))
      in if r < len \<and> val (a ! r) < min_val then r else min_pos)"

function heap_down_loop ::
  "heap_item \<Rightarrow> heap_item list \<Rightarrow> (addr \<Rightarrow> nat) \<Rightarrow> nat \<Rightarrow> nat \<Rightarrow> heap_item list \<times> (addr \<Rightarrow> nat) \<times> nat"
where
  "heap_down_loop t a idx pos len =
     (let min_pos = heap_min_pos t a pos len
      in if min_pos = pos then (a, idx, pos)
         else heap_down_loop t (a[pos := a ! min_pos]) (idx(ref (a ! min_pos) := pos)) min_pos len)"
  by pat_completeness auto
termination
  by (relation "measure (\<lambda>(t, a, idx, pos, len). len - pos)")
    (auto simp: heap_min_pos_def heap_left_def heap_right_def Let_def split: if_splits)

definition heap_down ::
  "heap_item list \<Rightarrow> (addr \<Rightarrow> nat) \<Rightarrow> nat \<Rightarrow> nat \<Rightarrow> heap_item list \<times> (addr \<Rightarrow> nat)"
where
  "heap_down a idx pos len =
     (let t = a ! pos; (a, idx, pos) = heap_down_loop t a idx pos len
      in (a[pos := t], idx(ref t := pos)))"

definition heap_update ::
  "heap_item list \<Rightarrow> (addr \<Rightarrow> nat) \<Rightarrow> nat \<Rightarrow> nat \<Rightarrow> heap_item list \<times> (addr \<Rightarrow> nat)"
where
  "heap_update a idx pos len =
     (if 0 < pos \<and> val (a ! pos) < val (a ! heap_parent pos)
      then heap_up a idx pos else heap_down a idx pos len)"

definition heap_delete :: "ttl_heap \<Rightarrow> nat \<Rightarrow> ttl_heap" where
  "heap_delete h pos =
     (let a = butlast ((items h)[pos := last (items h)])
      in if pos < length a
         then let (a, idx) = heap_update a (heap_idx h) pos (length a)
              in h\<lparr>items := a, heap_idx := idx\<rparr>
         else h\<lparr>items := a\<rparr>)"

definition heap_upsert :: "ttl_heap \<Rightarrow> nat \<Rightarrow> heap_item \<Rightarrow> ttl_heap" where
  "heap_upsert h pos t =
     (let (a, pos) = (if pos < length (items h) then ((items h)[pos := t], pos)
                      else (items h @ [t], length (items h)));
          (a, idx) = heap_update a (heap_idx h) pos (length a)
      in h\<lparr>items := a, heap_idx := idx\<rparr>)"

definition entry_has_ttl :: "ttl_heap \<Rightarrow> addr \<Rightarrow> bool" where
  "entry_has_ttl h e \<longleftrightarrow> heap_idx h e \<noteq> NO_TTL"

text \<open>\<open>entry_set_ttl(ent, ttl_ms)\<close> at monotonic time \<open>now\<close>.\<close>

definition entry_set_ttl :: "u64 \<Rightarrow> ttl_heap \<Rightarrow> addr \<Rightarrow> int \<Rightarrow> ttl_heap" where
  "entry_set_ttl now h e ttl_ms =
     (if ttl_ms < 0 \<and> entry_has_ttl h e
      then let h = heap_delete h (heap_idx h e) in h\<lparr>heap_idx := (heap_idx h)(e := NO_TTL)\<rparr>
      else if 0 \<le> ttl_ms
      then heap_upsert h (heap_idx h e) \<lparr>val = now + word_of_int ttl_ms, ref = e\<rparr>
      else h)"

declare heap_up_loop.simps [simp del]
declare heap_down_loop.simps [simp del]

section \<open>Invariant and abstraction\<close>

definition is_heap :: "heap_item list \<Rightarrow> bool" where
  "is_heap a \<longleftrightarrow> (\<forall>i < length a. 0 < i \<longrightarrow> val (a ! heap_parent i) \<le> val (a ! i))"

text \<open>Every item's back pointer holds the item's position.\<close>

definition refs_ok :: "heap_item list \<Rightarrow> (addr \<Rightarrow> nat) \<Rightarrow> bool" where
  "refs_ok a idx \<longleftrightarrow> (\<forall>i < length a. idx (ref (a ! i)) = i)"

definition heap_inv :: "ttl_heap \<Rightarrow> bool" where
  "heap_inv h \<longleftrightarrow>
     is_heap (items h) \<and> refs_ok (items h) (heap_idx h) \<and> length (items h) < NO_TTL \<and>
     (\<forall>e. e \<notin> ref ` set (items h) \<longrightarrow> heap_idx h e = NO_TTL)"

text \<open>The expiry time of each entry that has one.\<close>

definition ttl_of :: "ttl_heap \<Rightarrow> addr \<Rightarrow> u64 option" where
  "ttl_of h = map_of (map (\<lambda>i. (ref i, val i)) (items h))"

text \<open>Heap order everywhere except between \<open>pos\<close> and its parent, respectively its children.\<close>

definition heap_except_up :: "nat \<Rightarrow> heap_item list \<Rightarrow> bool" where
  "heap_except_up pos a \<longleftrightarrow>
     (\<forall>i < length a. 0 < i \<longrightarrow>
        (i \<noteq> pos \<longrightarrow> val (a ! heap_parent i) \<le> val (a ! i)) \<and>
        (heap_parent i = pos \<and> 0 < pos \<longrightarrow> val (a ! heap_parent pos) \<le> val (a ! i)))"

definition heap_except_down :: "nat \<Rightarrow> heap_item list \<Rightarrow> bool" where
  "heap_except_down pos a \<longleftrightarrow>
     (\<forall>i < length a. 0 < i \<longrightarrow>
        (heap_parent i \<noteq> pos \<longrightarrow> val (a ! heap_parent i) \<le> val (a ! i)) \<and>
        (heap_parent i = pos \<and> 0 < pos \<longrightarrow> val (a ! heap_parent pos) \<le> val (a ! i)))"

text \<open>The array with a hole at \<open>pos\<close> for \<open>t\<close>: all other back pointers are right.\<close>

definition hole_ok :: "heap_item \<Rightarrow> nat \<Rightarrow> heap_item list \<Rightarrow> (addr \<Rightarrow> nat) \<Rightarrow> bool" where
  "hole_ok t pos a idx \<longleftrightarrow>
     pos < length a \<and> (\<forall>i < length a. i \<noteq> pos \<longrightarrow> idx (ref (a ! i)) = i \<and> ref (a ! i) \<noteq> ref t)"

text \<open>What \<open>heap_update\<close> needs: order everywhere except around \<open>pos\<close>.\<close>

definition heap_except_at :: "nat \<Rightarrow> heap_item list \<Rightarrow> bool" where
  "heap_except_at pos a \<longleftrightarrow>
     (\<forall>i < length a. 0 < i \<longrightarrow>
        (i \<noteq> pos \<and> heap_parent i \<noteq> pos \<longrightarrow> val (a ! heap_parent i) \<le> val (a ! i)) \<and>
        (heap_parent i = pos \<and> 0 < pos \<longrightarrow> val (a ! heap_parent pos) \<le> val (a ! i)))"

section \<open>The interface of an expiry queue\<close>

text \<open>
  What the key space relies on: setting a non-negative time-to-live records the deadline
  \<open>now + ttl\<close> of that entry, a negative one removes it, and no other entry is affected.
\<close>

locale expiry_queue =
  fixes set_ttl :: "u64 \<Rightarrow> 'q \<Rightarrow> addr \<Rightarrow> int \<Rightarrow> 'q"
    and has_ttl :: "'q \<Rightarrow> addr \<Rightarrow> bool"
    and deadline :: "'q \<Rightarrow> addr \<Rightarrow> u64 option"
    and inv :: "'q \<Rightarrow> bool"
    and room :: "'q \<Rightarrow> bool"
  assumes deadline_set: "inv q \<Longrightarrow> room q \<Longrightarrow> 0 \<le> t \<Longrightarrow>
      deadline (set_ttl now q e t) = (deadline q)(e \<mapsto> now + word_of_int t)"
    and deadline_clear: "inv q \<Longrightarrow> t < 0 \<Longrightarrow> deadline (set_ttl now q e t) = (deadline q)(e := None)"
    and inv_set: "inv q \<Longrightarrow> room q \<Longrightarrow> 0 \<le> t \<Longrightarrow> inv (set_ttl now q e t)"
    and inv_clear: "inv q \<Longrightarrow> t < 0 \<Longrightarrow> inv (set_ttl now q e t)"
    and has_ttl_iff: "inv q \<Longrightarrow> has_ttl q e \<longleftrightarrow> deadline q e \<noteq> None"
begin

lemma inv_set_ttl: "inv q \<Longrightarrow> room q \<Longrightarrow> inv (set_ttl now q e t)"
  using inv_set inv_clear by (cases "0 \<le> t") auto

lemma deadline_set_ttl:
  "inv q \<Longrightarrow> room q \<Longrightarrow> deadline (set_ttl now q e t) =
     (if t < 0 then (deadline q)(e := None) else (deadline q)(e \<mapsto> now + word_of_int t))"
  by (simp add: deadline_set deadline_clear)

lemma deadline_other:
  "inv q \<Longrightarrow> room q \<Longrightarrow> e' \<noteq> e \<Longrightarrow> deadline (set_ttl now q e t) e' = deadline q e'"
  by (simp add: deadline_set_ttl)

lemma has_ttl_set_ttl:
  "inv q \<Longrightarrow> room q \<Longrightarrow> has_ttl (set_ttl now q e t) e \<longleftrightarrow> 0 \<le> t"
  by (simp add: has_ttl_iff inv_set_ttl deadline_set_ttl)

lemma has_ttl_clear: "inv q \<Longrightarrow> \<not> has_ttl (set_ttl now q e (- 1)) e"
  by (simp add: has_ttl_iff inv_clear deadline_clear)

end

section \<open>Correctness of the array heap\<close>

lemmas heap_index_defs = heap_parent_def heap_left_def heap_right_def

lemma heap_parent_less: "0 < i \<Longrightarrow> heap_parent i < i"
  by (simp add: heap_parent_def)

lemma heap_parent_eq_iff:
  "0 < i \<Longrightarrow> heap_parent i = p \<longleftrightarrow> i = heap_left p \<or> i = heap_right p"
  unfolding heap_index_defs by presburger

lemma heap_parent_child [simp]: "heap_parent (heap_left p) = p" "heap_parent (heap_right p) = p"
  by (simp_all add: heap_index_defs)

lemma mset_list_update_swap:
  assumes "p < length a" "q < length a" "p \<noteq> q"
  shows "mset (a[p := a ! q, q := t]) = mset (a[p := t])"
proof -
  have "mset ((a[p := t])[p := a[p := t] ! q, q := a[p := t] ! p]) = mset (a[p := t])"
    using assms by (intro mset_swap) simp_all
  moreover have "(a[p := t])[p := a[p := t] ! q, q := a[p := t] ! p] = a[p := a ! q, q := t]"
    using assms by (simp add: nth_list_update)
  ultimately show ?thesis by simp
qed

text \<open>Moving the hole from \<open>pos\<close> to \<open>q\<close> by copying \<open>a ! q\<close>.\<close>

lemma hole_ok_move:
  assumes "hole_ok t pos a idx" "q < length a" "q \<noteq> pos"
  shows "hole_ok t q (a[pos := a ! q]) (idx(ref (a ! q) := pos))"
  using assms unfolding hole_ok_def by (auto simp: nth_list_update) metis

lemma heap_up_step_order:
  assumes "heap_except_up pos (a[pos := t])" "pos < length a" "0 < pos"
    and "val t < val (a ! heap_parent pos)"
  shows "heap_except_up (heap_parent pos) (a[pos := a ! heap_parent pos, heap_parent pos := t])"
proof -
  let ?p = "heap_parent pos"
  have p: "?p < pos" "?p < length a" using assms heap_parent_less[of pos] by auto
  show ?thesis
    unfolding heap_except_up_def
  proof (intro allI impI)
    fix i assume i: "i < length (a[pos := a ! ?p, ?p := t])" "0 < i"
    have pi: "heap_parent i < i" using i(2) by (rule heap_parent_less)
    have old: "i \<noteq> pos \<longrightarrow> val (a[pos := t] ! heap_parent i) \<le> val (a[pos := t] ! i)"
      "heap_parent i = pos \<longrightarrow> val (a[pos := t] ! ?p) \<le> val (a[pos := t] ! i)"
      using assms(1,3) i unfolding heap_except_up_def by auto
    have "0 < ?p \<Longrightarrow> val (a[pos := t] ! heap_parent ?p) \<le> val (a[pos := t] ! ?p)"
      using assms(1,2) p unfolding heap_except_up_def by auto
    then have gp: "0 < ?p \<Longrightarrow> val (a ! heap_parent ?p) \<le> val (a ! ?p)"
      using p heap_parent_less[of ?p] by (simp add: nth_list_update)
    show "(i \<noteq> ?p \<longrightarrow> val (a[pos := a ! ?p, ?p := t] ! heap_parent i)
              \<le> val (a[pos := a ! ?p, ?p := t] ! i)) \<and>
          (heap_parent i = ?p \<and> 0 < ?p \<longrightarrow> val (a[pos := a ! ?p, ?p := t] ! heap_parent ?p)
              \<le> val (a[pos := a ! ?p, ?p := t] ! i))"
      using old gp p pi i assms(2-4) heap_parent_less[of ?p]
      by (auto simp: nth_list_update split: if_splits)
  qed
qed

lemma heap_up_loop_ok:
  assumes "hole_ok t pos a idx" "heap_except_up pos (a[pos := t])"
    and "heap_up_loop t a idx pos = (a', idx', pos')"
  shows "hole_ok t pos' a' idx' \<and> is_heap (a'[pos' := t]) \<and>
         mset (a'[pos' := t]) = mset (a[pos := t]) \<and> length a' = length a \<and>
         (\<forall>e. e \<notin> ref ` set (a[pos := t]) \<longrightarrow> idx' e = idx e)"
  using assms
proof (induction t a idx pos rule: heap_up_loop.induct)
  case (1 t a idx pos)
  let ?p = "heap_parent pos"
  have pos: "pos < length a" using 1(2) by (simp add: hole_ok_def)
  show ?case
  proof (cases "0 < pos \<and> val t < val (a ! ?p)")
    case True
    then have p: "?p < pos" "?p < length a" using heap_parent_less[of pos] pos by auto
    have run: "heap_up_loop t (a[pos := a ! ?p]) (idx(ref (a ! ?p) := pos)) ?p = (a', idx', pos')"
      using 1(4) True by (simp add: heap_up_loop.simps[of t a idx pos])
    have ms: "mset (a[pos := a ! ?p, ?p := t]) = mset (a[pos := t])"
      using p pos by (intro mset_list_update_swap) auto
    have st: "set (a[pos := a ! ?p, ?p := t]) = set (a[pos := t])"
      using ms by (metis set_mset_mset)
    have inp: "ref (a ! ?p) \<in> ref ` set (a[pos := t])"
      using p by (metis image_eqI length_list_update nth_list_update_neq nth_mem order_less_irrefl)
    from "1.IH"[OF True hole_ok_move[OF 1(2)] heap_up_step_order[OF 1(3)] run]
    show ?thesis using p pos True ms st inp by auto
  next
    case False
    then have eq: "a' = a" "idx' = idx" "pos' = pos"
      using 1(4) by (auto simp: heap_up_loop.simps[of t a idx pos])
    have "is_heap (a[pos := t])"
      using False 1(3) pos unfolding is_heap_def heap_except_up_def
      by (auto simp: nth_list_update not_less)
    then show ?thesis using eq 1(2) by simp
  qed
qed

lemma heap_min_pos_cases:
  assumes "heap_min_pos t a pos len = q"
  shows "q = pos \<and> (\<forall>i < len. 0 < i \<longrightarrow> heap_parent i = pos \<longrightarrow> val t \<le> val (a ! i)) \<or>
         q < len \<and> 0 < q \<and> heap_parent q = pos \<and> val (a ! q) < val t \<and>
         (\<forall>i < len. 0 < i \<longrightarrow> heap_parent i = pos \<longrightarrow> val (a ! q) \<le> val (a ! i))"
  using assms unfolding heap_min_pos_def Let_def
  by (auto simp: heap_parent_eq_iff split: if_splits) (auto simp: heap_index_defs)

lemma heap_down_step_order:
  assumes "heap_except_down pos (a[pos := t])" "pos < length a"
    and q: "q < length a" "0 < q" "heap_parent q = pos" "val (a ! q) < val t"
    and least: "\<forall>i < length a. 0 < i \<longrightarrow> heap_parent i = pos \<longrightarrow> val (a ! q) \<le> val (a ! i)"
  shows "heap_except_down q (a[pos := a ! q, q := t])"
proof -
  have pq: "pos < q" using q heap_parent_less by blast
  show ?thesis
    unfolding heap_except_down_def
  proof (intro allI impI)
    fix i assume i: "i < length (a[pos := a ! q, q := t])" "0 < i"
    have pi: "heap_parent i < i" using i(2) by (rule heap_parent_less)
    have old: "heap_parent i \<noteq> pos \<longrightarrow> val (a[pos := t] ! heap_parent i) \<le> val (a[pos := t] ! i)"
      "heap_parent i = pos \<and> 0 < pos \<longrightarrow> val (a[pos := t] ! heap_parent pos) \<le> val (a[pos := t] ! i)"
      using assms(1) i unfolding heap_except_down_def by auto
    have up: "0 < pos \<longrightarrow> val (a[pos := t] ! heap_parent pos) \<le> val (a[pos := t] ! q)"
      using assms(1) q unfolding heap_except_down_def by auto
    show "(heap_parent i \<noteq> q \<longrightarrow> val (a[pos := a ! q, q := t] ! heap_parent i)
              \<le> val (a[pos := a ! q, q := t] ! i)) \<and>
          (heap_parent i = q \<and> 0 < q \<longrightarrow> val (a[pos := a ! q, q := t] ! heap_parent q)
              \<le> val (a[pos := a ! q, q := t] ! i))"
      using old up pq pi i q least assms(2) heap_parent_less[of pos]
      by (auto simp: nth_list_update split: if_splits)
  qed
qed

lemma heap_down_loop_ok:
  assumes "hole_ok t pos a idx" "heap_except_down pos (a[pos := t])" "len = length a"
    and "heap_down_loop t a idx pos len = (a', idx', pos')"
  shows "hole_ok t pos' a' idx' \<and> is_heap (a'[pos' := t]) \<and>
         mset (a'[pos' := t]) = mset (a[pos := t]) \<and> length a' = length a \<and>
         (\<forall>e. e \<notin> ref ` set (a[pos := t]) \<longrightarrow> idx' e = idx e)"
  using assms
proof (induction t a idx pos len rule: heap_down_loop.induct)
  case (1 t a idx pos len)
  define q where "q = heap_min_pos t a pos len"
  have pos: "pos < length a" using 1(2) by (simp add: hole_ok_def)
  show ?case
  proof (cases "q = pos")
    case False
    with heap_min_pos_cases[of t a pos len q] q_def 1(4)
    have q: "q < length a" "0 < q" "heap_parent q = pos" "val (a ! q) < val t"
      and least: "\<forall>i < length a. 0 < i \<longrightarrow> heap_parent i = pos \<longrightarrow> val (a ! q) \<le> val (a ! i)"
      by auto
    have run: "heap_down_loop t (a[pos := a ! q]) (idx(ref (a ! q) := pos)) q len = (a', idx', pos')"
      using 1(5) False by (simp add: heap_down_loop.simps[of t a idx pos len] Let_def q_def)
    have ms: "mset (a[pos := a ! q, q := t]) = mset (a[pos := t])"
      using q pos False by (intro mset_list_update_swap) auto
    have st: "set (a[pos := a ! q, q := t]) = set (a[pos := t])"
      using ms by (metis set_mset_mset)
    have inq: "ref (a ! q) \<in> ref ` set (a[pos := t])"
      using q False by (metis image_eqI length_list_update nth_list_update_neq nth_mem)
    from "1.IH"[OF q_def False hole_ok_move[OF 1(2) q(1) False]
        heap_down_step_order[OF 1(3) pos q least] _ run]
    show ?thesis using 1(4) ms st inq by auto
  next
    case True
    then have eq: "a' = a" "idx' = idx" "pos' = pos"
      using 1(5) q_def by (auto simp: heap_down_loop.simps[of t a idx pos len] Let_def)
    have "\<forall>i < length a. 0 < i \<longrightarrow> heap_parent i = pos \<longrightarrow> val t \<le> val (a ! i)"
      using heap_min_pos_cases[of t a pos len q] q_def True 1(4) heap_parent_less[of q] by auto
    then have "is_heap (a[pos := t])"
      using 1(3) pos unfolding is_heap_def heap_except_down_def
      by (auto simp: nth_list_update split: if_splits)
    then show ?thesis using eq 1(2) by simp
  qed
qed

lemma hole_ok_fill: "hole_ok t pos a idx \<Longrightarrow> refs_ok (a[pos := t]) (idx(ref t := pos))"
  by (auto simp: hole_ok_def refs_ok_def nth_list_update)

lemma heap_update_ok:
  assumes "hole_ok (a ! pos) pos a idx" "heap_except_at pos a"
    and "heap_update a idx pos (length a) = (a', idx')"
  shows "is_heap a' \<and> refs_ok a' idx' \<and> mset a' = mset a \<and>
         (\<forall>e. e \<notin> ref ` set a \<longrightarrow> idx' e = idx e)"
proof -
  have pos: "pos < length a" using assms(1) by (simp add: hole_ok_def)
  have self: "a[pos := a ! pos] = a" by simp
  have tin: "ref (a ! pos) \<in> ref ` set a" using pos by simp
  show ?thesis
  proof (cases "0 < pos \<and> val (a ! pos) < val (a ! heap_parent pos)")
    case True
    then have "heap_except_up pos (a[pos := a ! pos])"
      using assms(2) unfolding self heap_except_up_def heap_except_at_def by fastforce
    moreover obtain b idx1 p where run: "heap_up_loop (a ! pos) a idx pos = (b, idx1, p)"
      by (metis prod_cases3)
    ultimately have ok: "hole_ok (a ! pos) p b idx1 \<and> is_heap (b[p := a ! pos]) \<and>
        mset (b[p := a ! pos]) = mset a \<and> (\<forall>e. e \<notin> ref ` set a \<longrightarrow> idx1 e = idx e)"
      using heap_up_loop_ok[OF assms(1) _ run] by simp
    have "a' = b[p := a ! pos]" "idx' = idx1(ref (a ! pos) := p)"
      using assms(3) True run by (auto simp: heap_update_def heap_up_def Let_def)
    then show ?thesis using ok hole_ok_fill[of "a ! pos" p b idx1] tin by auto
  next
    case False
    then have "heap_except_down pos (a[pos := a ! pos])"
      using assms(2) unfolding self heap_except_down_def heap_except_at_def by fastforce
    moreover obtain b idx1 p where run: "heap_down_loop (a ! pos) a idx pos (length a) = (b, idx1, p)"
      by (metis prod_cases3)
    ultimately have ok: "hole_ok (a ! pos) p b idx1 \<and> is_heap (b[p := a ! pos]) \<and>
        mset (b[p := a ! pos]) = mset a \<and> (\<forall>e. e \<notin> ref ` set a \<longrightarrow> idx1 e = idx e)"
      using heap_down_loop_ok[OF assms(1) _ refl run] by simp
    have "a' = b[p := a ! pos]" "idx' = idx1(ref (a ! pos) := p)"
      using assms(3) False run by (auto simp: heap_update_def heap_down_def Let_def)
    then show ?thesis using ok hole_ok_fill[of "a ! pos" p b idx1] tin by auto
  qed
qed

lemma is_heap_except_at_update:
  assumes "is_heap a" "pos < length a"
  shows "heap_except_at pos (a[pos := t])"
  unfolding heap_except_at_def
proof (intro allI impI)
  fix i assume i: "i < length (a[pos := t])" "0 < i"
  have le: "val (a ! heap_parent i) \<le> val (a ! i)" using assms(1) i by (simp add: is_heap_def)
  have le2: "0 < pos \<Longrightarrow> val (a ! heap_parent pos) \<le> val (a ! pos)"
    using assms by (simp add: is_heap_def)
  show "(i \<noteq> pos \<and> heap_parent i \<noteq> pos \<longrightarrow>
          val (a[pos := t] ! heap_parent i) \<le> val (a[pos := t] ! i)) \<and>
        (heap_parent i = pos \<and> 0 < pos \<longrightarrow>
          val (a[pos := t] ! heap_parent pos) \<le> val (a[pos := t] ! i))"
    using le le2 i heap_parent_less[of i] heap_parent_less[of pos] by (auto simp: nth_list_update)
qed

lemma is_heap_except_at_snoc:
  assumes "is_heap a"
  shows "heap_except_at (length a) (a @ [t])"
  unfolding heap_except_at_def
proof (intro allI impI)
  fix i assume i: "i < length (a @ [t])" "0 < i"
  then have "heap_parent i < length a" using heap_parent_less[of i] by simp
  then show "(i \<noteq> length a \<and> heap_parent i \<noteq> length a \<longrightarrow>
          val ((a @ [t]) ! heap_parent i) \<le> val ((a @ [t]) ! i)) \<and>
        (heap_parent i = length a \<and> 0 < length a \<longrightarrow>
          val ((a @ [t]) ! heap_parent (length a)) \<le> val ((a @ [t]) ! i))"
    using assms i by (simp add: nth_append is_heap_def)
qed

lemma is_heap_butlast:
  assumes "is_heap a"
  shows "is_heap (butlast a)"
  unfolding is_heap_def
proof (intro allI impI)
  fix i assume i: "i < length (butlast a)" "0 < i"
  then have "heap_parent i < length (butlast a)" "i < length a"
    using heap_parent_less[of i] by auto
  then show "val (butlast a ! heap_parent i) \<le> val (butlast a ! i)"
    using assms i by (simp add: nth_butlast is_heap_def)
qed

lemma refs_ok_distinct: "refs_ok a idx \<Longrightarrow> distinct (map ref a)"
  by (auto simp: refs_ok_def distinct_conv_nth) metis

lemma refs_ok_inj: "refs_ok a idx \<Longrightarrow> i < length a \<Longrightarrow> j < length a \<Longrightarrow> ref (a ! i) = ref (a ! j) \<Longrightarrow> i = j"
  unfolding refs_ok_def by metis

lemma refs_ok_mem: "refs_ok a idx \<Longrightarrow> e \<in> ref ` set a \<Longrightarrow> idx e < length a \<and> ref (a ! idx e) = e"
  by (auto simp: refs_ok_def in_set_conv_nth)

lemma set_update_refs:
  assumes "refs_ok a idx" "pos < length a" "ref (a ! pos) = ref t"
  shows "set (a[pos := t]) = {i \<in> set a. ref i \<noteq> ref t} \<union> {t}"
proof -
  have "i \<noteq> pos \<Longrightarrow> i < length a \<Longrightarrow> ref (a ! i) \<noteq> ref t" for i
    using refs_ok_inj[OF assms(1), of i pos] assms(2,3) by auto
  then show ?thesis
    using assms(2,3) by (fastforce simp: set_conv_nth nth_list_update split: if_splits)
qed

lemma heap_upsert_ok:
  assumes inv: "heap_inv h" and room: "length (items h) + 1 < NO_TTL"
    and upd: "pos < length (items h) \<Longrightarrow> ref (items h ! pos) = ref t"
    and new: "length (items h) \<le> pos \<Longrightarrow> ref t \<notin> ref ` set (items h)"
  shows "heap_inv (heap_upsert h pos t) \<and>
         set (items (heap_upsert h pos t)) = {i \<in> set (items h). ref i \<noteq> ref t} \<union> {t}"
proof -
  let ?i = "items h" and ?idx = "heap_idx h"
  have hp: "is_heap ?i" and rf: "refs_ok ?i ?idx" using inv by (auto simp: heap_inv_def)
  define a where "a = (if pos < length ?i then ?i[pos := t] else ?i @ [t])"
  define p where "p = (if pos < length ?i then pos else length ?i)"
  obtain a' idx' where run: "heap_update a ?idx p (length a) = (a', idx')" by fastforce
  have res: "heap_upsert h pos t = h\<lparr>items := a', heap_idx := idx'\<rparr>"
    using run by (cases "pos < length ?i") (simp_all add: heap_upsert_def a_def p_def)
  have ap: "a ! p = t" by (simp add: a_def p_def)
  have seta: "set a = {i \<in> set ?i. ref i \<noteq> ref t} \<union> {t}"
    using set_update_refs[OF rf _ upd] new by (force simp: a_def image_iff)
  have "i < length a \<Longrightarrow> i \<noteq> p \<Longrightarrow> ?idx (ref (a ! i)) = i \<and> ref (a ! i) \<noteq> ref t" for i
  proof (cases "pos < length ?i")
    case True
    then show "i < length a \<Longrightarrow> i \<noteq> p \<Longrightarrow> ?idx (ref (a ! i)) = i \<and> ref (a ! i) \<noteq> ref t"
      using rf refs_ok_inj[OF rf, of i pos] upd by (auto simp: a_def p_def refs_ok_def)
  next
    case False
    then have "i < length ?i \<Longrightarrow> ref (?i ! i) \<noteq> ref t" using new by (metis image_eqI not_less nth_mem)
    then show "i < length a \<Longrightarrow> i \<noteq> p \<Longrightarrow> ?idx (ref (a ! i)) = i \<and> ref (a ! i) \<noteq> ref t"
      using rf False by (auto simp: a_def p_def refs_ok_def nth_append)
  qed
  then have hole: "hole_ok (a ! p) p a ?idx"
    unfolding ap by (auto simp: hole_ok_def a_def p_def)
  have ex: "heap_except_at p a"
    using is_heap_except_at_update[OF hp, of pos t] is_heap_except_at_snoc[OF hp, of t]
    by (simp add: a_def p_def)
  note ok = heap_update_ok[OF hole ex run]
  have seta': "set a' = set a" and len: "length a' = length a"
    using ok by (metis set_mset_mset, metis size_mset)
  have "idx' e = NO_TTL" if "e \<notin> ref ` set a'" for e
  proof -
    have "e \<notin> ref ` set a" using that seta' by simp
    moreover from this have "e \<notin> ref ` set ?i" using seta by auto
    ultimately show ?thesis using ok inv by (simp add: heap_inv_def)
  qed
  then show ?thesis
    using ok seta seta' room len unfolding res heap_inv_def by (simp add: a_def)
qed

lemma heap_delete_ok:
  assumes inv: "heap_inv h" and pos: "pos < length (items h)"
  shows "is_heap (items (heap_delete h pos)) \<and>
         refs_ok (items (heap_delete h pos)) (heap_idx (heap_delete h pos)) \<and>
         set (items (heap_delete h pos)) = {i \<in> set (items h). ref i \<noteq> ref (items h ! pos)} \<and>
         length (items (heap_delete h pos)) < length (items h) \<and>
         (\<forall>e. e \<notin> ref ` set (items (heap_delete h pos)) \<longrightarrow>
              heap_idx (heap_delete h pos) e = heap_idx h e)"
proof -
  let ?i = "items h" and ?idx = "heap_idx h"
  have hp: "is_heap ?i" and rf: "refs_ok ?i ?idx" using inv by (auto simp: heap_inv_def)
  have ne: "?i \<noteq> []" using pos by auto
  define b where "b = butlast ?i"
  have lb: "length b = length ?i - 1" and ib: "?i = b @ [last ?i]"
    using ne by (auto simp: b_def)
  have rfb: "i < length b \<Longrightarrow> ?idx (ref (b ! i)) = i" for i
    using rf lb unfolding refs_ok_def b_def by (simp add: nth_butlast)
  have lastref: "i < length b \<Longrightarrow> ref (b ! i) \<noteq> ref (last ?i)" for i
    using refs_ok_inj[OF rf, of i "length b"] lb ne less_imp_le_nat[of i "length b"]
    by (fastforce simp: last_conv_nth b_def nth_butlast)
  show ?thesis
  proof (cases "pos < length b")
    case True
    define a where "a = b[pos := last ?i]"
    have abut: "butlast (?i[pos := last ?i]) = a"
      using True by (subst ib) (simp add: a_def list_update_append)
    obtain a' idx' where run: "heap_update a ?idx pos (length a) = (a', idx')" by fastforce
    have res: "heap_delete h pos = h\<lparr>items := a', heap_idx := idx'\<rparr>"
      using run True by (simp add: heap_delete_def abut) (simp add: a_def)
    have ap: "a ! pos = last ?i" using True by (simp add: a_def)
    have hole: "hole_ok (a ! pos) pos a ?idx"
      unfolding ap using True rfb lastref by (auto simp: hole_ok_def a_def)
    have "heap_except_at pos a"
      unfolding a_def using is_heap_except_at_update is_heap_butlast[OF hp] True by (simp add: b_def)
    note ok = heap_update_ok[OF hole this run]
    have seta': "set a' = set a" and len: "length a' = length a"
      using ok by (metis set_mset_mset, metis size_mset)
    have "set a = {i \<in> set ?i. ref i \<noteq> ref (?i ! pos)}"
    proof -
      have inj: "i < length b \<Longrightarrow> i \<noteq> pos \<Longrightarrow> ref (b ! i) \<noteq> ref (b ! pos)" for i
        using rfb True by metis
      have "?i ! pos = b ! pos" using True by (subst ib) (simp add: nth_append)
      moreover have "set ?i = set b \<union> {last ?i}" by (subst ib) simp
      ultimately show ?thesis
        using True inj lastref unfolding a_def
        by (fastforce simp: set_conv_nth nth_list_update split: if_splits)
    qed
    then show ?thesis using ok res seta' len lb pos by (auto simp: a_def)
  next
    case False
    then have p: "pos = length b" using pos lb by simp
    have abut: "butlast (?i[pos := last ?i]) = b"
      using p by (subst ib) simp
    have res: "heap_delete h pos = h\<lparr>items := b\<rparr>"
      using False by (simp add: heap_delete_def abut)
    have "set b = {i \<in> set ?i. ref i \<noteq> ref (last ?i)}"
      using lastref by (subst ib) (auto simp: in_set_conv_nth)
    moreover have "?i ! pos = last ?i" using p by (subst ib) simp
    ultimately show ?thesis
      using res is_heap_butlast[OF hp] rfb lb pos by (simp add: b_def refs_ok_def)
  qed
qed

lemma ttl_of_iff:
  "refs_ok (items h) idx \<Longrightarrow> ttl_of h e = Some v \<longleftrightarrow> (\<exists>i \<in> set (items h). ref i = e \<and> val i = v)"
  using refs_ok_distinct[of "items h" idx]
  by (auto simp: ttl_of_def map_of_eq_Some_iff comp_def image_iff)

lemma ttl_of_None: "ttl_of h e = None \<longleftrightarrow> e \<notin> ref ` set (items h)"
  by (auto simp: ttl_of_def map_of_eq_None_iff image_image)

lemma heap_inv_has_ttl: "heap_inv h \<Longrightarrow> entry_has_ttl h e \<longleftrightarrow> ttl_of h e \<noteq> None"
  unfolding entry_has_ttl_def ttl_of_None heap_inv_def
  using refs_ok_mem[of "items h" "heap_idx h" e] by auto

text \<open>Reading \<open>g_data.heap[ent->heap_idx].val\<close> gives the deadline of the entry.\<close>

lemma heap_inv_deadline:
  assumes "heap_inv h" "entry_has_ttl h e"
  shows "heap_idx h e < length (items h) \<and> ttl_of h e = Some (val (items h ! heap_idx h e))"
proof -
  have rf: "refs_ok (items h) (heap_idx h)" using assms(1) by (simp add: heap_inv_def)
  have "e \<in> ref ` set (items h)" using heap_inv_has_ttl[OF assms(1)] assms(2) ttl_of_None by blast
  from refs_ok_mem[OF rf this] show ?thesis
    using ttl_of_iff[OF rf] nth_mem by auto
qed

lemma entry_set_ttl_set:
  assumes inv: "heap_inv h" and room: "length (items h) + 1 < NO_TTL" and t: "0 \<le> t"
  shows "heap_inv (entry_set_ttl now h e t) \<and>
         ttl_of (entry_set_ttl now h e t) = (ttl_of h)(e \<mapsto> now + word_of_int t)"
proof -
  let ?t = "\<lparr>val = now + word_of_int t, ref = e\<rparr>" and ?p = "heap_idx h e"
  have rf: "refs_ok (items h) (heap_idx h)" using inv by (simp add: heap_inv_def)
  have res: "entry_set_ttl now h e t = heap_upsert h ?p ?t" using t by (simp add: entry_set_ttl_def)
  have mem: "e \<in> ref ` set (items h) \<longleftrightarrow> ?p < length (items h)"
    using refs_ok_mem[OF rf, of e] inv by (auto simp: heap_inv_def)
  have c1: "?p < length (items h) \<Longrightarrow> ref (items h ! ?p) = ref ?t"
    using refs_ok_mem[OF rf, of e] mem by simp
  have c2: "length (items h) \<le> ?p \<Longrightarrow> ref ?t \<notin> ref ` set (items h)"
    using mem by simp
  have ok: "heap_inv (heap_upsert h ?p ?t) \<and>
      set (items (heap_upsert h ?p ?t)) = {i \<in> set (items h). ref i \<noteq> e} \<union> {?t}"
    using heap_upsert_ok[OF inv room c1 c2] by simp
  then have rf': "refs_ok (items (heap_upsert h ?p ?t)) (heap_idx (heap_upsert h ?p ?t))"
    by (simp add: heap_inv_def)
  have "ttl_of (heap_upsert h ?p ?t) x = Some v \<longleftrightarrow>
      ((ttl_of h)(e \<mapsto> now + word_of_int t)) x = Some v" for x v
    using ok by (auto simp: ttl_of_iff[OF rf'] ttl_of_iff[OF rf])
  then have "ttl_of (heap_upsert h ?p ?t) = (ttl_of h)(e \<mapsto> now + word_of_int t)"
    by (intro map_eqI_Some) blast
  then show ?thesis using ok res by simp
qed

lemma entry_set_ttl_clear:
  assumes inv: "heap_inv h" and t: "t < 0"
  shows "heap_inv (entry_set_ttl now h e t) \<and> ttl_of (entry_set_ttl now h e t) = (ttl_of h)(e := None)"
proof (cases "entry_has_ttl h e")
  case True
  let ?p = "heap_idx h e" and ?d = "heap_delete h (heap_idx h e)"
  have rf: "refs_ok (items h) (heap_idx h)" using inv by (simp add: heap_inv_def)
  have res: "entry_set_ttl now h e t = ?d\<lparr>heap_idx := (heap_idx ?d)(e := NO_TTL)\<rparr>"
    using t True by (simp add: entry_set_ttl_def Let_def)
  have "e \<in> ref ` set (items h)" using heap_inv_has_ttl[OF inv] True ttl_of_None by blast
  from refs_ok_mem[OF rf this] have p: "?p < length (items h)" "ref (items h ! ?p) = e" by auto
  note ok = heap_delete_ok[OF inv p(1), unfolded p(2)]
  have rf': "refs_ok (items ?d) ((heap_idx ?d)(e := NO_TTL))"
  proof -
    have "ref (items ?d ! i) \<noteq> e" if "i < length (items ?d)" for i
      using ok nth_mem[OF that] by simp
    then show ?thesis using ok by (simp add: refs_ok_def)
  qed
  have inv': "heap_inv (entry_set_ttl now h e t)"
  proof -
    have "heap_idx ?d x = NO_TTL" if "x \<notin> ref ` set (items ?d)" "x \<noteq> e" for x
    proof -
      have "x \<notin> ref ` set (items h)" using that ok by auto
      then show ?thesis using ok that(1) inv by (simp add: heap_inv_def)
    qed
    moreover have "length (items ?d) < NO_TTL" using ok inv by (simp add: heap_inv_def)
    ultimately show ?thesis using ok rf' unfolding res heap_inv_def by simp
  qed
  have "ttl_of (entry_set_ttl now h e t) x = Some v \<longleftrightarrow> ((ttl_of h)(e := None)) x = Some v" for x v
  proof -
    have rf2: "refs_ok (items (entry_set_ttl now h e t)) ((heap_idx ?d)(e := NO_TTL))"
      using rf' res by simp
    have "set (items (entry_set_ttl now h e t)) = {i \<in> set (items h). ref i \<noteq> e}"
      using ok res by simp
    then show ?thesis by (auto simp: ttl_of_iff[OF rf2] ttl_of_iff[OF rf])
  qed
  then show ?thesis using inv' by (blast intro: map_eqI_Some)
next
  case False
  then have "entry_set_ttl now h e t = h" using t by (simp add: entry_set_ttl_def)
  moreover have "ttl_of h e = None" using heap_inv_has_ttl[OF inv] False by blast
  ultimately show ?thesis using inv by (auto simp: fun_upd_idem)
qed

lemma is_heap_root:
  assumes "is_heap a" "i < length a"
  shows "val (a ! 0) \<le> val (a ! i)"
  using assms(2)
proof (induction i rule: less_induct)
  case (less i)
  show ?case
  proof (cases "i = 0")
    case False
    then have "heap_parent i < i" by (simp add: heap_parent_less)
    moreover from this have "val (a ! 0) \<le> val (a ! heap_parent i)" using less by simp
    moreover have "val (a ! heap_parent i) \<le> val (a ! i)"
      using assms(1) less.prems False by (simp add: is_heap_def)
    ultimately show ?thesis by (meson order_trans)
  qed simp
qed

interpretation ttlq: expiry_queue entry_set_ttl entry_has_ttl ttl_of heap_inv
  "\<lambda>h. length (items h) + 1 < NO_TTL"
  by unfold_locales (auto simp: entry_set_ttl_set entry_set_ttl_clear heap_inv_has_ttl)

section \<open>Properties\<close>

text \<open>
  C4: setting, changing or removing a time-to-live keeps the heap order and every entry's back
  pointer, and acts on the recorded deadlines exactly as an update of a finite map: the entry gets
  the deadline \<open>now + ttl_ms\<close>, or none for a negative \<open>ttl_ms\<close>; all others keep theirs.
\<close>

theorem entry_set_ttl_refines_map:
  assumes "heap_inv h" and "length (items h) + 1 < NO_TTL"
  shows "heap_inv (entry_set_ttl now h e ttl_ms) \<and>
         ttl_of (entry_set_ttl now h e ttl_ms) =
           (if ttl_ms < 0 then (ttl_of h)(e := None)
            else (ttl_of h)(e \<mapsto> now + word_of_int ttl_ms))"
  using assms by (simp add: ttlq.inv_set_ttl ttlq.deadline_set_ttl)

definition heap_example :: ttl_heap where
  "heap_example = \<lparr>items = [\<lparr>val = 5, ref = 1\<rparr>, \<lparr>val = 9, ref = 2\<rparr>, \<lparr>val = 7, ref = 3\<rparr>],
     heap_idx = (\<lambda>_. NO_TTL)(1 := 0, 2 := 1, 3 := 2)\<rparr>"

lemma heap_example_ok: "heap_inv heap_example \<and> length (items heap_example) + 1 < NO_TTL"
  by (auto simp: heap_inv_def heap_example_def is_heap_def refs_ok_def NO_TTL_def heap_parent_def
      less_Suc_eq numeral_3_eq_3 image_iff)

theorem entry_set_ttl_refines_map_witness:
  "heap_inv (entry_set_ttl 10 heap_example 2 (- 1)) \<and>
   ttl_of (entry_set_ttl 10 heap_example 2 (- 1)) 2 = None \<and>
   ttl_of (entry_set_ttl 10 heap_example 4 30) 4 = Some 40"
  using entry_set_ttl_refines_map[of heap_example 10 2 "- 1"]
    entry_set_ttl_refines_map[of heap_example 10 4 30] heap_example_ok by simp

text \<open>A history of calls of \<open>entry_set_ttl\<close> on an empty heap, and the deadlines it leaves.\<close>

definition heap_start :: ttl_heap where
  "heap_start = \<lparr>items = [], heap_idx = (\<lambda>_. NO_TTL)\<rparr>"

fun ttl_run :: "(u64 \<times> addr \<times> int) list \<Rightarrow> ttl_heap \<Rightarrow> ttl_heap" where
  "ttl_run [] h = h"
| "ttl_run ((now, e, ttl_ms) # ops) h = ttl_run ops (entry_set_ttl now h e ttl_ms)"

fun deadlines :: "(u64 \<times> addr \<times> int) list \<Rightarrow> (addr \<Rightarrow> u64 option) \<Rightarrow> addr \<Rightarrow> u64 option" where
  "deadlines [] m = m"
| "deadlines ((now, e, ttl_ms) # ops) m =
     deadlines ops (if ttl_ms < 0 then m(e := None) else m(e \<mapsto> now + word_of_int ttl_ms))"

lemma heap_size: "heap_inv h \<Longrightarrow> length (items h) = card (dom (ttl_of h))"
proof -
  assume inv: "heap_inv h"
  then have rf: "refs_ok (items h) (heap_idx h)" by (simp add: heap_inv_def)
  have "inj_on (\<lambda>i. ref (items h ! i)) {..<length (items h)}"
    using rf by (intro inj_on_inverseI[of _ "heap_idx h"]) (simp add: refs_ok_def)
  then have "card ((\<lambda>i. ref (items h ! i)) ` {..<length (items h)}) = length (items h)" by (simp add: card_image)
  moreover have "(\<lambda>i. ref (items h ! i)) ` {..<length (items h)} = ref ` set (items h)"
    by (auto simp: set_conv_nth image_iff)
  moreover have "dom (ttl_of h) = ref ` set (items h)" using ttl_of_None[of h] by (intro set_eqI) (simp add: domIff)
  ultimately show ?thesis by simp
qed

lemma entry_set_ttl_size:
  assumes "heap_inv h" "length (items h) + 1 < NO_TTL"
  shows "length (items (entry_set_ttl now h e t)) \<le> Suc (length (items h))"
proof -
  have fin: "finite (dom (ttl_of h))" by (simp add: ttl_of_def finite_dom_map_of)
  have "card (dom (ttl_of (entry_set_ttl now h e t))) \<le> Suc (card (dom (ttl_of h)))"
    unfolding ttlq.deadline_set_ttl[OF assms] using fin by (auto simp: card_insert_if intro: le_SucI card_Diff1_le)
  then show ?thesis using heap_size ttlq.inv_set_ttl[OF assms] assms(1) by simp
qed

lemma ttl_run_ok:
  "heap_inv h \<Longrightarrow> length (items h) + length ops < NO_TTL \<Longrightarrow>
   heap_inv (ttl_run ops h) \<and> ttl_of (ttl_run ops h) = deadlines ops (ttl_of h)"
proof (induction ops h rule: ttl_run.induct)
  case (2 now e t ops h)
  have room: "length (items h) + 1 < NO_TTL" using 2(3) by simp
  have "length (items (entry_set_ttl now h e t)) + length ops < NO_TTL" using entry_set_ttl_size[OF 2(2) room, of now e t] 2(3) by simp
  from 2(1)[OF ttlq.inv_set_ttl[OF 2(2) room] this] show ?case by (simp add: ttlq.deadline_set_ttl[OF 2(2) room])
qed simp

text \<open>
  C11: after any history of setting, changing and removing times-to-live, started from an empty heap, index 0 of the
  array is the entry whose deadline is due first, which is what the timer loop and the \<open>volatile-ttl\<close> eviction policy read
  there; the array is empty exactly when no entry has a deadline; and for every entry that has one, \<open>heap_idx\<close> points at
  its own item, which holds the deadline last set.
\<close>

theorem heap_root_earliest:
  assumes "length ops < NO_TTL"
  shows "let h = ttl_run ops heap_start; m = deadlines ops (\<lambda>_. None) in
    (items h = [] \<longleftrightarrow> m = (\<lambda>_. None)) \<and>
    (items h \<noteq> [] \<longrightarrow> m (ref (items h ! 0)) = Some (val (items h ! 0))) \<and>
    (\<forall>e d. m e = Some d \<longrightarrow> val (items h ! 0) \<le> d \<and>
       heap_idx h e < length (items h) \<and> items h ! heap_idx h e = \<lparr>val = d, ref = e\<rparr>)"
proof -
  have s: "heap_inv heap_start" "ttl_of heap_start = (\<lambda>_. None)"
    by (auto simp: heap_start_def heap_inv_def is_heap_def refs_ok_def ttl_of_def NO_TTL_def)
  define h where "h = ttl_run ops heap_start"
  have h: "heap_inv h" "ttl_of h = deadlines ops (\<lambda>_. None)"
    using ttl_run_ok[OF s(1), of ops] s(2) assms by (simp_all add: h_def heap_start_def)
  have rf: "refs_ok (items h) (heap_idx h)" and hp: "is_heap (items h)" using h(1) by (simp_all add: heap_inv_def)
  have "items h = [] \<longleftrightarrow> ttl_of h = (\<lambda>_. None)" by (cases "items h") (auto simp: ttl_of_def fun_eq_iff)
  moreover have "ttl_of h (ref (items h ! 0)) = Some (val (items h ! 0))" if "items h \<noteq> []"
    using that ttl_of_iff[OF rf] by (metis length_greater_0_conv nth_mem)
  moreover have "val (items h ! 0) \<le> d \<and> heap_idx h e < length (items h) \<and> items h ! heap_idx h e = \<lparr>val = d, ref = e\<rparr>"
    if e: "ttl_of h e = Some d" for e d
  proof -
    have "entry_has_ttl h e" using e h(1) by (simp add: heap_inv_has_ttl)
    from heap_inv_deadline[OF h(1) this] have i: "heap_idx h e < length (items h)" "val (items h ! heap_idx h e) = d" using e by simp_all
    have "e \<in> ref ` set (items h)" using e ttl_of_None by (metis option.distinct(1))
    then have "ref (items h ! heap_idx h e) = e" using refs_ok_mem[OF rf] by auto
    then show ?thesis using i is_heap_root[OF hp i(1)] by (metis heap_item.surjective old.unit.exhaust)
  qed
  ultimately show ?thesis unfolding Let_def h_def[symmetric] h(2)[symmetric] by blast
qed

theorem heap_root_earliest_witness:
  "let h = ttl_run [(10, 1, 50), (10, 2, 20), (10, 3, 5), (11, 3, - 1), (12, 1, 0)] heap_start in
   val (items h ! 0) \<le> 12 \<and> items h ! heap_idx h 2 = \<lparr>val = 30, ref = 2\<rparr> \<and> items h ! heap_idx h 1 = \<lparr>val = 12, ref = 1\<rparr>"
  using heap_root_earliest[of "[(10, 1, 50), (10, 2, 20), (10, 3, 5), (11, 3, - 1), (12, 1, 0)]"] by (simp add: Let_def NO_TTL_def)

end
