(* ===== verification/Hashtable.thy ===== *)
theory Hashtable
  imports Prelude
begin

text \<open>
  The hash table with progressive rehashing: \<open>ds/hashtable.h\<close>, \<open>ds/hashtable.cpp\<close> and the
  string hash of \<open>core/common.h\<close>. A bucket chain is a list of nodes in chain order. A node holds
  the hash code and the payload it is embedded in. \<open>tab = []\<close> is the null pointer of an
  unallocated table. Comparison callbacks are predicates on payloads.
\<close>

section \<open>Model\<close>

text \<open>\<open>str_hash\<close>: 64-bit FNV-1a.\<close>

definition fnv_step :: "u64 \<Rightarrow> char \<Rightarrow> u64" where
  "fnv_step h c = (h XOR word_of_nat (byte_of c)) * 0x100000001b3"

definition str_hash :: "string \<Rightarrow> u64" where
  "str_hash s = foldl fnv_step 0xcbf29ce484222325 s"

record 'a hnode =
  hcode :: u64
  pay :: 'a

record 'a htab =
  tab :: "'a hnode list list"
  hmask :: u64
  hsize :: nat

record 'a hmap =
  newer :: "'a htab"
  older :: "'a htab"
  migrate_pos :: nat
  elem_bytes :: nat

definition htab_null :: "'a htab" where
  "htab_null = \<lparr>tab = [], hmask = 0, hsize = 0\<rparr>"

definition hmap_empty :: "'a hmap" where
  "hmap_empty = \<lparr>newer = htab_null, older = htab_null, migrate_pos = 0, elem_bytes = 0\<rparr>"

definition h_init :: "nat \<Rightarrow> 'a htab" where
  "h_init n = \<lparr>tab = replicate n [], hmask = word_of_nat n - 1, hsize = 0\<rparr>"

text \<open>The bucket of a hash code: \<open>hcode & mask\<close>.\<close>

definition h_pos :: "'a htab \<Rightarrow> u64 \<Rightarrow> nat" where
  "h_pos t c = unat (c AND hmask t)"

definition h_insert :: "'a htab \<Rightarrow> 'a hnode \<Rightarrow> 'a htab" where
  "h_insert t n =
     t\<lparr>tab := (tab t)[h_pos t (hcode n) := n # tab t ! h_pos t (hcode n)], hsize := hsize t + 1\<rparr>"

text \<open>The position in a chain of the first node with the given code that satisfies \<open>eq\<close>.\<close>

fun chain_find :: "u64 \<Rightarrow> ('a \<Rightarrow> bool) \<Rightarrow> 'a hnode list \<Rightarrow> nat option" where
  "chain_find c eq [] = None"
| "chain_find c eq (n # ns) =
     (if hcode n = c \<and> eq (pay n) then Some 0 else map_option Suc (chain_find c eq ns))"

text \<open>\<open>h_lookup\<close> returns the address of the link to the node: bucket and position in the chain.\<close>

definition h_lookup :: "'a htab \<Rightarrow> u64 \<Rightarrow> ('a \<Rightarrow> bool) \<Rightarrow> (nat \<times> nat) option" where
  "h_lookup t c eq =
     (if tab t = [] then None
      else map_option (Pair (h_pos t c)) (chain_find c eq (tab t ! h_pos t c)))"

definition h_node :: "'a htab \<Rightarrow> nat \<times> nat \<Rightarrow> 'a hnode" where
  "h_node t from = tab t ! fst from ! snd from"

definition h_detach :: "'a htab \<Rightarrow> nat \<times> nat \<Rightarrow> 'a hnode \<times> 'a htab" where
  "h_detach t from =
     (let c = tab t ! fst from
      in (c ! snd from,
          t\<lparr>tab := (tab t)[fst from := take (snd from) c @ drop (Suc (snd from)) c],
            hsize := hsize t - 1\<rparr>))"

definition k_rehashing_work :: nat where
  "k_rehashing_work = 128"

function rehash_loop :: "nat \<Rightarrow> 'a hmap \<Rightarrow> 'a hmap" where
  "rehash_loop nwork m =
     (if nwork < k_rehashing_work \<and> 0 < hsize (older m) then
        if unat (hmask (older m)) < migrate_pos m then m
        else if tab (older m) ! migrate_pos m = []
        then rehash_loop nwork (m\<lparr>migrate_pos := migrate_pos m + 1\<rparr>)
        else let (n, old) = h_detach (older m) (migrate_pos m, 0)
             in rehash_loop (nwork + 1) (m\<lparr>newer := h_insert (newer m) n, older := old\<rparr>)
      else m)"
  by pat_completeness auto
termination
  by (relation "measure (\<lambda>(nwork, m). (k_rehashing_work - nwork) +
        (Suc (unat (hmask (older m))) - migrate_pos m))")
    (auto simp: h_detach_def Let_def)

definition hm_help_rehashing :: "'a hmap \<Rightarrow> 'a hmap" where
  "hm_help_rehashing m =
     (let m = rehash_loop 0 m
      in if hsize (older m) = 0 \<and> tab (older m) \<noteq> [] then m\<lparr>older := htab_null\<rparr> else m)"

definition hm_trigger_rehashing :: "'a hmap \<Rightarrow> 'a hmap" where
  "hm_trigger_rehashing m =
     m\<lparr>older := newer m, migrate_pos := 0, newer := h_init ((unat (hmask (newer m)) + 1) * 2)\<rparr>"

text \<open>\<open>hm_lookup\<close>: the node found, in the newer table first.\<close>

definition hm_get :: "'a hmap \<Rightarrow> u64 \<Rightarrow> ('a \<Rightarrow> bool) \<Rightarrow> 'a hnode option" where
  "hm_get m c eq =
     (case h_lookup (newer m) c eq of
        Some from \<Rightarrow> Some (h_node (newer m) from)
      | None \<Rightarrow> map_option (h_node (older m)) (h_lookup (older m) c eq))"

definition hm_lookup :: "'a hmap \<Rightarrow> u64 \<Rightarrow> ('a \<Rightarrow> bool) \<Rightarrow> 'a hmap \<times> 'a hnode option" where
  "hm_lookup m c eq = (let m = hm_help_rehashing m in (m, hm_get m c eq))"

text \<open>Assignment to the payload through the pointer \<open>hm_lookup\<close> has just returned.\<close>

definition h_write :: "'a htab \<Rightarrow> nat \<times> nat \<Rightarrow> ('a \<Rightarrow> 'a) \<Rightarrow> 'a htab" where
  "h_write t from f =
     t\<lparr>tab := (tab t)[fst from :=
        (tab t ! fst from)[snd from := (h_node t from)\<lparr>pay := f (pay (h_node t from))\<rparr>]]\<rparr>"

definition hm_write :: "'a hmap \<Rightarrow> u64 \<Rightarrow> ('a \<Rightarrow> bool) \<Rightarrow> ('a \<Rightarrow> 'a) \<Rightarrow> 'a hmap" where
  "hm_write m c eq f =
     (case h_lookup (newer m) c eq of
        Some from \<Rightarrow> m\<lparr>newer := h_write (newer m) from f\<rparr>
      | None \<Rightarrow> (case h_lookup (older m) c eq of
                   Some from \<Rightarrow> m\<lparr>older := h_write (older m) from f\<rparr>
                 | None \<Rightarrow> m))"

definition hm_delete :: "'a hmap \<Rightarrow> u64 \<Rightarrow> ('a \<Rightarrow> bool) \<Rightarrow> 'a hmap \<times> 'a hnode option" where
  "hm_delete m c eq =
     (let m = hm_help_rehashing m
      in case h_lookup (newer m) c eq of
           Some from \<Rightarrow> (let (n, t) = h_detach (newer m) from in (m\<lparr>newer := t\<rparr>, Some n))
         | None \<Rightarrow> (case h_lookup (older m) c eq of
             Some from \<Rightarrow> (let (n, t) = h_detach (older m) from in (m\<lparr>older := t\<rparr>, Some n))
           | None \<Rightarrow> (m, None)))"

definition k_max_load_factor :: nat where
  "k_max_load_factor = 8"

definition hm_insert :: "'a hmap \<Rightarrow> 'a hnode \<Rightarrow> 'a hmap" where
  "hm_insert m n =
     (let m = (if tab (newer m) = [] then m\<lparr>newer := h_init 4\<rparr> else m);
          m = m\<lparr>newer := h_insert (newer m) n\<rparr>;
          m = (if tab (older m) = [] \<and>
                  (unat (hmask (newer m)) + 1) * k_max_load_factor \<le> hsize (newer m)
               then hm_trigger_rehashing m else m)
      in hm_help_rehashing m)"

definition hm_clear :: "'a hmap \<Rightarrow> 'a hmap" where
  "hm_clear m = hmap_empty"

definition hm_size :: "'a hmap \<Rightarrow> nat" where
  "hm_size m = hsize (newer m) + hsize (older m)"

text \<open>The nodes in the order \<open>h_foreach\<close> and \<open>hm_foreach\<close> visit them.\<close>

definition h_nodes :: "'a htab \<Rightarrow> 'a hnode list" where
  "h_nodes t = (if hmask t = 0 then [] else concat (take (Suc (unat (hmask t))) (tab t)))"

text \<open>A visit that stops as soon as the callback answers false.\<close>

fun foreach_until :: "('a hnode \<Rightarrow> 's \<Rightarrow> bool \<times> 's) \<Rightarrow> 'a hnode list \<Rightarrow> 's \<Rightarrow> bool \<times> 's" where
  "foreach_until f [] s = (True, s)"
| "foreach_until f (n # ns) s = (let (go, s') = f n s in if go then foreach_until f ns s' else (False, s'))"

definition hm_foreach :: "'a hmap \<Rightarrow> ('a hnode \<Rightarrow> 's \<Rightarrow> bool \<times> 's) \<Rightarrow> 's \<Rightarrow> 's" where
  "hm_foreach m f s =
     (let (go, s) = foreach_until f (h_nodes (newer m)) s
      in if go then snd (foreach_until f (h_nodes (older m)) s) else s)"

text \<open>
  \<open>hm_random\<close>: \<open>r1\<close>, \<open>r2\<close>, \<open>r3\<close> are the results of the three calls of \<open>rand_idx\<close> as functions
  of their bound. The probe walks the buckets from \<open>start\<close>, wrapping with the mask.
\<close>

fun random_probe :: "'a htab \<Rightarrow> nat \<Rightarrow> (nat \<Rightarrow> nat) \<Rightarrow> nat \<Rightarrow> nat \<Rightarrow> 'a hnode option" where
  "random_probe t start r3 probe 0 = None"
| "random_probe t start r3 probe (Suc left) =
     (let c = tab t ! unat ((word_of_nat (start + probe) :: u64) AND hmask t)
      in if c \<noteq> [] then Some (c ! r3 (length c))
         else random_probe t start r3 (Suc probe) left)"

definition hm_random ::
  "'a hmap \<Rightarrow> (nat \<Rightarrow> nat) \<Rightarrow> (nat \<Rightarrow> nat) \<Rightarrow> (nat \<Rightarrow> nat) \<Rightarrow> 'a hnode option"
where
  "hm_random m r1 r2 r3 =
     (let total = hsize (newer m) + hsize (older m)
      in if total = 0 then None
         else let is_newer = r1 total < hsize (newer m);
                  t = (if is_newer then newer m else older m);
                  t = (if tab t = [] \<or> hsize t = 0
                       then (if is_newer then older m else newer m) else t)
              in if tab t = [] \<or> hsize t = 0 then None
                 else random_probe t (r2 (unat (hmask t) + 1)) r3 0 (Suc (unat (hmask t))))"

text \<open>\<open>rev_bits\<close>: six exchange steps.\<close>

definition rev_step :: "nat \<Rightarrow> u64 \<Rightarrow> u64 \<Rightarrow> u64" where
  "rev_step k m v = (drop_bit k v AND m) OR push_bit k (v AND m)"

definition rev_bits :: "u64 \<Rightarrow> u64" where
  "rev_bits v =
     (let v = rev_step 1 0x5555555555555555 v;
          v = rev_step 2 0x3333333333333333 v;
          v = rev_step 4 0x0F0F0F0F0F0F0F0F v;
          v = rev_step 8 0x00FF00FF00FF00FF v;
          v = rev_step 16 0x0000FFFF0000FFFF v
      in drop_bit 32 v OR push_bit 32 v)"

text \<open>The cursor after one bucket: increment of the reversed cursor under the larger mask.\<close>

definition scan_next :: "u64 \<Rightarrow> u64 \<Rightarrow> u64" where
  "scan_next mbig cursor = rev_bits (rev_bits (cursor OR NOT mbig) + 1)"

definition scan_bucket :: "'a hmap \<Rightarrow> u64 \<Rightarrow> 'a hnode list" where
  "scan_bucket m cursor =
     tab (newer m) ! h_pos (newer m) cursor @
     (if tab (older m) \<noteq> [] then tab (older m) ! h_pos (older m) cursor else [])"

definition scan_mask :: "'a hmap \<Rightarrow> u64" where
  "scan_mask m =
     (if tab (older m) \<noteq> [] \<and> hmask (newer m) < hmask (older m) then hmask (older m) else hmask (newer m))"

function scan_loop :: "'a hmap \<Rightarrow> u64 \<Rightarrow> nat \<Rightarrow> nat \<Rightarrow> 'a hnode list \<Rightarrow> u64 \<times> 'a hnode list" where
  "scan_loop m cursor limit scanned acc =
     (let acc = acc @ scan_bucket m cursor;
          cursor = scan_next (scan_mask m) cursor;
          scanned = scanned + 1
      in if cursor \<noteq> 0 \<and> scanned < limit then scan_loop m cursor limit scanned acc
         else (cursor, acc))"
  by pat_completeness auto
termination
  by (relation "measure (\<lambda>(m, cursor, limit, scanned, acc). limit - scanned)") auto

text \<open>\<open>hm_scan\<close>: the next cursor and the nodes handed to the callback, in order.\<close>

definition hm_scan :: "'a hmap \<Rightarrow> u64 \<Rightarrow> nat \<Rightarrow> u64 \<times> 'a hnode list" where
  "hm_scan m cursor limit = (if tab (newer m) = [] then (0, []) else scan_loop m cursor limit 0 [])"

declare rehash_loop.simps [simp del]
declare scan_loop.simps [simp del]

section \<open>Invariant and contents\<close>

text \<open>An allocated table: a power of two of buckets, every node in the bucket of its code.\<close>

definition tab_wf :: "'a htab \<Rightarrow> bool" where
  "tab_wf t \<longleftrightarrow>
     (\<exists>k. 2 \<le> k \<and> k < 64 \<and> length (tab t) = 2 ^ k \<and> hmask t = 2 ^ k - 1) \<and>
     hsize t = length (concat (tab t)) \<and>
     (\<forall>i < length (tab t). \<forall>n \<in> set (tab t ! i). h_pos t (hcode n) = i)"

text \<open>Buckets of the older table below \<open>migrate_pos\<close> are empty.\<close>

definition hm_wf :: "'a hmap \<Rightarrow> bool" where
  "hm_wf m \<longleftrightarrow>
     (newer m = htab_null \<and> older m = htab_null \<or> tab_wf (newer m)) \<and>
     (older m = htab_null \<or>
      tab_wf (older m) \<and> migrate_pos m \<le> length (tab (older m)) \<and>
      (\<forall>i < migrate_pos m. tab (older m) ! i = []))"

definition tab_mset :: "'a htab \<Rightarrow> 'a hnode multiset" where
  "tab_mset t = mset (concat (tab t))"

definition hm_mset :: "'a hmap \<Rightarrow> 'a hnode multiset" where
  "hm_mset m = tab_mset (newer m) + tab_mset (older m)"

text \<open>
  The bound on the number of nodes under which the doubling of the table stays inside \<open>size_t\<close>: a node
  takes at least 16 bytes, so a 64-bit address space holds fewer than \<open>2 ^ 60\<close> of them.
\<close>

definition hm_room :: "'a hmap \<Rightarrow> bool" where
  "hm_room m \<longleftrightarrow> size (hm_mset m) < 2 ^ 60"

text \<open>The nodes in the order of \<open>hm_foreach\<close>.\<close>

definition hm_nodes :: "'a hmap \<Rightarrow> 'a hnode list" where
  "hm_nodes m = h_nodes (newer m) @ h_nodes (older m)"

text \<open>A link address inside the table.\<close>

definition h_valid :: "'a htab \<Rightarrow> nat \<times> nat \<Rightarrow> bool" where
  "h_valid t from \<longleftrightarrow> fst from < length (tab t) \<and> snd from < length (tab t ! fst from)"

section \<open>Lemmas\<close>

lemma mset_concat_update:
  "i < length xs \<Longrightarrow> mset (concat (xs[i := y])) + mset (xs ! i) = mset (concat xs) + mset y"
proof (induction xs arbitrary: i)
  case (Cons x xs)
  then show ?case by (cases i) (auto simp: ac_simps)
qed simp

lemma h_pos_mod: "hmask t = 2 ^ k - 1 \<Longrightarrow> k < 64 \<Longrightarrow> h_pos t c = unat c mod 2 ^ k"
proof -
  assume a: "hmask t = 2 ^ k - 1" "k < 64"
  have "c AND hmask t = take_bit k c"
    using a by (simp add: take_bit_eq_mask mask_eq_exp_minus_1)
  then have "h_pos t c = take_bit k (unat c)" unfolding h_pos_def by (simp only: unsigned_take_bit_eq)
  then show ?thesis by (simp only: take_bit_eq_mod)
qed

lemma tab_wf_pos: "tab_wf t \<Longrightarrow> h_pos t c < length (tab t)"
  unfolding tab_wf_def using h_pos_mod by fastforce

lemma tab_wf_ne: "tab_wf t \<Longrightarrow> tab t \<noteq> []"
  unfolding tab_wf_def by auto

lemma tab_wf_not_null: "tab_wf t \<Longrightarrow> t \<noteq> htab_null"
  using tab_wf_ne[of t] by (auto simp: htab_null_def)

lemma tab_mset_null [simp]: "tab_mset htab_null = {#}"
  by (simp add: tab_mset_def htab_null_def)

lemma h_init_wf: "2 \<le> k \<Longrightarrow> k < 64 \<Longrightarrow> tab_wf (h_init (2 ^ k)) \<and> tab_mset (h_init (2 ^ k)) = {#}"
  by (auto simp: tab_wf_def h_init_def tab_mset_def intro!: exI[of _ k])

text \<open>Replacing one bucket.\<close>

lemma tab_wf_bucket:
  assumes "tab_wf t" "p < length (tab t)" "\<forall>n \<in> set c. h_pos t (hcode n) = p"
    and "t' = t\<lparr>tab := (tab t)[p := c], hsize := s\<rparr>"
    and "s + length (tab t ! p) = hsize t + length c"
  shows "tab_wf t' \<and> tab_mset t' + mset (tab t ! p) = tab_mset t + mset c"
proof -
  have ms: "mset (concat ((tab t)[p := c])) + mset (tab t ! p) = mset (concat (tab t)) + mset c"
    using assms(2) by (rule mset_concat_update)
  then have "size (mset (concat ((tab t)[p := c])) + mset (tab t ! p)) = size (mset (concat (tab t)) + mset c)"
    by simp
  then have len: "length (concat ((tab t)[p := c])) + length (tab t ! p) = length (concat (tab t)) + length c"
    by (simp only: size_union size_mset)
  have hp: "h_pos t' = h_pos t" using assms(4) by (auto simp: h_pos_def)
  have bk: "\<forall>i < length (tab t'). \<forall>n \<in> set (tab t' ! i). h_pos t' (hcode n) = i"
    using assms(1-4) unfolding hp by (auto simp: tab_wf_def nth_list_update)
  have "hsize t = length (concat (tab t))" using assms(1) by (simp add: tab_wf_def)
  then have "hsize t' = length (concat (tab t'))" using len assms(4,5) by simp
  moreover have "\<exists>k. 2 \<le> k \<and> k < 64 \<and> length (tab t') = 2 ^ k \<and> hmask t' = 2 ^ k - 1"
    using assms(1,4) by (simp add: tab_wf_def)
  ultimately show ?thesis
    using bk ms assms(4) by (simp add: tab_wf_def tab_mset_def)
qed

lemma h_insert_ok:
  assumes "tab_wf t"
  shows "tab_wf (h_insert t n) \<and> tab_mset (h_insert t n) = add_mset n (tab_mset t)"
proof -
  let ?p = "h_pos t (hcode n)"
  have p: "?p < length (tab t)" using assms by (rule tab_wf_pos)
  have c: "\<forall>x \<in> set (n # tab t ! ?p). h_pos t (hcode x) = ?p"
    using assms p by (simp add: tab_wf_def)
  have "h_insert t n = t\<lparr>tab := (tab t)[?p := n # tab t ! ?p], hsize := hsize t + 1\<rparr>"
    by (simp add: h_insert_def)
  from tab_wf_bucket[OF assms p c this] show ?thesis by simp
qed

lemma h_insert_frame [simp]:
  "length (tab (h_insert t n)) = length (tab t)" "hmask (h_insert t n) = hmask t"
  by (simp_all add: h_insert_def)

lemma chain_find_Some:
  "chain_find c eq ns = Some i \<Longrightarrow> i < length ns \<and> hcode (ns ! i) = c \<and> eq (pay (ns ! i))"
  by (induction ns arbitrary: i) (auto split: if_splits)

lemma chain_find_None:
  "chain_find c eq ns = None \<longleftrightarrow> (\<forall>n \<in> set ns. \<not> (hcode n = c \<and> eq (pay n)))"
  by (induction ns) auto

lemma h_lookup_Some:
  assumes "tab_wf t" "h_lookup t c eq = Some from"
  shows "h_valid t from \<and> hcode (h_node t from) = c \<and> eq (pay (h_node t from))"
  using assms tab_wf_pos[of t c]
  by (auto simp: h_lookup_def h_node_def h_valid_def split: if_splits dest: chain_find_Some)

lemma h_lookup_None:
  assumes "tab_wf t \<or> t = htab_null" "h_lookup t c eq = None" "n \<in># tab_mset t"
  shows "\<not> (hcode n = c \<and> eq (pay n))"
proof (cases "t = htab_null")
  case False
  then have wf: "tab_wf t" using assms(1) by simp
  from assms(3) obtain i where i: "i < length (tab t)" "n \<in> set (tab t ! i)"
    by (auto simp: tab_mset_def) (metis in_set_conv_nth)
  then have "h_pos t (hcode n) = i" using wf by (simp add: tab_wf_def)
  then show ?thesis
    using assms(2) i tab_wf_ne[OF wf] by (auto simp: h_lookup_def chain_find_None)
qed (use assms in simp)

lemma h_node_mem: "h_valid t from \<Longrightarrow> h_node t from \<in># tab_mset t"
  by (auto simp: h_valid_def h_node_def tab_mset_def intro!: bexI[OF _ nth_mem])

lemma h_detach_ok:
  assumes "tab_wf t" "h_valid t from" "h_detach t from = (n, t')"
  shows "tab_wf t' \<and> n = h_node t from \<and> tab_mset t = add_mset n (tab_mset t') \<and>
         length (tab t') = length (tab t) \<and> hmask t' = hmask t \<and>
         (\<forall>i. i \<noteq> fst from \<longrightarrow> tab t' ! i = tab t ! i) \<and>
         (\<forall>i < length (tab t). tab t ! i = [] \<longrightarrow> tab t' ! i = [])"
proof -
  let ?p = "fst from" and ?i = "snd from"
  let ?c = "tab t ! ?p"
  let ?c' = "take ?i ?c @ drop (Suc ?i) ?c"
  have v: "?p < length (tab t)" "?i < length ?c" using assms(2) by (auto simp: h_valid_def)
  have split: "?c = take ?i ?c @ ?c ! ?i # drop (Suc ?i) ?c" using v(2) by (rule id_take_nth_drop)
  have t': "t' = t\<lparr>tab := (tab t)[?p := ?c'], hsize := hsize t - 1\<rparr>" and n: "n = ?c ! ?i"
    using assms(3) by (auto simp: h_detach_def Let_def)
  have mc: "mset ?c = add_mset n (mset ?c')" unfolding n by (subst split) simp
  have sub: "\<forall>x \<in> set ?c'. h_pos t (hcode x) = ?p"
    using assms(1) v(1) by (auto simp: tab_wf_def dest: in_set_takeD in_set_dropD)
  have pos: "0 < hsize t"
  proof -
    have "?c ! ?i \<in> set (concat (tab t))" using nth_mem[OF v(2)] nth_mem[OF v(1)] by auto
    then show ?thesis using assms(1) by (auto simp: tab_wf_def simp del: set_concat dest: length_pos_if_in_set)
  qed
  have "hsize t - 1 + length ?c = hsize t + length ?c'" using pos v by simp
  from tab_wf_bucket[OF assms(1) v(1) sub t' this]
  have "tab_wf t'" and "tab_mset t' + mset ?c = tab_mset t + mset ?c'" by auto
  then show ?thesis
    using n v t' unfolding mc by (auto simp: h_node_def nth_list_update)
qed

lemma h_detach_mem:
  "tab_wf t \<Longrightarrow> h_valid t from \<Longrightarrow> h_detach t from = (n, t') \<Longrightarrow> hsize t = Suc (hsize t')"
  using h_detach_ok[of t "from" n t']
  by (auto simp: tab_wf_def tab_mset_def simp del: size_mset simp flip: size_mset)

lemma hm_wf_newer: "hm_wf m \<Longrightarrow> older m \<noteq> htab_null \<Longrightarrow> tab_wf (newer m)"
  by (auto simp: hm_wf_def)

lemma hm_wf_cases: "hm_wf m \<Longrightarrow> tab_wf (newer m) \<or> newer m = htab_null"
  "hm_wf m \<Longrightarrow> tab_wf (older m) \<or> older m = htab_null"
  by (auto simp: hm_wf_def)

lemma tab_wf_mask: "tab_wf t \<Longrightarrow> length (tab t) = Suc (unat (hmask t))"
proof -
  assume "tab_wf t"
  then obtain k where k: "k < 64" "length (tab t) = 2 ^ k" "hmask t = 2 ^ k - 1"
    by (auto simp: tab_wf_def)
  have "hmask t = word_of_nat (2 ^ k - 1)" using k by (simp add: of_nat_diff)
  moreover have "(2::nat) ^ k - 1 < 2 ^ 64" using power_strict_increasing[OF k(1), of "2::nat"] by linarith
  ultimately have "unat (hmask t) = 2 ^ k - 1"
    by (simp only: unsigned_of_nat take_bit_nat_eq_self_iff len_bit0 len_num1) (simp add: take_bit_nat_eq_self)
  then show ?thesis using k by simp
qed

lemma rehash_loop_ok:
  assumes "hm_wf m"
  shows "hm_wf (rehash_loop w m) \<and> hm_mset (rehash_loop w m) = hm_mset m \<and>
         elem_bytes (rehash_loop w m) = elem_bytes m \<and>
         length (tab (newer (rehash_loop w m))) = length (tab (newer m))"
  using assms
proof (induction w m rule: rehash_loop.induct)
  case (1 w m)
  let ?go = "w < k_rehashing_work \<and> 0 < hsize (older m)"
  show ?case
  proof (cases "?go \<and> migrate_pos m \<le> unat (hmask (older m))")
    case False
    then have "rehash_loop w m = m" by (auto simp: rehash_loop.simps[of w m])
    then show ?thesis using 1 by simp
  next
    case True
    then have nn: "older m \<noteq> htab_null" by (auto simp: htab_null_def)
    then have wfo: "tab_wf (older m)" and wfn: "tab_wf (newer m)"
      and mp: "\<forall>i < migrate_pos m. tab (older m) ! i = []"
      using 1(3) by (auto simp: hm_wf_def)
    have lt: "migrate_pos m < length (tab (older m))" using True tab_wf_mask[OF wfo] by simp
    show ?thesis
    proof (cases "tab (older m) ! migrate_pos m = []")
      case e: True
      let ?m = "m\<lparr>migrate_pos := migrate_pos m + 1\<rparr>"
      have "hm_wf ?m" using 1(3) e lt mp nn by (auto simp: hm_wf_def less_Suc_eq)
      then show ?thesis
        using "1.IH"(1) True e by (simp add: rehash_loop.simps[of w m] hm_mset_def)
    next
      case ne: False
      obtain n old where d: "h_detach (older m) (migrate_pos m, 0) = (n, old)" by fastforce
      have v: "h_valid (older m) (migrate_pos m, 0)" using lt ne by (simp add: h_valid_def)
      note dk = h_detach_ok[OF wfo v d]
      let ?m = "m\<lparr>newer := h_insert (newer m) n, older := old\<rparr>"
      have "hm_wf ?m"
        using dk lt mp h_insert_ok[OF wfn, of n] by (auto simp: hm_wf_def)
      moreover have "hm_mset ?m = hm_mset m"
        using dk h_insert_ok[OF wfn, of n] by (simp add: hm_mset_def)
      ultimately show ?thesis
        using "1.IH"(2)[of "(n, old)" n old] True ne d by (simp add: rehash_loop.simps[of w m])
    qed
  qed
qed

lemma tab_wf_hsize0: "tab_wf t \<Longrightarrow> hsize t = 0 \<Longrightarrow> tab_mset t = {#}"
  by (simp add: tab_wf_def tab_mset_def)

lemma hm_help_rehashing_ok:
  assumes "hm_wf m"
  shows "hm_wf (hm_help_rehashing m) \<and> hm_mset (hm_help_rehashing m) = hm_mset m \<and>
         elem_bytes (hm_help_rehashing m) = elem_bytes m \<and>
         length (tab (newer (hm_help_rehashing m))) = length (tab (newer m))"
proof -
  let ?m = "rehash_loop 0 m"
  note ok = rehash_loop_ok[OF assms, of 0]
  have "tab_mset (older ?m) = {#}" if "hsize (older ?m) = 0"
    using that hm_wf_cases(2)[of ?m] ok tab_wf_hsize0[of "older ?m"] by auto
  then show ?thesis
    using ok by (auto simp: hm_help_rehashing_def Let_def hm_wf_def hm_mset_def)
qed

lemma hm_get_Some:
  assumes "hm_wf m" "hm_get m c eq = Some n"
  shows "n \<in># hm_mset m \<and> hcode n = c \<and> eq (pay n)"
proof (cases "h_lookup (newer m) c eq")
  case (Some f)
  then have "tab_wf (newer m)"
    using hm_wf_cases(1)[OF assms(1)] by (auto simp: h_lookup_def htab_null_def)
  from h_lookup_Some[OF this Some] show ?thesis
    using assms(2) Some by (auto simp: hm_get_def hm_mset_def dest: h_node_mem)
next
  case None
  then obtain f where f: "h_lookup (older m) c eq = Some f" "n = h_node (older m) f"
    using assms(2) by (auto simp: hm_get_def)
  then have "tab_wf (older m)"
    using hm_wf_cases(2)[OF assms(1)] by (auto simp: h_lookup_def htab_null_def)
  from h_lookup_Some[OF this f(1)] show ?thesis
    using f by (auto simp: hm_mset_def dest: h_node_mem)
qed

lemma hm_get_None:
  assumes "hm_wf m" "hm_get m c eq = None" "n \<in># hm_mset m"
  shows "\<not> (hcode n = c \<and> eq (pay n))"
  using assms h_lookup_None[of "newer m" c eq n] h_lookup_None[of "older m" c eq n]
    hm_wf_cases[OF assms(1)]
  by (auto simp: hm_get_def hm_mset_def split: option.splits)

text \<open>The effect of each operation on the multiset of stored nodes.\<close>

lemma hm_lookup_ok:
  assumes "hm_wf m" "hm_lookup m c eq = (m', r)"
  shows "hm_wf m' \<and> hm_mset m' = hm_mset m \<and> elem_bytes m' = elem_bytes m \<and> r = hm_get m' c eq \<and>
         length (tab (newer m')) = length (tab (newer m)) \<and>
         (\<forall>n. r = Some n \<longrightarrow> n \<in># hm_mset m \<and> hcode n = c \<and> eq (pay n)) \<and>
         (r = None \<longrightarrow> (\<forall>n \<in># hm_mset m. \<not> (hcode n = c \<and> eq (pay n))))"
  using hm_help_rehashing_ok[OF assms(1)] assms(2) hm_get_Some[of "hm_help_rehashing m" c eq]
    hm_get_None[of "hm_help_rehashing m" c eq]
  by (auto simp: hm_lookup_def Let_def)

lemma hm_delete_ok:
  assumes "hm_wf m" "hm_delete m c eq = (m', r)"
  shows "hm_wf m' \<and> elem_bytes m' = elem_bytes m \<and>
         length (tab (newer m')) = length (tab (newer m)) \<and>
         (case r of
            Some n \<Rightarrow> hcode n = c \<and> eq (pay n) \<and> hm_mset m = add_mset n (hm_mset m')
          | None \<Rightarrow> hm_mset m' = hm_mset m \<and> (\<forall>n \<in># hm_mset m. \<not> (hcode n = c \<and> eq (pay n))))"
proof -
  let ?h = "hm_help_rehashing m"
  note ok = hm_help_rehashing_ok[OF assms(1)]
  show ?thesis
  proof (cases "h_lookup (newer ?h) c eq")
    case (Some f)
    obtain n t where d: "h_detach (newer ?h) f = (n, t)" by fastforce
    have wf: "tab_wf (newer ?h)"
      using Some hm_wf_cases(1)[of ?h] ok by (auto simp: h_lookup_def htab_null_def)
    note l = h_lookup_Some[OF wf Some]
    from h_detach_ok[OF wf conjunct1[OF l] d]
    have "hm_wf (?h\<lparr>newer := t\<rparr>) \<and> hm_mset ?h = add_mset n (hm_mset (?h\<lparr>newer := t\<rparr>)) \<and>
        hcode n = c \<and> eq (pay n) \<and> length (tab t) = length (tab (newer ?h))"
      using ok l by (auto simp: hm_wf_def hm_mset_def)
    moreover have "m' = ?h\<lparr>newer := t\<rparr>" "r = Some n"
      using assms(2) Some d by (auto simp: hm_delete_def Let_def)
    ultimately show ?thesis using ok by simp
  next
    case none: None
    show ?thesis
    proof (cases "h_lookup (older ?h) c eq")
      case (Some f)
      obtain n t where d: "h_detach (older ?h) f = (n, t)" by fastforce
      have wf: "tab_wf (older ?h)"
        using Some hm_wf_cases(2)[of ?h] ok by (auto simp: h_lookup_def htab_null_def)
      note l = h_lookup_Some[OF wf Some]
      have nn: "older ?h \<noteq> htab_null" by (rule tab_wf_not_null[OF wf])
      from h_detach_ok[OF wf conjunct1[OF l] d]
      have "hm_wf (?h\<lparr>older := t\<rparr>) \<and> hm_mset ?h = add_mset n (hm_mset (?h\<lparr>older := t\<rparr>)) \<and>
          hcode n = c \<and> eq (pay n)"
        using ok l nn by (auto simp: hm_wf_def hm_mset_def)
      moreover have "m' = ?h\<lparr>older := t\<rparr>" "r = Some n"
        using assms(2) none Some d by (auto simp: hm_delete_def Let_def)
      ultimately show ?thesis using ok by simp
    next
      case None
      have "hm_get ?h c eq = None" using none None by (simp add: hm_get_def)
      moreover have "m' = ?h" "r = None"
        using assms(2) none None by (auto simp: hm_delete_def Let_def)
      ultimately show ?thesis using ok hm_get_None[of ?h c eq] by auto
    qed
  qed
qed

lemma hm_insert_ok:
  assumes "hm_wf m" "hm_room m"
  shows "hm_wf (hm_insert m n) \<and> hm_mset (hm_insert m n) = add_mset n (hm_mset m) \<and>
         elem_bytes (hm_insert m n) = elem_bytes m"
proof -
  define m1 where "m1 = (if tab (newer m) = [] then m\<lparr>newer := h_init 4\<rparr> else m)"
  define m2 where "m2 = m1\<lparr>newer := h_insert (newer m1) n\<rparr>"
  define m3 where "m3 = (if tab (older m2) = [] \<and>
      (unat (hmask (newer m2)) + 1) * k_max_load_factor \<le> hsize (newer m2)
      then hm_trigger_rehashing m2 else m2)"
  have ins: "hm_insert m n = hm_help_rehashing m3"
    by (simp add: hm_insert_def m1_def m2_def m3_def Let_def)
  have i4: "tab_wf (h_init 4 :: 'a htab)" "tab_mset (h_init 4 :: 'a htab) = {#}"
    using h_init_wf[of 2] by auto
  have w1: "hm_wf m1" "hm_mset m1 = hm_mset m" "elem_bytes m1 = elem_bytes m" "tab_wf (newer m1)"
    using assms i4 tab_wf_ne unfolding m1_def hm_wf_def hm_mset_def hm_room_def
    by (auto simp: htab_null_def tab_mset_def h_init_def)
  have w2: "hm_wf m2" "hm_mset m2 = add_mset n (hm_mset m)" "elem_bytes m2 = elem_bytes m"
    "tab_wf (newer m2)"
    using w1 h_insert_ok[OF w1(4), of n] by (auto simp: m2_def hm_wf_def hm_mset_def)
  have w3: "hm_wf m3 \<and> hm_mset m3 = hm_mset m2 \<and> elem_bytes m3 = elem_bytes m2"
  proof (cases "m3 = m2")
    case False
    then have m3: "m3 = hm_trigger_rehashing m2" and o: "tab (older m2) = []"
      and load: "(unat (hmask (newer m2)) + 1) * k_max_load_factor \<le> hsize (newer m2)"
      by (auto simp: m3_def split: if_splits)
    obtain k where k: "2 \<le> k" "k < 64" "length (tab (newer m2)) = 2 ^ k"
      using w2(4) by (auto simp: tab_wf_def)
    have "hsize (newer m2) = size (tab_mset (newer m2))" using w2(4) by (simp add: tab_wf_def tab_mset_def)
    also have "\<dots> \<le> size (hm_mset m2)" by (simp add: hm_mset_def)
    also have "\<dots> \<le> 2 ^ 60" using assms(2) w2(2) by (simp add: hm_room_def)
    finally have "2 ^ k * 8 \<le> (2 :: nat) ^ 60"
      using load tab_wf_mask[OF w2(4)] k by (simp add: k_max_load_factor_def)
    then have "(2::nat) ^ k < 2 ^ 62" by simp
    then have "k < 62" by (rule power_less_imp_less_exp[rotated]) simp
    then have i: "tab_wf (h_init (2 ^ Suc k) :: 'a htab)" "tab_mset (h_init (2 ^ Suc k) :: 'a htab) = {#}"
      using h_init_wf[of "Suc k"] k by auto
    have "(unat (hmask (newer m2)) + 1) * 2 = 2 ^ Suc k"
      using tab_wf_mask[OF w2(4)] k by simp
    then have eq: "m3 = m2\<lparr>older := newer m2, migrate_pos := 0, newer := h_init (2 ^ Suc k)\<rparr>"
      unfolding m3 hm_trigger_rehashing_def by simp
    have "tab_mset (older m2) = {#}" using o by (simp add: tab_mset_def)
    then show ?thesis using i w2 unfolding eq by (simp add: hm_wf_def hm_mset_def)
  qed (use w2 in simp)
  show ?thesis using hm_help_rehashing_ok[of m3] w2 w3 ins by simp
qed

lemma hm_empty_ok: "hm_wf hmap_empty \<and> hm_mset hmap_empty = {#}"
  by (simp add: hm_wf_def hmap_empty_def hm_mset_def)

lemma hm_size_ok: "hm_wf m \<Longrightarrow> hm_size m = size (hm_mset m)"
  using hm_wf_cases[of m]
  by (auto simp: hm_size_def hm_mset_def tab_wf_def tab_mset_def htab_null_def)

section \<open>Visiting all nodes, drawing one at random, writing a payload\<close>

lemma h_nodes_mset: "tab_wf t \<or> t = htab_null \<Longrightarrow> mset (h_nodes t) = tab_mset t"
proof (elim disjE)
  assume wf: "tab_wf t"
  then obtain k where k: "2 \<le> k" "length (tab t) = 2 ^ k" by (auto simp: tab_wf_def)
  have "(2 :: nat) ^ 2 \<le> 2 ^ k" using k(1) by (rule power_increasing) simp
  then have "hmask t \<noteq> 0" using tab_wf_mask[OF wf] k by auto
  then show ?thesis using tab_wf_mask[OF wf] by (simp add: h_nodes_def tab_mset_def)
qed (simp add: h_nodes_def tab_mset_def htab_null_def)

lemma hm_nodes_mset: "hm_wf m \<Longrightarrow> mset (hm_nodes m) = hm_mset m"
  using hm_wf_cases[of m] by (simp add: hm_nodes_def hm_mset_def h_nodes_mset)

lemma foreach_until_all: "(\<And>n s. fst (f n s)) \<Longrightarrow> foreach_until f ns s = (True, foldl (\<lambda>s n. snd (f n s)) s ns)"
proof (induction ns arbitrary: s)
  case (Cons n ns)
  then show ?case by (simp add: split_beta)
qed simp

lemma hm_foreach_all: "(\<And>n s. fst (f n s)) \<Longrightarrow> hm_foreach m f s = foldl (\<lambda>s n. snd (f n s)) s (hm_nodes m)"
  by (simp add: hm_foreach_def hm_nodes_def foreach_until_all)

lemma random_probe_Some:
  assumes t: "tab_wf t" and r: "\<And>n. 0 < n \<Longrightarrow> r3 n < n"
  shows "\<exists>q < left. tab t ! ((start + p + q) mod length (tab t)) \<noteq> [] \<Longrightarrow>
    \<exists>n. random_probe t start r3 p left = Some n \<and> n \<in># tab_mset t"
proof (induction left arbitrary: p)
  case (Suc left)
  obtain k where k: "k < 64" "length (tab t) = 2 ^ k" "hmask t = 2 ^ k - 1" using t by (auto simp: tab_wf_def)
  have "unat ((word_of_nat (start + p) :: u64) AND hmask t) = unat (word_of_nat (start + p) :: u64) mod 2 ^ k"
    using h_pos_mod[OF k(3) k(1), of "word_of_nat (start + p)"] unfolding h_pos_def .
  also have "\<dots> = (start + p) mod 2 ^ k"
  proof -
    have "(2 :: nat) ^ k dvd 2 ^ 64" using k(1) by (intro le_imp_power_dvd) simp
    then show ?thesis by (simp add: unat_of_nat mod_mod_cancel del: of_nat_add)
  qed
  finally have ix: "unat ((word_of_nat (start + p) :: u64) AND hmask t) = (start + p) mod length (tab t)"
    unfolding k(2) .
  let ?c = "tab t ! ((start + p) mod length (tab t))"
  show ?case
  proof (cases "?c = []")
    case False
    have "(start + p) mod length (tab t) < length (tab t)" using tab_wf_ne[OF t] by simp
    then have "?c ! r3 (length ?c) \<in># tab_mset t"
      using nth_mem[of _ "tab t"] nth_mem[OF r[of "length ?c"]] False unfolding tab_mset_def by fastforce
    then show ?thesis using False ix by (simp add: Let_def del: of_nat_add)
  next
    case True
    obtain q where q: "q < Suc left" "tab t ! ((start + p + q) mod length (tab t)) \<noteq> []" using Suc.prems by blast
    then have "q \<noteq> 0" using True by (cases q) auto
    then have "\<exists>q < left. tab t ! ((start + Suc p + q) mod length (tab t)) \<noteq> []"
      using q by (intro exI[of _ "q - 1"]) auto
    from Suc.IH[OF this] show ?thesis using True ix by (simp add: Let_def del: of_nat_add)
  qed
qed simp

lemma random_probe_all:
  assumes t: "tab_wf t" and r: "\<And>n. 0 < n \<Longrightarrow> r3 n < n" and s: "start < length (tab t)" and h: "hsize t \<noteq> 0"
  shows "\<exists>n. random_probe t start r3 0 (Suc (unat (hmask t))) = Some n \<and> n \<in># tab_mset t"
proof (rule random_probe_Some[OF t r])
  have "concat (tab t) \<noteq> []" using h t by (auto simp: tab_wf_def)
  then obtain i where i: "i < length (tab t)" "tab t ! i \<noteq> []"
    by (auto simp: in_set_conv_nth) 
  let ?L = "length (tab t)"
  show "\<exists>q < Suc (unat (hmask t)). tab t ! ((start + 0 + q) mod ?L) \<noteq> []"
  proof (cases "start \<le> i")
    case True
    then show ?thesis using i tab_wf_mask[OF t] by (intro exI[of _ "i - start"]) auto
  next
    case False
    have "(start + (i + ?L - start)) mod ?L = i" using False s i by (simp add: mod_add_self2)
    then show ?thesis using i False s tab_wf_mask[OF t] by (intro exI[of _ "i + ?L - start"]) auto
  qed
qed 

lemma hm_random_ok:
  assumes "hm_wf m" "hm_mset m \<noteq> {#}" and r: "\<And>n. 0 < n \<Longrightarrow> r1 n < n" "\<And>n. 0 < n \<Longrightarrow> r2 n < n" "\<And>n. 0 < n \<Longrightarrow> r3 n < n"
  shows "\<exists>n. hm_random m r1 r2 r3 = Some n \<and> n \<in># hm_mset m"
proof -
  have tot: "hsize (newer m) + hsize (older m) \<noteq> 0"
    using hm_size_ok[OF assms(1)] assms(2) by (simp add: hm_size_def)
  have go: "\<exists>n. random_probe t (r2 (unat (hmask t) + 1)) r3 0 (Suc (unat (hmask t))) = Some n \<and> n \<in># hm_mset m"
    if "t = newer m \<or> t = older m" "hsize t \<noteq> 0" for t
  proof -
    have wf: "tab_wf t" using that hm_wf_cases[OF assms(1)] by (auto simp: htab_null_def)
    have "r2 (unat (hmask t) + 1) < length (tab t)" using r(2)[of "unat (hmask t) + 1"] tab_wf_mask[OF wf] by simp
    from random_probe_all[OF wf r(3) this that(2)] show ?thesis using that(1) by (auto simp: hm_mset_def)
  qed
  have ne: "tab t \<noteq> []" if "t = newer m \<or> t = older m" "hsize t \<noteq> 0" for t
    using that hm_wf_cases[OF assms(1)] tab_wf_ne[of t] by (auto simp: htab_null_def)
  show ?thesis
  proof (cases "r1 (hsize (newer m) + hsize (older m)) < hsize (newer m)")
    case True
    then have "hsize (newer m) \<noteq> 0" by simp
    then show ?thesis
      using True tot go[of "newer m"] ne[of "newer m"] by (simp add: hm_random_def Let_def del: random_probe.simps)
  next
    case False
    then have "hsize (older m) \<noteq> 0" using r(1)[of "hsize (newer m) + hsize (older m)"] tot by auto
    then show ?thesis
      using False tot go[of "older m"] ne[of "older m"] by (simp add: hm_random_def Let_def del: random_probe.simps)
  qed
qed

lemma h_write_ok:
  assumes "tab_wf t" "h_valid t from" "n = h_node t from" "t' = h_write t from f"
  shows "tab_wf t' \<and> tab_mset t' + {#n#} = tab_mset t + {#n\<lparr>pay := f (pay n)\<rparr>#} \<and>
         length (tab t') = length (tab t) \<and>
         (\<forall>i < length (tab t). tab t ! i = [] \<longrightarrow> tab t' ! i = [])"
proof -
  let ?p = "fst from" and ?i = "snd from"
  let ?c = "tab t ! ?p"
  let ?n = "n\<lparr>pay := f (pay n)\<rparr>"
  let ?c' = "?c[?i := ?n]"
  have v: "?p < length (tab t)" "?i < length ?c" using assms(2) by (auto simp: h_valid_def)
  have t': "t' = t\<lparr>tab := (tab t)[?p := ?c'], hsize := hsize t\<rparr>"
    using assms by (simp add: h_write_def)
  have nc: "n \<in> set ?c" using v assms(3) by (simp add: h_node_def)
  have "\<forall>x \<in> set ?c'. x = ?n \<or> x \<in> set ?c" using set_update_subset_insert[of ?c ?i ?n] by blast
  then have sub: "\<forall>x \<in> set ?c'. h_pos t (hcode x) = ?p"
    using assms(1) v(1) nc by (fastforce simp: tab_wf_def)
  from tab_wf_bucket[OF assms(1) v(1) sub t'] have
    a: "tab_wf t'" "tab_mset t' + mset ?c = tab_mset t + mset ?c'" by auto
  have mc: "mset ?c' + {#n#} = mset ?c + {#?n#}"
    using v nc assms(3) by (simp add: mset_update h_node_def)
  have "tab_mset t' + {#n#} + mset ?c = tab_mset t + {#?n#} + mset ?c"
  proof -
    have "tab_mset t' + {#n#} + mset ?c = (tab_mset t' + mset ?c) + {#n#}" by (simp add: ac_simps)
    also have "\<dots> = tab_mset t + (mset ?c' + {#n#})" unfolding a(2) by (simp only: ac_simps)
    also have "\<dots> = tab_mset t + {#?n#} + mset ?c" unfolding mc by (simp only: ac_simps)
    finally show ?thesis .
  qed
  then have "tab_mset t' + {#n#} = tab_mset t + {#?n#}" by simp
  then show ?thesis using a v t' by (auto simp: nth_list_update)
qed

lemma hm_write_ok:
  assumes "hm_wf m" "hm_get m c eq = Some n"
  shows "hm_wf (hm_write m c eq f) \<and> elem_bytes (hm_write m c eq f) = elem_bytes m \<and>
         length (tab (newer (hm_write m c eq f))) = length (tab (newer m)) \<and>
         hm_mset (hm_write m c eq f) = add_mset (n\<lparr>pay := f (pay n)\<rparr>) (hm_mset m - {#n#})"
proof -
  have n: "n \<in># hm_mset m" using hm_get_Some[OF assms] by simp
  have *: "M' = add_mset y (M - {#n#})" if "M' + {#n#} = M + {#y#}" "n \<in># M" for M M' :: "'a hnode multiset" and y
  proof -
    have "M' = M + {#y#} - {#n#}" using that(1) by (metis add_diff_cancel_right')
    then show ?thesis using that(2) by (simp add: add_mset_diff_bothsides diff_union_swap2)
  qed
  show ?thesis
  proof (cases "h_lookup (newer m) c eq")
    case (Some f')
    have wf: "tab_wf (newer m)" using Some hm_wf_cases(1)[OF assms(1)] by (auto simp: h_lookup_def htab_null_def)
    have nn: "n = h_node (newer m) f'" using assms(2) Some by (simp add: hm_get_def)
    note w = h_write_ok[OF wf conjunct1[OF h_lookup_Some[OF wf Some]] nn refl, of f]
    have "hm_mset (m\<lparr>newer := h_write (newer m) f' f\<rparr>) + {#n#} = hm_mset m + {#n\<lparr>pay := f (pay n)\<rparr>#}"
      using w unfolding hm_mset_def by (simp add: add.commute add.left_commute)
    then show ?thesis
      using w assms(1) *[OF _ n] Some by (simp add: hm_write_def hm_wf_def)
  next
    case None
    then obtain f' where f': "h_lookup (older m) c eq = Some f'" "n = h_node (older m) f'"
      using assms(2) by (auto simp: hm_get_def)
    have wf: "tab_wf (older m)" using f' hm_wf_cases(2)[OF assms(1)] by (auto simp: h_lookup_def htab_null_def)
    note w = h_write_ok[OF wf conjunct1[OF h_lookup_Some[OF wf f'(1)]] f'(2) refl, of f]
    have "hm_mset (m\<lparr>older := h_write (older m) f' f\<rparr>) + {#n#} = hm_mset m + {#n\<lparr>pay := f (pay n)\<rparr>#}"
      using w unfolding hm_mset_def by (simp add: add.commute add.left_commute)
    then show ?thesis
      using w assms(1) *[OF _ n] None f' tab_wf_not_null[OF wf] by (auto simp: hm_write_def hm_wf_def)
  qed
qed

end
