(* ===== verification/Hashtable_Scan.thy ===== *)
theory Hashtable_Scan
  imports Hashtable
begin

text \<open>
  The cursor iteration \<open>hm_scan\<close> of \<open>ds/hashtable.cpp\<close>. Progress of a cursor is measured by its
  rank, the bit-reversed cursor read as a number. The rank of a hash code does not depend on the
  table size, so one call covers an interval of ranks whatever the table looks like at that moment.
\<close>

section \<open>Definitions\<close>

text \<open>Where an exchange step takes bit \<open>i\<close> from.\<close>

definition swap_pos :: "nat \<Rightarrow> nat \<Rightarrow> nat" where
  "swap_pos k i = (if even (i div k) then i + k else i - k)"

definition swap_ok :: "nat \<Rightarrow> bool" where
  "swap_ok i \<longleftrightarrow>
     swap_pos 1 i < 64 \<and> swap_pos 2 i < 64 \<and> swap_pos 4 i < 64 \<and> swap_pos 8 i < 64 \<and> swap_pos 16 i < 64 \<and>
     swap_pos 32 i < 64 \<and>
     swap_pos 1 (swap_pos 2 (swap_pos 4 (swap_pos 8 (swap_pos 16 (swap_pos 32 i))))) = 63 - i"

definition cursor_rank :: "u64 \<Rightarrow> nat" where
  "cursor_rank c = unat (word_reverse c)"

text \<open>
  A client's use of the cursor: one call of \<open>hm_scan\<close> per element, each on the table as it is then,
  until a call answers cursor 0.
\<close>

fun scan_session :: "('a hmap \<times> nat) list \<Rightarrow> u64 \<Rightarrow> u64 \<times> 'a hnode list" where
  "scan_session [] c = (c, [])"
| "scan_session ((m, limit) # calls) c =
     (let (c', out) = hm_scan m c limit
      in if c' = 0 then (0, out)
         else let (c'', rest) = scan_session calls c' in (c'', out @ rest))"

section \<open>Bit reversal\<close>

lemma list_all_upt: "list_all P [0..<n] \<longleftrightarrow> (\<forall>i<n. P i)"
  by (auto simp: list_all_iff)

lemma bit_rev_step:
  assumes "list_all (\<lambda>i. bit m i = even (i div k)) [0..<64]" "0 < k" "i < 64" "even (64 div k)" "k dvd 64"
  shows "bit (rev_step k m v) i = bit v (swap_pos k i)"
proof (cases "even (i div k)")
  case True
  have "k \<le> i \<Longrightarrow> odd ((i - k) div k)" using True assms(2) by (simp add: le_div_geq)
  moreover have "bit m i" using assms True by (simp add: list_all_upt)
  moreover have "k \<le> i \<Longrightarrow> bit m (i - k) = even ((i - k) div k)" using assms by (simp add: list_all_upt)
  ultimately show ?thesis using True assms by (auto simp: rev_step_def bit_simps swap_pos_def add.commute)
next
  case False
  then have "k \<le> i" by (metis div_less even_zero not_le)
  moreover from this have "even ((i - k) div k)" using False assms(2) by (simp add: le_div_geq)
  moreover from this have "bit m (i - k)" using assms \<open>k \<le> i\<close> by (simp add: list_all_upt)
  moreover have "\<not> bit m i" using assms False by (simp add: list_all_upt)
  ultimately show ?thesis using False assms by (auto simp: rev_step_def bit_simps swap_pos_def)
qed

lemma upt_64: "[0..<64] = 0 # 1 # [2..<64]"
  by (simp add: upt_conv_Cons)

lemma rev_masks:
  "list_all (\<lambda>i. bit (0x5555555555555555 :: u64) i = even (i div 1)) [0..<64]"
  "list_all (\<lambda>i. bit (0x3333333333333333 :: u64) i = even (i div 2)) [0..<64]"
  "list_all (\<lambda>i. bit (0x0F0F0F0F0F0F0F0F :: u64) i = even (i div 4)) [0..<64]"
  "list_all (\<lambda>i. bit (0x00FF00FF00FF00FF :: u64) i = even (i div 8)) [0..<64]"
  "list_all (\<lambda>i. bit (0x0000FFFF0000FFFF :: u64) i = even (i div 16)) [0..<64]"
  unfolding upt_64 by (simp_all add: upt_rec_numeral)

lemma swap_all: "list_all swap_ok [0..<64]"
  unfolding upt_64 by (simp add: upt_rec_numeral) (simp add: swap_ok_def swap_pos_def)

lemma rev_bits_eq: "rev_bits v = word_reverse v"
proof (rule bit_word_eqI)
  fix n assume "n < LENGTH(64)"
  then have n: "n < 64" by simp
  have *: "bit (drop_bit 32 w OR push_bit 32 w) n = bit w (swap_pos 32 n)" for w :: u64
  proof -
    have "even (n div 32) \<longleftrightarrow> n < 32"
      using n by (cases "n < 32") (auto simp: le_div_geq)
    then show ?thesis
      using n by (auto simp: bit_simps add.commute swap_pos_def dest: bit_imp_le_length)
  qed
  have lt: "swap_pos 2 i < 64" "swap_pos 4 i < 64" "swap_pos 8 i < 64" "swap_pos 16 i < 64"
    "swap_pos 32 i < 64" if "i < 64" for i
    using swap_all that unfolding list_all_upt swap_ok_def by auto
  have eq: "swap_pos 1 (swap_pos 2 (swap_pos 4 (swap_pos 8 (swap_pos 16 (swap_pos 32 n))))) = 63 - n"
    using swap_all n unfolding list_all_upt swap_ok_def by blast
  show "bit (rev_bits v) n = bit (word_reverse v) n"
    using n eq unfolding rev_bits_def Let_def *
    by (simp add: lt bit_rev_step[OF rev_masks(1)] bit_rev_step[OF rev_masks(2)] bit_rev_step[OF rev_masks(3)]
       bit_rev_step[OF rev_masks(4)] bit_rev_step[OF rev_masks(5)] bit_word_reverse_iff del: One_nat_def)
qed

lemma word_reverse_twice: "word_reverse (word_reverse (w :: u64)) = w"
proof (rule bit_word_eqI)
  fix n assume "n < LENGTH(64)"
  then show "bit (word_reverse (word_reverse w)) n = bit w n"
    by (simp add: bit_word_reverse_iff Suc_diff_Suc)
qed

lemma word_or_mask_plus: "(w OR mask d) + 1 = push_bit d (drop_bit d w) + 2 ^ d" for w :: u64
proof -
  have "w OR mask d = (w AND NOT (mask d)) + mask d"
    by (subst disjunctive_add) (auto simp: bit_simps intro: bit_word_eqI)
  moreover have "w AND NOT (mask d) = push_bit d (drop_bit d w)"
    by (rule bit_word_eqI) (auto simp: bit_simps)
  ultimately show ?thesis by (simp add: mask_eq_exp_minus_1)
qed

lemma unat_push_drop: "unat (push_bit d (drop_bit d w)) = unat w div 2 ^ d * 2 ^ d" for w :: u64
proof -
  have "unat w div 2 ^ d * 2 ^ d < 2 ^ 64"
    by (rule le_less_trans[OF div_times_less_eq_dividend])
      (rule order_less_le_trans[OF unsigned_less], simp)
  then show ?thesis
    unfolding unsigned_push_bit_eq unat_drop_bit_eq
    by (simp add: push_bit_eq_mult drop_bit_eq_div take_bit_nat_eq_self)
qed

lemma unat_exp: "d < 64 \<Longrightarrow> unat (2 ^ d :: u64) = 2 ^ d"
  using unsigned_push_bit_eq[of d "1 :: u64", where 'a = nat] by (simp add: push_bit_eq_mult take_bit_nat_eq_self)

lemma rank_scan_next:
  assumes "0 < k" "k \<le> 63"
  shows "cursor_rank (scan_next (2 ^ k - 1) c) = (cursor_rank c div 2 ^ (64 - k) * 2 ^ (64 - k) + 2 ^ (64 - k)) mod 2 ^ 64"
proof -
  have m: "(2 ^ k - 1 :: u64) = mask k" by (simp add: mask_eq_exp_minus_1)
  have "word_reverse (c OR NOT (mask k)) = word_reverse c OR mask (64 - k)"
    using assms by (intro bit_word_eqI) (auto simp: bit_simps bit_word_reverse_iff)
  then show ?thesis
    unfolding cursor_rank_def scan_next_def m rev_bits_eq word_reverse_twice
    using assms unat_exp[of "64 - k"]
    by (simp add: word_or_mask_plus unat_word_ariths(1) unat_push_drop)
qed

lemma rank_bucket:
  assumes "k \<le> 63"
  shows "(h AND (2 ^ k - 1) = c AND (2 ^ k - 1)) \<longleftrightarrow> cursor_rank h div 2 ^ (64 - k) = cursor_rank c div 2 ^ (64 - k)"
proof -
  have m: "(2 ^ k - 1 :: u64) = mask k" by (simp add: mask_eq_exp_minus_1)
  have "cursor_rank h div 2 ^ (64 - k) = cursor_rank c div 2 ^ (64 - k) \<longleftrightarrow>
     drop_bit (64 - k) (word_reverse h) = drop_bit (64 - k) (word_reverse c)"
    unfolding cursor_rank_def word_unat_eq_iff[of "drop_bit _ _"] unat_drop_bit_eq
    by (simp only: drop_bit_eq_div)
  also have "\<dots> \<longleftrightarrow> h AND mask k = c AND mask k"
  proof
    assume *: "drop_bit (64 - k) (word_reverse h) = drop_bit (64 - k) (word_reverse c)"
    have "bit h n = bit c n" if "n < k" for n
      using arg_cong[OF *, of "\<lambda>w. bit w (k - 1 - n)"] that assms
      by (auto simp add: bit_simps bit_word_reverse_iff)
    then show "h AND mask k = c AND mask k" by (intro bit_word_eqI) (auto simp: bit_simps)
  next
    assume *: "h AND mask k = c AND mask k"
    have "bit h n = bit c n" if "n < k" for n
      using arg_cong[OF *, of "\<lambda>w. bit w n"] that assms by (simp add: bit_simps)
    then show "drop_bit (64 - k) (word_reverse h) = drop_bit (64 - k) (word_reverse c)"
      using assms by (intro bit_word_eqI) (auto simp: bit_simps bit_word_reverse_iff)
  qed
  finally show ?thesis unfolding m by simp
qed

lemma cursor_rank_lt: "cursor_rank c < 2 ^ 64"
  unfolding cursor_rank_def by (rule order_less_le_trans[OF unsigned_less]) simp

lemma cursor_rank_0_iff [simp]: "cursor_rank c = 0 \<longleftrightarrow> c = 0"
proof -
  have "word_reverse (0 :: u64) = 0" by (rule bit_word_eqI) (simp add: bit_word_reverse_iff)
  then show ?thesis unfolding cursor_rank_def by (metis unat_eq_zero word_reverse_twice)
qed

text \<open>What one bucket covers, and progress of the cursor.\<close>

lemma scan_next_step:
  assumes k0: "0 < k" and k: "k \<le> 63" and c': "c' = scan_next (2 ^ k - 1) c"
  shows "cursor_rank c \<le> cursor_rank h \<Longrightarrow> c' = 0 \<or> cursor_rank h < cursor_rank c' \<Longrightarrow> h AND (2 ^ k - 1) = c AND (2 ^ k - 1)"
    and "c' \<noteq> 0 \<Longrightarrow> cursor_rank c' = (cursor_rank c div 2 ^ (64 - k) + 1) * 2 ^ (64 - k)"
    and "c' \<noteq> 0 \<Longrightarrow> cursor_rank c < cursor_rank c'"
proof -
  let ?d = "2 ^ (64 - k) :: nat"
  let ?q = "cursor_rank c div ?d"
  have kd: "2 ^ k * ?d = 2 ^ 64" using k by (simp flip: power_add)
  have d0: "0 < ?d" by simp
  have "?q < 2 ^ k" using cursor_rank_lt[of c] unfolding kd[symmetric] by (rule less_mult_imp_div_less)
  then have "(?q + 1) * ?d \<le> 2 ^ k * ?d" by (intro mult_le_mono1) simp
  then have le: "(?q + 1) * ?d \<le> 2 ^ 64" unfolding kd .
  have r: "cursor_rank c' = (?q + 1) * ?d mod 2 ^ 64" unfolding c' rank_scan_next[OF k0 k] by (simp add: add.commute)
  have cs: "(?q + 1) * ?d = 2 ^ 64 \<and> c' = 0 \<or> cursor_rank c' = (?q + 1) * ?d \<and> c' \<noteq> 0"
  proof (cases "(?q + 1) * ?d = 2 ^ 64")
    case True
    then have "cursor_rank c' = 0" using r by simp
    then show ?thesis using True by simp
  next
    case False
    then have "(?q + 1) * ?d < 2 ^ 64" using le by linarith
    then have "cursor_rank c' = (?q + 1) * ?d" using r by simp
    moreover from this have "c' \<noteq> 0" using cursor_rank_0_iff[of c'] d0 by (simp del: cursor_rank_0_iff)
    ultimately show ?thesis by blast
  qed
  then show r': "cursor_rank c' = (?q + 1) * ?d" if "c' \<noteq> 0" using that by blast
  have lt: "cursor_rank c < (?q + 1) * ?d"
    using dividend_less_times_div[OF d0, of "cursor_rank c"] by (simp add: algebra_simps)
  show "cursor_rank c < cursor_rank c'" if "c' \<noteq> 0" using lt r'[OF that] by simp
  show "h AND (2 ^ k - 1) = c AND (2 ^ k - 1)" if "cursor_rank c \<le> cursor_rank h" "c' = 0 \<or> cursor_rank h < cursor_rank c'"
  proof -
    have "cursor_rank h < (?q + 1) * ?d"
      using cs that(2) cursor_rank_lt[of h] by (elim disjE conjE) (simp_all only:)
    then have "cursor_rank h div ?d < ?q + 1" by (rule less_mult_imp_div_less)
    moreover have "?q \<le> cursor_rank h div ?d" using that(1) by (rule div_le_mono)
    ultimately show ?thesis by (simp add: rank_bucket[OF k])
  qed
qed

text \<open>The bucket visited holds every node whose code agrees with the cursor under the larger mask.\<close>

lemma tab_bucket_mem:
  assumes "tab_wf t" "n \<in># tab_mset t" "h_pos t (hcode n) = h_pos t c"
  shows "n \<in> set (tab t ! h_pos t c)"
proof -
  from assms(2) obtain i where i: "i < length (tab t)" "n \<in> set (tab t ! i)"
    by (auto simp: tab_mset_def) (metis in_set_conv_nth)
  then have "h_pos t (hcode n) = i" using assms(1) by (simp add: tab_wf_def)
  then show ?thesis using i assms(3) by simp
qed

lemma h_pos_submask:
  assumes "hmask t = 2 ^ j - 1" "j \<le> k" "a AND (2 ^ k - 1) = c AND (2 ^ k - 1)"
  shows "h_pos t a = h_pos t c"
proof -
  have k: "take_bit k a = take_bit k c" using assms(3) unfolding mask_eq_exp_minus_1[symmetric] take_bit_eq_mask .
  have j: "take_bit j w = take_bit j (take_bit k w)" for w :: u64
    using assms(2) by (simp add: min_absorb1)
  have "take_bit j a = take_bit j c" unfolding j[of a] j[of c] k ..
  then show ?thesis unfolding h_pos_def assms(1) mask_eq_exp_minus_1[symmetric] take_bit_eq_mask by (rule arg_cong)
qed

lemma scan_mask_ok:
  assumes "hm_wf m" "tab (newer m) \<noteq> []"
  obtains k where "2 \<le> k" "k < 64" "scan_mask m = 2 ^ k - 1"
    "2 ^ k = max (length (tab (newer m))) (length (tab (older m)))"
    "\<And>a c n. n \<in># hm_mset m \<Longrightarrow> hcode n AND (2 ^ k - 1) = c AND (2 ^ k - 1) \<Longrightarrow> n \<in> set (scan_bucket m c)"
proof -
  have wn: "tab_wf (newer m)" using hm_wf_cases(1)[OF assms(1)] assms(2) by (auto simp: htab_null_def)
  then obtain kn where kn: "2 \<le> kn" "kn < 64" "hmask (newer m) = 2 ^ kn - 1" "length (tab (newer m)) = 2 ^ kn"
    by (auto simp: tab_wf_def)
  show ?thesis
  proof (cases "tab (older m) = []")
    case True
    then have o: "older m = htab_null" using hm_wf_cases(2)[OF assms(1)] tab_wf_ne by auto
    show ?thesis
    proof (rule that[of kn])
      fix c n assume "n \<in># hm_mset m" "hcode n AND (2 ^ kn - 1) = c AND (2 ^ kn - 1)"
      then show "n \<in> set (scan_bucket m c)"
        using tab_bucket_mem[OF wn, of n c] h_pos_submask[OF kn(3) order_refl, of "hcode n" c] o
        by (simp add: scan_bucket_def hm_mset_def)
    qed (use kn True in \<open>auto simp: scan_mask_def\<close>)
  next
    case False
    then have wo: "tab_wf (older m)" using hm_wf_cases(2)[OF assms(1)] by (auto simp: htab_null_def)
    then obtain ko where ko: "2 \<le> ko" "ko < 64" "hmask (older m) = 2 ^ ko - 1" "length (tab (older m)) = 2 ^ ko"
      by (auto simp: tab_wf_def)
    have lt: "hmask (newer m) < hmask (older m) \<longleftrightarrow> length (tab (newer m)) < length (tab (older m))"
      using tab_wf_mask[OF wn] tab_wf_mask[OF wo] by (simp add: word_less_nat_alt)
    have lk: "length (tab (newer m)) < length (tab (older m)) \<longleftrightarrow> kn < ko" using kn ko by simp
    show ?thesis
    proof (rule that[of "max kn ko"])
      fix c n assume n: "n \<in># hm_mset m" "hcode n AND (2 ^ max kn ko - 1) = c AND (2 ^ max kn ko - 1)"
      show "n \<in> set (scan_bucket m c)"
      proof -
        have "n \<in># tab_mset (newer m) \<or> n \<in># tab_mset (older m)" using n(1) by (simp add: hm_mset_def)
        moreover have "h_pos (newer m) (hcode n) = h_pos (newer m) c"
          by (rule h_pos_submask[OF kn(3) _ n(2)]) simp
        moreover have "h_pos (older m) (hcode n) = h_pos (older m) c"
          by (rule h_pos_submask[OF ko(3) _ n(2)]) simp
        ultimately show ?thesis
          using tab_bucket_mem[OF wn, of n c] tab_bucket_mem[OF wo, of n c] False
          unfolding scan_bucket_def by auto
      qed
    qed (use kn(1,2) ko(1,2) in simp, use kn(1,2) ko(1,2) in simp,
        use False lt lk kn(3) ko(3) in \<open>simp add: scan_mask_def max_def\<close>,
        use lk kn(4) ko(4) in \<open>simp add: max_def\<close>)
  qed
qed

lemma scan_bucket_sound:
  assumes "hm_wf m" "tab (newer m) \<noteq> []"
  shows "set (scan_bucket m c) \<subseteq> set_mset (hm_mset m)"
proof -
  have "set (tab t ! h_pos t c) \<subseteq> set_mset (tab_mset t)" if "tab_wf t" for t :: "'a htab"
    using nth_mem[OF tab_wf_pos[OF that, of c]] by (auto simp: tab_mset_def)
  then show ?thesis
    using hm_wf_cases[OF assms(1)] assms(2)
    unfolding scan_bucket_def hm_mset_def by (auto simp: htab_null_def)
qed

lemma scan_loop_ok:
  assumes k: "0 < k" "k \<le> 63" and mk: "scan_mask m = 2 ^ k - 1"
    and mem: "\<And>c n. n \<in># hm_mset m \<Longrightarrow> hcode n AND (2 ^ k - 1) = c AND (2 ^ k - 1) \<Longrightarrow> n \<in> set (scan_bucket m c)"
  shows "scan_loop m c limit s acc = (c', out) \<Longrightarrow>
    \<exists>ext. out = acc @ ext \<and>
      (\<forall>n \<in># hm_mset m. cursor_rank c \<le> cursor_rank (hcode n) \<and>
         (c' = 0 \<or> cursor_rank (hcode n) < cursor_rank c') \<longrightarrow> n \<in> set ext) \<and>
      (c' \<noteq> 0 \<longrightarrow> cursor_rank c < cursor_rank c' \<and> 2 ^ (64 - k) dvd cursor_rank c')"
proof (induction "limit - s" arbitrary: c s acc rule: less_induct)
  case less
  define d where "d = scan_next (2 ^ k - 1) c"
  have step: "cursor_rank c \<le> cursor_rank h \<Longrightarrow> d = 0 \<or> cursor_rank h < cursor_rank d \<Longrightarrow>
      h AND (2 ^ k - 1) = c AND (2 ^ k - 1)"
    "d \<noteq> 0 \<Longrightarrow> cursor_rank c < cursor_rank d" "d \<noteq> 0 \<Longrightarrow> 2 ^ (64 - k) dvd cursor_rank d" for h
    using scan_next_step[OF k d_def] by auto
  have here: "n \<in> set (scan_bucket m c)"
    if "n \<in># hm_mset m" "cursor_rank c \<le> cursor_rank (hcode n)"
      "d = 0 \<or> cursor_rank (hcode n) < cursor_rank d" for n
    using that mem[OF that(1) step(1)] by blast
  show ?case
  proof (cases "d \<noteq> 0 \<and> s + 1 < limit")
    case True
    then have run: "scan_loop m d limit (s + 1) (acc @ scan_bucket m c) = (c', out)"
      using less.prems unfolding scan_loop.simps[of m c] by (simp add: mk d_def Let_def)
    have lt: "limit - (s + 1) < limit - s" using True by auto
    obtain ext where ext: "out = (acc @ scan_bucket m c) @ ext"
      "\<And>n. n \<in># hm_mset m \<Longrightarrow> cursor_rank d \<le> cursor_rank (hcode n) \<Longrightarrow>
         c' = 0 \<or> cursor_rank (hcode n) < cursor_rank c' \<Longrightarrow> n \<in> set ext"
      "c' \<noteq> 0 \<Longrightarrow> cursor_rank d < cursor_rank c' \<and> 2 ^ (64 - k) dvd cursor_rank c'"
      using less.hyps[OF lt run] by auto
    show ?thesis
    proof (intro exI[of _ "scan_bucket m c @ ext"] conjI ballI impI)
      fix n assume n: "n \<in># hm_mset m"
        and r: "cursor_rank c \<le> cursor_rank (hcode n) \<and> (c' = 0 \<or> cursor_rank (hcode n) < cursor_rank c')"
      show "n \<in> set (scan_bucket m c @ ext)"
        using here[OF n] ext(2)[OF n] r by (cases "cursor_rank (hcode n) < cursor_rank d") auto
    next
      assume "c' \<noteq> 0"
      then show "cursor_rank c < cursor_rank c'" using ext(3) step(2) True by linarith
    qed (use ext in auto)
  next
    case False
    then have "c' = d" "out = acc @ scan_bucket m c"
      using less.prems unfolding scan_loop.simps[of m c] by (auto simp: mk d_def Let_def split: if_splits)
    then show ?thesis using here step by (intro exI[of _ "scan_bucket m c"]) auto
  qed
qed

lemma scan_loop_sound:
  assumes "hm_wf m" "tab (newer m) \<noteq> []"
  shows "scan_loop m c limit s acc = (c', out) \<Longrightarrow> set out \<subseteq> set acc \<union> set_mset (hm_mset m)"
  using scan_bucket_sound[OF assms]
proof (induction "limit - s" arbitrary: c s acc rule: less_induct)
  case less
  show ?case
  proof (cases "scan_next (scan_mask m) c \<noteq> 0 \<and> s + 1 < limit")
    case True
    then have "scan_loop m (scan_next (scan_mask m) c) limit (s + 1) (acc @ scan_bucket m c) = (c', out)"
      using less.prems unfolding scan_loop.simps[of m c] by (simp add: Let_def)
    from less.hyps[OF _ this] less.prems(2) True show ?thesis by fastforce
  next
    case False
    then have "out = acc @ scan_bucket m c"
      using less.prems unfolding scan_loop.simps[of m c] by (auto simp: Let_def split: if_splits)
    then show ?thesis using less.prems(2) by auto
  qed
qed

text \<open>
  One call of \<open>hm_scan\<close>: it reports only stored nodes, every stored node whose rank lies between
  the old and the new cursor, and moves the cursor forward by at least one bucket.
\<close>

lemma hm_scan_ok:
  assumes "hm_wf m" "hm_scan m c limit = (c', out)"
  shows "set out \<subseteq> set_mset (hm_mset m)"
    and "\<And>n. n \<in># hm_mset m \<Longrightarrow> cursor_rank c \<le> cursor_rank (hcode n) \<Longrightarrow>
           c' = 0 \<or> cursor_rank (hcode n) < cursor_rank c' \<Longrightarrow> n \<in> set out"
    and "c' \<noteq> 0 \<Longrightarrow> cursor_rank c < cursor_rank c'"
    and "c' \<noteq> 0 \<Longrightarrow> max (length (tab (newer m))) (length (tab (older m))) \<le> 2 ^ j \<Longrightarrow> j \<le> 63 \<Longrightarrow>
           2 ^ (64 - j) dvd cursor_rank c'"
proof -
  have *: "set out \<subseteq> set_mset (hm_mset m) \<and>
     (\<forall>n \<in># hm_mset m. cursor_rank c \<le> cursor_rank (hcode n) \<longrightarrow>
        c' = 0 \<or> cursor_rank (hcode n) < cursor_rank c' \<longrightarrow> n \<in> set out) \<and>
     (c' \<noteq> 0 \<longrightarrow> cursor_rank c < cursor_rank c') \<and>
     (c' \<noteq> 0 \<longrightarrow> max (length (tab (newer m))) (length (tab (older m))) \<le> 2 ^ j \<longrightarrow> j \<le> 63 \<longrightarrow>
        2 ^ (64 - j) dvd cursor_rank c')"
  proof (cases "tab (newer m) = []")
    case True
    then have "newer m = htab_null" "older m = htab_null"
      using assms(1) tab_wf_ne unfolding hm_wf_def by auto
    then show ?thesis using assms(2) True by (simp add: hm_scan_def hm_mset_def)
  next
    case False
    then have run: "scan_loop m c limit 0 [] = (c', out)" using assms(2) by (simp add: hm_scan_def)
    obtain k where k: "2 \<le> k" "k < 64" "scan_mask m = 2 ^ k - 1"
      "2 ^ k = max (length (tab (newer m))) (length (tab (older m)))"
      "\<And>c n. n \<in># hm_mset m \<Longrightarrow> hcode n AND (2 ^ k - 1) = c AND (2 ^ k - 1) \<Longrightarrow> n \<in> set (scan_bucket m c)"
      using scan_mask_ok[OF assms(1) False] by metis
    have k': "0 < k" "k \<le> 63" using k by auto
    from scan_loop_ok[OF k' k(3) k(5) run] have
      a: "\<forall>n \<in># hm_mset m. cursor_rank c \<le> cursor_rank (hcode n) \<and>
         (c' = 0 \<or> cursor_rank (hcode n) < cursor_rank c') \<longrightarrow> n \<in> set out" and
      b: "c' \<noteq> 0 \<longrightarrow> cursor_rank c < cursor_rank c' \<and> 2 ^ (64 - k) dvd cursor_rank c'"
      by auto
    have "2 ^ (64 - j) dvd cursor_rank c'" if "c' \<noteq> 0" "2 ^ k \<le> (2 :: nat) ^ j"
    proof -
      have "k \<le> j" using that(2) by simp
      then show ?thesis using b that(1) by (meson diff_le_mono2 dvd_trans le_imp_power_dvd)
    qed
    then show ?thesis using a b scan_loop_sound[OF assms(1) False run] unfolding k(4) by auto
  qed
  show "set out \<subseteq> set_mset (hm_mset m)" using * by blast
  show "n \<in> set out" if "n \<in># hm_mset m" "cursor_rank c \<le> cursor_rank (hcode n)"
    "c' = 0 \<or> cursor_rank (hcode n) < cursor_rank c'" for n using * that by blast
  show "cursor_rank c < cursor_rank c'" if "c' \<noteq> 0" using * that by blast
  show "2 ^ (64 - j) dvd cursor_rank c'" if "c' \<noteq> 0"
    "max (length (tab (newer m))) (length (tab (older m))) \<le> 2 ^ j" "j \<le> 63" using * that by blast
qed

lemma scan_session_covers:
  assumes "calls \<noteq> [] \<or> c \<noteq> 0" "\<forall>(m, l) \<in> set calls. hm_wf m \<and> n \<in># hm_mset m"
    "scan_session calls c = (0, out)" "cursor_rank c \<le> cursor_rank (hcode n)"
  shows "n \<in> set out"
  using assms
proof (induction calls c arbitrary: out rule: scan_session.induct)
  case (2 m limit calls c)
  obtain c' o1 where s: "hm_scan m c limit = (c', o1)" by fastforce
  have wf: "hm_wf m" and n: "n \<in># hm_mset m" using 2(3) by auto
  note ok = hm_scan_ok[OF wf s]
  show ?case
  proof (cases "c' = 0 \<or> cursor_rank (hcode n) < cursor_rank c'")
    case True
    then have "n \<in> set o1" using ok(2)[OF n 2(5)] by blast
    then show ?thesis using 2(4) s by (auto split: if_splits prod.splits)
  next
    case False
    then obtain o2 where "scan_session calls c' = (0, o2)" "out = o1 @ o2"
      using 2(4) s by (auto split: prod.splits)
    then show ?thesis using 2(1)[of "(c', o1)" c' o1 o2] s 2(3) False by auto
  qed
qed auto

lemma scan_session_ends:
  assumes "\<forall>(m, l) \<in> set calls. hm_wf m \<and> max (length (tab (newer m))) (length (tab (older m))) \<le> 2 ^ j"
    "0 < j" "j \<le> 63" "2 ^ j \<le> length calls + cursor_rank c div 2 ^ (64 - j)"
  shows "fst (scan_session calls c) = 0"
  using assms
proof (induction calls c rule: scan_session.induct)
  case (1 c)
  have "(2 :: nat) ^ j * 2 ^ (64 - j) = 2 ^ 64" using 1(3) by (simp flip: power_add)
  then have "cursor_rank c div 2 ^ (64 - j) < 2 ^ j"
    using cursor_rank_lt[of c] by (metis less_mult_imp_div_less)
  then show ?case using 1(4) by simp
next
  case (2 m limit calls c)
  obtain c' o1 where s: "hm_scan m c limit = (c', o1)" by fastforce
  have wf: "hm_wf m" and len: "max (length (tab (newer m))) (length (tab (older m))) \<le> 2 ^ j" using 2(2) by auto
  note ok = hm_scan_ok[OF wf s]
  show ?case
  proof (cases "c' = 0")
    case False
    obtain q where q: "cursor_rank c' = 2 ^ (64 - j) * q" using ok(4)[OF False len 2(4)] by (auto elim: dvdE)
    have "cursor_rank c < q * 2 ^ (64 - j)" using ok(3)[OF False] q by (simp add: mult.commute)
    then have "cursor_rank c div 2 ^ (64 - j) < q" by (rule less_mult_imp_div_less)
    then have "2 ^ j \<le> length calls + cursor_rank c' div 2 ^ (64 - j)" using 2(5) q by simp
    then show ?thesis using 2(1)[of "(c', o1)" c' o1] s 2(2-4) False by (auto split: prod.splits)
  qed (use s in simp)
qed

section \<open>The guarantees of an iteration\<close>

text \<open>
  C1: an element that is in the table during the whole of a scan is returned by it, however the table
  grows, migrates between its two arrays, gains and loses other elements between the calls, and whatever
  limit each call uses.
\<close>

theorem scan_complete:
  assumes "calls \<noteq> []" "\<forall>(m, limit) \<in> set calls. hm_wf m \<and> n \<in># hm_mset m" "scan_session calls 0 = (0, out)"
  shows "n \<in> set out"
proof -
  have z: "cursor_rank 0 = 0" unfolding cursor_rank_0_iff ..
  have "cursor_rank 0 \<le> cursor_rank (hcode n)" unfolding z by (rule le0)
  then show ?thesis using scan_session_covers[of calls 0 n out] assms by simp
qed

theorem scan_complete_witness:
  "\<exists>m :: nat hmap. \<exists>n out. hm_wf m \<and> n \<in># hm_mset m \<and> scan_session [(m, 10)] 0 = (0, out) \<and> n \<in> set out"
proof -
  let ?n = "\<lparr>hcode = 5, pay = 7\<rparr> :: nat hnode"
  let ?m = "hm_insert hmap_empty ?n"
  have e: "hm_wf (hmap_empty :: nat hmap)" "hm_mset (hmap_empty :: nat hmap) = {#}" using hm_empty_ok by auto
  have ok: "hm_wf ?m" "?n \<in># hm_mset ?m" using hm_insert_ok[OF e(1), of ?n] e(2) by (auto simp: hm_room_def)
  have s: "scan_session [(?m, 10)] 0 = (0, [?n])" by code_simp
  show ?thesis using scan_complete[of "[(?m, 10)]" ?n, OF _ _ s] ok s by auto
qed

text \<open>
  C2: a scan ends. If the arrays have at most \<open>2 ^ j\<close> buckets while it runs, at most \<open>2 ^ j\<close> calls
  bring the cursor back to zero.
\<close>

theorem scan_terminates:
  assumes "\<forall>(m, limit) \<in> set calls. hm_wf m \<and> max (length (tab (newer m))) (length (tab (older m))) \<le> 2 ^ j"
    "0 < j" "j \<le> 63" "2 ^ j \<le> length calls"
  shows "fst (scan_session calls 0) = 0"
  using scan_session_ends[of calls j 0] assms by simp

theorem scan_terminates_witness:
  "\<exists>m :: nat hmap. hm_mset m \<noteq> {#} \<and> fst (scan_session (replicate 4 (m, 1)) 0) = 0"
proof -
  let ?n = "\<lparr>hcode = 5, pay = 7\<rparr> :: nat hnode"
  let ?m = "hm_insert hmap_empty ?n"
  have e: "hm_wf (hmap_empty :: nat hmap)" "hm_mset (hmap_empty :: nat hmap) = {#}" using hm_empty_ok by auto
  have ok: "hm_wf ?m" "?n \<in># hm_mset ?m" using hm_insert_ok[OF e(1), of ?n] e(2) by (auto simp: hm_room_def)
  have l: "length (tab (newer ?m)) = 4" "length (tab (older ?m)) = 0" by code_simp+
  have "fst (scan_session (replicate 4 (?m, 1)) 0) = 0"
    using ok l by (intro scan_terminates[of "replicate 4 (?m, 1)" 2]) auto
  then show ?thesis using ok by (intro exI[of _ ?m]) auto
qed

end
