(* ===== verification/Str_Table.thy ===== *)
theory Str_Table
  imports Hashtable
begin

text \<open>
  Tables keyed by a string (\<open>ds/str_node.h\<close>): the lookup key of \<open>sk_init\<close>, the comparison
  \<open>str_node_eq\<close> and the table operations with both filled in. \<open>key\<close> reads the string member
  of a payload. The locale \<open>string_table\<close> is the interface the typed layers and the key space
  use; it is interpreted on the hash table for every \<open>key\<close>.
\<close>

section \<open>Model\<close>

definition str_node_eq :: "('a \<Rightarrow> string) \<Rightarrow> string \<Rightarrow> 'a \<Rightarrow> bool" where
  "str_node_eq key k p \<longleftrightarrow> key p = k"

definition sk_lookup :: "('a \<Rightarrow> string) \<Rightarrow> 'a hmap \<Rightarrow> string \<Rightarrow> 'a hmap \<times> 'a option" where
  "sk_lookup key m k =
     (let (m', r) = hm_lookup m (str_hash k) (str_node_eq key k) in (m', map_option pay r))"

definition sk_insert :: "('a \<Rightarrow> string) \<Rightarrow> 'a hmap \<Rightarrow> 'a \<Rightarrow> 'a hmap" where
  "sk_insert key m p = hm_insert m \<lparr>hcode = str_hash (key p), pay = p\<rparr>"

definition sk_delete :: "('a \<Rightarrow> string) \<Rightarrow> 'a hmap \<Rightarrow> string \<Rightarrow> 'a hmap \<times> 'a option" where
  "sk_delete key m k =
     (let (m', r) = hm_delete m (str_hash k) (str_node_eq key k) in (m', map_option pay r))"

text \<open>Assignment through the pointer a lookup of \<open>k\<close> has returned.\<close>

definition sk_write :: "('a \<Rightarrow> string) \<Rightarrow> 'a hmap \<Rightarrow> string \<Rightarrow> ('a \<Rightarrow> 'a) \<Rightarrow> 'a hmap" where
  "sk_write key m k f = hm_write m (str_hash k) (str_node_eq key k) f"

text \<open>The payloads in the order of \<open>hm_foreach\<close>.\<close>

definition sk_nodes :: "'a hmap \<Rightarrow> 'a list" where
  "sk_nodes m = map pay (hm_nodes m)"

text \<open>\<open>hmap_clear_nodes\<close>: every node is freed and the table is reset.\<close>

definition hmap_clear_nodes :: "'a hmap \<Rightarrow> 'a hmap" where
  "hmap_clear_nodes m = hm_clear m"

section \<open>Invariant and abstraction\<close>

definition sk_payloads :: "'a hmap \<Rightarrow> 'a multiset" where
  "sk_payloads m = image_mset pay (hm_mset m)"

definition sk_wf :: "('a \<Rightarrow> string) \<Rightarrow> 'a hmap \<Rightarrow> bool" where
  "sk_wf key m \<longleftrightarrow>
     hm_wf m \<and> (\<forall>n \<in># hm_mset m. hcode n = str_hash (key (pay n))) \<and>
     distinct (map key (sk_nodes m))"

definition sk_map :: "('a \<Rightarrow> string) \<Rightarrow> 'a hmap \<Rightarrow> string \<Rightarrow> 'a option" where
  "sk_map key m = map_of (map (\<lambda>p. (key p, p)) (sk_nodes m))"

section \<open>The interface\<close>

text \<open>
  \<open>amap\<close> is the finite map the table stands for and \<open>elems\<close> the multiset of its payloads, \<open>room\<close>
  that it can still grow.
\<close>

locale string_table =
  fixes key :: "'a \<Rightarrow> string"
    and wf :: "'t \<Rightarrow> bool"
    and room :: "'t \<Rightarrow> bool"
    and amap :: "'t \<Rightarrow> string \<Rightarrow> 'a option"
    and elems :: "'t \<Rightarrow> 'a multiset"
    and empty :: 't
    and lookup :: "'t \<Rightarrow> string \<Rightarrow> 't \<times> 'a option"
    and insert :: "'t \<Rightarrow> 'a \<Rightarrow> 't"
    and delete :: "'t \<Rightarrow> string \<Rightarrow> 't \<times> 'a option"
    and update :: "'t \<Rightarrow> string \<Rightarrow> ('a \<Rightarrow> 'a) \<Rightarrow> 't"
  assumes empty_law: "wf empty \<and> amap empty = Map.empty \<and> elems empty = {#}"
    and amap_key: "wf t \<Longrightarrow> amap t k = Some p \<longleftrightarrow> p \<in># elems t \<and> key p = k"
    and elems_unique: "wf t \<Longrightarrow> count (elems t) p \<le> 1"
    and lookup_law: "wf t \<Longrightarrow> lookup t k = (t', r) \<Longrightarrow> wf t' \<and> r = amap t k \<and> amap t' = amap t \<and> elems t' = elems t"
    and lookup_room: "wf t \<Longrightarrow> lookup t k = (t', r) \<Longrightarrow> room t' = room t"
    and insert_law: "wf t \<Longrightarrow> room t \<Longrightarrow> amap t (key p) = None \<Longrightarrow>
          wf (insert t p) \<and> amap (insert t p) = (amap t)(key p \<mapsto> p) \<and> elems (insert t p) = add_mset p (elems t)"
    and delete_law: "wf t \<Longrightarrow> delete t k = (t', r) \<Longrightarrow>
          wf t' \<and> r = amap t k \<and> amap t' = (amap t)(k := None) \<and>
          elems t = (case r of None \<Rightarrow> elems t' | Some p \<Rightarrow> add_mset p (elems t'))"
    and update_law: "wf t \<Longrightarrow> amap t k = Some p \<Longrightarrow> key (f p) = k \<Longrightarrow>
          wf (update t k f) \<and> amap (update t k f) = (amap t)(k \<mapsto> f p) \<and>
          elems (update t k f) = add_mset (f p) (elems t - {#p#})"
begin

lemma dom_amap: "wf t \<Longrightarrow> dom (amap t) = key ` set_mset (elems t)"
  using amap_key[of t] by (auto simp: dom_def image_iff)

lemma inj_on_elems: "wf t \<Longrightarrow> inj_on key (set_mset (elems t))"
  by (rule inj_onI) (metis amap_key option.inject)

lemma card_dom: "wf t \<Longrightarrow> card (dom (amap t)) = size (elems t)"
proof -
  assume w: "wf t"
  have "size (elems t) = (\<Sum>p \<in> set_mset (elems t). count (elems t) p)" by (simp add: size_multiset_overloaded_eq)
  also have "\<dots> = (\<Sum>p \<in> set_mset (elems t). 1)"
  proof (rule sum.cong)
    fix p assume "p \<in># elems t"
    then have "0 < count (elems t) p" by simp
    then show "count (elems t) p = 1" using elems_unique[OF w, of p] by linarith
  qed simp
  finally have "size (elems t) = card (set_mset (elems t))" by simp
  then show ?thesis using dom_amap[OF w] card_image[OF inj_on_elems[OF w]] by simp
qed

lemma finite_dom: "wf t \<Longrightarrow> finite (dom (amap t))"
  by (simp add: dom_amap)

text \<open>Accounting: the total weight of the payloads under each operation.\<close>

lemma insert_weight:
  "wf t \<Longrightarrow> room t \<Longrightarrow> amap t (key p) = None \<Longrightarrow>
   (\<Sum>x \<in># elems (insert t p). w x) = (\<Sum>x \<in># elems t. w x) + (w p :: nat)"
  by (simp add: insert_law)

lemma delete_weight:
  "wf t \<Longrightarrow> delete t k = (t', Some p) \<Longrightarrow> (\<Sum>x \<in># elems t. w x) = (\<Sum>x \<in># elems t'. w x) + (w p :: nat)"
  using delete_law[of t k t' "Some p"] by simp

lemma update_weight:
  "wf t \<Longrightarrow> amap t k = Some p \<Longrightarrow> key (f p) = k \<Longrightarrow>
   (\<Sum>x \<in># elems (update t k f). w x) + w p = (\<Sum>x \<in># elems t. w x) + (w (f p) :: nat)"
proof -
  assume a: "wf t" "amap t k = Some p" "key (f p) = k"
  then have "p \<in># elems t" by (simp add: amap_key)
  then obtain R where "elems t = add_mset p R" by (metis mset_add)
  then show ?thesis using update_law[OF a(1,2), of f] a(3) by simp
qed

lemma weight_mem: "wf t \<Longrightarrow> amap t k = Some p \<Longrightarrow> (w p :: nat) \<le> (\<Sum>x \<in># elems t. w x)"
proof -
  assume "wf t" "amap t k = Some p"
  then have "p \<in># elems t" by (simp add: amap_key)
  then obtain R where "elems t = add_mset p R" by (metis mset_add)
  then show ?thesis by simp
qed

end

section \<open>The hash table implements the interface\<close>

lemma sk_nodes_mset: "hm_wf m \<Longrightarrow> mset (sk_nodes m) = sk_payloads m"
  by (simp add: sk_nodes_def sk_payloads_def hm_nodes_mset mset_map)

lemma sk_wf_iff:
  "sk_wf key m \<longleftrightarrow> hm_wf m \<and> (\<forall>n \<in># hm_mset m. hcode n = str_hash (key (pay n))) \<and>
     (\<forall>k. count (image_mset key (sk_payloads m)) k \<le> 1)"
  if "hm_wf m"
proof -
  have "distinct (map key (sk_nodes m)) \<longleftrightarrow> (\<forall>k. count (mset (map key (sk_nodes m))) k \<le> 1)"
    by (metis distinct_count_atmost_1 count_mset count_mset_0_iff le_less less_one not_le order_refl zero_le)
  then show ?thesis using that by (simp add: sk_wf_def sk_nodes_mset)
qed

lemma sk_map_iff: "sk_wf key m \<Longrightarrow> sk_map key m k = Some p \<longleftrightarrow> p \<in># sk_payloads m \<and> key p = k"
proof -
  assume w: "sk_wf key m"
  have "distinct (map fst (map (\<lambda>p. (key p, p)) (sk_nodes m)))"
    using w by (simp add: sk_wf_def comp_def)
  then have "sk_map key m k = Some p \<longleftrightarrow> (k, p) \<in> set (map (\<lambda>p. (key p, p)) (sk_nodes m))"
    unfolding sk_map_def by (rule map_of_eq_Some_iff)
  also have "\<dots> \<longleftrightarrow> p \<in> set (sk_nodes m) \<and> key p = k" by auto
  also have "\<dots> \<longleftrightarrow> p \<in># sk_payloads m \<and> key p = k"
    using w by (simp add: sk_wf_def flip: sk_nodes_mset)
  finally show ?thesis .
qed

lemma sk_map_None: "sk_wf key m \<Longrightarrow> sk_map key m k = None \<longleftrightarrow> (\<forall>p \<in># sk_payloads m. key p \<noteq> k)"
  using sk_map_iff[of key m k] by (metis not_None_eq)

lemma sk_lookup_ok:
  assumes "sk_wf key m" "sk_lookup key m k = (m', r)"
  shows "sk_wf key m' \<and> r = sk_map key m k \<and> sk_payloads m' = sk_payloads m \<and> elem_bytes m' = elem_bytes m \<and>
         hm_room m' = hm_room m"
proof -
  have wf: "hm_wf m" using assms(1) by (simp add: sk_wf_def)
  obtain n where n: "hm_lookup m (str_hash k) (str_node_eq key k) = (m', n)" "r = map_option pay n"
    using assms(2) by (auto simp: sk_lookup_def split: prod.splits)
  note ok = hm_lookup_ok[OF wf n(1)]
  have p: "sk_payloads m' = sk_payloads m" using ok by (simp add: sk_payloads_def)
  have w': "sk_wf key m'" using assms(1) ok p sk_wf_iff[of m key] sk_wf_iff[of m' key] wf by simp
  have "r = sk_map key m k"
  proof (cases n)
    case None
    then have "\<forall>x \<in># hm_mset m. \<not> (hcode x = str_hash k \<and> str_node_eq key k (pay x))" using ok by simp
    then have "\<forall>x \<in># hm_mset m. key (pay x) \<noteq> k" using assms(1) by (auto simp: sk_wf_def str_node_eq_def)
    then have "sk_map key m k = None" using sk_map_None[OF assms(1)] by (simp add: sk_payloads_def)
    then show ?thesis using None n by simp
  next
    case (Some x)
    then have "x \<in># hm_mset m" "key (pay x) = k" using ok by (auto simp: str_node_eq_def)
    then have "sk_map key m k = Some (pay x)" using sk_map_iff[OF assms(1)] by (simp add: sk_payloads_def)
    then show ?thesis using Some n by simp
  qed
  then show ?thesis using w' p ok by (simp add: hm_room_def)
qed

lemma sk_insert_ok:
  assumes "sk_wf key m" "hm_room m" "sk_map key m (key p) = None"
  shows "sk_wf key (sk_insert key m p) \<and> sk_payloads (sk_insert key m p) = add_mset p (sk_payloads m) \<and>
         elem_bytes (sk_insert key m p) = elem_bytes m"
proof -
  have wf: "hm_wf m" using assms(1) by (simp add: sk_wf_def)
  note ok = hm_insert_ok[OF wf assms(2), of "\<lparr>hcode = str_hash (key p), pay = p\<rparr>"]
  have "count (image_mset key (sk_payloads m)) (key p) = 0"
    using assms(3) sk_map_None[OF assms(1)] by (auto simp: count_eq_zero_iff)
  then show ?thesis
    using ok assms(1) sk_wf_iff[of m key] sk_wf_iff[of "sk_insert key m p" key] wf
    by (simp add: sk_insert_def sk_payloads_def)
qed

lemma sk_delete_ok:
  assumes "sk_wf key m" "sk_delete key m k = (m', r)"
  shows "sk_wf key m' \<and> r = sk_map key m k \<and> elem_bytes m' = elem_bytes m \<and> (hm_room m \<longrightarrow> hm_room m') \<and>
         sk_payloads m = (case r of None \<Rightarrow> sk_payloads m' | Some p \<Rightarrow> add_mset p (sk_payloads m'))"
proof -
  have wf: "hm_wf m" using assms(1) by (simp add: sk_wf_def)
  obtain n where n: "hm_delete m (str_hash k) (str_node_eq key k) = (m', n)" "r = map_option pay n"
    using assms(2) by (auto simp: sk_delete_def split: prod.splits)
  note ok = hm_delete_ok[OF wf n(1)]
  note wi = sk_wf_iff[of m key] sk_wf_iff[of m' key]
  show ?thesis
  proof (cases n)
    case None
    then have "\<forall>x \<in># hm_mset m. \<not> (hcode x = str_hash k \<and> str_node_eq key k (pay x))" using ok by simp
    then have "\<forall>x \<in># hm_mset m. key (pay x) \<noteq> k" using assms(1) by (auto simp: sk_wf_def str_node_eq_def)
    then have "sk_map key m k = None" using sk_map_None[OF assms(1)] by (simp add: sk_payloads_def)
    then show ?thesis using None n ok wi assms(1) wf by (simp add: sk_payloads_def hm_room_def)
  next
    case (Some x)
    then have ms: "hm_mset m = add_mset x (hm_mset m')" and kx: "key (pay x) = k"
      using ok by (auto simp: str_node_eq_def)
    then have "sk_map key m k = Some (pay x)" using sk_map_iff[OF assms(1)] by (simp add: sk_payloads_def)
    moreover have "sk_wf key m'"
    proof -
      have "count (image_mset key (sk_payloads m')) c \<le> count (image_mset key (sk_payloads m)) c" for c
        using ms by (simp add: sk_payloads_def)
      then show ?thesis using wi assms(1) wf ok ms le_trans by (metis union_iff add_mset_add_single)
    qed
    ultimately show ?thesis using Some n ok ms by (simp add: sk_payloads_def hm_room_def)
  qed
qed

lemma sk_write_ok:
  assumes "sk_wf key m" "sk_map key m k = Some p" "key (f p) = k"
  shows "sk_wf key (sk_write key m k f) \<and> sk_payloads (sk_write key m k f) = add_mset (f p) (sk_payloads m - {#p#}) \<and>
         elem_bytes (sk_write key m k f) = elem_bytes m \<and> hm_room (sk_write key m k f) = hm_room m"
proof -
  have wf: "hm_wf m" using assms(1) by (simp add: sk_wf_def)
  let ?m = "sk_write key m k f"
  obtain n where n: "hm_get m (str_hash k) (str_node_eq key k) = Some n"
  proof (cases "hm_get m (str_hash k) (str_node_eq key k)")
    case None
    from assms(1,2) obtain x where "x \<in># hm_mset m" "pay x = p" "key p = k"
      using sk_map_iff[OF assms(1)] by (auto simp: sk_payloads_def)
    then show ?thesis using hm_get_None[OF wf None] assms(1) by (auto simp: sk_wf_def str_node_eq_def)
  qed (use that in blast)
  have nm: "n \<in># hm_mset m" "key (pay n) = k" "hcode n = str_hash k"
    using hm_get_Some[OF wf n] by (auto simp: str_node_eq_def)
  then have "sk_map key m k = Some (pay n)" using sk_map_iff[OF assms(1)] by (simp add: sk_payloads_def)
  then have pn: "pay n = p" using assms(2) by simp
  obtain R where R: "hm_mset m = add_mset n R" using nm(1) by (metis mset_add)
  have ok: "hm_wf ?m" "elem_bytes ?m = elem_bytes m" "length (tab (newer ?m)) = length (tab (newer m))"
    "hm_mset ?m = add_mset (n\<lparr>pay := f p\<rparr>) R"
    using hm_write_ok[OF wf n, of f] R pn by (auto simp: sk_write_def)
  have "image_mset key (sk_payloads ?m) = image_mset key (sk_payloads m)"
    using ok(4) R nm(2) pn assms(3) by (simp add: sk_payloads_def)
  then have "sk_wf key ?m"
    using sk_wf_iff[of m key] sk_wf_iff[OF ok(1), of key] assms(1,3) wf ok(1,4) R nm by simp
  then show ?thesis using ok R pn by (simp add: sk_payloads_def hm_room_def)
qed

text \<open>The map follows from the payloads.\<close>

lemma sk_map_cong: "sk_wf key m \<Longrightarrow> sk_wf key m' \<Longrightarrow> sk_payloads m' = sk_payloads m \<Longrightarrow> sk_map key m' = sk_map key m"
  by (rule map_eqI_Some) (simp add: sk_map_iff)

lemma sk_map_insert:
  assumes "sk_wf key m" "hm_room m" "sk_map key m (key p) = None"
  shows "sk_map key (sk_insert key m p) = (sk_map key m)(key p \<mapsto> p)"
proof (rule map_eqI_Some)
  fix k x
  show "sk_map key (sk_insert key m p) k = Some x \<longleftrightarrow> ((sk_map key m)(key p \<mapsto> p)) k = Some x"
    using sk_insert_ok[OF assms] assms sk_map_iff[of key m k x] sk_map_iff[of key "sk_insert key m p" k x]
      sk_map_None[OF assms(1), of "key p"] by auto
qed

lemma sk_unique: "sk_wf key m \<Longrightarrow> count (sk_payloads m) p \<le> 1"
proof -
  assume w: "sk_wf key m"
  then have "distinct (sk_nodes m)" by (simp add: sk_wf_def distinct_map)
  then have "count (mset (sk_nodes m)) p \<le> 1" by (simp add: distinct_count_atmost_1)
  then show ?thesis using w by (simp add: sk_wf_def sk_nodes_mset)
qed

lemma sk_map_delete:
  assumes "sk_wf key m" "sk_delete key m k = (m', r)"
  shows "sk_map key m' = (sk_map key m)(k := None)"
proof (rule map_eqI_Some)
  fix j x
  note ok = sk_delete_ok[OF assms]
  have w': "sk_wf key m'" using ok by simp
  show "sk_map key m' j = Some x \<longleftrightarrow> ((sk_map key m)(k := None)) j = Some x"
  proof (cases r)
    case None
    then show ?thesis using ok sk_map_iff[OF assms(1), of j x] sk_map_iff[OF w', of j x]
      sk_map_None[OF assms(1), of k] by (cases "j = k") auto
  next
    case (Some p)
    then have pl: "sk_payloads m = add_mset p (sk_payloads m')" and kp: "key p = k"
      using ok sk_map_iff[OF assms(1), of k p] by auto
    have "p \<notin># sk_payloads m'" using sk_unique[OF assms(1), of p] pl by (simp add: not_in_iff)
    then have mem: "x \<in># sk_payloads m' \<longleftrightarrow> x \<in># sk_payloads m \<and> x \<noteq> p" using pl by auto
    have "x = p" if "x \<in># sk_payloads m" "key x = k"
      using sk_map_iff[OF assms(1), of k x] sk_map_iff[OF assms(1), of k p] that kp pl by simp
    then show ?thesis
      using kp sk_map_iff[OF assms(1), of j x] sk_map_iff[OF w', of j x] unfolding mem
      by (cases "j = k") auto
  qed
qed

lemma sk_map_write:
  assumes "sk_wf key m" "sk_map key m k = Some p" "key (f p) = k"
  shows "sk_map key (sk_write key m k f) = (sk_map key m)(k \<mapsto> f p)"
proof (rule map_eqI_Some)
  fix j x
  let ?m = "sk_write key m k f"
  note ok = sk_write_ok[of key m k p f, OF assms]
  have w': "sk_wf key ?m" using ok by simp
  have pk: "p \<in># sk_payloads m" "key p = k" using assms(2) sk_map_iff[OF assms(1)] by auto
  then obtain R where R: "sk_payloads m = add_mset p R" by (metis mset_add)
  have "p \<notin># R" using sk_unique[OF assms(1), of p] R by (simp add: not_in_iff)
  then have mem: "x \<in># sk_payloads ?m \<longleftrightarrow> x = f p \<or> x \<in># sk_payloads m \<and> x \<noteq> p"
    using R ok by auto
  have "x = p" if "x \<in># sk_payloads m" "key x = k"
    using sk_map_iff[OF assms(1), of k x] sk_map_iff[OF assms(1), of k p] that pk by simp
  then show "sk_map key ?m j = Some x \<longleftrightarrow> ((sk_map key m)(k \<mapsto> f p)) j = Some x"
    using pk assms(3) sk_map_iff[OF assms(1), of j x] sk_map_iff[OF w', of j x] unfolding mem
    by (cases "j = k") auto
qed

lemma sk_empty_ok:
  "sk_wf key hmap_empty \<and> sk_map key hmap_empty = Map.empty \<and> sk_payloads (hmap_empty :: 'a hmap) = {#}"
  for key :: "'a \<Rightarrow> string"
  by (simp add: sk_wf_def sk_map_def sk_nodes_def hm_nodes_def h_nodes_def hmap_empty_def htab_null_def
      sk_payloads_def hm_mset_def hm_wf_def tab_mset_def)

interpretation sk: string_table key "sk_wf key" hm_room "sk_map key" sk_payloads hmap_empty
  "sk_lookup key" "sk_insert key" "sk_delete key" "sk_write key" for key
  apply unfold_locales
  subgoal by (rule sk_empty_ok)
  subgoal by (rule sk_map_iff)
  subgoal by (rule sk_unique)
  subgoal for t k t' r using sk_lookup_ok[of key t k t' r] sk_map_cong[of key t t'] by simp
  subgoal for t k t' r using sk_lookup_ok[of key t k t' r] by simp
  subgoal for t p using sk_insert_ok[of key t p] sk_map_insert[of key t p] by simp
  subgoal for t k t' r using sk_delete_ok[of key t k t' r] sk_map_delete[of key t k t' r] by simp
  subgoal for t k p f using sk_write_ok[of key t k p f] sk_map_write[of key t k p f] by simp
  done

text \<open>The byte counter is independent of the contents.\<close>

lemma table_elem_bytes [simp]:
  "sk_map key (h\<lparr>elem_bytes := b\<rparr>) = sk_map key h"
  "sk_payloads (h\<lparr>elem_bytes := b\<rparr>) = sk_payloads h"
  "sk_wf key (h\<lparr>elem_bytes := b\<rparr>) = sk_wf key h"
  "hm_room (h\<lparr>elem_bytes := b\<rparr>) = hm_room h"
  by (simp_all add: sk_map_def sk_nodes_def hm_nodes_def sk_payloads_def hm_mset_def sk_wf_def hm_wf_def
      hm_room_def hm_mset_def)

lemma hm_room_payloads: "hm_room m \<longleftrightarrow> size (sk_payloads m) < 2 ^ 60"
  by (simp add: hm_room_def sk_payloads_def)

lemma sk_write_elem_bytes [simp]:
  "sk_write key (h\<lparr>elem_bytes := b\<rparr>) k f = (sk_write key h k f)\<lparr>elem_bytes := b\<rparr>"
  by (simp add: sk_write_def hm_write_def split: option.splits)

text \<open>Only the keys of the stored payloads matter.\<close>

lemma sk_key_cong:
  assumes "\<And>p. p \<in># sk_payloads m \<Longrightarrow> key p = key' p"
  shows "sk_wf key m = sk_wf key' m" and "hm_wf m \<Longrightarrow> sk_map key m = sk_map key' m"
proof -
  have n: "key (pay n) = key' (pay n)" if "n \<in># hm_mset m" for n
    using assms[of "pay n"] that by (simp add: sk_payloads_def)
  have l: "map key (sk_nodes m) = map key' (sk_nodes m)"
    "map (\<lambda>p. (key p, p)) (sk_nodes m) = map (\<lambda>p. (key' p, p)) (sk_nodes m)" if "hm_wf m"
    using assms sk_nodes_mset[OF that] by (auto simp flip: set_mset_mset)
  have "distinct (map key (sk_nodes m)) = distinct (map key' (sk_nodes m))" if "hm_wf m"
    by (rule arg_cong[OF l(1)[OF that], of distinct])
  then show "sk_wf key m = sk_wf key' m" using n by (auto simp: sk_wf_def)
  show "sk_map key m = sk_map key' m" if "hm_wf m" unfolding sk_map_def by (rule arg_cong[OF l(2)[OF that]])
qed

end
