(* ===== verification/Hash_Type.thy ===== *)
theory Hash_Type
  imports Str_Table
begin

text \<open>
  The hash value type (\<open>types/hash.h\<close>, \<open>types/hash.cpp\<close>): a string-keyed table of field/value
  nodes with a running count of the bytes its nodes are charged. The abstraction is a finite map
  from fields to values.
\<close>

section \<open>Model\<close>

record hash_node =
  field :: cstr
  hvalue :: cstr

definition hn_key :: "hash_node \<Rightarrow> string" where
  "hn_key n = chars (field n)"

text \<open>\<open>sizeof(HashNode) + sizeof(HNode *)\<close> and the two buffers.\<close>

definition hash_node_bytes :: "hash_node \<Rightarrow> nat" where
  "hash_node_bytes n = 80 + 8 + scap (field n) + scap (hvalue n)"

definition hash_set :: "hash_node hmap \<Rightarrow> string \<Rightarrow> cstr \<Rightarrow> hash_node hmap \<times> bool" where
  "hash_set h f v =
     (let (h, found) = sk_lookup hn_key h f
      in case found of
           Some hn \<Rightarrow>
             (let h = h\<lparr>elem_bytes := elem_bytes h - scap (hvalue hn)\<rparr>;
                  v' = fst (str_move (hvalue hn) v);
                  h = sk_write hn_key h f (\<lambda>n. n\<lparr>hvalue := v'\<rparr>)
              in (h\<lparr>elem_bytes := elem_bytes h + scap v'\<rparr>, False))
         | None \<Rightarrow>
             (let hn = \<lparr>field = str_assign str_empty f, hvalue = fst (str_move str_empty v)\<rparr>;
                  h = sk_insert hn_key h hn
              in (h\<lparr>elem_bytes := elem_bytes h + hash_node_bytes hn\<rparr>, True)))"

definition hash_get :: "hash_node hmap \<Rightarrow> string \<Rightarrow> hash_node hmap \<times> hash_node option" where
  "hash_get h f = sk_lookup hn_key h f"

definition hash_del :: "hash_node hmap \<Rightarrow> string \<Rightarrow> hash_node hmap \<times> bool" where
  "hash_del h f =
     (let (h, found) = sk_delete hn_key h f
      in case found of
           None \<Rightarrow> (h, False)
         | Some hn \<Rightarrow> (h\<lparr>elem_bytes := elem_bytes h - hash_node_bytes hn\<rparr>, True))"

definition hash_clear :: "hash_node hmap \<Rightarrow> hash_node hmap" where
  "hash_clear h = hmap_clear_nodes h"

section \<open>Invariant and abstraction\<close>

definition hash_wf :: "hash_node hmap \<Rightarrow> bool" where
  "hash_wf h \<longleftrightarrow> sk_wf hn_key h \<and> elem_bytes h = (\<Sum>n \<in># sk_payloads h. hash_node_bytes n)"

definition hash_abs :: "hash_node hmap \<Rightarrow> string \<Rightarrow> string option" where
  "hash_abs h f = map_option (\<lambda>n. chars (hvalue n)) (sk_map hn_key h f)"

section \<open>Lemmas\<close>

lemma hash_empty_ok: "hash_wf hmap_empty \<and> hash_abs hmap_empty = Map.empty"
proof -
  have "elem_bytes (hmap_empty :: hash_node hmap) = 0" by (simp add: hmap_empty_def)
  then show ?thesis using sk_empty_ok[of hn_key] by (simp add: hash_wf_def hash_abs_def fun_eq_iff)
qed

lemma hash_get_ok:
  assumes "hash_wf h" "hash_get h f = (h', r)"
  shows "hash_wf h' \<and> hash_abs h' = hash_abs h \<and> hm_room h' = hm_room h \<and>
         map_option (\<lambda>n. chars (hvalue n)) r = hash_abs h f"
  using assms sk.lookup_law[of hn_key h f h' r] sk_lookup_ok[of hn_key h f h' r]
  by (auto simp: hash_wf_def hash_get_def hash_abs_def)

lemma hash_set_ok:
  assumes "hash_wf h" "hm_room h" "hash_set h f v = (h', new)"
  shows "hash_wf h' \<and> hash_abs h' = (hash_abs h)(f \<mapsto> chars v) \<and> (new \<longleftrightarrow> hash_abs h f = None)"
proof -
  obtain h1 r where l: "sk_lookup hn_key h f = (h1, r)" by fastforce
  have w: "sk_wf hn_key h" using assms(1) by (simp add: hash_wf_def)
  note ll = sk.lookup_law[OF w l] sk_lookup_ok[OF w l]
  have eb: "elem_bytes h1 = (\<Sum>n \<in># sk_payloads h1. hash_node_bytes n)" using ll assms(1) by (simp add: hash_wf_def)
  show ?thesis
  proof (cases r)
    case None
    let ?n = "\<lparr>field = str_assign str_empty f, hvalue = fst (str_move str_empty v)\<rparr>"
    have k: "hn_key ?n = f" by (simp add: hn_key_def)
    have i: "sk_map hn_key h1 (hn_key ?n) = None" "hm_room h1" "sk_wf hn_key h1" using ll None k assms(2) by auto
    note ii = sk.insert_law[OF i(3,2,1)] sk.insert_weight[OF i(3,2,1), of hash_node_bytes] sk_insert_ok[OF i(3,2,1)]
    have "h' = (sk_insert hn_key h1 ?n)\<lparr>elem_bytes := elem_bytes (sk_insert hn_key h1 ?n) + hash_node_bytes ?n\<rparr>" "new"
      using assms(3) l None by (auto simp: hash_set_def Let_def)
    then show ?thesis using ii ll k None eb by (auto simp: hash_wf_def hash_abs_def)
  next
    case (Some hn)
    let ?v = "fst (str_move (hvalue hn) v)"
    let ?f = "\<lambda>n. n\<lparr>hvalue := ?v\<rparr>"
    have k: "sk_map hn_key h1 f = Some hn" "sk_wf hn_key h1" using ll Some by auto
    then have "hn_key hn = f" by (simp add: sk.amap_key)
    then have kf: "hn_key (?f hn) = f" by (simp add: hn_key_def)
    note uu = sk.update_law[OF k(2,1), of ?f, OF kf] sk.update_weight[OF k(2,1), of ?f hash_node_bytes, OF kf]
      sk.weight_mem[OF k(2,1), of hash_node_bytes]
    have "h' = (sk_write hn_key h1 f ?f)\<lparr>elem_bytes := elem_bytes h1 - scap (hvalue hn) + scap ?v\<rparr>" "\<not> new"
      using assms(3) l Some by (auto simp: hash_set_def Let_def)
    moreover have "elem_bytes h1 - scap (hvalue hn) + scap ?v = (\<Sum>n \<in># sk_payloads (sk_write hn_key h1 f ?f). hash_node_bytes n)"
      using uu(2,3) eb by (simp add: hash_node_bytes_def)
    moreover have "sk_map hn_key h f = Some hn" "sk_map hn_key h1 = sk_map hn_key h" using ll Some by auto
    ultimately show ?thesis using uu(1) by (auto simp: hash_wf_def hash_abs_def)
  qed
qed

lemma hash_del_ok:
  assumes "hash_wf h" "hash_del h f = (h', gone)"
  shows "hash_wf h' \<and> hash_abs h' = (hash_abs h)(f := None) \<and> (gone \<longleftrightarrow> hash_abs h f \<noteq> None) \<and> (hm_room h \<longrightarrow> hm_room h')"
proof -
  obtain h1 r where l: "sk_delete hn_key h f = (h1, r)" by fastforce
  have w: "sk_wf hn_key h" using assms(1) by (simp add: hash_wf_def)
  note dd = sk.delete_law[OF w l] sk_delete_ok[OF w l]
  have mr: "sk_map hn_key h f = r" and h1: "sk_map hn_key h1 = (sk_map hn_key h)(f := None)" "sk_wf hn_key h1"
    "elem_bytes h1 = elem_bytes h" "hm_room h \<longrightarrow> hm_room h1" using dd by auto
  have pl: "sk_payloads h = (case r of None \<Rightarrow> sk_payloads h1 | Some p \<Rightarrow> add_mset p (sk_payloads h1))"
    using dd by blast
  have eb: "elem_bytes h = (\<Sum>n \<in># sk_payloads h. hash_node_bytes n)" using assms(1) by (simp add: hash_wf_def)
  show ?thesis
  proof (cases r)
    case None
    then have "h' = h1" "\<not> gone" using assms(2) l by (auto simp: hash_del_def)
    then show ?thesis using None pl mr h1 eb by (auto simp: hash_wf_def hash_abs_def)
  next
    case (Some hn)
    then have "h' = h1\<lparr>elem_bytes := elem_bytes h1 - hash_node_bytes hn\<rparr>" "gone"
      using assms(2) l by (auto simp: hash_del_def)
    then show ?thesis using Some pl mr h1 eb by (auto simp: hash_wf_def hash_abs_def)
  qed
qed

lemma hash_size_ok: "hash_wf h \<Longrightarrow> hm_size h = card (dom (hash_abs h))"
proof -
  assume w: "hash_wf h"
  have "dom (hash_abs h) = dom (sk_map hn_key h)" by (auto simp: hash_abs_def dom_def)
  then show ?thesis
    using w sk.card_dom[of hn_key h] hm_size_ok[of h] by (simp add: hash_wf_def sk_wf_def sk_payloads_def)
qed

section \<open>Runs\<close>

lemma hash_room: "hash_wf h \<Longrightarrow> hm_room h \<longleftrightarrow> card (dom (hash_abs h)) < 2 ^ 60"
  using hash_size_ok[of h] hm_size_ok[of h] by (simp add: hash_wf_def sk_wf_def hm_room_def)

text \<open>A history of writes, on the table and on the abstract map.\<close>

datatype hash_op = HSet string string | HDel string

fun hash_run :: "hash_op list \<Rightarrow> hash_node hmap \<Rightarrow> hash_node hmap \<times> bool list" where
  "hash_run [] h = (h, [])"
| "hash_run (HSet f v # ops) h =
     (let (h, new) = hash_set h f (str_new v); (h, rs) = hash_run ops h in (h, new # rs))"
| "hash_run (HDel f # ops) h =
     (let (h, gone) = hash_del h f; (h, rs) = hash_run ops h in (h, gone # rs))"

fun map_run :: "hash_op list \<Rightarrow> (string \<rightharpoonup> string) \<Rightarrow> (string \<rightharpoonup> string) \<times> bool list" where
  "map_run [] m = (m, [])"
| "map_run (HSet f v # ops) m = (let (m', rs) = map_run ops (m(f \<mapsto> v)) in (m', (m f = None) # rs))"
| "map_run (HDel f # ops) m = (let (m', rs) = map_run ops (m(f := None)) in (m', (m f \<noteq> None) # rs))"

lemma hash_run_ok:
  "hash_wf h \<Longrightarrow> card (dom (hash_abs h)) + length ops \<le> 2 ^ 60 \<Longrightarrow> hash_run ops h = (h', rs) \<Longrightarrow>
   hash_wf h' \<and> map_run ops (hash_abs h) = (hash_abs h', rs)"
proof (induction ops h arbitrary: h' rs rule: hash_run.induct)
  case (2 f v ops h)
  obtain h1 new rs1 where s: "hash_set h f (str_new v) = (h1, new)" "hash_run ops h1 = (h', rs1)" "rs = new # rs1"
    using 2(4) by (auto split: prod.splits)
  have room: "hm_room h" using 2(3) hash_room[OF 2(2)] by simp
  note ok = hash_set_ok[OF 2(2) room s(1)]
  have "finite (dom (hash_abs h))" using sk.finite_dom[of hn_key h] 2(2)
    by (auto simp: hash_wf_def hash_abs_def dom_def)
  then have c: "card (dom (hash_abs h1)) + length ops \<le> 2 ^ 60"
    using ok 2(3) by (simp add: card_insert_if split: if_splits)
  have w: "hash_wf h1" and e: "hash_abs h1 = (hash_abs h)(f \<mapsto> v)" and n: "new \<longleftrightarrow> hash_abs h f = None"
    using ok by simp_all
  show ?case using 2(1)[OF s(1)[symmetric] refl w c s(2)] unfolding e by (simp add: n s(3) fun_upd_def)
next
  case (3 f ops h)
  obtain h1 gone rs1 where s: "hash_del h f = (h1, gone)" "hash_run ops h1 = (h', rs1)" "rs = gone # rs1"
    using 3(4) by (auto split: prod.splits)
  note ok = hash_del_ok[OF 3(2) s(1)]
  have "dom (hash_abs h1) = dom (hash_abs h) - {f}" and w: "hash_wf h1" using ok by auto
  then have c: "card (dom (hash_abs h1)) + length ops \<le> 2 ^ 60"
    using card_Diff1_le[of "dom (hash_abs h)" f] 3(3) by simp
  show ?case using 3(1)[OF s(1)[symmetric] refl w c s(2)] ok s by (simp add: fun_upd_def)
qed simp

text \<open>
  C8: a hash under any history of \<open>hash_set\<close> and \<open>hash_del\<close> behaves as a finite map: every call reports
  whether the field was new or gone as the map says, the final contents are those of the map, and the
  byte counter is the exact sum of the node sizes.
\<close>

theorem hash_run_refines_map:
  assumes "length ops < 2 ^ 60" "hash_run ops hmap_empty = (h, rs)"
  shows "map_run ops Map.empty = (hash_abs h, rs) \<and> hash_wf h"
  using hash_run_ok[OF _ _ assms(2)] hash_empty_ok assms(1) by simp

theorem hash_run_refines_map_witness:
  "\<exists>h. hash_run [HSet ''a'' ''1'', HSet ''a'' ''2'', HDel ''b'', HDel ''a''] hmap_empty = (h, [True, False, False, True]) \<and>
     hash_abs h = Map.empty \<and> hash_wf h"
proof -
  let ?ops = "[HSet ''a'' ''1'', HSet ''a'' ''2'', HDel ''b'', HDel ''a'']"
  obtain h rs where r: "hash_run ?ops hmap_empty = (h, rs)" by fastforce
  show ?thesis using hash_run_refines_map[OF _ r] r by (simp add: fun_eq_iff)
qed

end
