(* ===== verification/Set_Type.thy ===== *)
theory Set_Type
  imports Str_Table
begin

text \<open>
  The set value type (\<open>types/set.h\<close>, \<open>types/set.cpp\<close>): a string-keyed table of members with
  a running byte count. The abstraction is a set of strings.
\<close>

section \<open>Model\<close>

record set_node =
  member_str :: cstr

definition sn_key :: "set_node \<Rightarrow> string" where
  "sn_key n = chars (member_str n)"

definition set_node_bytes :: "set_node \<Rightarrow> nat" where
  "set_node_bytes n = 48 + 8 + scap (member_str n)"

definition set_add :: "set_node hmap \<Rightarrow> cstr \<Rightarrow> set_node hmap \<times> bool" where
  "set_add h m =
     (let (h, found) = sk_lookup sn_key h (chars m)
      in case found of
           Some _ \<Rightarrow> (h, False)
         | None \<Rightarrow>
             (let sn = \<lparr>member_str = fst (str_move str_empty m)\<rparr>;
                  h = sk_insert sn_key h sn
              in (h\<lparr>elem_bytes := elem_bytes h + set_node_bytes sn\<rparr>, True)))"

definition set_is_member :: "set_node hmap \<Rightarrow> string \<Rightarrow> set_node hmap \<times> bool" where
  "set_is_member h m = (let (h, found) = sk_lookup sn_key h m in (h, found \<noteq> None))"

definition set_remove :: "set_node hmap \<Rightarrow> string \<Rightarrow> set_node hmap \<times> bool" where
  "set_remove h m =
     (let (h, found) = sk_delete sn_key h m
      in case found of
           None \<Rightarrow> (h, False)
         | Some sn \<Rightarrow> (h\<lparr>elem_bytes := elem_bytes h - set_node_bytes sn\<rparr>, True))"

definition set_clear :: "set_node hmap \<Rightarrow> set_node hmap" where
  "set_clear h = hmap_clear_nodes h"

section \<open>Invariant and abstraction\<close>

definition set_wf :: "set_node hmap \<Rightarrow> bool" where
  "set_wf h \<longleftrightarrow> sk_wf sn_key h \<and> elem_bytes h = (\<Sum>n \<in># sk_payloads h. set_node_bytes n)"

definition set_abs :: "set_node hmap \<Rightarrow> string set" where
  "set_abs h = dom (sk_map sn_key h)"

section \<open>Lemmas\<close>

lemma set_empty_ok: "set_wf hmap_empty \<and> set_abs hmap_empty = {}"
proof -
  have "elem_bytes (hmap_empty :: set_node hmap) = 0" by (simp add: hmap_empty_def)
  then show ?thesis using sk_empty_ok[of sn_key] by (simp add: set_wf_def set_abs_def)
qed

lemma set_is_member_ok:
  assumes "set_wf h" "set_is_member h m = (h', r)"
  shows "set_wf h' \<and> set_abs h' = set_abs h \<and> hm_room h' = hm_room h \<and> (r \<longleftrightarrow> m \<in> set_abs h)"
proof -
  obtain h1 x where l: "sk_lookup sn_key h m = (h1, x)" by fastforce
  have w: "sk_wf sn_key h" using assms(1) by (simp add: set_wf_def)
  have "h' = h1" "r = (x \<noteq> None)" using assms(2) l by (auto simp: set_is_member_def)
  then show ?thesis
    using sk.lookup_law[OF w l] sk_lookup_ok[OF w l] assms(1) by (auto simp: set_wf_def set_abs_def)
qed

lemma set_add_ok:
  assumes "set_wf h" "hm_room h" "set_add h m = (h', new)"
  shows "set_wf h' \<and> set_abs h' = insert (chars m) (set_abs h) \<and> (new \<longleftrightarrow> chars m \<notin> set_abs h)"
proof -
  obtain h1 r where l: "sk_lookup sn_key h (chars m) = (h1, r)" by fastforce
  have w: "sk_wf sn_key h" using assms(1) by (simp add: set_wf_def)
  note ll = sk.lookup_law[OF w l] sk_lookup_ok[OF w l]
  have mr: "sk_map sn_key h (chars m) = r" and w1: "sk_wf sn_key h1" "hm_room h1" "sk_map sn_key h1 = sk_map sn_key h"
    "elem_bytes h1 = (\<Sum>n \<in># sk_payloads h1. set_node_bytes n)"
    using ll assms(1,2) by (auto simp: set_wf_def)
  show ?thesis
  proof (cases r)
    case None
    let ?n = "\<lparr>member_str = fst (str_move str_empty m)\<rparr>"
    have k: "sn_key ?n = chars m" by (simp add: sn_key_def)
    have i: "sk_map sn_key h1 (sn_key ?n) = None" using w1 mr None k by simp
    note ii = sk.insert_law[OF w1(1,2) i] sk.insert_weight[OF w1(1,2) i, of set_node_bytes] sk_insert_ok[OF w1(1,2) i]
    have "h' = (sk_insert sn_key h1 ?n)\<lparr>elem_bytes := elem_bytes (sk_insert sn_key h1 ?n) + set_node_bytes ?n\<rparr>" "new"
      using assms(3) l None by (auto simp: set_add_def Let_def)
    then show ?thesis using ii w1 k None mr by (auto simp: set_wf_def set_abs_def)
  next
    case (Some sn)
    then have "h' = h1" "\<not> new" using assms(3) l by (auto simp: set_add_def)
    then show ?thesis using w1 mr Some by (auto simp: set_wf_def set_abs_def)
  qed
qed

lemma set_remove_ok:
  assumes "set_wf h" "set_remove h m = (h', gone)"
  shows "set_wf h' \<and> set_abs h' = set_abs h - {m} \<and> (gone \<longleftrightarrow> m \<in> set_abs h) \<and> (hm_room h \<longrightarrow> hm_room h')"
proof -
  obtain h1 r where l: "sk_delete sn_key h m = (h1, r)" by fastforce
  have w: "sk_wf sn_key h" using assms(1) by (simp add: set_wf_def)
  note dd = sk.delete_law[OF w l] sk_delete_ok[OF w l]
  have mr: "sk_map sn_key h m = r" and h1: "sk_map sn_key h1 = (sk_map sn_key h)(m := None)" "sk_wf sn_key h1"
    "elem_bytes h1 = elem_bytes h" "hm_room h \<longrightarrow> hm_room h1" using dd by auto
  have pl: "sk_payloads h = (case r of None \<Rightarrow> sk_payloads h1 | Some p \<Rightarrow> add_mset p (sk_payloads h1))"
    using dd by blast
  have eb: "elem_bytes h = (\<Sum>n \<in># sk_payloads h. set_node_bytes n)" using assms(1) by (simp add: set_wf_def)
  show ?thesis
  proof (cases r)
    case None
    then have "h' = h1" "\<not> gone" using assms(2) l by (auto simp: set_remove_def)
    then show ?thesis using None pl mr h1 eb by (auto simp: set_wf_def set_abs_def)
  next
    case (Some sn)
    then have "h' = h1\<lparr>elem_bytes := elem_bytes h1 - set_node_bytes sn\<rparr>" "gone"
      using assms(2) l by (auto simp: set_remove_def)
    then show ?thesis using Some pl mr h1 eb by (auto simp: set_wf_def set_abs_def)
  qed
qed

lemma set_size_ok: "set_wf h \<Longrightarrow> hm_size h = card (set_abs h)"
  using sk.card_dom[of sn_key h] hm_size_ok[of h]
  by (simp add: set_wf_def sk_wf_def sk_payloads_def set_abs_def)

section \<open>Runs\<close>

lemma set_room: "set_wf h \<Longrightarrow> hm_room h \<longleftrightarrow> card (set_abs h) < 2 ^ 60"
  using set_size_ok[of h] hm_size_ok[of h] by (simp add: set_wf_def sk_wf_def hm_room_def)

lemma set_finite: "set_wf h \<Longrightarrow> finite (set_abs h)"
  using sk.finite_dom[of sn_key h] by (simp add: set_wf_def set_abs_def)

text \<open>Adding a list of members one after the other, as \<open>SADD\<close> does, with the number of new ones.\<close>

definition set_add_all :: "string list \<Rightarrow> set_node hmap \<times> nat \<Rightarrow> set_node hmap \<times> nat" where
  "set_add_all ms = fold (\<lambda>m (h, n). let (h, new) = set_add h (str_new m) in (h, if new then Suc n else n)) ms"

lemma set_add_all_ok:
  "set_wf h \<Longrightarrow> card (set_abs h) + length ms \<le> 2 ^ 60 \<Longrightarrow> set_add_all ms (h, n) = (h', n') \<Longrightarrow>
   set_wf h' \<and> set_abs h' = set_abs h \<union> set ms \<and> n' = n + card (set ms - set_abs h)"
proof (induction ms arbitrary: h n)
  case (Cons m ms)
  obtain h1 new where s: "set_add h (str_new m) = (h1, new)" by fastforce
  have room: "hm_room h" using Cons(3) set_room[OF Cons(2)] by simp
  note ok = set_add_ok[OF Cons(2) room s]
  have fin: "finite (set_abs h)" by (rule set_finite[OF Cons(2)])
  have run: "set_add_all ms (h1, if new then Suc n else n) = (h', n')"
    using Cons(4) s by (simp add: set_add_all_def)
  have c: "card (set_abs h1) + length ms \<le> 2 ^ 60"
    using ok Cons(3) fin by (simp add: card_insert_if split: if_splits)
  have "set (m # ms) - set_abs h = (if m \<in> set_abs h then {} else {m}) \<union> (set ms - insert m (set_abs h))" by auto
  then have "card (set (m # ms) - set_abs h) = (if m \<in> set_abs h then 0 else 1) + card (set ms - insert m (set_abs h))"
    by (simp add: card_insert_if)
  then show ?case using Cons(1)[OF _ c run] ok by (auto simp: insert_absorb)
qed (simp add: set_add_all_def)

end
