(* ===== verification/Avl.thy ===== *)
theory Avl
  imports Prelude
begin

text \<open>
  The intrusive AVL tree (\<open>ds/avl.h\<close>, \<open>ds/avl.cpp\<close>, and \<open>avl_rank\<close> of \<open>types/zset.cpp\<close>). A node
  carries its payload and the cached 32-bit height and subtree size. A pointer to a node inside
  a tree is a zipper: the subtree it roots and the frames from its parent up to the root, which stand for
  the parent pointers. Nodes are identified by their payload; no two nodes of a tree share one.
\<close>

section \<open>Model\<close>

datatype 'a atree =
  ALeaf
| ANode (aleft: "'a atree") (apay: 'a) (ah: u32) (ac: u32) (aright: "'a atree")

text \<open>The parent of a node, when the node is its left child and when it is its right child.\<close>

datatype 'a frame =
  FLeft 'a u32 u32 "'a atree"
| FRight "'a atree" 'a u32 u32

type_synonym 'a apos = "'a atree \<times> 'a frame list"

definition avl_init :: "'a \<Rightarrow> 'a atree" where
  "avl_init x = ANode ALeaf x 1 1 ALeaf"

fun avl_height :: "'a atree \<Rightarrow> u32" where
  "avl_height ALeaf = 0"
| "avl_height (ANode l x h c r) = h"

fun avl_cnt :: "'a atree \<Rightarrow> u32" where
  "avl_cnt ALeaf = 0"
| "avl_cnt (ANode l x h c r) = c"

definition u32_max :: "u32 \<Rightarrow> u32 \<Rightarrow> u32" where
  "u32_max lhs rhs = (if lhs < rhs then rhs else lhs)"

fun avl_update :: "'a atree \<Rightarrow> 'a atree" where
  "avl_update (ANode l x h c r) =
     ANode l x (1 + u32_max (avl_height l) (avl_height r)) (1 + avl_cnt l + avl_cnt r) r"
| "avl_update ALeaf = ALeaf"

fun rot_left :: "'a atree \<Rightarrow> 'a atree" where
  "rot_left (ANode l x h c (ANode inner y h' c' r)) =
     avl_update (ANode (avl_update (ANode l x h c inner)) y h' c' r)"
| "rot_left t = t"

fun rot_right :: "'a atree \<Rightarrow> 'a atree" where
  "rot_right (ANode (ANode l y h' c' inner) x h c r) =
     avl_update (ANode l y h' c' (avl_update (ANode inner x h c r)))"
| "rot_right t = t"

fun avl_fix_left :: "'a atree \<Rightarrow> 'a atree" where
  "avl_fix_left (ANode (ANode ll y h' c' lr) x h c r) =
     (if avl_height ll < avl_height lr
      then rot_right (ANode (rot_left (ANode ll y h' c' lr)) x h c r)
      else rot_right (ANode (ANode ll y h' c' lr) x h c r))"
| "avl_fix_left t = t"

fun avl_fix_right :: "'a atree \<Rightarrow> 'a atree" where
  "avl_fix_right (ANode l x h c (ANode rl y h' c' rr)) =
     (if avl_height rr < avl_height rl
      then rot_left (ANode l x h c (rot_right (ANode rl y h' c' rr)))
      else rot_left (ANode l x h c (ANode rl y h' c' rr)))"
| "avl_fix_right t = t"

text \<open>One pass of the loop of \<open>avl_fix\<close>.\<close>

definition avl_fix_node :: "'a atree \<Rightarrow> 'a atree" where
  "avl_fix_node t =
     (let t = avl_update t;
          l = avl_height (aleft t);
          r = avl_height (aright t)
      in if l = r + 2 then avl_fix_left t else if l + 2 = r then avl_fix_right t else t)"

fun link_child :: "'a atree \<Rightarrow> 'a frame \<Rightarrow> 'a atree" where
  "link_child t (FLeft x h c r) = ANode t x h c r"
| "link_child t (FRight l x h c) = ANode l x h c t"

fun avl_fix :: "'a atree \<Rightarrow> 'a frame list \<Rightarrow> 'a atree" where
  "avl_fix t [] = avl_fix_node t"
| "avl_fix t (f # fs) = avl_fix (link_child (avl_fix_node t) f) fs"

definition avl_del_easy :: "'a apos \<Rightarrow> 'a atree" where
  "avl_del_easy p =
     (case p of (t, fs) \<Rightarrow>
        let child = (if aleft t \<noteq> ALeaf then aleft t else aright t)
        in case fs of [] \<Rightarrow> child | f # fs' \<Rightarrow> avl_fix (link_child child f) fs')"

fun leftmost :: "'a atree \<Rightarrow> 'a frame list \<Rightarrow> 'a apos" where
  "leftmost (ANode (ANode ll y h' c' lr) x h c r) fs =
     leftmost (ANode ll y h' c' lr) (FLeft x h c r # fs)"
| "leftmost t fs = (t, fs)"

text \<open>\<open>*victim = *node\<close> and the relinking around it: the victim takes the place of the node.\<close>

definition node_replace :: "'a \<Rightarrow> 'a \<Rightarrow> 'a atree \<Rightarrow> 'a atree" where
  "node_replace x v t = map_atree (\<lambda>y. if y = x then v else y) t"

definition avl_del :: "'a apos \<Rightarrow> 'a atree" where
  "avl_del p =
     (case p of (ANode l x h c r, fs) \<Rightarrow>
        if l = ALeaf \<or> r = ALeaf then avl_del_easy p
        else let victim = leftmost r (FRight l x h c # fs)
             in node_replace x (apay (fst victim)) (avl_del_easy victim)
      | (ALeaf, fs) \<Rightarrow> ALeaf)"

text \<open>
  \<open>avl_offset\<close>: the outer \<^const>\<open>None\<close> is a loop that does not end, \<open>Some None\<close> the null result.
  The 32-bit sums \<open>avl_cnt(..) + 1\<close> are added to and subtracted from an \<open>int64_t\<close>.
\<close>

partial_function (option) avl_offset_loop :: "int \<Rightarrow> int \<Rightarrow> 'a apos \<Rightarrow> 'a apos option option" where
  "avl_offset_loop offset p z =
     (case z of (t, fs) \<Rightarrow>
        if offset = p then Some (Some (t, fs))
        else if p < offset \<and> offset \<le> p + uint (avl_cnt (aright t)) then
          avl_offset_loop offset (p + uint (avl_cnt (aleft (aright t)) + 1))
            (aright t, FRight (aleft t) (apay t) (ah t) (ac t) # fs)
        else if offset < p \<and> p - uint (avl_cnt (aleft t)) \<le> offset then
          avl_offset_loop offset (p - uint (avl_cnt (aright (aleft t)) + 1))
            (aleft t, FLeft (apay t) (ah t) (ac t) (aright t) # fs)
        else case fs of
            [] \<Rightarrow> Some None
          | FRight l x h c # fs' \<Rightarrow>
              avl_offset_loop offset (p - uint (avl_cnt (aleft t) + 1)) (ANode l x h c t, fs')
          | FLeft x h c r # fs' \<Rightarrow>
              avl_offset_loop offset (p + uint (avl_cnt (aright t) + 1)) (ANode t x h c r, fs'))"

definition avl_offset :: "'a apos \<Rightarrow> int \<Rightarrow> 'a apos option option" where
  "avl_offset z offset = avl_offset_loop offset 0 z"

text \<open>\<open>avl_rank\<close>: 32-bit sums accumulated in an \<open>int64_t\<close>.\<close>

fun rank_up :: "int \<Rightarrow> 'a frame list \<Rightarrow> int" where
  "rank_up rank [] = rank"
| "rank_up rank (FRight l x h c # fs) = rank_up (rank + uint (avl_cnt l + 1)) fs"
| "rank_up rank (FLeft x h c r # fs) = rank_up rank fs"

definition avl_rank :: "'a apos \<Rightarrow> int" where
  "avl_rank p = (case p of (t, fs) \<Rightarrow> rank_up (uint (avl_cnt (aleft t))) fs)"

text \<open>The position of the node whose payload satisfies a predicate.\<close>

fun locate :: "('a \<Rightarrow> bool) \<Rightarrow> 'a atree \<Rightarrow> 'a frame list \<Rightarrow> 'a apos option" where
  "locate P ALeaf fs = None"
| "locate P (ANode l y h c r) fs =
     (if P y then Some (ANode l y h c r, fs)
      else case locate P l (FLeft y h c r # fs) of
             Some p \<Rightarrow> Some p
           | None \<Rightarrow> locate P r (FRight l y h c # fs))"

section \<open>Invariant and abstraction\<close>

fun inorder :: "'a atree \<Rightarrow> 'a list" where
  "inorder ALeaf = []"
| "inorder (ANode l x h c r) = inorder l @ x # inorder r"

fun ht :: "'a atree \<Rightarrow> nat" where
  "ht ALeaf = 0"
| "ht (ANode l x h c r) = Suc (max (ht l) (ht r))"

fun avl_wf :: "'a atree \<Rightarrow> bool" where
  "avl_wf ALeaf = True"
| "avl_wf (ANode l x h c r) \<longleftrightarrow>
     avl_wf l \<and> avl_wf r \<and> ht l \<le> ht r + 1 \<and> ht r \<le> ht l + 1 \<and>
     unat h = Suc (max (ht l) (ht r)) \<and> unat c = Suc (length (inorder l) + length (inorder r))"

text \<open>The tree a position belongs to, and what lies before and after the subtree.\<close>

fun plug :: "'a atree \<Rightarrow> 'a frame list \<Rightarrow> 'a atree" where
  "plug t [] = t"
| "plug t (f # fs) = plug (link_child t f) fs"

fun before :: "'a frame list \<Rightarrow> 'a list" where
  "before [] = []"
| "before (FLeft x h c r # fs) = before fs"
| "before (FRight l x h c # fs) = before fs @ inorder l @ [x]"

fun after :: "'a frame list \<Rightarrow> 'a list" where
  "after [] = []"
| "after (FLeft x h c r # fs) = x # inorder r @ after fs"
| "after (FRight l x h c # fs) = after fs"

text \<open>Frames around a hole that held a subtree of height \<open>n\<close> in a balanced tree.\<close>

fun ctx_ok :: "'a frame list \<Rightarrow> nat \<Rightarrow> bool" where
  "ctx_ok [] n = True"
| "ctx_ok (FLeft x h c r # fs) n \<longleftrightarrow>
     avl_wf r \<and> n \<le> ht r + 1 \<and> ht r \<le> n + 1 \<and> ctx_ok fs (Suc (max n (ht r)))"
| "ctx_ok (FRight l x h c # fs) n \<longleftrightarrow>
     avl_wf l \<and> n \<le> ht l + 1 \<and> ht l \<le> n + 1 \<and> ctx_ok fs (Suc (max (ht l) n))"

text \<open>The index of a node in the sorted sequence.\<close>

definition aidx :: "'a apos \<Rightarrow> int" where
  "aidx z = int (length (before (snd z)) + length (inorder (aleft (fst z))))"

section \<open>Balancing\<close>

lemma ht_le_length: "ht t \<le> length (inorder t)"
  by (induction t) auto

lemma avl_wf_height: "avl_wf t \<Longrightarrow> unat (avl_height t) = ht t"
  by (cases t) auto

lemma avl_wf_cnt: "avl_wf t \<Longrightarrow> unat (avl_cnt t) = length (inorder t)"
  by (cases t) auto

lemma unat_u32_max: "unat (u32_max a b) = max (unat a) (unat b)"
  by (simp add: u32_max_def word_less_nat_alt max_def)

lemma unat_add_u32: "unat a + unat b < 2 ^ 32 \<Longrightarrow> unat (a + b) = unat a + unat (b :: u32)"
  by (simp add: unat_word_ariths(1))

text \<open>The cached fields \<open>avl_update\<close> writes, for two correct children of any height.\<close>

lemma avl_update_fields:
  assumes "avl_wf l" "avl_wf r" "Suc (length (inorder l) + length (inorder r)) < 2 ^ 32"
  obtains h' c' where "avl_update (ANode l x h c r) = ANode l x h' c' r"
    "unat h' = Suc (max (ht l) (ht r))" "unat c' = Suc (length (inorder l) + length (inorder r))"
proof -
  have "ht l + ht r < 2 ^ 32 - 1" using ht_le_length[of l] ht_le_length[of r] assms(3) by linarith
  then have "unat (1 + u32_max (avl_height l) (avl_height r)) = Suc (max (ht l) (ht r))"
    using assms by (subst unat_add_u32) (auto simp: unat_u32_max avl_wf_height)
  moreover have "unat (1 + avl_cnt l + avl_cnt r) = Suc (length (inorder l) + length (inorder r))"
    using assms by (simp add: unat_add_u32 avl_wf_cnt)
  ultimately show ?thesis using that by simp
qed

lemma avl_update_wf:
  assumes "avl_wf l" "avl_wf r" "ht l \<le> ht r + 1" "ht r \<le> ht l + 1"
    "Suc (length (inorder l) + length (inorder r)) < 2 ^ 32"
  shows "avl_wf (avl_update (ANode l x h c r))"
  using avl_update_fields[OF assms(1,2,5), of x h c] assms by (metis avl_wf.simps(2))

lemma avl_update_frame [simp]:
  "inorder (avl_update t) = inorder t" "ht (avl_update t) = ht t"
  by (cases t; simp)+

lemma rot_inorder [simp]: "inorder (rot_left t) = inorder t" "inorder (rot_right t) = inorder t"
  by (cases t rule: rot_left.cases; simp del: avl_update.simps)
    (cases t rule: rot_right.cases; simp del: avl_update.simps)

lemma fix_inorder [simp]: "inorder (avl_fix_left t) = inorder t" "inorder (avl_fix_right t) = inorder t"
  subgoal by (cases t rule: avl_fix_left.cases) (simp_all del: rot_left.simps rot_right.simps)
  subgoal by (cases t rule: avl_fix_right.cases) (simp_all del: rot_left.simps rot_right.simps)
  done

lemma avl_fix_node_inorder [simp]: "inorder (avl_fix_node t) = inorder t"
  by (simp add: avl_fix_node_def Let_def)

text \<open>Rebalancing a node whose left child is too tall by two.\<close>

lemma avl_fix_left_wf:
  assumes wf: "avl_wf l" "avl_wf r" and h2: "ht l = ht r + 2"
    and sz: "Suc (length (inorder l) + length (inorder r)) < 2 ^ 32"
    and t_def: "t = avl_fix_left (ANode l x h c r)"
  shows "avl_wf t \<and> (ht t = ht l \<or> ht t = Suc (ht l))"
proof -
  obtain ll y h' c' lr where l: "l = ANode ll y h' c' lr" using h2 by (cases l) auto
  have w: "avl_wf ll" "avl_wf lr" "ht ll \<le> ht lr + 1" "ht lr \<le> ht ll + 1" using wf(1) l by auto
  show ?thesis
  proof (cases "avl_height ll < avl_height lr")
    case False
    then have "ht lr \<le> ht ll" using w by (simp add: word_less_nat_alt avl_wf_height)
    then have a: "ht ll = Suc (ht r)" "ht lr \<le> Suc (ht r)" "ht r \<le> ht lr" using h2 w l by auto
    have in1: "avl_wf (avl_update (ANode lr x h c r))"
      using a w wf(2) sz l by (intro avl_update_wf) auto
    have "avl_wf (avl_update (ANode ll y h' c' (avl_update (ANode lr x h c r))))"
      using a sz l by (intro avl_update_wf[OF w(1) in1]) (auto simp del: avl_update.simps)
    moreover have "t = avl_update (ANode ll y h' c' (avl_update (ANode lr x h c r)))"
      using False by (simp add: t_def l del: avl_update.simps)
    ultimately show ?thesis using a l h2 by (auto simp del: avl_update.simps)
  next
    case True
    then have hl: "ht lr = Suc (ht r)" "ht ll = ht r"
      using w h2 l by (auto simp: word_less_nat_alt avl_wf_height)
    then obtain a z h'' c'' b where lr: "lr = ANode a z h'' c'' b" by (cases lr) auto
    let ?L = "avl_update (ANode ll y h' c' a)" and ?R = "avl_update (ANode b x h c r)"
    have ab: "avl_wf a" "avl_wf b" "ht a \<le> ht r" "ht b \<le> ht r" "ht r \<le> ht a + 1" "ht r \<le> ht b + 1"
      using w(2) hl unfolding lr by auto
    have L: "avl_wf ?L" using ab w hl sz l lr by (intro avl_update_wf) auto
    have R: "avl_wf ?R" using ab wf(2) hl sz l lr by (intro avl_update_wf) auto
    have "t = avl_update (ANode ?L z h'' c'' ?R)"
    proof -
      obtain H C where "rot_left (ANode ll y h' c' (ANode a z h'' c'' b)) = ANode ?L z H C b"
        by simp
      moreover have "avl_update (ANode ?L z H C ?R) = avl_update (ANode ?L z h'' c'' ?R)" by simp
      ultimately show ?thesis using True unfolding t_def l lr
        by (simp only: avl_fix_left.simps if_True rot_right.simps)
    qed
    moreover have "avl_wf (avl_update (ANode ?L z h'' c'' ?R))"
      using ab hl sz l lr by (intro avl_update_wf[OF L R]) (auto simp del: avl_update.simps)
    ultimately show ?thesis using ab hl h2 by (auto simp del: avl_update.simps)
  qed
qed

lemma avl_fix_right_wf:
  assumes wf: "avl_wf l" "avl_wf r" and h2: "ht r = ht l + 2"
    and sz: "Suc (length (inorder l) + length (inorder r)) < 2 ^ 32"
    and t_def: "t = avl_fix_right (ANode l x h c r)"
  shows "avl_wf t \<and> (ht t = ht r \<or> ht t = Suc (ht r))"
proof -
  obtain rl y h' c' rr where r: "r = ANode rl y h' c' rr" using h2 by (cases r) auto
  have w: "avl_wf rl" "avl_wf rr" "ht rl \<le> ht rr + 1" "ht rr \<le> ht rl + 1" using wf(2) r by auto
  show ?thesis
  proof (cases "avl_height rr < avl_height rl")
    case False
    then have "ht rl \<le> ht rr" using w by (simp add: word_less_nat_alt avl_wf_height)
    then have a: "ht rr = Suc (ht l)" "ht rl \<le> Suc (ht l)" "ht l \<le> ht rl" using h2 w r by auto
    have in1: "avl_wf (avl_update (ANode l x h c rl))"
      using a w wf(1) sz r by (intro avl_update_wf) auto
    have "avl_wf (avl_update (ANode (avl_update (ANode l x h c rl)) y h' c' rr))"
      using a sz r by (intro avl_update_wf[OF in1 w(2)]) (auto simp del: avl_update.simps)
    moreover have "t = avl_update (ANode (avl_update (ANode l x h c rl)) y h' c' rr)"
      using False by (simp add: t_def r del: avl_update.simps)
    ultimately show ?thesis using a r h2 by (auto simp del: avl_update.simps)
  next
    case True
    then have hr: "ht rl = Suc (ht l)" "ht rr = ht l"
      using w h2 r by (auto simp: word_less_nat_alt avl_wf_height)
    then obtain a z h'' c'' b where rl: "rl = ANode a z h'' c'' b" by (cases rl) auto
    let ?L = "avl_update (ANode l x h c a)" and ?R = "avl_update (ANode b y h' c' rr)"
    have ab: "avl_wf a" "avl_wf b" "ht a \<le> ht l" "ht b \<le> ht l" "ht l \<le> ht a + 1" "ht l \<le> ht b + 1"
      using w(1) hr unfolding rl by auto
    have L: "avl_wf ?L" using ab wf(1) hr sz r rl by (intro avl_update_wf) auto
    have R: "avl_wf ?R" using ab w hr sz r rl by (intro avl_update_wf) auto
    have "t = avl_update (ANode ?L z h'' c'' ?R)"
    proof -
      obtain H C where "rot_right (ANode (ANode a z h'' c'' b) y h' c' rr) = ANode a z H C ?R"
        by simp
      moreover have "avl_update (ANode ?L z H C ?R) = avl_update (ANode ?L z h'' c'' ?R)" by simp
      ultimately show ?thesis using True unfolding t_def r rl
        by (simp only: avl_fix_right.simps if_True rot_left.simps)
    qed
    moreover have "avl_wf (avl_update (ANode ?L z h'' c'' ?R))"
      using ab hr sz r rl by (intro avl_update_wf[OF L R]) (auto simp del: avl_update.simps)
    ultimately show ?thesis using ab hr h2 by (auto simp del: avl_update.simps)
  qed
qed

text \<open>One pass of \<open>avl_fix\<close> restores the invariant of a node unbalanced by at most two.\<close>

lemma avl_fix_node_wf:
  assumes wf: "avl_wf l" "avl_wf r" "ht l \<le> ht r + 2" "ht r \<le> ht l + 2"
    and sz: "Suc (length (inorder l) + length (inorder r)) < 2 ^ 32"
    and t: "t = avl_fix_node (ANode l x h c r)"
  shows "avl_wf t \<and>
    (if ht l \<le> ht r + 1 \<and> ht r \<le> ht l + 1 then ht t = Suc (max (ht l) (ht r))
     else ht t = max (ht l) (ht r) \<or> ht t = Suc (max (ht l) (ht r)))"
proof -
  obtain h' c' where u: "avl_update (ANode l x h c r) = ANode l x h' c' r"
    and uf: "unat h' = Suc (max (ht l) (ht r))" "unat c' = Suc (length (inorder l) + length (inorder r))"
    using avl_update_fields[OF wf(1,2) sz] .
  have "ht l + ht r < 2 ^ 32 - 1" using ht_le_length[of l] ht_le_length[of r] sz by linarith
  then have b: "ht l + 2 < 2 ^ 32" "ht r + 2 < 2 ^ 32" using wf(3,4) by auto
  have e: "avl_height a = avl_height b + 2 \<longleftrightarrow> ht a = ht b + 2"
    if "avl_wf a" "avl_wf b" "ht b + 2 < 2 ^ 32" for a b :: "'a atree"
    using that by (simp add: word_unat_eq_iff unat_add_u32 avl_wf_height)
  have tt: "t = (if ht l = ht r + 2 then avl_fix_left (ANode l x h' c' r)
      else if ht r = ht l + 2 then avl_fix_right (ANode l x h' c' r) else ANode l x h' c' r)"
    using e[OF wf(1,2) b(2)] e[OF wf(2,1) b(1)] unfolding t avl_fix_node_def Let_def u
    by (auto simp: eq_commute[of "_ + 2"])
  consider (l) "ht l = ht r + 2" | (r) "ht r = ht l + 2" | (b) "ht l \<le> ht r + 1" "ht r \<le> ht l + 1"
    using wf(3,4) by linarith
  then show ?thesis
  proof cases
    case l
    then show ?thesis using avl_fix_left_wf[OF wf(1,2) l sz, of t x h' c'] tt by auto
  next
    case r
    then show ?thesis using avl_fix_right_wf[OF wf(1,2) r sz, of t x h' c'] tt by auto
  next
    case b
    then show ?thesis using tt wf uf by auto
  qed
qed

lemma plug_inorder [simp]: "inorder (plug t fs) = before fs @ inorder t @ after fs"
proof (induction t fs rule: plug.induct)
  case (2 t f fs)
  then show ?case by (cases f) auto
qed simp

lemma avl_fix_inorder: "inorder (avl_fix t fs) = before fs @ inorder t @ after fs"
proof (induction t fs rule: avl_fix.induct)
  case (2 t f fs)
  then show ?case by (cases f) auto
qed simp

text \<open>
  \<open>avl_fix\<close> climbs to the root: a repaired subtree whose height is within one of the height \<open>n\<close>
  its frames were built for leaves its parent, once repaired, within one of the parent's old height.
\<close>

lemma link_child_fix:
  assumes "ctx_ok (f # fs) n" "avl_wf t" "ht t \<le> n + 1" "n \<le> ht t + 1"
    "length (inorder (link_child t f)) < 2 ^ 32"
  obtains n' where "avl_wf (avl_fix_node (link_child t f))" "ctx_ok fs n'"
    "ht (avl_fix_node (link_child t f)) \<le> n' + 1" "n' \<le> ht (avl_fix_node (link_child t f)) + 1"
proof (cases f)
  case (FLeft y h' c' s)
  then have s: "avl_wf s" "n \<le> ht s + 1" "ht s \<le> n + 1" "ctx_ok fs (Suc (max n (ht s)))"
    using assms(1) by auto
  have b: "ht t \<le> ht s + 2" "ht s \<le> ht t + 2" using assms(3,4) s by auto
  have sz: "Suc (length (inorder t) + length (inorder s)) < 2 ^ 32" using assms(5) FLeft by simp
  show ?thesis
    using avl_fix_node_wf[OF assms(2) s(1) b sz refl, of y h' c'] assms(3,4) s FLeft
    by (intro that[of "Suc (max n (ht s))"]) (auto split: if_splits)
next
  case (FRight s y h' c')
  then have s: "avl_wf s" "n \<le> ht s + 1" "ht s \<le> n + 1" "ctx_ok fs (Suc (max (ht s) n))"
    using assms(1) by auto
  have b: "ht s \<le> ht t + 2" "ht t \<le> ht s + 2" using assms(3,4) s by auto
  have sz: "Suc (length (inorder s) + length (inorder t)) < 2 ^ 32" using assms(5) FRight by simp
  show ?thesis
    using avl_fix_node_wf[OF s(1) assms(2) b sz refl, of y h' c'] assms(3,4) s FRight
    by (intro that[of "Suc (max (ht s) n)"]) (auto split: if_splits)
qed

lemma avl_fix_wf:
  assumes "ctx_ok (f # fs) n" "avl_wf t" "ht t \<le> n + 1" "n \<le> ht t + 1"
    "length (inorder (plug t (f # fs))) < 2 ^ 32"
  shows "avl_wf (avl_fix (link_child t f) fs)"
  using assms
proof (induction fs arbitrary: f t n)
  case Nil
  then show ?case using link_child_fix[OF Nil(1-4)] by (auto simp del: plug_inorder)
next
  case (Cons g fs)
  have "length (inorder (link_child t f)) < 2 ^ 32"
    using Cons.prems(5) unfolding plug.simps(2)[of t f] plug_inorder by simp
  then obtain n' where k: "avl_wf (avl_fix_node (link_child t f))" "ctx_ok (g # fs) n'"
    "ht (avl_fix_node (link_child t f)) \<le> n' + 1" "n' \<le> ht (avl_fix_node (link_child t f)) + 1"
    by (rule link_child_fix[OF Cons.prems(1-4)])
  have "length (inorder (plug (avl_fix_node (link_child t f)) (g # fs))) < 2 ^ 32"
    using Cons.prems(5) unfolding plug.simps(2)[of t f "g # fs"] by (simp only: plug_inorder avl_fix_node_inorder)
  from Cons.IH[OF k(2,1,3,4) this] show ?case by simp
qed

text \<open>A position in a well-formed tree.\<close>

lemma plug_wf: "avl_wf (plug t fs) \<Longrightarrow> avl_wf t \<and> ctx_ok fs (ht t)"
proof (induction t fs rule: plug.induct)
  case (2 t f fs)
  then show ?case by (cases f) (auto simp: max.commute)
qed simp

lemma avl_insert_ok:
  assumes "avl_wf (plug ALeaf fs)" "Suc (length (inorder (plug ALeaf fs))) < 2 ^ 32"
  shows "avl_wf (avl_fix (avl_init x) fs) \<and> inorder (avl_fix (avl_init x) fs) = before fs @ x # after fs"
proof -
  have i: "avl_wf (avl_fix_node (avl_init x))" "ht (avl_fix_node (avl_init x)) = 1"
    using avl_fix_node_wf[of ALeaf ALeaf _ x 1 1, OF _ _ _ _ _ refl] by (simp_all add: avl_init_def)
  have "avl_wf (avl_fix (avl_init x) fs)"
  proof (cases fs)
    case (Cons f fs')
    have "avl_wf (avl_fix (link_child (avl_fix_node (avl_init x)) f) fs')"
      using plug_wf[OF assms(1)] i assms(2) Cons
      by (intro avl_fix_wf[where n = 0]) (auto simp: avl_init_def simp del: plug.simps)
    then show ?thesis using Cons by simp
  qed (use i in simp)
  then show ?thesis by (simp add: avl_fix_inorder) (simp add: avl_init_def)
qed

lemma avl_del_easy_ok:
  assumes "avl_wf (plug (ANode l x h c r) fs)" "l = ALeaf \<or> r = ALeaf"
    "length (inorder (plug (ANode l x h c r) fs)) < 2 ^ 32"
  shows "avl_wf (avl_del_easy (ANode l x h c r, fs)) \<and>
         inorder (avl_del_easy (ANode l x h c r, fs)) = before fs @ inorder l @ inorder r @ after fs"
proof -
  let ?ch = "if l \<noteq> ALeaf then l else r"
  have w: "avl_wf (ANode l x h c r)" "ctx_ok fs (ht (ANode l x h c r))" using plug_wf[OF assms(1)] by auto
  have ch: "avl_wf ?ch" "inorder ?ch = inorder l @ inorder r" "ht (ANode l x h c r) = Suc (ht ?ch)"
    using w(1) assms(2) by auto
  show ?thesis
  proof (cases fs)
    case (Cons f fs')
    have "avl_wf (avl_fix (link_child ?ch f) fs')"
      using w(2) ch assms(3) Cons by (intro avl_fix_wf[where n = "ht (ANode l x h c r)"])
        (auto simp: simp del: plug.simps)
    moreover have "inorder (avl_fix (link_child ?ch f) fs') = before fs @ inorder l @ inorder r @ after fs"
      using Cons ch(2) by (cases f) (auto simp: avl_fix_inorder)
    ultimately show ?thesis using Cons by (cases "l = ALeaf") (simp_all add: avl_del_easy_def)
  next
    case Nil
    then show ?thesis using ch by (cases "l = ALeaf") (simp_all add: avl_del_easy_def)
  qed
qed

lemma leftmost_ok:
  "t \<noteq> ALeaf \<Longrightarrow> \<exists>v h c r fs'. leftmost t fs = (ANode ALeaf v h c r, fs') \<and>
     plug (ANode ALeaf v h c r) fs' = plug t fs \<and> before fs' = before fs \<and>
     v # inorder r @ after fs' = inorder t @ after fs"
  by (induction t fs rule: leftmost.induct) auto

lemma map_atree_wf [simp]: "avl_wf (map_atree f t) = avl_wf t" "inorder (map_atree f t) = map f (inorder t)"
proof -
  have io: "inorder (map_atree f t) = map f (inorder t)" for t by (induction t) auto
  have ht: "ht (map_atree f t) = ht t" for t by (induction t) auto
  show "inorder (map_atree f t) = map f (inorder t)" by (rule io)
  show "avl_wf (map_atree f t) = avl_wf t" by (induction t) (auto simp: io ht)
qed

text \<open>\<open>avl_del\<close> removes exactly the node it is given.\<close>

lemma avl_del_ok:
  assumes "avl_wf (plug (ANode l x h c r) fs)" "length (inorder (plug (ANode l x h c r) fs)) < 2 ^ 32"
    "distinct (inorder (plug (ANode l x h c r) fs))"
  shows "avl_wf (avl_del (ANode l x h c r, fs)) \<and>
         inorder (avl_del (ANode l x h c r, fs)) = before fs @ inorder l @ inorder r @ after fs"
proof (cases "l = ALeaf \<or> r = ALeaf")
  case True
  then show ?thesis using avl_del_easy_ok[OF assms(1) True assms(2)] by (auto simp: avl_del_def)
next
  case False
  let ?fs = "FRight l x h c # fs"
  from False obtain v h' c' r' fs' where v: "leftmost r ?fs = (ANode ALeaf v h' c' r', fs')"
    "plug (ANode ALeaf v h' c' r') fs' = plug r ?fs" "before fs' = before ?fs"
    "v # inorder r' @ after fs' = inorder r @ after ?fs" using leftmost_ok[of r ?fs] by blast
  have p: "plug r ?fs = plug (ANode l x h c r) fs" by simp
  note e = avl_del_easy_ok[of ALeaf v h' c' r' fs', unfolded v(2) p, OF assms(1) _ assms(2)]
  let ?root = "avl_del_easy (ANode ALeaf v h' c' r', fs')"
  have io: "inorder ?root = before fs @ inorder l @ x # inorder r' @ after fs'" using e v(3) by simp
  have "x \<notin> set (before fs @ inorder l @ inorder r @ after fs)" using assms(3) by auto
  then have x: "x \<notin> set (before fs @ inorder l @ inorder r' @ after fs')"
    using arg_cong[OF v(4), of set] by auto
  have *: "map (\<lambda>y. if y = x then v else y) xs = xs" if "x \<notin> set xs" for xs
    using that by (intro map_idI) auto
  have "inorder (node_replace x v ?root) = before fs @ inorder l @ v # inorder r' @ after fs'"
    using x by (simp add: node_replace_def io *)
  moreover have "avl_del (ANode l x h c r, fs) = node_replace x v ?root"
    using False v(1) by (simp add: avl_del_def Let_def)
  ultimately show ?thesis using e v(4) by (simp add: node_replace_def del: inorder.simps)
qed

text \<open>Finding a node.\<close>

lemma locate_ok:
  "locate P t fs = Some (t', fs') \<Longrightarrow> plug t' fs' = plug t fs \<and> t' \<noteq> ALeaf \<and> P (apay t')"
proof (induction P t fs arbitrary: t' fs' rule: locate.induct)
  case (2 P l y h c r fs)
  then show ?case by (force split: if_splits option.splits)
qed simp

lemma locate_None: "locate P t fs = None \<longleftrightarrow> (\<forall>x \<in> set (inorder t). \<not> P x)"
  by (induction P t fs rule: locate.induct) (auto split: option.splits)

section \<open>Rank and offset\<close>

lemma uint_cnt: "avl_wf t \<Longrightarrow> uint (avl_cnt t) = int (length (inorder t))"
  using avl_wf_cnt[of t] by (simp add: uint_nat)

lemma uint_cnt_Suc: "avl_wf t \<Longrightarrow> length (inorder t) + 1 < 2 ^ 32 \<Longrightarrow>
    uint (avl_cnt t + 1) = int (length (inorder t)) + 1"
  using unat_add_u32[of "avl_cnt t" 1] avl_wf_cnt[of t] by (simp add: uint_nat)

lemma rank_up_ok: "ctx_ok fs n \<Longrightarrow> length (before fs) < 2 ^ 32 \<Longrightarrow> rank_up k fs = k + int (length (before fs))"
proof (induction k fs arbitrary: n rule: rank_up.induct)
  case (2 k l x h c fs)
  then have "uint (avl_cnt l + 1) = int (length (inorder l)) + 1" by (intro uint_cnt_Suc) auto
  then show ?case using 2 by auto
qed auto

lemma avl_rank_ok:
  assumes "avl_wf (plug t fs)" "t \<noteq> ALeaf" "length (inorder (plug t fs)) < 2 ^ 32"
  shows "avl_rank (t, fs) = aidx (t, fs)"
proof -
  have w: "avl_wf t" "ctx_ok fs (ht t)" using plug_wf[OF assms(1)] by auto
  then have "avl_wf (aleft t)" using assms(2) by (cases t) auto
  then show ?thesis
    using rank_up_ok[OF w(2)] assms(3) by (simp add: avl_rank_def aidx_def uint_cnt)
qed

lemma offset_down:
  assumes "avl_wf t" "length (inorder t) < 2 ^ 32"
    "int (length (before fs)) \<le> aidx (t, fs) + (off - p)"
    "aidx (t, fs) + (off - p) < int (length (before fs) + length (inorder t))"
  shows "\<exists>t' fs'. avl_offset_loop off p (t, fs) = Some (Some (t', fs')) \<and> t' \<noteq> ALeaf \<and>
    plug t' fs' = plug t fs \<and> aidx (t', fs') = aidx (t, fs) + (off - p)"
  using assms
proof (induction t arbitrary: fs p)
  case (ANode l x h c r)
  let ?t = "ANode l x h c r"
  have w: "avl_wf l" "avl_wf r" using ANode.prems(1) by auto
  have len: "length (inorder l) < 2 ^ 32" "length (inorder r) < 2 ^ 32" using ANode.prems(2) by auto
  consider (here) "off = p" | (right) "p < off" | (left) "off < p" by linarith
  then show ?case
  proof cases
    case here
    then show ?thesis by (subst avl_offset_loop.simps) auto
  next
    case right
    let ?p = "p + uint (avl_cnt (aleft r) + 1)" and ?fs = "FRight l x h c # fs"
    have c: "off \<le> p + uint (avl_cnt r)"
      using ANode.prems(4) w by (simp add: aidx_def uint_cnt)
    then obtain rl y h' c' rr where r: "r = ANode rl y h' c' rr" using right by (cases r) auto
    have u: "uint (avl_cnt (aleft r) + 1) = int (length (inorder rl)) + 1"
      using w r len by (simp add: uint_cnt_Suc)
    have run: "avl_offset_loop off p (?t, fs) = avl_offset_loop off ?p (r, ?fs)"
      using right c by (subst avl_offset_loop.simps) auto
    have ix: "aidx (r, ?fs) + (off - ?p) = aidx (?t, fs) + (off - p)" using u r by (simp add: aidx_def)
    show ?thesis
      using ANode.IH(2)[OF w(2) len(2), of ?fs ?p] ANode.prems(3,4) right ix u unfolding run
      by (auto simp: aidx_def)
  next
    case left
    let ?p = "p - uint (avl_cnt (aright l) + 1)" and ?fs = "FLeft x h c r # fs"
    have c: "p - uint (avl_cnt l) \<le> off"
      using ANode.prems(3) w by (simp add: aidx_def uint_cnt)
    then obtain ll y h' c' lr where l: "l = ANode ll y h' c' lr" using left by (cases l) auto
    have u: "uint (avl_cnt (aright l) + 1) = int (length (inorder lr)) + 1"
      using w l len by (simp add: uint_cnt_Suc)
    have run: "avl_offset_loop off p (?t, fs) = avl_offset_loop off ?p (l, ?fs)"
      using left c by (subst avl_offset_loop.simps) auto
    have ix: "aidx (l, ?fs) + (off - ?p) = aidx (?t, fs) + (off - p)" using u l by (simp add: aidx_def)
    show ?thesis
      using ANode.IH(1)[OF w(1) len(1), of ?fs ?p] ANode.prems(3,4) left ix u unfolding run
      by (auto simp: aidx_def)
  qed
qed (simp add: aidx_def)

lemma offset_up:
  assumes "avl_wf (plug t fs)" "t \<noteq> ALeaf" "length (inorder (plug t fs)) < 2 ^ 32"
    "k = aidx (t, fs) + (off - p)"
  shows "if 0 \<le> k \<and> k < int (length (inorder (plug t fs)))
    then \<exists>t' fs'. avl_offset_loop off p (t, fs) = Some (Some (t', fs')) \<and> t' \<noteq> ALeaf \<and>
           plug t' fs' = plug t fs \<and> aidx (t', fs') = k
    else avl_offset_loop off p (t, fs) = Some None"
  using assms
proof (induction fs arbitrary: t p k)
  case Nil
  obtain l x h c r where t: "t = ANode l x h c r" using Nil.prems(2) by (cases t) auto
  show ?case
  proof (cases "0 \<le> k \<and> k < int (length (inorder t))")
    case True
    then show ?thesis using offset_down[of t "[]" off p] Nil by auto
  next
    case False
    then have "avl_offset_loop off p (t, []) = Some None"
      using Nil.prems t by (subst avl_offset_loop.simps) (auto simp: aidx_def uint_cnt)
    then show ?thesis using False by auto
  qed
next
  case (Cons f fs)
  obtain l x h c r where t: "t = ANode l x h c r" using Cons.prems(2) by (cases t) auto
  have w: "avl_wf l" "avl_wf r" "avl_wf t" using plug_wf[OF Cons.prems(1)] t by auto
  have len: "length (inorder t) < 2 ^ 32" using Cons.prems(3) unfolding plug_inorder by simp
  then have len': "length (inorder l) + 1 < 2 ^ 32" "length (inorder r) + 1 < 2 ^ 32"
    using Cons.prems(3) t by (cases f; simp)+
  let ?B = "int (length (before (f # fs)))"
  show ?case
  proof (cases "?B \<le> k \<and> k < ?B + int (length (inorder t))")
    case True
    then have "0 \<le> k \<and> k < int (length (inorder (plug t (f # fs))))" unfolding plug_inorder by auto
    then show ?thesis using offset_down[OF w(3) len, of "f # fs" off p] True Cons.prems(4) by auto
  next
    case False
    then have no: "off \<noteq> p" "\<not> (p < off \<and> off \<le> p + uint (avl_cnt r))" "\<not> (off < p \<and> p - uint (avl_cnt l) \<le> off)"
      using Cons.prems(4) t w by (auto simp: aidx_def uint_cnt)
    obtain p' where run: "avl_offset_loop off p (t, f # fs) = avl_offset_loop off p' (link_child t f, fs)"
      and ix: "aidx (link_child t f, fs) + (off - p') = k"
    proof (cases f)
      case (FLeft y h' c' s)
      show ?thesis
      proof (rule that[of "p + uint (avl_cnt r + 1)"])
        show "avl_offset_loop off p (t, f # fs) = avl_offset_loop off (p + uint (avl_cnt r + 1)) (link_child t f, fs)"
          using no t FLeft by (subst avl_offset_loop.simps) auto
      qed (use FLeft t w len' Cons.prems(4) in \<open>simp add: aidx_def uint_cnt_Suc\<close>)
    next
      case (FRight s y h' c')
      show ?thesis
      proof (rule that[of "p - uint (avl_cnt l + 1)"])
        show "avl_offset_loop off p (t, f # fs) = avl_offset_loop off (p - uint (avl_cnt l + 1)) (link_child t f, fs)"
          using no t FRight by (subst avl_offset_loop.simps) auto
      qed (use FRight t w len' Cons.prems(4) in \<open>simp add: aidx_def uint_cnt_Suc\<close>)
    qed
    have "link_child t f \<noteq> ALeaf" by (cases f) auto
    from Cons.IH[OF _ this _ ix[symmetric]] Cons.prems(1,3) show ?thesis unfolding run plug.simps(2) by simp
  qed
qed

text \<open>The node at a distance, by position in the sorted sequence.\<close>

lemma avl_offset_ok:
  assumes "avl_wf (plug t fs)" "t \<noteq> ALeaf" "length (inorder (plug t fs)) < 2 ^ 32"
  shows "if 0 \<le> aidx (t, fs) + d \<and> aidx (t, fs) + d < int (length (inorder (plug t fs)))
    then \<exists>t' fs'. avl_offset (t, fs) d = Some (Some (t', fs')) \<and> t' \<noteq> ALeaf \<and>
           plug t' fs' = plug t fs \<and> aidx (t', fs') = aidx (t, fs) + d
    else avl_offset (t, fs) d = Some None"
  using offset_up[OF assms refl, of d 0] unfolding avl_offset_def diff_0_right .

text \<open>The payload at a position is the element of the sequence at its index.\<close>

lemma aidx_nth: "t \<noteq> ALeaf \<Longrightarrow> inorder (plug t fs) ! nat (aidx (t, fs)) = apay t \<and>
    0 \<le> aidx (t, fs) \<and> aidx (t, fs) < int (length (inorder (plug t fs)))"
  by (cases t) (auto simp: aidx_def nat_add_distrib nth_append simp flip: of_nat_add)

section \<open>The height\<close>

lemma avl_wf_size: "avl_wf t \<Longrightarrow> 2 ^ ht t \<le> (length (inorder t) + 1) ^ 2"
proof (induction t)
  case (ANode l x h c r)
  let ?l = "length (inorder l) + 1" and ?r = "length (inorder r) + 1"
  have wf: "avl_wf l" "avl_wf r" "ht l \<le> ht r + 1" "ht r \<le> ht l + 1" using ANode.prems by auto
  have step: "2 * 2 ^ b \<le> (x + y) ^ 2" if "2 ^ a \<le> x ^ 2" "2 ^ b \<le> y ^ 2" "b \<le> a + 1" for a b x y :: nat
  proof -
    have "(2 :: nat) ^ b \<le> 2 ^ (a + 1)" using that(3) by (rule power_increasing) simp
    then have "2 ^ b \<le> 2 * x ^ 2" using that(1) by simp
    then have "2 ^ b * 2 ^ b \<le> (2 * x ^ 2) * y ^ 2" using that(2) by (rule mult_mono) simp_all
    also have "\<dots> \<le> (2 * (x * y)) ^ 2" by (simp add: power2_eq_square)
    finally have "(2 ^ b) ^ 2 \<le> (2 * (x * y)) ^ 2" by (simp only: power2_eq_square)
    then have "2 ^ b \<le> 2 * (x * y)" by (rule power2_le_imp_le) simp
    then show ?thesis using that(2) by (simp add: power2_sum)
  qed
  have e: "(length (inorder (ANode l x h c r)) + 1) ^ 2 = (?l + ?r) ^ 2" by simp
  show ?case
  proof (cases "ht l \<le> ht r")
    case True
    have "2 * 2 ^ ht r \<le> (?l + ?r) ^ 2" using ANode.IH wf by (intro step[of "ht l"]) auto
    then show ?thesis unfolding e using True by simp
  next
    case False
    have "2 * 2 ^ ht l \<le> (?r + ?l) ^ 2" using ANode.IH wf by (intro step[of "ht r"]) auto
    then show ?thesis unfolding e using False by (simp add: add.commute)
  qed
qed simp

end
