(* ===== verification/Zset.thy ===== *)
theory Zset
  imports Str_Table Avl "HOL-Library.Char_ord" "HOL-Library.List_Lexorder" "HOL-Library.Product_Lexorder"
begin

text \<open>
  The sorted set (\<open>types/zset.h\<close>, \<open>types/zset.cpp\<close>): every member is one \<open>ZNode\<close>, linked into an AVL tree
  ordered by score and name and into a hash table keyed by name. A \<open>ZNode\<close> is the pair of its
  score and name, which is its payload in the tree; the table holds the name.

  Scores are elements of an arbitrary linear order: the code only compares them, and the commands
  that parse scores refuse the one double value that is not ordered.
\<close>

section \<open>Model\<close>

record 's zset =
  zroot :: "('s \<times> string) atree"
  zhmap :: "string hmap"

definition zset_empty :: "'s zset" where
  "zset_empty = \<lparr>zroot = ALeaf, zhmap = hmap_empty\<rparr>"

text \<open>\<open>memcmp\<close> on the first \<open>n\<close> bytes.\<close>

fun memcmp :: "string \<Rightarrow> string \<Rightarrow> nat \<Rightarrow> int" where
  "memcmp (x # xs) (y # ys) (Suc n) =
     (if byte_of x = byte_of y then memcmp xs ys n else int (byte_of x) - int (byte_of y))"
| "memcmp _ _ _ = 0"

text \<open>\<open>sizeof(ZNode) + len + sizeof(HNode *)\<close>.\<close>

definition znode_byte :: "string \<Rightarrow> nat" where
  "znode_byte name = 64 + length name + 8"

definition zless :: "'s::linorder \<times> string \<Rightarrow> 's \<Rightarrow> string \<Rightarrow> bool" where
  "zless zl score name =
     (if fst zl \<noteq> score then fst zl < score
      else let rv = memcmp (snd zl) name (min (length (snd zl)) (length name))
           in if rv \<noteq> 0 then rv < 0 else length (snd zl) < length name)"

definition zless_raw :: "'s::linorder \<times> string \<Rightarrow> 's \<Rightarrow> string \<Rightarrow> bool" where
  "zless_raw zr score name =
     (if fst zr \<noteq> score then score < fst zr
      else let rv = memcmp name (snd zr) (min (length name) (length (snd zr)))
           in if rv \<noteq> 0 then rv < 0 else length name < length (snd zr))"

text \<open>\<open>tree_insert\<close>: the empty link the new node goes to, then the repair.\<close>

fun tree_descend :: "'s::linorder \<times> string \<Rightarrow> ('s \<times> string) atree \<Rightarrow> ('s \<times> string) frame list \<Rightarrow>
    ('s \<times> string) frame list" where
  "tree_descend n ALeaf fs = fs"
| "tree_descend n (ANode l y h c r) fs =
     (if zless n (fst y) (snd y) then tree_descend n l (FLeft y h c r # fs)
      else tree_descend n r (FRight l y h c # fs))"

definition tree_insert :: "('s::linorder \<times> string) atree \<Rightarrow> 's \<times> string \<Rightarrow> ('s \<times> string) atree" where
  "tree_insert t n = avl_fix (avl_init n) (tree_descend n t [])"

text \<open>The tree node of a \<open>ZNode\<close> that is in the set.\<close>

definition znode_pos :: "'s zset \<Rightarrow> 's \<times> string \<Rightarrow> ('s \<times> string) apos" where
  "znode_pos z n = (case locate (\<lambda>y. y = n) (zroot z) [] of Some p \<Rightarrow> p | None \<Rightarrow> (ALeaf, []))"

definition zset_lookup :: "'s zset \<Rightarrow> string \<Rightarrow> 's zset \<times> ('s \<times> string) option" where
  "zset_lookup z name =
     (if zroot z = ALeaf then (z, None)
      else let (m, found) = sk_lookup id (zhmap z) name
           in (z\<lparr>zhmap := m\<rparr>,
               case found of
                 None \<Rightarrow> None
               | Some nm \<Rightarrow> find (\<lambda>p. snd p = nm) (inorder (zroot z))))"

definition zset_update :: "'s::linorder zset \<Rightarrow> 's \<times> string \<Rightarrow> 's \<Rightarrow> 's zset" where
  "zset_update z n score =
     (if fst n = score then z
      else let t = avl_del (znode_pos z n)
           in z\<lparr>zroot := tree_insert t (score, snd n)\<rparr>)"

definition zset_insert :: "'s::linorder zset \<Rightarrow> string \<Rightarrow> 's \<Rightarrow> 's zset \<times> bool" where
  "zset_insert z name score =
     (let (z, found) = zset_lookup z name
      in case found of
           Some n \<Rightarrow> (zset_update z n score, False)
         | None \<Rightarrow>
             (let m = sk_insert id (zhmap z) name;
                  m = m\<lparr>elem_bytes := elem_bytes m + znode_byte name\<rparr>
              in (z\<lparr>zhmap := m, zroot := tree_insert (zroot z) (score, name)\<rparr>, True)))"

definition zset_delete :: "'s zset \<Rightarrow> 's \<times> string \<Rightarrow> 's zset" where
  "zset_delete z n =
     (let (m, found) = sk_delete id (zhmap z) (snd n);
          t = avl_del (znode_pos z n)
      in z\<lparr>zroot := t, zhmap := m\<lparr>elem_bytes := elem_bytes m - znode_byte (snd n)\<rparr>\<rparr>)"

fun seekge :: "'s::linorder \<Rightarrow> string \<Rightarrow> ('s \<times> string) option \<Rightarrow> ('s \<times> string) atree \<Rightarrow> ('s \<times> string) option" where
  "seekge score name found ALeaf = found"
| "seekge score name found (ANode l y h c r) =
     (if zless y score name then seekge score name found r else seekge score name (Some y) l)"

definition zset_seekge :: "'s::linorder zset \<Rightarrow> 's \<Rightarrow> string \<Rightarrow> ('s \<times> string) option" where
  "zset_seekge z score name = seekge score name None (zroot z)"

fun seekle :: "'s::linorder \<Rightarrow> string \<Rightarrow> ('s \<times> string) option \<Rightarrow> ('s \<times> string) atree \<Rightarrow> ('s \<times> string) option" where
  "seekle score name found ALeaf = found"
| "seekle score name found (ANode l y h c r) =
     (if zless_raw y score name then seekle score name found l else seekle score name (Some y) r)"

definition zset_seekle :: "'s::linorder zset \<Rightarrow> 's \<Rightarrow> string \<Rightarrow> ('s \<times> string) option" where
  "zset_seekle z score name = seekle score name None (zroot z)"

text \<open>\<open>znode_offset\<close>: \<^const>\<open>None\<close> when the walk does not end.\<close>

definition znode_offset :: "'s zset \<Rightarrow> ('s \<times> string) option \<Rightarrow> int \<Rightarrow> ('s \<times> string) option option" where
  "znode_offset z node off =
     (case node of
        None \<Rightarrow> Some None
      | Some n \<Rightarrow> map_option (map_option (\<lambda>p. apay (fst p))) (avl_offset (znode_pos z n) off))"

fun count_below :: "'s::linorder \<Rightarrow> bool \<Rightarrow> int \<Rightarrow> ('s \<times> string) atree \<Rightarrow> int" where
  "count_below score inclusive n ALeaf = n"
| "count_below score inclusive n (ANode l y h c r) =
     (if fst y < score \<or> inclusive \<and> fst y = score
      then count_below score inclusive (n + uint (avl_cnt l) + 1) r
      else count_below score inclusive n l)"

definition zset_count_below :: "'s::linorder zset \<Rightarrow> 's \<Rightarrow> bool \<Rightarrow> int" where
  "zset_count_below z score inclusive = count_below score inclusive 0 (zroot z)"

fun at_rank :: "int \<Rightarrow> 'a atree \<Rightarrow> 'a option" where
  "at_rank rank ALeaf = None"
| "at_rank rank (ANode l y h c r) =
     (let left = uint (avl_cnt l)
      in if rank < left then at_rank rank l
         else if rank = left then Some y
         else at_rank (rank - (left + 1)) r)"

definition zset_at_rank :: "'s zset \<Rightarrow> int \<Rightarrow> ('s \<times> string) option" where
  "zset_at_rank z rank = at_rank rank (zroot z)"

text \<open>\<open>tree_dispose\<close> frees every node; the set is empty afterwards.\<close>

definition zset_clear :: "'s zset \<Rightarrow> 's zset" where
  "zset_clear z = \<lparr>zroot = ALeaf, zhmap = hm_clear (zhmap z)\<rparr>"

definition zset_rank :: "'s zset \<Rightarrow> 's \<times> string \<Rightarrow> int" where
  "zset_rank z n = avl_rank (znode_pos z n)"

section \<open>Invariant and abstraction\<close>

text \<open>
  The tree is a balanced search tree without repetition, the table holds exactly the names of the
  tree, and the byte counter is the sum of the charges.
\<close>

definition zset_wf :: "'s::linorder zset \<Rightarrow> bool" where
  "zset_wf z \<longleftrightarrow>
     avl_wf (zroot z) \<and> sorted_wrt (<) (inorder (zroot z)) \<and> distinct (map snd (inorder (zroot z))) \<and>
     sk_wf id (zhmap z) \<and> sk_payloads (zhmap z) = mset (map snd (inorder (zroot z))) \<and>
     elem_bytes (zhmap z) = (\<Sum>n \<in># sk_payloads (zhmap z). znode_byte n) \<and>
     length (inorder (zroot z)) < 2 ^ 32"

definition zset_abs :: "'s zset \<Rightarrow> string \<Rightarrow> 's option" where
  "zset_abs z = map_of (map (\<lambda>p. (snd p, fst p)) (inorder (zroot z)))"

text \<open>There is room for one more member.\<close>

definition zset_room :: "'s zset \<Rightarrow> bool" where
  "zset_room z \<longleftrightarrow> hm_room (zhmap z) \<and> Suc (length (inorder (zroot z))) < 2 ^ 32"

text \<open>The members \<open>zset_count_below\<close> counts.\<close>

definition score_below :: "'s::linorder \<Rightarrow> bool \<Rightarrow> 's \<times> string \<Rightarrow> bool" where
  "score_below score inclusive p \<longleftrightarrow> fst p < score \<or> inclusive \<and> fst p = score"

section \<open>The order\<close>

lemma byte_of_less: "byte_of x < byte_of y \<longleftrightarrow> x < y"
  by (simp add: byte_of_def less_char_def)

lemma byte_of_eq: "byte_of x = byte_of y \<longleftrightarrow> x = y"
  by (simp add: byte_of_def)

lemma memcmp_less:
  "(if memcmp xs ys (min (length xs) (length ys)) \<noteq> 0 then memcmp xs ys (min (length xs) (length ys)) < 0
    else length xs < length ys) \<longleftrightarrow> xs < ys"
proof (induction xs arbitrary: ys)
  case Nil
  then show ?case by (cases ys) auto
next
  case (Cons x xs)
  show ?case
  proof (cases ys)
    case ys: (Cons y ys')
    show ?thesis
      using Cons.IH[of ys'] byte_of_less[of x y] byte_of_eq[of x y] unfolding ys by (cases "x = y") auto
  qed simp
qed

lemma zless_iff: "zless z s n \<longleftrightarrow> z < (s, n)"
  using memcmp_less[of "snd z" n] by (cases z) (auto simp: zless_def Let_def less_prod_def)

lemma zless_raw_iff: "zless_raw z s n \<longleftrightarrow> (s, n) < z"
  using memcmp_less[of n "snd z"] by (cases z) (auto simp: zless_raw_def Let_def less_prod_def)

section \<open>Inserting into and deleting from the tree\<close>

lemma tree_descend_ok:
  "sorted_wrt (<) (inorder t) \<Longrightarrow>
   \<exists>bs as. before (tree_descend n t fs) = before fs @ bs \<and> after (tree_descend n t fs) = as @ after fs \<and>
     inorder t = bs @ as \<and> (\<forall>y \<in> set bs. \<not> n < y) \<and> (\<forall>y \<in> set as. n < y)"
proof (induction n t fs rule: tree_descend.induct)
  case (2 n l y h c r fs)
  have sl: "sorted_wrt (<) (inorder l)" "sorted_wrt (<) (inorder r)"
    "\<forall>a \<in> set (inorder l). a < y" "\<forall>b \<in> set (inorder r). y < b"
    using 2(3) by (auto simp: sorted_wrt_append)
  show ?case
  proof (cases "n < y")
    case True
    then obtain bs as where "before (tree_descend n l (FLeft y h c r # fs)) = before fs @ bs"
      "after (tree_descend n l (FLeft y h c r # fs)) = as @ y # inorder r @ after fs"
      "inorder l = bs @ as" "\<forall>y \<in> set bs. \<not> n < y" "\<forall>y \<in> set as. n < y"
      using 2(1)[OF _ sl(1)] by (auto simp: zless_iff)
    then show ?thesis
      using True sl(4) by (intro exI[of _ bs] exI[of _ "as @ y # inorder r"]) (auto simp: zless_iff)
  next
    case False
    then obtain bs as where "before (tree_descend n r (FRight l y h c # fs)) = before fs @ inorder l @ y # bs"
      "after (tree_descend n r (FRight l y h c # fs)) = as @ after fs"
      "inorder r = bs @ as" "\<forall>y \<in> set bs. \<not> n < y" "\<forall>y \<in> set as. n < y"
      using 2(2)[OF _ sl(2)] by (auto simp: zless_iff)
    then show ?thesis
      using False sl(3) by (intro exI[of _ "inorder l @ y # bs"] exI[of _ as]) (auto simp: zless_iff)
  qed
qed simp

lemma tree_descend_plug: "plug ALeaf (tree_descend n t fs) = plug t fs"
  by (induction n t fs rule: tree_descend.induct) auto

lemma tree_insert_ok:
  assumes "avl_wf t" "sorted_wrt (<) (inorder t)" "n \<notin> set (inorder t)" "Suc (length (inorder t)) < 2 ^ 32"
  shows "avl_wf (tree_insert t n) \<and> sorted_wrt (<) (inorder (tree_insert t n)) \<and>
         mset (inorder (tree_insert t n)) = add_mset n (mset (inorder t))"
proof -
  let ?fs = "tree_descend n t []"
  have p: "plug ALeaf ?fs = t" by (simp add: tree_descend_plug)
  obtain bs as where b: "before ?fs = bs" "after ?fs = as" "inorder t = bs @ as"
    "\<forall>y \<in> set bs. \<not> n < y" "\<forall>y \<in> set as. n < y"
    using tree_descend_ok[OF assms(2), of n "[]"] by auto
  have i: "avl_wf (tree_insert t n)" "inorder (tree_insert t n) = bs @ n # as"
    using avl_insert_ok[of ?fs n] assms(1,4) p b(1,2) by (auto simp: tree_insert_def)
  have "\<forall>y \<in> set bs. y < n" using b(3,4) assms(3) by (metis UnCI linorder_neqE set_append)
  then have "sorted_wrt (<) (bs @ n # as)" using assms(2) b(3,5) by (auto simp: sorted_wrt_append)
  then show ?thesis using i b(3) by simp
qed

text \<open>Deleting the node with a given payload.\<close>

lemma locate_delete:
  fixes t :: "'a::linorder atree"
  assumes "avl_wf t" "sorted_wrt (<) (inorder t)" "n \<in> set (inorder t)" "length (inorder t) < 2 ^ 32"
  obtains p where "locate (\<lambda>y. y = n) t [] = Some p" "fst p \<noteq> ALeaf" "apay (fst p) = n" "plug (fst p) (snd p) = t"
    "avl_wf (avl_del p)" "sorted_wrt (<) (inorder (avl_del p))"
    "mset (inorder t) = add_mset n (mset (inorder (avl_del p)))"
proof -
  from assms(3) obtain p where p: "locate (\<lambda>y. y = n) t [] = Some p"
    using locate_None[of "\<lambda>y. y = n" t "[]"] by (cases "locate (\<lambda>y. y = n) t []") auto
  obtain t' fs where tf: "p = (t', fs)" by fastforce
  have l: "plug t' fs = t" "t' \<noteq> ALeaf" "apay t' = n" using locate_ok[OF p[unfolded tf]] by auto
  then obtain a h c b where t': "t' = ANode a n h c b" by (cases t') auto
  have io: "inorder t = before fs @ inorder a @ n # inorder b @ after fs"
    using arg_cong[OF l(1), of inorder] t' by simp
  have d: "distinct (inorder t)"
    using assms(2) by (metis strict_sorted_iff)
  have k: "avl_wf (avl_del p)" "inorder (avl_del p) = before fs @ inorder a @ inorder b @ after fs"
    using avl_del_ok[of a n h c b fs] l assms(1,4) d unfolding tf t' by auto
  show ?thesis
    using k io l assms(2) tf by (intro that[of p]) (auto simp: p sorted_wrt_append)
qed

section \<open>The operations\<close>

lemma zset_wfD:
  assumes "zset_wf z"
  shows "avl_wf (zroot z)" "sorted_wrt (<) (inorder (zroot z))" "distinct (map snd (inorder (zroot z)))"
    "sk_wf id (zhmap z)" "sk_payloads (zhmap z) = mset (map snd (inorder (zroot z)))"
    "elem_bytes (zhmap z) = (\<Sum>n \<in># sk_payloads (zhmap z). znode_byte n)" "length (inorder (zroot z)) < 2 ^ 32"
  using assms by (auto simp: zset_wf_def)

lemma zset_abs_iff: "distinct (map snd (inorder (zroot z))) \<Longrightarrow>
    zset_abs z n = Some s \<longleftrightarrow> (s, n) \<in> set (inorder (zroot z))"
  unfolding zset_abs_def by (subst map_of_eq_Some_iff) (simp add: comp_def, force)

lemma zset_abs_None: "zset_abs z n = None \<longleftrightarrow> n \<notin> snd ` set (inorder (zroot z))"
  unfolding zset_abs_def map_of_eq_None_iff by force

lemma find_snd: "distinct (map snd xs) \<Longrightarrow> (s, n) \<in> set xs \<Longrightarrow> find (\<lambda>p. snd p = n) xs = Some (s, n)"
  by (induction xs) (auto, force)

lemma zset_lookup_ok:
  assumes "zset_wf z" "zset_lookup z name = (z', r)"
  shows "zset_wf z' \<and> zroot z' = zroot z \<and> zset_abs z' = zset_abs z \<and> zset_room z' = zset_room z \<and>
         r = map_option (\<lambda>s. (s, name)) (zset_abs z name)"
proof (cases "zroot z = ALeaf")
  case True
  then show ?thesis using assms by (auto simp: zset_lookup_def zset_abs_def)
next
  case False
  note w = zset_wfD[OF assms(1)]
  obtain m x where l: "sk_lookup id (zhmap z) name = (m, x)" by fastforce
  note ll = sk.lookup_law[OF w(4) l] sk_lookup_ok[OF w(4) l]
  have z': "z' = z\<lparr>zhmap := m\<rparr>" and r: "r = (case x of None \<Rightarrow> None | Some nm \<Rightarrow> find (\<lambda>p. snd p = nm) (inorder (zroot z)))"
    using assms(2) l False by (auto simp: zset_lookup_def)
  have wf': "zset_wf z'" using assms(1) ll by (auto simp: z' zset_wf_def)
  have "r = map_option (\<lambda>s. (s, name)) (zset_abs z name)"
  proof (cases "zset_abs z name")
    case None
    then have "sk_map id (zhmap z) name \<noteq> Some a" for a
      using sk.amap_key[OF w(4), of name a] w(5) unfolding zset_abs_None by auto
    then have "x = None" using ll(1) by (cases x) auto
    then show ?thesis using None r by simp
  next
    case (Some s)
    then have m: "(s, name) \<in> set (inorder (zroot z))" using zset_abs_iff[OF w(3)] by simp
    then have "name \<in># sk_payloads (zhmap z)" unfolding w(5) by force
    then have "sk_map id (zhmap z) name = Some name" using sk.amap_key[OF w(4), of name name] by simp
    then have "x = Some name" using ll(1) by simp
    then show ?thesis using Some r find_snd[OF w(3) m] by simp
  qed
  then show ?thesis using wf' z' ll by (simp add: zset_abs_def zset_room_def)
qed

lemma zset_update_ok:
  assumes "zset_wf z" "zset_abs z name = Some s"
  shows "zset_wf (zset_update z (s, name) score) \<and> zset_abs (zset_update z (s, name) score) = (zset_abs z)(name \<mapsto> score)"
proof (cases "s = score")
  case True
  then show ?thesis using assms by (auto simp: zset_update_def)
next
  case False
  note w = zset_wfD[OF assms(1)]
  let ?I = "inorder (zroot z)"
  have m: "(s, name) \<in> set ?I" using zset_abs_iff[OF w(3)] assms(2) by simp
  from locate_delete[OF w(1,2) m w(7)] obtain p where p: "locate (\<lambda>y. y = (s, name)) (zroot z) [] = Some p"
    "avl_wf (avl_del p)" "sorted_wrt (<) (inorder (avl_del p))"
    "mset ?I = add_mset (s, name) (mset (inorder (avl_del p)))" by metis
  have pos: "znode_pos z (s, name) = p" using p(1) by (simp add: znode_pos_def)
  have nm: "name \<notin> snd ` set (inorder (avl_del p))"
  proof -
    have "mset (map snd ?I) = add_mset name (mset (map snd (inorder (avl_del p))))" using p(4) by simp
    then have "name \<notin># mset (map snd (inorder (avl_del p)))"
      using w(3) by (metis distinct.simps(2) mset.simps(2) mset_eq_imp_distinct_iff set_mset_mset)
    then show ?thesis by simp
  qed
  have len: "length ?I = Suc (length (inorder (avl_del p)))" using arg_cong[OF p(4), of size] by simp
  let ?t = "tree_insert (avl_del p) (score, name)"
  have t: "avl_wf ?t" "sorted_wrt (<) (inorder ?t)" "mset (inorder ?t) = add_mset (score, name) (mset (inorder (avl_del p)))"
    using tree_insert_ok[OF p(2,3), of "(score, name)"] nm len w(7) by force+
  have ms: "mset (map snd (inorder ?t)) = mset (map snd ?I)" using t(3) p(4) by simp
  have upd: "zset_update z (s, name) score = z\<lparr>zroot := ?t\<rparr>" using False pos by (simp add: zset_update_def)
  have d: "distinct (map snd (inorder ?t))" using mset_eq_imp_distinct_iff[OF ms] w(3) by simp
  have "length (inorder ?t) = length ?I" using arg_cong[OF t(3), of size] len by simp
  then have wf: "zset_wf (zset_update z (s, name) score)"
    using t d ms w unfolding upd zset_wf_def by simp
  have "zset_abs (z\<lparr>zroot := ?t\<rparr>) = (zset_abs z)(name \<mapsto> score)"
  proof (rule map_eqI_Some)
    fix x v
    have a: "set (inorder ?t) = insert (score, name) (set (inorder (avl_del p)))" "set ?I = insert (s, name) (set (inorder (avl_del p)))"
      using arg_cong[OF t(3), of set_mset] arg_cong[OF p(4), of set_mset] by auto
    show "zset_abs (z\<lparr>zroot := ?t\<rparr>) x = Some v \<longleftrightarrow> ((zset_abs z)(name \<mapsto> score)) x = Some v"
      using zset_abs_iff[OF w(3), of x v] zset_abs_iff[of "z\<lparr>zroot := ?t\<rparr>" x v] d a nm by (auto simp: image_iff)
  qed
  then show ?thesis using wf upd by simp
qed

lemma zset_insert_ok:
  assumes "zset_wf z" "zset_room z" "zset_insert z name score = (z', new)"
  shows "zset_wf z' \<and> zset_abs z' = (zset_abs z)(name \<mapsto> score) \<and> (new \<longleftrightarrow> zset_abs z name = None)"
proof -
  obtain z1 r where l: "zset_lookup z name = (z1, r)" by fastforce
  note ll = zset_lookup_ok[OF assms(1) l]
  have wf1: "zset_wf z1" and abs1: "zset_abs z1 = zset_abs z" and room: "zset_room z1" using ll assms(2) by auto
  show ?thesis
  proof (cases "zset_abs z name")
    case (Some s)
    then have "z' = zset_update z1 (s, name) score" "\<not> new" using assms(3) l ll by (auto simp: zset_insert_def)
    then show ?thesis using zset_update_ok[OF wf1, of name s score] Some abs1 by simp
  next
    case None
    note w = zset_wfD[OF wf1]
    let ?I = "inorder (zroot z1)" and ?m = "sk_insert id (zhmap z1) name"
    let ?t = "tree_insert (zroot z1) (score, name)"
    have nm: "name \<notin> snd ` set ?I" using None zset_abs_None[of z1] abs1 by simp
    have z': "z' = z1\<lparr>zhmap := ?m\<lparr>elem_bytes := elem_bytes ?m + znode_byte name\<rparr>, zroot := ?t\<rparr>" "new"
      using assms(3) l ll None by (auto simp: zset_insert_def Let_def)
    have "sk_map id (zhmap z1) name \<noteq> Some a" for a using sk.amap_key[OF w(4), of name a] w(5) nm by auto
    then have "sk_map id (zhmap z1) (id name) = None" by (cases "sk_map id (zhmap z1) name") auto
    note i = sk_insert_ok[OF w(4) _ this] 
    have i': "sk_wf id ?m" "sk_payloads ?m = add_mset name (sk_payloads (zhmap z1))" "elem_bytes ?m = elem_bytes (zhmap z1)"
      using i room by (auto simp: zset_room_def)
    have t: "avl_wf ?t" "sorted_wrt (<) (inorder ?t)" "mset (inorder ?t) = add_mset (score, name) (mset ?I)"
      using tree_insert_ok[OF w(1,2), of "(score, name)"] nm room by (force simp: zset_room_def)+
    have ms: "mset (map snd (inorder ?t)) = mset (name # map snd ?I)" using t(3) by simp
    then have d: "distinct (map snd (inorder ?t))" using mset_eq_imp_distinct_iff[OF ms] w(3) nm by simp
    have "length (inorder ?t) = Suc (length ?I)" using arg_cong[OF t(3), of size] by simp
    then have "zset_wf z'" using t d ms i' w room unfolding z' zset_wf_def by (simp add: zset_room_def)
    moreover have "zset_abs z' = (zset_abs z1)(name \<mapsto> score)"
    proof (rule map_eqI_Some)
      fix x v
      have a: "set (inorder (zroot z')) = insert (score, name) (set ?I)"
        using arg_cong[OF t(3), of set_mset] z' by auto
      show "zset_abs z' x = Some v \<longleftrightarrow> ((zset_abs z1)(name \<mapsto> score)) x = Some v"
        using zset_abs_iff[OF w(3), of x v] zset_abs_iff[of z' x v] d a nm z' by (auto simp: image_iff)
    qed
    ultimately show ?thesis using None abs1 z' by simp
  qed
qed

lemma zset_delete_ok:
  assumes "zset_wf z" "zset_abs z name = Some s"
  shows "zset_wf (zset_delete z (s, name)) \<and> zset_abs (zset_delete z (s, name)) = (zset_abs z)(name := None) \<and>
         (hm_room (zhmap z) \<longrightarrow> hm_room (zhmap (zset_delete z (s, name)))) \<and>
         mset (inorder (zroot z)) = add_mset (s, name) (mset (inorder (zroot (zset_delete z (s, name)))))"
proof -
  note w = zset_wfD[OF assms(1)]
  let ?I = "inorder (zroot z)" and ?z = "zset_delete z (s, name)"
  have m: "(s, name) \<in> set ?I" using zset_abs_iff[OF w(3)] assms(2) by simp
  from locate_delete[OF w(1,2) m w(7)] obtain p where p: "locate (\<lambda>y. y = (s, name)) (zroot z) [] = Some p"
    "avl_wf (avl_del p)" "sorted_wrt (<) (inorder (avl_del p))"
    "mset ?I = add_mset (s, name) (mset (inorder (avl_del p)))" by metis
  have pos: "znode_pos z (s, name) = p" using p(1) by (simp add: znode_pos_def)
  obtain hm x where d: "sk_delete id (zhmap z) name = (hm, x)" by fastforce
  have nmI: "name \<in> snd ` set ?I" using m by force
  note dd = sk.delete_law[OF w(4) d] sk_delete_ok[OF w(4) d]
  have "sk_map id (zhmap z) name = Some name"
    using sk.amap_key[OF w(4), of name name] w(5) nmI by simp
  then have pl: "sk_payloads (zhmap z) = add_mset name (sk_payloads hm)" using dd(1) by simp
  have z: "?z = z\<lparr>zroot := avl_del p, zhmap := hm\<lparr>elem_bytes := elem_bytes hm - znode_byte name\<rparr>\<rparr>"
    using d pos by (simp add: zset_delete_def)
  have ms: "mset (map snd ?I) = mset (name # map snd (inorder (avl_del p)))" using p(4) by simp
  have dn: "distinct (map snd (inorder (avl_del p)))" "name \<notin> snd ` set (inorder (avl_del p))"
    using mset_eq_imp_distinct_iff[OF ms] w(3) by auto
  have pl2: "sk_payloads hm = mset (map snd (inorder (avl_del p)))" using pl w(5) ms by simp
  have len: "length ?I = Suc (length (inorder (avl_del p)))" using arg_cong[OF p(4), of size] by simp
  have wf: "zset_wf ?z" using p dn dd pl pl2 w len unfolding z zset_wf_def by simp
  have "zset_abs ?z = (zset_abs z)(name := None)"
  proof (rule map_eqI_Some)
    fix x v
    have a: "set ?I = insert (s, name) (set (inorder (avl_del p)))" using arg_cong[OF p(4), of set_mset] by auto
    show "zset_abs ?z x = Some v \<longleftrightarrow> ((zset_abs z)(name := None)) x = Some v"
      using zset_abs_iff[OF w(3), of x v] zset_abs_iff[of ?z x v] dn a z by (auto simp: image_iff)
  qed
  then show ?thesis using wf dd p(4) by (simp add: z)
qed

section \<open>Queries by score, by rank and by distance\<close>

lemma find_append: "find P (xs @ ys) = (case find P xs of None \<Rightarrow> find P ys | Some x \<Rightarrow> Some x)"
  by (induction xs) auto

lemma find_None_all: "(\<forall>x \<in> set xs. \<not> P x) \<Longrightarrow> find P xs = None"
  by (induction xs) auto

lemma seekge_ok:
  "sorted_wrt (<) (inorder t) \<Longrightarrow>
   seekge s n found t = (case find (\<lambda>x. (s, n) \<le> x) (inorder t) of Some x \<Rightarrow> Some x | None \<Rightarrow> found)"
proof (induction s n found t rule: seekge.induct)
  case (2 s n found l y h c r)
  have "\<forall>x \<in> set (inorder l). x < y" using 2(3) by (auto simp: sorted_wrt_append)
  then have "find (\<lambda>x. (s, n) \<le> x) (inorder l) = None" if "y < (s, n)"
    using that by (intro find_None_all) (meson leD less_trans)
  then show ?case using 2 by (auto simp: zless_iff find_append sorted_wrt_append not_le split: option.splits)
qed simp

lemma seekle_ok:
  "sorted_wrt (<) (inorder t) \<Longrightarrow>
   seekle s n found t = (case find (\<lambda>x. x \<le> (s, n)) (rev (inorder t)) of Some x \<Rightarrow> Some x | None \<Rightarrow> found)"
proof (induction s n found t rule: seekle.induct)
  case (2 s n found l y h c r)
  have "\<forall>x \<in> set (rev (inorder r)). y < x" using 2(3) by (auto simp: sorted_wrt_append)
  then have "find (\<lambda>x. x \<le> (s, n)) (rev (inorder r)) = None" if "(s, n) < y"
    using that by (intro find_None_all) (meson leD less_trans)
  then show ?case using 2 by (auto simp: zless_raw_iff find_append sorted_wrt_append not_le split: option.splits)
qed simp

lemma count_below_ok:
  "avl_wf t \<Longrightarrow> sorted_wrt (<) (inorder t) \<Longrightarrow>
   count_below s b n t = n + int (length (filter (score_below s b) (inorder t)))"
proof (induction s b n t rule: count_below.induct)
  case (2 s b n l y h c r)
  have w: "avl_wf l" "avl_wf r" "sorted_wrt (<) (inorder l)" "sorted_wrt (<) (inorder r)"
    "\<And>a. a \<in> set (inorder l) \<Longrightarrow> a < y" "\<And>a. a \<in> set (inorder r) \<Longrightarrow> y < a"
    using 2(3,4) by (auto simp: sorted_wrt_append)
  show ?case
  proof (cases "score_below s b y")
    case True
    then have "filter (score_below s b) (inorder l) = inorder l"
      using w(5) by (intro filter_True) (force simp: score_below_def less_prod_def)
    then show ?thesis using 2(1) True w by (simp add: uint_cnt flip: score_below_def)
  next
    case False
    then have "filter (score_below s b) (inorder r) = []"
      using w(6) by (intro filter_False) (force simp: score_below_def less_prod_def)
    then show ?thesis using 2(2) False w by (simp flip: score_below_def)
  qed
qed simp

lemma at_rank_ok:
  "avl_wf t \<Longrightarrow> at_rank k t = (if 0 \<le> k \<and> k < int (length (inorder t)) then Some (inorder t ! nat k) else None)"
proof (induction k t rule: at_rank.induct)
  case (2 k l y h c r)
  then have u: "uint (avl_cnt l) = int (length (inorder l))" by (simp add: uint_cnt)
  have w: "avl_wf l" "avl_wf r" using 2(3) by auto
  consider "k < int (length (inorder l))" | "k = int (length (inorder l))" | "int (length (inorder l)) < k" by linarith
  then show ?case
  proof cases
    case 1
    then show ?thesis using 2(1)[OF refl] w u by (auto simp: nth_append nat_less_iff)
  next
    case 2
    then show ?thesis using u by (auto simp: nth_append)
  next
    case 3
    have "nat k - length (inorder l) = Suc (nat (k - (int (length (inorder l)) + 1)))" using 3 by linarith
    then show ?thesis using 2(2)[OF refl] w u 3 by (auto simp: nth_append nat_less_iff)
  qed
qed simp

lemma znode_pos_ok:
  assumes "zset_wf z" "n \<in> set (inorder (zroot z))"
  obtains t fs where "znode_pos z n = (t, fs)" "plug t fs = zroot z" "t \<noteq> ALeaf" "apay t = n"
    "0 \<le> aidx (t, fs)" "aidx (t, fs) < int (length (inorder (zroot z)))" "inorder (zroot z) ! nat (aidx (t, fs)) = n"
proof -
  note w = zset_wfD[OF assms(1)]
  from locate_delete[OF w(1,2) assms(2) w(7)] obtain p where
    p: "locate (\<lambda>y. y = n) (zroot z) [] = Some p" "fst p \<noteq> ALeaf" "apay (fst p) = n" "plug (fst p) (snd p) = zroot z"
    by metis
  then show ?thesis
    using that[of "fst p" "snd p"] aidx_nth[of "fst p" "snd p"] by (simp add: znode_pos_def)
qed

lemma zset_rank_ok:
  assumes "zset_wf z" "n \<in> set (inorder (zroot z))"
  shows "0 \<le> zset_rank z n \<and> zset_rank z n < int (length (inorder (zroot z))) \<and>
         inorder (zroot z) ! nat (zset_rank z n) = n"
proof -
  note w = zset_wfD[OF assms(1)]
  obtain t fs where p: "znode_pos z n = (t, fs)" "plug t fs = zroot z" "t \<noteq> ALeaf"
    "0 \<le> aidx (t, fs)" "aidx (t, fs) < int (length (inorder (zroot z)))" "inorder (zroot z) ! nat (aidx (t, fs)) = n"
    using znode_pos_ok[OF assms] by metis
  then show ?thesis using avl_rank_ok[of t fs] w by (simp add: zset_rank_def)
qed

lemma znode_offset_ok:
  assumes "zset_wf z" "k < length (inorder (zroot z))"
  shows "znode_offset z (Some (inorder (zroot z) ! k)) d =
    Some (if 0 \<le> int k + d \<and> int k + d < int (length (inorder (zroot z)))
          then Some (inorder (zroot z) ! nat (int k + d)) else None)"
proof -
  note w = zset_wfD[OF assms(1)]
  let ?I = "inorder (zroot z)"
  have m: "?I ! k \<in> set ?I" using assms(2) by simp
  obtain t fs where p: "znode_pos z (?I ! k) = (t, fs)" "plug t fs = zroot z" "t \<noteq> ALeaf"
    "0 \<le> aidx (t, fs)" "aidx (t, fs) < int (length ?I)" "?I ! nat (aidx (t, fs)) = ?I ! k"
    using znode_pos_ok[OF assms(1) m] by metis
  have "distinct ?I" using w(3) by (simp add: distinct_map)
  then have ix: "aidx (t, fs) = int k" using p(4-6) assms(2) nth_eq_iff_index_eq[of ?I "nat (aidx (t, fs))" k] by auto
  note o = avl_offset_ok[of t fs d, unfolded p(2) ix, OF w(1) p(3) w(7)]
  show ?thesis
  proof (cases "0 \<le> int k + d \<and> int k + d < int (length ?I)")
    case True
    then obtain t' fs' where o': "avl_offset (t, fs) d = Some (Some (t', fs'))" "t' \<noteq> ALeaf" "plug t' fs' = zroot z"
      "aidx (t', fs') = int k + d" using o by auto
    then show ?thesis using True p(1) aidx_nth[OF o'(2), of fs'] by (simp add: znode_offset_def)
  next
    case False
    then have "avl_offset (t, fs) d = Some None" using o by (simp split: if_splits)
    then show ?thesis using False p(1) by (auto simp: znode_offset_def)
  qed
qed

section \<open>Runs and queries\<close>

lemma zset_empty_ok [simp]: "zset_wf \<lparr>zroot = ALeaf, zhmap = hmap_empty\<rparr>" "zset_abs \<lparr>zroot = ALeaf, zhmap = hmap_empty\<rparr> = Map.empty"
  using sk_empty_ok[of id] by (auto simp: zset_wf_def zset_abs_def hmap_empty_def)

lemma zset_card: "zset_wf z \<Longrightarrow> card (dom (zset_abs z)) = length (inorder (zroot z))"
proof -
  assume w: "zset_wf z"
  have "dom (zset_abs z) = set (map snd (inorder (zroot z)))"
    by (auto simp: zset_abs_def dom_map_of_conv_image_fst image_image)
  then show ?thesis using zset_wfD(3)[OF w] by (simp add: distinct_card del: set_map)
qed

lemma zset_finite: "finite (dom (zset_abs z))"
  by (simp add: zset_abs_def finite_dom_map_of)

lemma zset_room_card: "zset_wf z \<Longrightarrow> zset_room z \<longleftrightarrow> Suc (card (dom (zset_abs z))) < 2 ^ 32"
  using zset_wfD(5)[of z] by (auto simp: zset_room_def zset_card hm_room_payloads)

text \<open>A history of insertions and removals; a removal looks the name up first, as the commands do.\<close>

datatype 's zset_op = ZAdd string 's | ZRem string

definition zset_rem :: "'s::linorder zset \<Rightarrow> string \<Rightarrow> 's zset \<times> bool" where
  "zset_rem z name = (let (z, n) = zset_lookup z name in case n of None \<Rightarrow> (z, False) | Some n \<Rightarrow> (zset_delete z n, True))"

fun zset_run :: "'s::linorder zset_op list \<Rightarrow> 's zset \<Rightarrow> 's zset \<times> bool list" where
  "zset_run [] z = (z, [])"
| "zset_run (ZAdd n s # ops) z = (let (z, new) = zset_insert z n s; (z, rs) = zset_run ops z in (z, new # rs))"
| "zset_run (ZRem n # ops) z = (let (z, gone) = zset_rem z n; (z, rs) = zset_run ops z in (z, gone # rs))"

fun score_run :: "'s zset_op list \<Rightarrow> (string \<rightharpoonup> 's) \<Rightarrow> (string \<rightharpoonup> 's) \<times> bool list" where
  "score_run [] m = (m, [])"
| "score_run (ZAdd n s # ops) m = (let (m', rs) = score_run ops (m(n \<mapsto> s)) in (m', (m n = None) # rs))"
| "score_run (ZRem n # ops) m = (let (m', rs) = score_run ops (m(n := None)) in (m', (m n \<noteq> None) # rs))"

lemma zset_rem_ok:
  assumes "zset_wf z" "zset_rem z n = (z', gone)"
  shows "zset_wf z' \<and> zset_abs z' = (zset_abs z)(n := None) \<and> (gone \<longleftrightarrow> zset_abs z n \<noteq> None)"
proof -
  obtain z1 r where l: "zset_lookup z n = (z1, r)" by fastforce
  note ll = zset_lookup_ok[OF assms(1) l]
  then have w1: "zset_wf z1" and a1: "zset_abs z1 = zset_abs z" by auto
  show ?thesis
  proof (cases "zset_abs z n")
    case None
    then show ?thesis using ll assms(2) l by (auto simp: zset_rem_def)
  next
    case (Some s)
    then show ?thesis using ll assms(2) l zset_delete_ok[OF w1, of n s] a1 by (auto simp: zset_rem_def)
  qed
qed

lemma zset_run_ok:
  "zset_wf z \<Longrightarrow> card (dom (zset_abs z)) + length ops < 2 ^ 32 \<Longrightarrow> zset_run ops z = (z', rs) \<Longrightarrow>
   zset_wf z' \<and> score_run ops (zset_abs z) = (zset_abs z', rs)"
proof (induction ops z arbitrary: z' rs rule: zset_run.induct)
  case (2 n s ops z)
  obtain z1 new rs1 where r: "zset_insert z n s = (z1, new)" "zset_run ops z1 = (z', rs1)" "rs = new # rs1"
    using 2(4) by (auto split: prod.splits)
  have room: "zset_room z" using 2(3) zset_room_card[OF 2(2)] by simp
  note ok = zset_insert_ok[OF 2(2) room r(1)]
  have w: "zset_wf z1" and e: "zset_abs z1 = (zset_abs z)(n \<mapsto> s)" and nw: "new \<longleftrightarrow> zset_abs z n = None"
    using ok by simp_all
  have "card (dom (zset_abs z1)) + length ops < 2 ^ 32"
    using 2(3) zset_finite[of z] unfolding e by (simp add: card_insert_if)
  from 2(1)[OF r(1)[symmetric] refl w this r(2)] show ?case unfolding e by (simp add: nw r(3) fun_upd_def)
next
  case (3 n ops z)
  obtain z1 gone rs1 where r: "zset_rem z n = (z1, gone)" "zset_run ops z1 = (z', rs1)" "rs = gone # rs1"
    using 3(4) by (auto split: prod.splits)
  note ok = zset_rem_ok[OF 3(2) r(1)]
  have w: "zset_wf z1" and e: "zset_abs z1 = (zset_abs z)(n := None)" and g: "gone \<longleftrightarrow> zset_abs z n \<noteq> None"
    using ok by simp_all
  have "card (dom (zset_abs z1)) + length ops < 2 ^ 32"
    using 3(3) card_Diff1_le[of "dom (zset_abs z)" n] unfolding e by simp
  from 3(1)[OF r(1)[symmetric] refl w this r(2)] show ?case unfolding e by (simp add: g r(3) fun_upd_def)
qed simp

text \<open>
  C3: a sorted set under any history of \<open>zset_insert\<close> and \<open>zset_delete\<close> behaves as a finite map from
  names to scores. The tree and the table stay consistent: the tree is sorted by (score, name), it is a
  balanced AVL tree with correct cached heights and counts, of height at most twice the logarithm of
  the number of members, and the table holds the same names.
\<close>

theorem zset_run_refines_map:
  assumes "length ops < 2 ^ 32" "zset_run ops \<lparr>zroot = ALeaf, zhmap = hmap_empty\<rparr> = (z, rs)"
  shows "score_run ops Map.empty = (zset_abs z, rs) \<and> zset_wf z \<and>
         2 ^ ht (zroot z) \<le> (card (dom (zset_abs z)) + 1) ^ 2"
proof -
  have ok: "zset_wf z \<and> score_run ops Map.empty = (zset_abs z, rs)"
    using zset_run_ok[OF zset_empty_ok(1) _ assms(2)] assms(1) by simp
  then show ?thesis using avl_wf_size[OF zset_wfD(1), of z] by (simp add: zset_card)
qed

theorem zset_run_refines_map_witness:
  "\<exists>z :: int zset. zset_run [ZAdd ''a'' 3, ZAdd ''b'' 1, ZAdd ''a'' 2, ZRem ''c''] \<lparr>zroot = ALeaf, zhmap = hmap_empty\<rparr> =
     (z, [True, True, False, False]) \<and> zset_abs z = [''a'' \<mapsto> 2, ''b'' \<mapsto> 1] \<and> zset_wf z"
proof -
  let ?ops = "[ZAdd ''a'' 3, ZAdd ''b'' 1, ZAdd ''a'' 2, ZRem ''c''] :: int zset_op list"
  obtain z rs where r: "zset_run ?ops \<lparr>zroot = ALeaf, zhmap = hmap_empty\<rparr> = (z, rs)" by fastforce
  have "(Map.empty(''a'' \<mapsto> 3, ''b'' \<mapsto> 1, ''a'' \<mapsto> 2))(''c'' := None) = [''a'' \<mapsto> (2::int), ''b'' \<mapsto> 1]"
    by (auto simp: fun_eq_iff)
  then show ?thesis using zset_run_refines_map[OF _ r] r by (auto simp: fun_upd_def)
qed

text \<open>
  C6: on a well-formed sorted set the logarithmic walks compute what a scan of the sorted sequence of
  members does: \<open>zset_count_below\<close> counts the members below a score, \<open>zset_at_rank\<close> is the member at an
  index, \<open>avl_rank\<close> is the index of a member, \<open>zset_seekge\<close> the first member not below a pair and
  \<open>zset_seekle\<close> the last one not above it.
\<close>

theorem zset_queries_scan:
  assumes "zset_wf z"
  shows "zset_count_below z s b = int (length (filter (score_below s b) (inorder (zroot z)))) \<and>
    zset_at_rank z k = (if 0 \<le> k \<and> k < int (length (inorder (zroot z))) then Some (inorder (zroot z) ! nat k) else None) \<and>
    (\<forall>i < length (inorder (zroot z)). zset_rank z (inorder (zroot z) ! i) = int i) \<and>
    zset_seekge z s n = find (\<lambda>x. (s, n) \<le> x) (inorder (zroot z)) \<and>
    zset_seekle z s n = find (\<lambda>x. x \<le> (s, n)) (rev (inorder (zroot z)))"
proof (intro conjI allI impI)
  note w = zset_wfD[OF assms]
  show "zset_count_below z s b = int (length (filter (score_below s b) (inorder (zroot z))))"
    using count_below_ok[OF w(1,2), of s b 0] by (simp add: zset_count_below_def)
  show "zset_at_rank z k = (if 0 \<le> k \<and> k < int (length (inorder (zroot z))) then Some (inorder (zroot z) ! nat k) else None)"
    using at_rank_ok[OF w(1), of k] by (simp add: zset_at_rank_def)
  show "zset_seekge z s n = find (\<lambda>x. (s, n) \<le> x) (inorder (zroot z))"
    using seekge_ok[OF w(2), of s n None] by (simp add: zset_seekge_def split: option.splits)
  show "zset_seekle z s n = find (\<lambda>x. x \<le> (s, n)) (rev (inorder (zroot z)))"
    using seekle_ok[OF w(2), of s n None] by (simp add: zset_seekle_def split: option.splits)
  fix i assume i: "i < length (inorder (zroot z))"
  let ?k = "zset_rank z (inorder (zroot z) ! i)"
  have r: "0 \<le> ?k" "?k < int (length (inorder (zroot z)))" "inorder (zroot z) ! nat ?k = inorder (zroot z) ! i"
    using zset_rank_ok[OF assms, of "inorder (zroot z) ! i"] i by auto
  have "distinct (inorder (zroot z))" using w(3) by (simp add: distinct_map)
  then have "nat ?k = i" using r i by (intro iffD1[OF nth_eq_iff_index_eq, OF _ _ _ r(3)]) auto
  then show "?k = int i" using r(1) by simp
qed

theorem zset_queries_scan_witness:
  "\<exists>z :: int zset. zset_run [ZAdd ''a'' 3, ZAdd ''b'' 1] \<lparr>zroot = ALeaf, zhmap = hmap_empty\<rparr> = (z, [True, True]) \<and>
      inorder (zroot z) = [(1, ''b''), (3, ''a'')] \<and>
      zset_count_below z 3 False = 1 \<and> zset_at_rank z 1 = Some (3, ''a'') \<and> zset_rank z (3, ''a'') = 1"
proof -
  define z :: "int zset" where "z = fst (zset_run [ZAdd ''a'' 3, ZAdd ''b'' 1] \<lparr>zroot = ALeaf, zhmap = hmap_empty\<rparr>)"
  have r: "zset_run [ZAdd ''a'' 3, ZAdd ''b'' 1] \<lparr>zroot = ALeaf, zhmap = hmap_empty\<rparr> = (z, [True, True])"
    and i: "inorder (zroot z) = [(1, ''b''), (3, ''a'')]" unfolding z_def by code_simp+
  have w: "zset_wf z" using zset_run_ok[OF zset_empty_ok(1) _ r] by simp
  have q: "zset_count_below z 3 False = 1" "zset_at_rank z 1 = Some (3, ''a'')"
    "\<forall>j < 2. zset_rank z ([(1, ''b''), (3, ''a'')] ! j) = int j"
    using zset_queries_scan[OF w, of 3 False 1] i by (simp_all add: score_below_def)
  then have "zset_rank z (3, ''a'') = 1" by (auto dest: spec[of _ 1])
  then show ?thesis using r i q(1,2) by blast
qed

end
