(* ===== verification/Deque.thy ===== *)
theory Deque
  imports Prelude
begin

text \<open>
  The ring buffer behind the list type (\<open>ds/deque.h\<close>, \<open>ds/deque.cpp\<close>) and the two shifting helpers of
  \<open>commands.cpp\<close> that open and close a gap in the middle. The abstraction is the list of elements
  in logical order.
\<close>

section \<open>Model\<close>

record deque =
  buf :: "cstr list"
  dcap :: nat
  dhead :: nat
  dcount :: nat
  dbytes :: u64

definition deque_init :: deque where
  "deque_init = \<lparr>buf = [], dcap = 0, dhead = 0, dcount = 0, dbytes = 0\<rparr>"

definition deque_free :: "deque \<Rightarrow> deque" where
  "deque_free d = \<lparr>buf = [], dcap = 0, dhead = 0, dcount = 0, dbytes = 0\<rparr>"

definition deque_phys :: "deque \<Rightarrow> nat \<Rightarrow> nat" where
  "deque_phys d logical = (dhead d + logical) AND (dcap d - 1)"

text \<open>The new array: the live elements moved to its front, the other slots default constructed.\<close>

definition rebuild :: "deque \<Rightarrow> nat \<Rightarrow> deque" where
  "rebuild d new_cap =
     d\<lparr>buf := map (\<lambda>i. fst (str_move str_empty (buf d ! deque_phys d i))) [0..<dcount d] @
              replicate (new_cap - dcount d) str_empty,
       dcap := new_cap, dhead := 0\<rparr>"

definition deque_grow :: "deque \<Rightarrow> deque" where
  "deque_grow d = rebuild d (if dcap d = 0 then 8 else dcap d * 2)"

definition deque_maybe_shrink :: "deque \<Rightarrow> deque" where
  "deque_maybe_shrink d = rebuild d (dcap d div 2)"

definition deque_push_front :: "deque \<Rightarrow> string \<Rightarrow> deque" where
  "deque_push_front d val =
     (let d = (if dcount d = dcap d then deque_grow d else d);
          h = (dhead d + dcap d - 1) AND (dcap d - 1);
          s = str_assign (buf d ! h) val
      in d\<lparr>dhead := h, buf := (buf d)[h := s], dbytes := dbytes d + of_nat (scap s), dcount := dcount d + 1\<rparr>)"

definition deque_push_back :: "deque \<Rightarrow> string \<Rightarrow> deque" where
  "deque_push_back d val =
     (let d = (if dcount d = dcap d then deque_grow d else d);
          tl = deque_phys d (dcount d);
          s = str_assign (buf d ! tl) val
      in d\<lparr>buf := (buf d)[tl := s], dbytes := dbytes d + of_nat (scap s), dcount := dcount d + 1\<rparr>)"

text \<open>\<open>*out\<close> is the string the caller passes; the result is its value afterwards.\<close>

definition deque_pop_front :: "deque \<Rightarrow> cstr \<Rightarrow> deque \<times> cstr option" where
  "deque_pop_front d out =
     (if dcount d = 0 then (d, None)
      else let s = buf d ! dhead d;
               (out', s') = str_move out s;
               d' = d\<lparr>dbytes := dbytes d - of_nat (scap s), buf := (buf d)[dhead d := str_clear s'],
                      dhead := (dhead d + 1) AND (dcap d - 1), dcount := dcount d - 1\<rparr>
           in (if 8 < dcap d' \<and> dcount d' < dcap d' div 4 then deque_maybe_shrink d' else d', Some out'))"

definition deque_pop_back :: "deque \<Rightarrow> cstr \<Rightarrow> deque \<times> cstr option" where
  "deque_pop_back d out =
     (if dcount d = 0 then (d, None)
      else let tl = deque_phys d (dcount d - 1);
               s = buf d ! tl;
               (out', s') = str_move out s;
               d' = d\<lparr>dbytes := dbytes d - of_nat (scap s), buf := (buf d)[tl := str_clear s'], dcount := dcount d - 1\<rparr>
           in (if 8 < dcap d' \<and> dcount d' < dcap d' div 4 then deque_maybe_shrink d' else d', Some out'))"

definition deque_get :: "deque \<Rightarrow> nat \<Rightarrow> cstr option" where
  "deque_get d idx = (if dcount d \<le> idx then None else Some (buf d ! deque_phys d idx))"

definition deque_normalize :: "deque \<Rightarrow> int \<Rightarrow> int" where
  "deque_normalize d idx = (if idx < 0 then idx + int (dcount d) else idx)"

text \<open>\<open>buf[to] = std::move(buf[from])\<close>.\<close>

definition slot_move :: "cstr list \<Rightarrow> nat \<Rightarrow> nat \<Rightarrow> cstr list" where
  "slot_move b from to =
     (let (t, s) = str_move (b ! to) (b ! from) in (b[to := t])[from := s])"

definition deque_open_gap :: "deque \<Rightarrow> nat \<Rightarrow> deque" where
  "deque_open_gap d idx =
     (let d' =
        (if idx < dcount d div 2 then
           let m = dcap d - 1;
               new_head = (dhead d + dcap d - 1) AND m
           in d\<lparr>buf := fold (\<lambda>i b. slot_move b ((new_head + 1 + i) AND m) ((new_head + i) AND m)) [0..<idx] (buf d),
                dhead := new_head\<rparr>
         else d\<lparr>buf := fold (\<lambda>i b. slot_move b (deque_phys d (i - 1)) (deque_phys d i))
                        (rev [Suc idx..<Suc (dcount d)]) (buf d)\<rparr>)
      in d'\<lparr>dcount := dcount d' + 1\<rparr>)"

definition deque_close_gap :: "deque \<Rightarrow> nat \<Rightarrow> deque" where
  "deque_close_gap d idx =
     (let d' =
        (if idx < dcount d div 2 then
           let b = fold (\<lambda>i b. slot_move b (deque_phys d (i - 1)) (deque_phys d i)) (rev [1..<Suc idx]) (buf d)
           in d\<lparr>buf := b[dhead d := str_clear (b ! dhead d)], dhead := (dhead d + 1) AND (dcap d - 1)\<rparr>
         else
           let b = fold (\<lambda>i b. slot_move b (deque_phys d (i + 1)) (deque_phys d i)) [idx..<dcount d - 1] (buf d);
               last = deque_phys d (dcount d - 1)
           in d\<lparr>buf := b[last := str_clear (b ! last)]\<rparr>)
      in d'\<lparr>dcount := dcount d' - 1\<rparr>)"

section \<open>Invariant and abstraction\<close>

definition deque_ok :: "deque \<Rightarrow> bool" where
  "deque_ok d \<longleftrightarrow>
     dcap d = 0 \<and> buf d = [] \<and> dcount d = 0 \<and> dhead d = 0 \<or>
     (\<exists>k \<ge> 3. dcap d = 2 ^ k) \<and> length (buf d) = dcap d \<and> dhead d < dcap d \<and> dcount d \<le> dcap d"

definition deque_elems :: "deque \<Rightarrow> cstr list" where
  "deque_elems d = map (\<lambda>i. buf d ! deque_phys d i) [0..<dcount d]"

definition deque_list :: "deque \<Rightarrow> string list" where
  "deque_list d = map chars (deque_elems d)"

text \<open>The byte counter is the sum of the capacities of the live elements.\<close>

definition deque_bytes_ok :: "deque \<Rightarrow> bool" where
  "deque_bytes_ok d \<longleftrightarrow> dbytes d = of_nat (sum_list (map scap (deque_elems d)))"

section \<open>The interface\<close>

text \<open>What the list commands rely on: a queue with two ends over a sequence of strings.\<close>

locale two_ended =
  fixes ok :: "'q \<Rightarrow> bool"
    and seq :: "'q \<Rightarrow> string list"
    and push_front :: "'q \<Rightarrow> string \<Rightarrow> 'q"
    and push_back :: "'q \<Rightarrow> string \<Rightarrow> 'q"
    and pop_front :: "'q \<Rightarrow> 'q \<times> string option"
    and pop_back :: "'q \<Rightarrow> 'q \<times> string option"
  assumes push_front_law: "ok q \<Longrightarrow> ok (push_front q x) \<and> seq (push_front q x) = x # seq q"
    and push_back_law: "ok q \<Longrightarrow> ok (push_back q x) \<and> seq (push_back q x) = seq q @ [x]"
    and pop_front_law: "ok q \<Longrightarrow> pop_front q = (q', r) \<Longrightarrow>
          ok q' \<and> (case seq q of [] \<Rightarrow> r = None \<and> seq q' = [] | x # xs \<Rightarrow> r = Some x \<and> seq q' = xs)"
    and pop_back_law: "ok q \<Longrightarrow> pop_back q = (q', r) \<Longrightarrow>
          ok q' \<and> (if seq q = [] then r = None \<and> seq q' = [] else r = Some (last (seq q)) \<and> seq q' = butlast (seq q))"
begin

lemma push_back_all: "ok q \<Longrightarrow> ok (foldl push_back q xs) \<and> seq (foldl push_back q xs) = seq q @ xs"
  by (induction xs arbitrary: q) (auto simp: push_back_law)

lemma push_front_all: "ok q \<Longrightarrow> ok (foldl push_front q xs) \<and> seq (foldl push_front q xs) = rev xs @ seq q"
  by (induction xs arbitrary: q) (auto simp: push_front_law)

lemma push_pop_front: "ok q \<Longrightarrow> pop_front (push_front q x) = (q', r) \<Longrightarrow> ok q' \<and> r = Some x \<and> seq q' = seq q"
  using pop_front_law[of "push_front q x" q' r] push_front_law[of q x] by auto

lemma push_pop_back: "ok q \<Longrightarrow> pop_back (push_back q x) = (q', r) \<Longrightarrow> ok q' \<and> r = Some x \<and> seq q' = seq q"
  using pop_back_law[of "push_back q x" q' r] push_back_law[of q x] by auto

lemma queue_order: "ok q \<Longrightarrow> seq q = [] \<Longrightarrow> pop_front (foldl push_back q (x # xs)) = (q', r) \<Longrightarrow> r = Some x \<and> seq q' = xs"
  using pop_front_law[of "foldl push_back q (x # xs)" q' r] push_back_all[of q "x # xs"] by auto

end

text \<open>A pop into a fresh string.\<close>

definition pop_front_str :: "deque \<Rightarrow> deque \<times> string option" where
  "pop_front_str d = (let (d', r) = deque_pop_front d str_empty in (d', map_option chars r))"

definition pop_back_str :: "deque \<Rightarrow> deque \<times> string option" where
  "pop_back_str d = (let (d', r) = deque_pop_back d str_empty in (d', map_option chars r))"

section \<open>Ring arithmetic and the ends\<close>

lemma and_mask_mod: "n AND (2 ^ k - Suc 0) = n mod 2 ^ k" for n :: nat
  using take_bit_eq_mask[of k n] by (simp add: take_bit_eq_mod mask_eq_exp_minus_1)

lemma deque_phys_mod: "deque_ok d \<Longrightarrow> 0 < dcap d \<Longrightarrow> deque_phys d i = (dhead d + i) mod dcap d"
  by (auto simp: deque_ok_def deque_phys_def and_mask_mod)

lemma deque_mask_mod: "deque_ok d \<Longrightarrow> 0 < dcap d \<Longrightarrow> x AND (dcap d - 1) = x mod dcap d"
  by (auto simp: deque_ok_def and_mask_mod)

lemma ring_inj: "i < c \<Longrightarrow> j < c \<Longrightarrow> (h + i) mod c = (h + j) mod c \<Longrightarrow> i = j" for c :: nat
proof -
  assume "i < c" "j < c" "(h + i) mod c = (h + j) mod c"
  moreover from this obtain p q where "i + c * p = j + c * q" by (auto simp: nat_mod_eq_iff)
  ultimately show ?thesis using mod_mult_self2[of i c p] mod_mult_self2[of j c q] by simp
qed

lemma str_move_fresh [simp]: "fst (str_move str_empty s) = s"
  by (cases s) (auto simp: str_move_def str_new_def SSO_def)

lemma deque_elems_len [simp]: "length (deque_elems d) = dcount d"
  by (simp add: deque_elems_def)

lemma deque_elems_nth: "i < dcount d \<Longrightarrow> deque_elems d ! i = buf d ! deque_phys d i"
  by (simp add: deque_elems_def)

lemma rebuild_ok:
  assumes "deque_ok d" "3 \<le> k" "dcount d \<le> 2 ^ k"
  shows "deque_ok (rebuild d (2 ^ k)) \<and> deque_elems (rebuild d (2 ^ k)) = deque_elems d"
proof -
  let ?d = "rebuild d (2 ^ k)"
  have ok: "deque_ok ?d" using assms by (auto simp: deque_ok_def rebuild_def)
  have c: "dcap ?d = 2 ^ k" "dhead ?d = 0" "dcount ?d = dcount d" by (simp_all add: rebuild_def)
  have "deque_elems ?d = deque_elems d"
  proof (rule nth_equalityI)
    fix i assume "i < length (deque_elems ?d)"
    then have i: "i < dcount d" by (simp add: c)
    then have "deque_phys ?d i = i" using deque_phys_mod[OF ok] c assms(3) by simp
    then show "deque_elems ?d ! i = deque_elems d ! i" using i by (simp add: deque_elems_nth c) (simp add: rebuild_def nth_append)
  qed (simp add: c)
  then show ?thesis using ok by simp
qed

lemma deque_grow_ok:
  assumes "deque_ok d" "dcount d = dcap d"
  shows "deque_ok (deque_grow d) \<and> deque_elems (deque_grow d) = deque_elems d \<and>
         dcount (deque_grow d) < dcap (deque_grow d) \<and> dbytes (deque_grow d) = dbytes d"
proof (cases "dcap d = 0")
  case True
  have "(8 :: nat) = 2 ^ 3" by simp
  then show ?thesis using rebuild_ok[OF assms(1), of 3] True assms(2) by (simp add: deque_grow_def) (simp add: rebuild_def)
next
  case False
  then obtain k where k: "3 \<le> k" "dcap d = 2 ^ k" using assms(1) by (auto simp: deque_ok_def)
  have "deque_grow d = rebuild d (2 ^ Suc k)" using k False by (simp add: deque_grow_def mult.commute)
  then show ?thesis using rebuild_ok[OF assms(1), of "Suc k"] k False assms(2) by simp (simp add: rebuild_def)
qed

lemma deque_room:
  assumes "deque_ok d" "d' = (if dcount d = dcap d then deque_grow d else d)"
  shows "deque_ok d' \<and> deque_elems d' = deque_elems d \<and> dcount d' < dcap d' \<and> dbytes d' = dbytes d \<and> dcount d' = dcount d"
proof -
  have "deque_ok d' \<and> deque_elems d' = deque_elems d \<and> dcount d' < dcap d' \<and> dbytes d' = dbytes d"
    using assms deque_grow_ok[of d] by (auto simp: deque_ok_def)
  then show ?thesis by (metis deque_elems_len)
qed

text \<open>Writing one slot of an allocated ring.\<close>

lemma deque_push_back_ok:
  assumes "deque_ok d"
  obtains s where "deque_ok (deque_push_back d v)" "deque_elems (deque_push_back d v) = deque_elems d @ [s]"
    "chars s = v" "dbytes (deque_push_back d v) = dbytes d + of_nat (scap s)"
proof -
  define e where "e = (if dcount d = dcap d then deque_grow d else d)"
  note r = deque_room[OF assms e_def]
  have cap: "0 < dcap e" using r by auto
  let ?p = "deque_phys e (dcount e)" and ?d = "deque_push_back d v"
  let ?s = "str_assign (buf e ! ?p) v"
  have d: "?d = e\<lparr>buf := (buf e)[?p := ?s], dbytes := dbytes e + of_nat (scap ?s), dcount := dcount e + 1\<rparr>"
    by (simp add: deque_push_back_def e_def Let_def)
  have ok: "deque_ok ?d" using r cap unfolding d by (auto simp: deque_ok_def)
  have ph: "deque_phys ?d i = (dhead e + i) mod dcap e" "deque_phys e i = (dhead e + i) mod dcap e" for i
    using deque_phys_mod[OF ok] deque_phys_mod[of e] r cap d by auto
  have len: "length (buf e) = dcap e" using r cap by (auto simp: deque_ok_def)
  have "deque_elems ?d = deque_elems e @ [?s]"
  proof (rule nth_equalityI)
    fix i assume "i < length (deque_elems ?d)"
    then have i: "i < Suc (dcount e)" by (simp add: d)
    have "(dhead e + i) mod dcap e \<noteq> (dhead e + dcount e) mod dcap e" if "i < dcount e"
      using ring_inj[of i "dcap e" "dcount e" "dhead e"] that r by auto
    then show "deque_elems ?d ! i = (deque_elems e @ [?s]) ! i"
      using i ph len cap by (cases "i < dcount e") (auto simp: deque_elems_nth d nth_append less_Suc_eq)
  qed (simp add: d)
  then show ?thesis using that[of ?s] ok r d by simp
qed

lemma deque_push_front_ok:
  assumes "deque_ok d"
  obtains s where "deque_ok (deque_push_front d v)" "deque_elems (deque_push_front d v) = s # deque_elems d"
    "chars s = v" "dbytes (deque_push_front d v) = dbytes d + of_nat (scap s)"
proof -
  define e where "e = (if dcount d = dcap d then deque_grow d else d)"
  note r = deque_room[OF assms e_def]
  have cap: "0 < dcap e" using r by auto
  let ?h = "(dhead e + dcap e - 1) AND (dcap e - 1)" and ?d = "deque_push_front d v"
  let ?s = "str_assign (buf e ! ?h) v"
  have h: "?h = (dhead e + dcap e - 1) mod dcap e" using deque_mask_mod[of e] r cap by simp
  then have hl: "?h < dcap e" using cap by simp
  have d: "?d = e\<lparr>dhead := ?h, buf := (buf e)[?h := ?s], dbytes := dbytes e + of_nat (scap ?s), dcount := dcount e + 1\<rparr>"
    by (simp add: deque_push_front_def e_def Let_def)
  have ok: "deque_ok ?d" using r cap hl unfolding d by (auto simp: deque_ok_def)
  have ph: "deque_phys ?d i = (?h + i) mod dcap e" "deque_phys e i = (dhead e + i) mod dcap e" for i
    using deque_phys_mod[OF ok] deque_phys_mod[of e] r cap d by auto
  have sh: "(?h + Suc i) mod dcap e = (dhead e + i) mod dcap e" for i
  proof -
    have "(?h + Suc i) mod dcap e = (dhead e + dcap e - 1 + Suc i) mod dcap e" unfolding h by (rule mod_add_left_eq)
    also have "dhead e + dcap e - 1 + Suc i = dhead e + i + dcap e" using cap by simp
    finally show ?thesis by simp
  qed
  have len: "length (buf e) = dcap e" using r cap by (auto simp: deque_ok_def)
  have "deque_elems ?d = ?s # deque_elems e"
  proof (rule nth_equalityI)
    fix i assume "i < length (deque_elems ?d)"
    then have i: "i < Suc (dcount e)" by (simp add: d)
    show "deque_elems ?d ! i = (?s # deque_elems e) ! i"
    proof (cases i)
      case 0
      then show ?thesis using ph(1)[of 0] hl len by (simp add: deque_elems_nth d)
    next
      case (Suc j)
      then have j: "j < dcount e" using i by simp
      have "(?h + Suc j) mod dcap e \<noteq> (?h + 0) mod dcap e"
        using ring_inj[of "Suc j" "dcap e" 0 ?h] j r by auto
      then show ?thesis using Suc j ph(1)[of i] sh[of j] ph(2)[of j] hl len i by (simp add: deque_elems_nth d)
    qed
  qed (simp add: d)
  then show ?thesis using that[of ?s] ok r d by simp
qed

lemma deque_shrink_ok:
  assumes "deque_ok d"
  defines "e \<equiv> (if 8 < dcap d \<and> dcount d < dcap d div 4 then deque_maybe_shrink d else d)"
  shows "deque_ok e \<and> deque_elems e = deque_elems d \<and> dbytes e = dbytes d"
proof (cases "8 < dcap d \<and> dcount d < dcap d div 4")
  case True
  then obtain k where k: "3 \<le> k" "dcap d = 2 ^ k" using assms(1) by (auto simp: deque_ok_def)
  have "(2 :: nat) ^ 3 < 2 ^ k" using True k by simp
  then have k4: "3 < k" using power_less_imp_less_exp[of 2 3 k] by simp
  then obtain j where j: "k = Suc j" "3 \<le> j" by (cases k) auto
  have "dcap d div 2 = 2 ^ j" using k j by simp
  then have "e = rebuild d (2 ^ j)" using True by (simp add: e_def deque_maybe_shrink_def)
  moreover have "dcount d \<le> 2 ^ j" using True \<open>dcap d div 2 = 2 ^ j\<close> by auto
  moreover have "dbytes (rebuild d n) = dbytes d" for n by (simp add: rebuild_def)
  ultimately show ?thesis using rebuild_ok[OF assms(1) j(2)] by simp
qed (use assms in auto)

lemma deque_pop_front_ok:
  assumes "deque_ok d" "0 < dcount d"
  obtains d' o' where "deque_pop_front d out = (d', Some o')" "deque_ok d'"
    "deque_elems d' = tl (deque_elems d)" "chars o' = chars (hd (deque_elems d))"
    "dbytes d' = dbytes d - of_nat (scap (hd (deque_elems d)))"
proof -
  have cap: "0 < dcap d" using assms by (auto simp: deque_ok_def)
  let ?s = "buf d ! dhead d"
  let ?e = "d\<lparr>dbytes := dbytes d - of_nat (scap ?s), buf := (buf d)[dhead d := str_clear (snd (str_move out ?s))],
              dhead := (dhead d + 1) AND (dcap d - 1), dcount := dcount d - 1\<rparr>"
  let ?d' = "if 8 < dcap ?e \<and> dcount ?e < dcap ?e div 4 then deque_maybe_shrink ?e else ?e"
  have run: "deque_pop_front d out = (?d', Some (fst (str_move out ?s)))"
    using assms(2) by (simp add: deque_pop_front_def Let_def split_beta)
  have h: "(dhead d + 1) AND (dcap d - 1) = (dhead d + 1) mod dcap d" using deque_mask_mod[OF assms(1) cap] .
  have ok: "deque_ok ?e" using assms cap unfolding h by (auto simp: deque_ok_def)
  have ph: "deque_phys ?e i = ((dhead d + 1) mod dcap d + i) mod dcap d" "deque_phys d i = (dhead d + i) mod dcap d" for i
    using deque_phys_mod[OF ok] deque_phys_mod[OF assms(1)] cap h by auto
  have sh: "((dhead d + 1) mod dcap d + i) mod dcap d = (dhead d + Suc i) mod dcap d" for i
    by (simp add: mod_add_left_eq)
  have hd: "hd (deque_elems d) = ?s"
  proof -
    have "dhead d < dcap d" using assms by (auto simp: deque_ok_def)
    moreover have "deque_elems d \<noteq> []" using assms(2) by (metis deque_elems_len length_greater_0_conv)
    ultimately show ?thesis using assms(2) ph(2)[of 0] by (simp add: hd_conv_nth deque_elems_nth)
  qed
  have "deque_elems ?e = tl (deque_elems d)"
  proof (rule nth_equalityI)
    fix i assume "i < length (deque_elems ?e)"
    then have i: "Suc i < dcount d" by simp
    then have "(dhead d + Suc i) mod dcap d \<noteq> (dhead d + 0) mod dcap d"
      using ring_inj[of "Suc i" "dcap d" 0 "dhead d"] assms by (auto simp: deque_ok_def)
    then have "dhead d \<noteq> (dhead d + Suc i) mod dcap d" using assms by (auto simp: deque_ok_def)
    then show "deque_elems ?e ! i = tl (deque_elems d) ! i"
      using i ph sh by (simp add: deque_elems_nth nth_tl)
  qed simp
  then show ?thesis
    using that[OF run] deque_shrink_ok[OF ok] hd by simp
qed

lemma deque_pop_back_ok:
  assumes "deque_ok d" "0 < dcount d"
  obtains d' o' where "deque_pop_back d out = (d', Some o')" "deque_ok d'"
    "deque_elems d' = butlast (deque_elems d)" "chars o' = chars (last (deque_elems d))"
    "dbytes d' = dbytes d - of_nat (scap (last (deque_elems d)))"
proof -
  have cap: "0 < dcap d" using assms by (auto simp: deque_ok_def)
  let ?p = "deque_phys d (dcount d - 1)"
  let ?s = "buf d ! ?p"
  let ?e = "d\<lparr>dbytes := dbytes d - of_nat (scap ?s), buf := (buf d)[?p := str_clear (snd (str_move out ?s))],
              dcount := dcount d - 1\<rparr>"
  let ?d' = "if 8 < dcap ?e \<and> dcount ?e < dcap ?e div 4 then deque_maybe_shrink ?e else ?e"
  have run: "deque_pop_back d out = (?d', Some (fst (str_move out ?s)))"
    using assms(2) by (simp add: deque_pop_back_def Let_def split_beta)
  have ok: "deque_ok ?e" using assms cap by (auto simp: deque_ok_def)
  have ph: "deque_phys ?e i = (dhead d + i) mod dcap d" "deque_phys d i = (dhead d + i) mod dcap d" for i
    using deque_phys_mod[OF ok] deque_phys_mod[OF assms(1)] cap by auto
  have last: "last (deque_elems d) = ?s"
    using assms by (subst last_conv_nth) (auto simp: deque_elems_nth simp flip: length_greater_0_conv)
  have "deque_elems ?e = butlast (deque_elems d)"
  proof (rule nth_equalityI)
    fix i assume "i < length (deque_elems ?e)"
    then have i: "i < dcount d - 1" by simp
    then have "(dhead d + i) mod dcap d \<noteq> (dhead d + (dcount d - 1)) mod dcap d"
    proof -
      have "dcount d \<le> dcap d" using assms(1) by (auto simp: deque_ok_def)
      then show ?thesis using ring_inj[of i "dcap d" "dcount d - 1" "dhead d"] i by linarith
    qed
    then show "deque_elems ?e ! i = butlast (deque_elems d) ! i"
      using i ph by (simp add: deque_elems_nth nth_butlast)
  qed simp
  then show ?thesis using that[OF run] deque_shrink_ok[OF ok] last by simp
qed

lemma deque_get_ok: "deque_get d i = (if i < dcount d then Some (deque_elems d ! i) else None)"
  by (simp add: deque_get_def deque_elems_nth)

section \<open>Shifting\<close>

lemma slot_move_len [simp]: "length (slot_move b f t) = length b"
  by (simp add: slot_move_def split_beta Let_def)

lemma slot_move_chars:
  "f \<noteq> t \<Longrightarrow> f < length b \<Longrightarrow> t < length b \<Longrightarrow>
   chars (slot_move b f t ! k) = (if k = t then chars (b ! f) else if k = f then [] else chars (b ! k))"
  by (auto simp: slot_move_def split_beta Let_def nth_list_update)

lemma ring_ne: "i < c \<Longrightarrow> j < c \<Longrightarrow> i \<noteq> j \<Longrightarrow> (h + i) mod c \<noteq> (h + j) mod c" for c :: nat
  using ring_inj by blast

lemma slot_move_ring:
  assumes "length b = c" "f < c" "t < c" "f \<noteq> t" "j < c"
  shows "chars (slot_move b ((h + f) mod c) ((h + t) mod c) ! ((h + j) mod c)) =
    (if j = t then chars (b ! ((h + f) mod c)) else if j = f then [] else chars (b ! ((h + j) mod c)))"
proof -
  have "(h + f) mod c < length b" "(h + t) mod c < length b" using assms(1,2) by auto
  moreover have "(h + j) mod c = (h + t) mod c \<longleftrightarrow> j = t" "(h + j) mod c = (h + f) mod c \<longleftrightarrow> j = f"
    using ring_inj[of j c t h] ring_inj[of j c f h] assms by blast+
  ultimately show ?thesis using slot_move_chars[OF ring_ne[OF assms(2-4)]] by presburger
qed

text \<open>Elements above a gap move down by one.\<close>

lemma shift_down:
  assumes "length b = c"
  shows "a \<le> m \<Longrightarrow> m < c \<Longrightarrow> b' = fold (\<lambda>i b. slot_move b ((h + Suc i) mod c) ((h + i) mod c)) [a..<m] b \<Longrightarrow>
    length b' = c \<and> (\<forall>j < c. chars (b' ! ((h + j) mod c)) =
      (if a \<le> j \<and> j < m then chars (b ! ((h + Suc j) mod c))
       else if j = m \<and> a < m then [] else chars (b ! ((h + j) mod c))))"
proof (induction m arbitrary: b')
  case (Suc m)
  show ?case
  proof (cases "a = Suc m")
    case False
    then have am: "a \<le> m" using Suc.prems by simp
    let ?b = "fold (\<lambda>i b. slot_move b ((h + Suc i) mod c) ((h + i) mod c)) [a..<m] b"
    have b': "b' = slot_move ?b ((h + Suc m) mod c) ((h + m) mod c)" using Suc.prems(3) am by simp
    have ih: "length ?b = c" "\<And>j. j < c \<Longrightarrow> chars (?b ! ((h + j) mod c)) =
      (if a \<le> j \<and> j < m then chars (b ! ((h + Suc j) mod c))
       else if j = m \<and> a < m then [] else chars (b ! ((h + j) mod c)))"
      using Suc.IH[OF am _ refl] Suc.prems(2) by auto
    have lt: "m < c" "Suc m < c" using Suc.prems(2) by auto
    have ch: "chars (b' ! ((h + j) mod c)) =
        (if j = m then chars (?b ! ((h + Suc m) mod c)) else if j = Suc m then [] else chars (?b ! ((h + j) mod c)))"
      if "j < c" for j
      unfolding b' by (rule slot_move_ring[OF ih(1) lt(2,1) _ that]) simp
    have "chars (b' ! ((h + j) mod c)) =
      (if a \<le> j \<and> j < Suc m then chars (b ! ((h + Suc j) mod c))
       else if j = Suc m \<and> a < Suc m then [] else chars (b ! ((h + j) mod c)))" if "j < c" for j
      using ch[OF that] ih(2)[OF that] ih(2)[OF lt(2)] am by (cases "j = m"; cases "j = Suc m") auto
    then show ?thesis using b' ih(1) by simp
  qed (use Suc.prems assms in auto)
qed (use assms in auto)

text \<open>Elements below a gap move up by one.\<close>

lemma shift_up:
  "length b = c \<Longrightarrow> a \<le> m \<Longrightarrow> m < c \<Longrightarrow>
    b' = fold (\<lambda>i b. slot_move b ((h + (i - 1)) mod c) ((h + i) mod c)) (rev [Suc a..<Suc m]) b \<Longrightarrow>
    length b' = c \<and> (\<forall>j < c. chars (b' ! ((h + j) mod c)) =
      (if a < j \<and> j \<le> m then chars (b ! ((h + (j - 1)) mod c))
       else if j = a \<and> a < m then [] else chars (b ! ((h + j) mod c))))"
proof (induction m arbitrary: b b')
  case (Suc m)
  show ?case
  proof (cases "a = Suc m")
    case False
    then have am: "a \<le> m" using Suc.prems by simp
    let ?b = "slot_move b ((h + m) mod c) ((h + Suc m) mod c)"
    have lt: "m < c" "Suc m < c" using Suc.prems(3) by auto
    have b': "b' = fold (\<lambda>i b. slot_move b ((h + (i - 1)) mod c) ((h + i) mod c)) (rev [Suc a..<Suc m]) ?b"
      using Suc.prems(4) am by simp
    have ch: "chars (?b ! ((h + j) mod c)) =
        (if j = Suc m then chars (b ! ((h + m) mod c)) else if j = m then [] else chars (b ! ((h + j) mod c)))"
      if "j < c" for j
      by (rule slot_move_ring[OF Suc.prems(1) lt _ that]) simp
    have ih: "length b' = c" "\<And>j. j < c \<Longrightarrow> chars (b' ! ((h + j) mod c)) =
      (if a < j \<and> j \<le> m then chars (?b ! ((h + (j - 1)) mod c))
       else if j = a \<and> a < m then [] else chars (?b ! ((h + j) mod c)))"
      using Suc.IH[OF _ am lt(1) b'] Suc.prems(1) by auto
    have "chars (b' ! ((h + j) mod c)) =
      (if a < j \<and> j \<le> Suc m then chars (b ! ((h + (j - 1)) mod c))
       else if j = a \<and> a < Suc m then [] else chars (b ! ((h + j) mod c)))" if "j < c" for j
    proof -
      have "j - 1 < c" using that by simp
      then show ?thesis using ch[OF that] ch[of "j - 1"] ih(2)[OF that] am by (cases "j = Suc m"; cases "j = m") auto
    qed
    then show ?thesis using ih(1) by simp
  qed (use Suc.prems in auto)
qed simp

lemma deque_list_nth: "deque_ok d \<Longrightarrow> i < dcount d \<Longrightarrow> deque_list d ! i = chars (buf d ! ((dhead d + i) mod dcap d))"
proof -
  assume "deque_ok d" "i < dcount d"
  moreover from this have "0 < dcap d" by (auto simp: deque_ok_def)
  ultimately show ?thesis by (simp add: deque_list_def deque_elems_nth deque_phys_mod)
qed

lemma deque_list_len [simp]: "length (deque_list d) = dcount d"
  by (simp add: deque_list_def)

lemma head_back: "0 < c \<Longrightarrow> ((h + c - 1) mod c + Suc i) mod c = (h + i) mod c" for c :: nat
proof -
  assume c: "0 < c"
  have "((h + c - 1) mod c + Suc i) mod c = (h + c - 1 + Suc i) mod c" by (rule mod_add_left_eq)
  also have "h + c - 1 + Suc i = h + i + c" using c by simp
  finally show ?thesis by simp
qed

lemma deque_open_gap_ok:
  assumes ok: "deque_ok d" and n: "dcount d < dcap d" and i: "idx \<le> dcount d"
  defines "e \<equiv> deque_open_gap d idx"
  shows "deque_ok e" "dcount e = Suc (dcount d)" "dbytes e = dbytes d"
    and "\<And>j. j < idx \<Longrightarrow> deque_list e ! j = deque_list d ! j"
    and "\<And>j. idx \<le> j \<Longrightarrow> j < dcount d \<Longrightarrow> deque_list e ! Suc j = deque_list d ! j"
proof -
  let ?c = "dcap d" and ?h = "dhead d" and ?b = "buf d"
  have c: "0 < ?c" and len: "length ?b = ?c" using ok n by (auto simp: deque_ok_def)
  have mk: "x AND (?c - Suc 0) = x mod ?c" for x using deque_mask_mod[OF ok c] by simp
  have ph: "deque_phys d x = (?h + x) mod ?c" for x using deque_phys_mod[OF ok c] .
  have "deque_ok e \<and> dcount e = Suc (dcount d) \<and> dbytes e = dbytes d \<and> (\<forall>j < idx. deque_list e ! j = deque_list d ! j) \<and>
    (\<forall>j. idx \<le> j \<and> j < dcount d \<longrightarrow> deque_list e ! Suc j = deque_list d ! j)"
  proof (cases "idx < dcount d div 2")
    case True
    let ?n = "(?h + ?c - 1) mod ?c"
    define b' where "b' = fold (\<lambda>i b. slot_move b ((?n + Suc i) mod ?c) ((?n + i) mod ?c)) [0..<idx] ?b"
    have e: "e = d\<lparr>buf := b', dhead := ?n, dcount := dcount d + 1\<rparr>"
      using True by (simp add: e_def deque_open_gap_def Let_def mk b'_def)
    have s: "length b' = ?c" "\<And>j. j < ?c \<Longrightarrow> chars (b' ! ((?n + j) mod ?c)) =
      (if j < idx then chars (?b ! ((?n + Suc j) mod ?c))
       else if j = idx \<and> 0 < idx then [] else chars (?b ! ((?n + j) mod ?c)))"
      using shift_down[OF len _ _ b'_def] i n by auto
    have oke: "deque_ok e" using ok n c s(1) unfolding e by (auto simp: deque_ok_def)
    have le: "deque_list e ! j = chars (b' ! ((?n + j) mod ?c))" if "j \<le> dcount d" for j
      using deque_list_nth[OF oke, of j] that by (simp add: e)
    show ?thesis using oke le s(2) i n head_back[OF c, of ?h] deque_list_nth[OF ok]
      by (auto simp: e simp del: mod_add_self2)
  next
    case False
    define b' where "b' = fold (\<lambda>i b. slot_move b ((?h + (i - 1)) mod ?c) ((?h + i) mod ?c)) (rev [Suc idx..<Suc (dcount d)]) ?b"
    have e: "e = d\<lparr>buf := b', dcount := dcount d + 1\<rparr>"
      using False by (simp add: e_def deque_open_gap_def Let_def ph b'_def)
    have s: "length b' = ?c" "\<And>j. j < ?c \<Longrightarrow> chars (b' ! ((?h + j) mod ?c)) =
      (if idx < j \<and> j \<le> dcount d then chars (?b ! ((?h + (j - 1)) mod ?c))
       else if j = idx \<and> idx < dcount d then [] else chars (?b ! ((?h + j) mod ?c)))"
      using shift_up[OF len i n b'_def] by auto
    have oke: "deque_ok e" using ok n c s(1) unfolding e by (auto simp: deque_ok_def)
    have le: "deque_list e ! j = chars (b' ! ((?h + j) mod ?c))" if "j \<le> dcount d" for j
      using deque_list_nth[OF oke, of j] that by (simp add: e)
    show ?thesis using oke le s(2) i n deque_list_nth[OF ok] by (auto simp: e)
  qed
  then show "deque_ok e" "dcount e = Suc (dcount d)" "dbytes e = dbytes d"
    "\<And>j. j < idx \<Longrightarrow> deque_list e ! j = deque_list d ! j"
    "\<And>j. idx \<le> j \<Longrightarrow> j < dcount d \<Longrightarrow> deque_list e ! Suc j = deque_list d ! j" by auto
qed

lemma deque_close_gap_ok:
  assumes ok: "deque_ok d" and i: "idx < dcount d"
  defines "e \<equiv> deque_close_gap d idx"
  shows "deque_ok e \<and> dbytes e = dbytes d \<and> deque_list e = take idx (deque_list d) @ drop (Suc idx) (deque_list d)"
proof -
  let ?c = "dcap d" and ?h = "dhead d" and ?b = "buf d"
  have c: "0 < ?c" and len: "length ?b = ?c" and n: "dcount d \<le> ?c" using ok i by (auto simp: deque_ok_def)
  have mk: "x AND (?c - Suc 0) = x mod ?c" for x using deque_mask_mod[OF ok c] by simp
  have ph: "deque_phys d x = (?h + x) mod ?c" for x using deque_phys_mod[OF ok c] .
  have "deque_ok e \<and> dbytes e = dbytes d \<and> dcount e = dcount d - 1 \<and>
    (\<forall>j < dcount d - 1. deque_list e ! j = (if j < idx then deque_list d ! j else deque_list d ! Suc j))"
  proof (cases "idx < dcount d div 2")
    case True
    let ?n = "(?h + 1) mod ?c"
    define b' where "b' = fold (\<lambda>i b. slot_move b ((?h + (i - 1)) mod ?c) ((?h + i) mod ?c)) (rev [Suc 0..<Suc idx]) ?b"
    define b2 where "b2 = b'[?h := str_clear (b' ! ?h)]"
    have e: "e = d\<lparr>buf := b2, dhead := ?n, dcount := dcount d - 1\<rparr>"
      using True by (simp add: e_def deque_close_gap_def Let_def ph mk b'_def b2_def del: upt_Suc)
    have s: "length b' = ?c" "\<And>j. j < ?c \<Longrightarrow> chars (b' ! ((?h + j) mod ?c)) =
      (if 0 < j \<and> j \<le> idx then chars (?b ! ((?h + (j - 1)) mod ?c))
       else if j = 0 \<and> 0 < idx then [] else chars (?b ! ((?h + j) mod ?c)))"
      using shift_up[OF len _ _ b'_def] i n by auto
    have hlt: "?h < ?c" using ok c by (auto simp: deque_ok_def)
    have oke: "deque_ok e" using ok n c s(1) i unfolding e b2_def by (auto simp: deque_ok_def)
    have le: "deque_list e ! j = chars (b' ! ((?h + Suc j) mod ?c))" if "j < dcount d - 1" for j
    proof -
      have "(?h + Suc j) mod ?c \<noteq> (?h + 0) mod ?c" using that n by (intro ring_ne) auto
      then have ne: "?h \<noteq> (?h + Suc j) mod ?c" using hlt by auto
      have "(?n + j) mod ?c = (?h + Suc j) mod ?c" by (simp add: mod_add_left_eq)
      then show ?thesis using deque_list_nth[OF oke, of j] that ne by (simp add: e b2_def)
    qed
    have "deque_list e ! j = (if j < idx then deque_list d ! j else deque_list d ! Suc j)" if "j < dcount d - 1" for j
      using le[OF that] s(2)[of "Suc j"] that n deque_list_nth[OF ok, of j] deque_list_nth[OF ok, of "Suc j"] by auto
    then show ?thesis using oke by (auto simp: e)
  next
    case False
    define b' where "b' = fold (\<lambda>i b. slot_move b ((?h + Suc i) mod ?c) ((?h + i) mod ?c)) [idx..<dcount d - 1] ?b"
    let ?l = "(?h + (dcount d - 1)) mod ?c"
    define b2 where "b2 = b'[?l := str_clear (b' ! ?l)]"
    have e: "e = d\<lparr>buf := b2, dcount := dcount d - 1\<rparr>"
      using False by (simp add: e_def deque_close_gap_def Let_def ph b'_def b2_def)
    have s: "length b' = ?c" "\<And>j. j < ?c \<Longrightarrow> chars (b' ! ((?h + j) mod ?c)) =
      (if idx \<le> j \<and> j < dcount d - 1 then chars (?b ! ((?h + Suc j) mod ?c))
       else if j = dcount d - 1 \<and> idx < dcount d - 1 then [] else chars (?b ! ((?h + j) mod ?c)))"
      using shift_down[OF len _ _ b'_def] i n by auto
    have oke: "deque_ok e" using ok n c s(1) i unfolding e b2_def by (auto simp: deque_ok_def)
    have le: "deque_list e ! j = chars (b' ! ((?h + j) mod ?c))" if "j < dcount d - 1" for j
    proof -
      have "?l \<noteq> (?h + j) mod ?c" using that n by (intro ring_ne) auto
      then show ?thesis using deque_list_nth[OF oke, of j] that by (simp add: e b2_def)
    qed
    show ?thesis using oke le s(2) i n deque_list_nth[OF ok] by (auto simp: e)
  qed
  moreover from this have "deque_list e = take idx (deque_list d) @ drop (Suc idx) (deque_list d)"
    using i by (intro nth_equalityI) (auto simp: nth_append min_def)
  ultimately show ?thesis by blast
qed

section \<open>The ring buffer implements the interface\<close>

text \<open>The invariant with exact accounting.\<close>

definition deque_wf :: "deque \<Rightarrow> bool" where
  "deque_wf d \<longleftrightarrow> deque_ok d \<and> deque_bytes_ok d"

lemma deque_init_wf: "deque_wf deque_init \<and> deque_list deque_init = []"
  by (simp add: deque_wf_def deque_ok_def deque_bytes_ok_def deque_init_def deque_list_def deque_elems_def)

lemma deque_pop_front_empty: "dcount d = 0 \<Longrightarrow> pop_front_str d = (d, None)"
  by (simp add: pop_front_str_def deque_pop_front_def)

lemma deque_pop_back_empty: "dcount d = 0 \<Longrightarrow> pop_back_str d = (d, None)"
  by (simp add: pop_back_str_def deque_pop_back_def)

lemma pop_front_str_ok:
  assumes "deque_ok d" "deque_elems d = x # xs"
  obtains d' where "pop_front_str d = (d', Some (chars x))" "deque_ok d'" "deque_elems d' = xs" "dbytes d' = dbytes d - of_nat (scap x)"
proof -
  have "0 < dcount d" using assms(2) deque_elems_len[of d] by simp
  from deque_pop_front_ok[OF assms(1) this, of str_empty] obtain d' o' where
    "deque_pop_front d str_empty = (d', Some o')" "deque_ok d'" "deque_elems d' = tl (deque_elems d)"
    "chars o' = chars (hd (deque_elems d))" "dbytes d' = dbytes d - of_nat (scap (hd (deque_elems d)))" .
  then show ?thesis using that[of d'] assms(2) by (simp add: pop_front_str_def)
qed

lemma pop_back_str_ok:
  assumes "deque_ok d" "deque_elems d = xs @ [x]"
  obtains d' where "pop_back_str d = (d', Some (chars x))" "deque_ok d'" "deque_elems d' = xs" "dbytes d' = dbytes d - of_nat (scap x)"
proof -
  have "0 < dcount d" using assms(2) deque_elems_len[of d] by simp
  from deque_pop_back_ok[OF assms(1) this, of str_empty] obtain d' o' where
    "deque_pop_back d str_empty = (d', Some o')" "deque_ok d'" "deque_elems d' = butlast (deque_elems d)"
    "chars o' = chars (last (deque_elems d))" "dbytes d' = dbytes d - of_nat (scap (last (deque_elems d)))" .
  then show ?thesis using that[of d'] assms(2) by (simp add: pop_back_str_def)
qed

interpretation dq: two_ended deque_wf deque_list deque_push_front deque_push_back pop_front_str pop_back_str
proof unfold_locales
  fix q x assume w: "deque_wf q"
  then have ok: "deque_ok q" by (simp add: deque_wf_def)
  obtain s where "deque_ok (deque_push_front q x)" "deque_elems (deque_push_front q x) = s # deque_elems q"
    "chars s = x" "dbytes (deque_push_front q x) = dbytes q + of_nat (scap s)" by (rule deque_push_front_ok[OF ok])
  then show "deque_wf (deque_push_front q x) \<and> deque_list (deque_push_front q x) = x # deque_list q"
    using w by (simp add: deque_wf_def deque_bytes_ok_def deque_list_def)
  obtain s where "deque_ok (deque_push_back q x)" "deque_elems (deque_push_back q x) = deque_elems q @ [s]"
    "chars s = x" "dbytes (deque_push_back q x) = dbytes q + of_nat (scap s)" by (rule deque_push_back_ok[OF ok])
  then show "deque_wf (deque_push_back q x) \<and> deque_list (deque_push_back q x) = deque_list q @ [x]"
    using w by (simp add: deque_wf_def deque_bytes_ok_def deque_list_def)
next
  fix q q' r assume w: "deque_wf q"
  then have ok: "deque_ok q" by (simp add: deque_wf_def)
  show "deque_wf q' \<and> (case deque_list q of [] \<Rightarrow> r = None \<and> deque_list q' = [] | x # xs \<Rightarrow> r = Some x \<and> deque_list q' = xs)"
    if p: "pop_front_str q = (q', r)"
  proof (cases "deque_elems q")
    case Nil
    then have "dcount q = 0" using deque_elems_len[of q] by simp
    then show ?thesis using p w Nil by (simp add: deque_pop_front_empty deque_list_def)
  next
    case (Cons x xs)
    from pop_front_str_ok[OF ok this] show ?thesis
      using p w Cons by (auto simp: deque_wf_def deque_bytes_ok_def deque_list_def)
  qed
  show "deque_wf q' \<and> (if deque_list q = [] then r = None \<and> deque_list q' = []
      else r = Some (last (deque_list q)) \<and> deque_list q' = butlast (deque_list q))"
    if p: "pop_back_str q = (q', r)"
  proof (cases "deque_elems q" rule: rev_cases)
    case Nil
    then have "dcount q = 0" using deque_elems_len[of q] by simp
    then show ?thesis using p w Nil by (simp add: deque_pop_back_empty deque_list_def)
  next
    case (snoc xs x)
    from pop_back_str_ok[OF ok this] show ?thesis
      using p w snoc by (auto simp: deque_wf_def deque_bytes_ok_def deque_list_def)
  qed
qed

section \<open>Runs\<close>

text \<open>A history of pushes and pops, on the ring buffer and on a list.\<close>

datatype deque_op = PushFront string | PushBack string | PopFront | PopBack

fun deque_run :: "deque_op list \<Rightarrow> deque \<Rightarrow> deque \<times> string option list" where
  "deque_run [] d = (d, [])"
| "deque_run (PushFront s # ops) d = deque_run ops (deque_push_front d s)"
| "deque_run (PushBack s # ops) d = deque_run ops (deque_push_back d s)"
| "deque_run (PopFront # ops) d = (let (d, r) = pop_front_str d; (d, rs) = deque_run ops d in (d, r # rs))"
| "deque_run (PopBack # ops) d = (let (d, r) = pop_back_str d; (d, rs) = deque_run ops d in (d, r # rs))"

fun list_run :: "deque_op list \<Rightarrow> string list \<Rightarrow> string list \<times> string option list" where
  "list_run [] xs = (xs, [])"
| "list_run (PushFront s # ops) xs = list_run ops (s # xs)"
| "list_run (PushBack s # ops) xs = list_run ops (xs @ [s])"
| "list_run (PopFront # ops) xs =
     (let (ys, rs) = list_run ops (tl xs) in (ys, (if xs = [] then None else Some (hd xs)) # rs))"
| "list_run (PopBack # ops) xs =
     (let (ys, rs) = list_run ops (butlast xs) in (ys, (if xs = [] then None else Some (last xs)) # rs))"

lemma deque_run_ok:
  "deque_wf d \<Longrightarrow> deque_run ops d = (d', rs) \<Longrightarrow> deque_wf d' \<and> list_run ops (deque_list d) = (deque_list d', rs)"
proof (induction ops d arbitrary: d' rs rule: deque_run.induct)
  case (2 s ops d)
  then show ?case using dq.push_front_law[OF 2(2), of s] by simp
next
  case (3 s ops d)
  then show ?case using dq.push_back_law[OF 3(2), of s] by simp
next
  case (4 ops d)
  obtain d1 r rs1 where s: "pop_front_str d = (d1, r)" "deque_run ops d1 = (d', rs1)" "rs = r # rs1"
    using 4(3) by (auto split: prod.splits)
  show ?case using dq.pop_front_law[OF 4(2) s(1)] 4(1)[OF s(1)[symmetric] refl _ s(2)] s
    by (auto split: list.splits)
next
  case (5 ops d)
  obtain d1 r rs1 where s: "pop_back_str d = (d1, r)" "deque_run ops d1 = (d', rs1)" "rs = r # rs1"
    using 5(3) by (auto split: prod.splits)
  show ?case using dq.pop_back_law[OF 5(2) s(1)] 5(1)[OF s(1)[symmetric] refl _ s(2)] s
    by (auto split: if_splits)
qed simp

text \<open>
  C7: the ring buffer under any history of pushes and pops at both ends, through every growth, shrink and
  wrap-around of the indices, returns what a list returns, ends with the elements of the list, and keeps
  the byte counter equal to the sum of the capacities of the live strings.
\<close>

theorem deque_run_refines_list:
  "case deque_run ops deque_init of (d, rs) \<Rightarrow> list_run ops [] = (deque_list d, rs) \<and> deque_wf d"
  using deque_run_ok[OF conjunct1[OF deque_init_wf]] deque_init_wf by (auto split: prod.splits)

end
