(* ===== verification/Buffer.thy ===== *)
theory Buffer
  imports Prelude
begin

text \<open>
  The connection buffer (\<open>protocol/buffer.h\<close>, \<open>protocol/buffer.cpp\<close>): one allocated block and the
  window of it that holds unread data. The four pointers are the block and two offsets into it.
  Memory fresh from the allocator is filled with zero bytes here; no operation reads it before
  writing it. The abstraction is the string in the window.
\<close>

section \<open>Model\<close>

record buffer =
  mem :: string
  data_begin :: nat
  data_end :: nat

abbreviation NUL :: char where "NUL \<equiv> CHR 0x00"

definition buf_create :: "nat \<Rightarrow> buffer" where
  "buf_create capacity = \<lparr>mem = replicate capacity NUL, data_begin = 0, data_end = 0\<rparr>"

definition buf_size :: "buffer \<Rightarrow> nat" where
  "buf_size b = data_end b - data_begin b"

definition buf_data :: "buffer \<Rightarrow> string" where
  "buf_data b = drop (data_begin b) (mem b)"

text \<open>\<open>memmove\<close> and \<open>memcpy\<close> of \<open>src\<close> to an offset of a block.\<close>

definition mem_put :: "string \<Rightarrow> nat \<Rightarrow> string \<Rightarrow> string" where
  "mem_put m off src = take off m @ src @ drop (off + length src) m"

text \<open>The loop that doubles the capacity; both callers start it from a positive capacity.\<close>

function grow_cap :: "nat \<Rightarrow> nat \<Rightarrow> nat" where
  "grow_cap cap need = (if 0 < cap \<and> cap < need then grow_cap (cap * 2) need else cap)"
  by pat_completeness auto
termination
  by (relation "measure (\<lambda>(cap, need). need - cap)") auto

declare grow_cap.simps [simp del]

text \<open>Sliding the data to the front of the block.\<close>

definition buf_slide :: "buffer \<Rightarrow> buffer" where
  "buf_slide b =
     (let n = buf_size b
      in b\<lparr>mem := mem_put (mem b) 0 (take n (buf_data b)), data_begin := 0, data_end := n\<rparr>)"

definition buf_append :: "buffer \<Rightarrow> string \<Rightarrow> buffer" where
  "buf_append b data =
     (let len = length data;
          data_size = buf_size b;
          b = (if length (mem b) - data_end b < len then
                 let b = buf_slide b
                 in if length (mem b) - data_end b < len then
                      let old_cap = length (mem b);
                          new_cap = grow_cap (if old_cap \<noteq> 0 then old_cap * 2 else 64) (data_size + len)
                      in \<lparr>mem = mem_put (replicate new_cap NUL) 0 (take data_size (buf_data b)),
                          data_begin = 0, data_end = data_size\<rparr>
                    else b
               else b)
      in b\<lparr>mem := mem_put (mem b) (data_end b) data, data_end := data_end b + len\<rparr>)"

text \<open>The little-endian bytes of a fixed-width integer, as the host stores it.\<close>

fun le_bytes :: "nat \<Rightarrow> nat \<Rightarrow> string" where
  "le_bytes 0 v = []"
| "le_bytes (Suc n) v = char_of (v mod 256) # le_bytes n (v div 256)"

definition buf_append_u64 :: "buffer \<Rightarrow> u64 \<Rightarrow> buffer" where
  "buf_append_u64 b v = buf_append b (le_bytes 8 (unat v))"

definition buf_append_str :: "buffer \<Rightarrow> string \<Rightarrow> u32 \<Rightarrow> buffer" where
  "buf_append_str b str len = buf_append (buf_append b (le_bytes 4 (unat len))) (take (unat len) str)"

definition buf_consume :: "buffer \<Rightarrow> nat \<Rightarrow> buffer" where
  "buf_consume b n =
     (let b = b\<lparr>data_begin := data_begin b + n\<rparr>
      in if data_begin b = data_end b then b\<lparr>data_begin := 0, data_end := 0\<rparr>
         else if length (mem b) div 2 \<le> data_begin b then buf_slide b
         else b)"

definition buf_destroy :: "buffer \<Rightarrow> buffer" where
  "buf_destroy b = \<lparr>mem = [], data_begin = 0, data_end = 0\<rparr>"

section \<open>Invariant and abstraction\<close>

definition buf_wf :: "buffer \<Rightarrow> bool" where
  "buf_wf b \<longleftrightarrow> data_begin b \<le> data_end b \<and> data_end b \<le> length (mem b)"

definition content :: "buffer \<Rightarrow> string" where
  "content b = take (buf_size b) (buf_data b)"

section \<open>The interface\<close>

text \<open>What the protocol code relies on: a byte queue.\<close>

locale byte_queue =
  fixes wf :: "'b \<Rightarrow> bool"
    and bytes :: "'b \<Rightarrow> string"
    and append :: "'b \<Rightarrow> string \<Rightarrow> 'b"
    and consume :: "'b \<Rightarrow> nat \<Rightarrow> 'b"
  assumes append_law: "wf b \<Longrightarrow> wf (append b s) \<and> bytes (append b s) = bytes b @ s"
    and consume_law: "wf b \<Longrightarrow> n \<le> length (bytes b) \<Longrightarrow> wf (consume b n) \<and> bytes (consume b n) = drop n (bytes b)"
begin

lemma append_all: "wf b \<Longrightarrow> wf (foldl append b ss) \<and> bytes (foldl append b ss) = bytes b @ concat ss"
  by (induction ss arbitrary: b) (auto simp: append_law)

text \<open>Bytes come out in the order they went in, however the two are interleaved.\<close>

lemma append_consume:
  "wf b \<Longrightarrow> n \<le> length (bytes b) \<Longrightarrow> bytes (consume (append b s) n) = bytes (append (consume b n) s)"
  by (simp add: append_law consume_law)

end

section \<open>The buffer implements the interface\<close>

lemma grow_cap_ge: "0 < cap \<Longrightarrow> need \<le> grow_cap cap need"
proof (induction cap need rule: grow_cap.induct)
  case (1 cap need)
  then show ?case by (subst grow_cap.simps) auto
qed

lemma mem_put_len: "off + length s \<le> length m \<Longrightarrow> length (mem_put m off s) = length m"
  by (simp add: mem_put_def)

lemma content_len: "buf_wf b \<Longrightarrow> length (content b) = buf_size b"
  by (auto simp: content_def buf_wf_def buf_size_def buf_data_def min_def)

lemma buf_slide_ok:
  assumes "buf_wf b"
  shows "buf_wf (buf_slide b) \<and> content (buf_slide b) = content b \<and> length (mem (buf_slide b)) = length (mem b) \<and>
         data_end (buf_slide b) = buf_size b"
proof -
  have l: "length (take (buf_size b) (buf_data b)) = buf_size b" "buf_size b \<le> length (mem b)"
    using assms by (auto simp: buf_wf_def buf_size_def buf_data_def)
  have "length (mem (buf_slide b)) = length (mem b)"
    using l by (simp add: buf_slide_def Let_def mem_put_def)
  moreover have "content (buf_slide b) = content b"
    using l by (simp add: buf_slide_def Let_def content_def) (simp add: buf_size_def buf_data_def mem_put_def)
  ultimately show ?thesis using l by (simp add: buf_slide_def Let_def buf_wf_def)
qed

lemma buf_write_end:
  assumes "buf_wf b" "data_end b + length s \<le> length (mem b)"
  shows "buf_wf (b\<lparr>mem := mem_put (mem b) (data_end b) s, data_end := data_end b + length s\<rparr>) \<and>
         content (b\<lparr>mem := mem_put (mem b) (data_end b) s, data_end := data_end b + length s\<rparr>) = content b @ s"
proof -
  obtain d where d: "data_end b = data_begin b + d" using assms(1) by (auto simp: buf_wf_def le_iff_add)
  let ?m = "mem_put (mem b) (data_end b) s" and ?b = "data_begin b"
  have c: "content b = take d (drop ?b (mem b))"
    by (simp add: content_def buf_data_def buf_size_def d)
  have len: "length (content b) = d" "length (take ?b (mem b)) = ?b" "length ?m = length (mem b)"
    using assms d content_len[OF assms(1)] by (auto simp: buf_size_def buf_wf_def mem_put_len)
  have m: "?m = take ?b (mem b) @ content b @ s @ drop (data_end b + length s) (mem b)"
    unfolding c mem_put_def by (simp add: d take_add)
  have "take (d + length s) (drop ?b ?m) = content b @ s" unfolding m using len(1,2) by simp
  then show ?thesis
    using assms d len(3) by (simp add: buf_wf_def content_def buf_size_def buf_data_def)
qed

lemma buf_append_ok:
  assumes "buf_wf b"
  shows "buf_wf (buf_append b s) \<and> content (buf_append b s) = content b @ s"
proof -
  let ?n = "buf_size b" and ?s = "buf_slide b"
  let ?cap = "grow_cap (if length (mem ?s) \<noteq> 0 then length (mem ?s) * 2 else 64) (?n + length s)"
  let ?g = "\<lparr>mem = mem_put (replicate ?cap NUL) 0 (take ?n (buf_data ?s)), data_begin = 0, data_end = ?n\<rparr>"
  note sl = buf_slide_ok[OF assms]
  have cl: "length (content b) = ?n" by (rule content_len[OF assms])
  have cap: "?n + length s \<le> ?cap" by (intro grow_cap_ge) simp
  have cs: "take ?n (buf_data ?s) = content b"
    using sl by (metis buf_size_def content_def buf_slide_def Let_def diff_zero select_convs(2,3) surjective update_convs(2,3))
  have g: "buf_wf ?g" "content ?g = content b" "?n + length s \<le> length (mem ?g)"
    using cap cl unfolding cs by (auto simp: buf_wf_def content_def buf_size_def buf_data_def mem_put_def)
  define e where "e = (if length (mem b) - data_end b < length s
      then if length (mem ?s) - data_end ?s < length s then ?g else ?s else b)"
  have "buf_wf e \<and> content e = content b \<and> data_end e + length s \<le> length (mem e)"
    using assms sl g unfolding e_def by (auto simp: buf_wf_def)
  moreover have "buf_append b s = e\<lparr>mem := mem_put (mem e) (data_end e) s, data_end := data_end e + length s\<rparr>"
    by (simp add: buf_append_def e_def Let_def)
  ultimately show ?thesis using buf_write_end[of e s] by simp
qed

lemma buf_consume_ok:
  assumes "buf_wf b" "n \<le> length (content b)"
  shows "buf_wf (buf_consume b n) \<and> content (buf_consume b n) = drop n (content b)"
proof -
  let ?b = "b\<lparr>data_begin := data_begin b + n\<rparr>"
  have n: "n \<le> data_end b - data_begin b" using assms by (simp add: content_len) (simp add: buf_size_def)
  then have wf: "buf_wf ?b" using assms by (auto simp: buf_wf_def)
  have c: "content ?b = drop n (content b)"
    using n by (simp add: content_def buf_size_def buf_data_def drop_take add.commute)
  show ?thesis
    using wf c buf_slide_ok[OF wf] n
    by (auto simp: buf_consume_def Let_def buf_wf_def) (auto simp: content_def buf_size_def)
qed

interpretation buf: byte_queue buf_wf content buf_append buf_consume
  by unfold_locales (simp_all add: buf_append_ok buf_consume_ok)

end
