(* ===== verification/Resp.thy ===== *)
theory Resp
  imports Buffer
begin

text \<open>
  The wire protocol (\<open>protocol/resp.h\<close>, \<open>protocol/resp.cpp\<close>): the request parser and the reply
  encoders, together with the request encoder of the client (\<open>client/client.cpp\<close>). The parser sees
  the content of the incoming buffer and answers the number of bytes of one complete request,
  0 when more bytes are needed, or -1 for a protocol error.
\<close>

section \<open>Model\<close>

definition k_max_msg :: nat where
  "k_max_msg = 33554432"

definition k_max_inline :: nat where
  "k_max_inline = 65536"

definition k_max_args :: nat where
  "k_max_args = 65536"

text \<open>The value of an \<open>int32_t\<close> conversion.\<close>

definition i32 :: "int \<Rightarrow> int" where
  "i32 x = (x + 2147483648) mod 4294967296 - 2147483648"

text \<open>Splitting an inline command on blanks.\<close>

definition is_blank :: "char \<Rightarrow> bool" where
  "is_blank c \<longleftrightarrow> c = CHR '' '' \<or> c = CHR 0x09"

function split_blanks :: "string \<Rightarrow> string list" where
  "split_blanks s =
     (case dropWhile is_blank s of
        [] \<Rightarrow> []
      | c # r \<Rightarrow> (c # takeWhile (\<lambda>x. \<not> is_blank x) r) # split_blanks (dropWhile (\<lambda>x. \<not> is_blank x) r))"
  by pat_completeness auto
termination
proof (relation "measure length", goal_cases)
  case (2 s c r)
  have "length (c # r) \<le> length s" unfolding 2[symmetric] by (rule length_dropWhile_le)
  then show ?case using length_dropWhile_le[of "\<lambda>x. \<not> is_blank x" r] by simp
qed simp

declare split_blanks.simps [simp del]

definition parse_inline :: "string \<Rightarrow> int \<times> string list" where
  "parse_inline data =
     (let line = takeWhile (\<lambda>c. c \<noteq> LF) data;
          eol = length line
      in if k_max_inline < eol then (- 1, [])
         else if eol = length data then (0, [])
         else let line = (if line \<noteq> [] \<and> last line = CR then butlast line else line)
              in (i32 (int eol + 1), split_blanks line))"

text \<open>A decimal length with the overflow guards of the parser.\<close>

fun read_num :: "nat \<Rightarrow> nat \<Rightarrow> string \<Rightarrow> nat option" where
  "read_num lim n [] = Some n"
| "read_num lim n (c # cs) =
     (if \<not> isdigit c then None
      else if lim div 10 < n then None
      else if lim < n * 10 + digit_val c then None
      else read_num lim (n * 10 + digit_val c) cs)"

text \<open>
  The loop over the bulk strings: \<open>rest\<close> is the data from \<open>pos\<close> on, \<open>acc\<close> the arguments already
  pushed.
\<close>

fun parse_bulks :: "nat \<Rightarrow> string \<Rightarrow> nat \<Rightarrow> string list \<Rightarrow> int \<times> string list" where
  "parse_bulks 0 rest pos acc = (i32 (int pos), acc)"
| "parse_bulks (Suc n) rest pos acc =
     (case rest of
        [] \<Rightarrow> (0, acc)
      | c # r \<Rightarrow>
          if c \<noteq> CHR ''$'' then (- 1, acc)
          else let line = takeWhile (\<lambda>c. c \<noteq> CR) r;
                   tl = dropWhile (\<lambda>c. c \<noteq> CR) r
               in if length tl \<le> 1 then (0, acc)
                  else if tl ! 1 \<noteq> LF then (- 1, acc)
                  else case read_num k_max_msg 0 line of
                      None \<Rightarrow> (- 1, acc)
                    | Some len \<Rightarrow>
                        let body = drop 2 tl
                        in if length body < len + 2 then (0, acc)
                           else let acc = acc @ [take len body];
                                    r2 = drop len body
                                in if r2 ! 0 \<noteq> CR \<or> r2 ! 1 \<noteq> LF then (- 1, acc)
                                   else parse_bulks n (drop 2 r2) (pos + 1 + length line + 2 + len + 2) acc)"

definition parse_resp_request :: "string \<Rightarrow> int \<times> string list" where
  "parse_resp_request data =
     (case data of
        [] \<Rightarrow> (0, [])
      | c # r \<Rightarrow>
          if c \<noteq> CHR ''*'' then parse_inline data
          else let line = takeWhile (\<lambda>c. c \<noteq> CR) r;
                   tl = dropWhile (\<lambda>c. c \<noteq> CR) r
               in if length tl \<le> 1 then (0, [])
                  else if tl ! 1 \<noteq> LF then (- 1, [])
                  else case read_num k_max_args 0 line of
                      None \<Rightarrow> (- 1, [])
                    | Some n_args \<Rightarrow>
                        if n_args < 1 then (- 1, [])
                        else parse_bulks n_args (drop 2 tl) (1 + length line + 2) [])"

text \<open>\<open>send_cmd\<close> of the client.\<close>

definition send_bulk :: "string \<Rightarrow> string" where
  "send_bulk s = ''$'' @ nat_dec (length s) @ CRLF @ s @ CRLF"

definition send_cmd :: "string list \<Rightarrow> string" where
  "send_cmd cmd = ''*'' @ nat_dec (length cmd) @ CRLF @ concat (map send_bulk cmd)"

text \<open>
  The reply encoders: the bytes appended to the output buffer, under the protocol version in
  \<open>g_reply_proto\<close>. Strings passed as \<open>const char *\<close> end at their first NUL.
\<close>

definition c_str :: "string \<Rightarrow> string" where
  "c_str s = takeWhile (\<lambda>c. c \<noteq> NUL) s"

definition resp_nil :: "int \<Rightarrow> string" where
  "resp_nil proto = (if 3 \<le> proto then ''_'' @ CRLF else ''$-1'' @ CRLF)"

definition resp_nil_arr :: "int \<Rightarrow> string" where
  "resp_nil_arr proto = (if 3 \<le> proto then ''_'' @ CRLF else ''*-1'' @ CRLF)"

definition resp_ok :: string where
  "resp_ok = ''+OK'' @ CRLF"

definition resp_simple :: "string \<Rightarrow> string" where
  "resp_simple s = ''+'' @ c_str s @ CRLF"

definition resp_err :: "string \<Rightarrow> string" where
  "resp_err msg = ''-'' @ c_str msg @ CRLF"

definition resp_int :: "int \<Rightarrow> string" where
  "resp_int val = '':'' @ int_dec val @ CRLF"

definition resp_str :: "string \<Rightarrow> string" where
  "resp_str s = ''$'' @ nat_dec (length s) @ CRLF @ s @ CRLF"

text \<open>
  \<open>resp_dbl\<close>: \<open>fmt\<close> is the text \<open>%.17g\<close> gives, \<open>cls\<close> the outcome of \<open>isnan\<close>, \<open>isinf\<close> and the sign
  test.
\<close>

datatype dbl_class = DNan | DNegInf | DPosInf | DFinite

definition resp_dbl :: "int \<Rightarrow> ('s \<Rightarrow> string) \<Rightarrow> ('s \<Rightarrow> dbl_class) \<Rightarrow> 's \<Rightarrow> string" where
  "resp_dbl proto fmt cls val =
     (if 3 \<le> proto then
        (case cls val of
           DNan \<Rightarrow> '',nan''
         | DNegInf \<Rightarrow> '',-inf''
         | DPosInf \<Rightarrow> '',inf''
         | DFinite \<Rightarrow> '','' @ fmt val) @ CRLF
      else resp_str (fmt val))"

definition resp_arr :: "u32 \<Rightarrow> string" where
  "resp_arr n = ''*'' @ nat_dec (unat n) @ CRLF"

definition resp_map :: "int \<Rightarrow> u32 \<Rightarrow> string" where
  "resp_map proto n = (if 3 \<le> proto then ''%'' @ nat_dec (unat n) else ''*'' @ nat_dec (unat (n * 2))) @ CRLF"

definition resp_set :: "int \<Rightarrow> u32 \<Rightarrow> string" where
  "resp_set proto n = (if 3 \<le> proto then ''~'' else ''*'') @ nat_dec (unat n) @ CRLF"

definition resp_push_n :: "int \<Rightarrow> u32 \<Rightarrow> string" where
  "resp_push_n proto n = (if 3 \<le> proto then ''>'' else ''*'') @ nat_dec (unat n) @ CRLF"

definition resp_verbatim :: "int \<Rightarrow> string \<Rightarrow> string" where
  "resp_verbatim proto s =
     (if proto < 3 then resp_str s
      else ''='' @ nat_dec (length s + 4) @ CRLF @ ''txt:'' @ s @ CRLF)"

section \<open>Lemmas\<close>

lemma read_num_append: "read_num l a (xs @ ys) = (case read_num l a xs of None \<Rightarrow> None | Some b \<Rightarrow> read_num l b ys)"
  by (induction l a xs rule: read_num.induct) auto

lemma read_num_dec: "n \<le> l \<Longrightarrow> read_num l 0 (nat_dec n) = Some n"
proof (induction n rule: nat_dec.induct)
  case (1 n)
  show ?case
  proof (cases "n < 10")
    case True
    then show ?thesis using 1(2) by (subst nat_dec.simps) (simp add: digit_char_digit)
  next
    case False
    then have "read_num l 0 (nat_dec (n div 10)) = Some (n div 10)" using 1 by simp
    moreover have "\<not> l div 10 < n div 10" using div_le_mono[OF 1(2), of 10] by simp
    moreover have "\<not> l < n div 10 * 10 + n mod 10" using 1(2) by simp
    ultimately show ?thesis using False
      by (subst nat_dec.simps) (simp add: read_num_append digit_char_digit)
  qed
qed

lemma takeWhile_dec: "takeWhile (\<lambda>c. c \<noteq> CR) (nat_dec n @ CR # s) = nat_dec n"
  "dropWhile (\<lambda>c. c \<noteq> CR) (nat_dec n @ CR # s) = CR # s"
proof -
  have "\<forall>c \<in> set (nat_dec n). c \<noteq> CR" using nat_dec_digits digit_not_CR by blast
  then show "takeWhile (\<lambda>c. c \<noteq> CR) (nat_dec n @ CR # s) = nat_dec n"
    "dropWhile (\<lambda>c. c \<noteq> CR) (nat_dec n @ CR # s) = CR # s" by (simp_all add: takeWhile_append2 dropWhile_append2)
qed

lemma send_bulk_len: "length (send_bulk s) = 5 + length (nat_dec (length s)) + length s"
  by (simp add: send_bulk_def)

lemma parse_bulks_send:
  "\<forall>s \<in> set cmd. length s \<le> k_max_msg \<Longrightarrow>
   parse_bulks (length cmd) (concat (map send_bulk cmd) @ rest) pos acc =
     (i32 (int (pos + length (concat (map send_bulk cmd)))), acc @ cmd)"
proof (induction cmd arbitrary: pos acc)
  case (Cons s cmd)
  have "read_num k_max_msg 0 (nat_dec (length s)) = Some (length s)" using Cons.prems by (intro read_num_dec) simp
  then have "parse_bulks (length (s # cmd)) (concat (map send_bulk (s # cmd)) @ rest) pos acc =
      parse_bulks (length cmd) (concat (map send_bulk cmd) @ rest)
        (pos + 1 + length (nat_dec (length s)) + 2 + length s + 2) (acc @ [s])"
    by (simp add: send_bulk_def takeWhile_dec Let_def)
  also have "\<dots> = (i32 (int (pos + length (concat (map send_bulk (s # cmd))))), acc @ s # cmd)"
    using Cons by (simp add: send_bulk_len algebra_simps)
  finally show ?case .
qed simp

text \<open>What the client sends is what the server reads, whatever follows in the buffer.\<close>

lemma parse_send:
  assumes "cmd \<noteq> []" "length cmd \<le> k_max_args" "\<forall>s \<in> set cmd. length s \<le> k_max_msg"
  shows "parse_resp_request (send_cmd cmd @ rest) = (i32 (int (length (send_cmd cmd))), cmd)"
proof -
  have "read_num k_max_args 0 (nat_dec (length cmd)) = Some (length cmd)" using assms(2) by (rule read_num_dec)
  moreover have "\<not> length cmd < 1" using assms(1) by (cases cmd) auto
  ultimately have "parse_resp_request (send_cmd cmd @ rest) =
      parse_bulks (length cmd) (concat (map send_bulk cmd) @ rest) (1 + length (nat_dec (length cmd)) + 2) []"
    by (simp add: parse_resp_request_def send_cmd_def takeWhile_dec Let_def)
  then show ?thesis using parse_bulks_send[OF assms(3), of rest _ "[]"] by (simp add: send_cmd_def)
qed

text \<open>Once a request is decided, bytes that arrive later do not change the decision.\<close>

lemma line_extend:
  assumes "length (dropWhile (\<lambda>c. c \<noteq> CR) r) \<noteq> 0"
  shows "takeWhile (\<lambda>c. c \<noteq> CR) (r @ e) = takeWhile (\<lambda>c. c \<noteq> CR) r"
    "dropWhile (\<lambda>c. c \<noteq> CR) (r @ e) = dropWhile (\<lambda>c. c \<noteq> CR) r @ e"
proof -
  obtain x where "x \<in> set r" "\<not> x \<noteq> CR" using assms by (auto simp: dropWhile_eq_Nil_conv)
  then show "takeWhile (\<lambda>c. c \<noteq> CR) (r @ e) = takeWhile (\<lambda>c. c \<noteq> CR) r"
    "dropWhile (\<lambda>c. c \<noteq> CR) (r @ e) = dropWhile (\<lambda>c. c \<noteq> CR) r @ e"
    by (simp_all add: takeWhile_append1 dropWhile_append1)
qed

lemma i32_id: "0 \<le> x \<Longrightarrow> x < 2147483648 \<Longrightarrow> i32 x = x"
  by (simp add: i32_def)

lemma line_length: "length (takeWhile P r) + length (dropWhile P r) = length r"
  by (metis length_append takeWhile_dropWhile_id)

lemma parse_bulks_extend:
  "parse_bulks n rest pos acc = (k, cmd) \<Longrightarrow> k \<noteq> 0 \<Longrightarrow> pos + length rest < 2147483648 \<Longrightarrow>
   parse_bulks n (rest @ e) pos acc = (k, cmd) \<and> k \<le> int (pos + length rest)"
proof (induction n rest pos acc rule: parse_bulks.induct)
  case (1 rest pos acc)
  then show ?case by (auto simp: i32_id)
next
  case (2 n rest pos acc)
  obtain c r where rest: "rest = c # r" using 2(2,3) by (cases rest) auto
  let ?line = "takeWhile (\<lambda>c. c \<noteq> CR) r" and ?tl = "dropWhile (\<lambda>c. c \<noteq> CR) r"
  show ?case
  proof (cases "c \<noteq> CHR ''$''")
    case True
    then show ?thesis using 2(2) rest by auto
  next
    case c: False
    have tl: "1 < length ?tl" using 2(2,3) rest c by (auto simp: Let_def split: if_splits)
    have ne: "length ?tl \<noteq> 0" using tl by linarith
    have e1: "takeWhile (\<lambda>c. c \<noteq> CR) (r @ e) = ?line" "dropWhile (\<lambda>c. c \<noteq> CR) (r @ e) = ?tl @ e"
      by (rule line_extend[OF ne])+
    have e2: "(?tl @ e) ! 1 = ?tl ! 1" "\<not> length (?tl @ e) \<le> 1" using tl by (auto simp: nth_append)
    show ?thesis
    proof (cases "?tl ! 1 \<noteq> LF \<or> read_num k_max_msg 0 ?line = None")
      case True
      then show ?thesis using 2(2) rest c tl e1 e2 by (auto simp: Let_def)
    next
      case False
      then obtain len where ok: "?tl ! 1 = LF" "read_num k_max_msg 0 ?line = Some len" by auto
      let ?body = "drop 2 ?tl"
      have bl: "len + 2 \<le> length ?body" using 2(2,3) rest c tl ok by (auto simp: Let_def split: if_splits)
      have e3: "drop 2 (?tl @ e) = ?body @ e" using tl by simp
      have e4: "take len (?body @ e) = take len ?body" "drop len (?body @ e) = drop len ?body @ e"
        "(drop len ?body @ e) ! 0 = drop len ?body ! 0" "(drop len ?body @ e) ! 1 = drop len ?body ! 1"
        "\<not> length (?body @ e) < len + 2" "drop 2 (drop len ?body @ e) = drop 2 (drop len ?body) @ e"
        using bl by (auto simp: nth_append)
      let ?r2 = "drop len ?body" and ?acc = "acc @ [take len ?body]"
      let ?pos = "pos + 1 + length ?line + 2 + len + 2"
      have L: "?pos + length (drop 2 ?r2) = pos + length rest"
        using bl tl line_length[of "\<lambda>c. c \<noteq> CR" r] rest by simp
      show ?thesis
      proof (cases "?r2 ! 0 \<noteq> CR \<or> ?r2 ! 1 \<noteq> LF")
        case True
        then show ?thesis using 2(2) rest c tl ok bl e1 e2 e3 e4 by (auto simp: Let_def)
      next
        case False
        have step: "parse_bulks (Suc n) rest pos acc = parse_bulks n (drop 2 ?r2) ?pos ?acc"
          "parse_bulks (Suc n) (rest @ e) pos acc = parse_bulks n (drop 2 ?r2 @ e) ?pos ?acc"
          using False rest c tl ok bl e1 e2 e3 e4 by (simp_all add: Let_def)
        have pb: "parse_bulks n (drop 2 ?r2) ?pos ?acc = (k, cmd)" using 2(2) step(1) by simp
        have "parse_bulks n (drop 2 ?r2 @ e) ?pos ?acc = (k, cmd) \<and> k \<le> int (?pos + length (drop 2 ?r2))"
          by (rule 2(1)[OF rest _ refl refl _ _ ok(2) refl _ refl refl _ pb 2(3)])
            (use c tl ok bl False L 2(4) in \<open>auto simp del: parse_bulks.simps\<close>)
        then show ?thesis unfolding step L by simp
      qed
    qed
  qed
qed


lemma parse_inline_extend:
  assumes "parse_inline d = (k, cmd)" "k \<noteq> 0"
  shows "parse_inline (d @ e) = (k, cmd) \<and> (length d < 2147483648 \<longrightarrow> k \<le> int (length d))"
proof (cases "k_max_inline < length (takeWhile (\<lambda>c. c \<noteq> LF) d)")
  case True
  moreover have "length (takeWhile (\<lambda>c. c \<noteq> LF) d) \<le> length (takeWhile (\<lambda>c. c \<noteq> LF) (d @ e))"
    by (induction d) auto
  ultimately show ?thesis using assms by (auto simp: parse_inline_def Let_def)
next
  case False
  let ?line = "takeWhile (\<lambda>c. c \<noteq> LF) d"
  have ne: "length ?line \<noteq> length d" using assms False by (auto simp: parse_inline_def Let_def)
  then have "?line \<noteq> d" by metis
  then have "\<exists>x \<in> set d. x = LF" unfolding takeWhile_eq_all_conv by auto
  then have tw: "takeWhile (\<lambda>c. c \<noteq> LF) (d @ e) = ?line" by (auto simp: takeWhile_append1)
  have lt: "length ?line < length d" using ne length_takeWhile_le[of "\<lambda>c. c \<noteq> LF" d] by linarith
  have "parse_inline (d @ e) = (k, cmd)" using assms False ne lt tw by (auto simp: parse_inline_def Let_def)
  moreover have "k = i32 (int (length ?line) + 1)" using assms False ne by (auto simp: parse_inline_def Let_def)
  ultimately show ?thesis using lt by (auto simp: i32_id)
qed

lemma parse_extend:
  assumes "parse_resp_request d = (k, cmd)" "k \<noteq> 0" "length d < 2147483648"
  shows "parse_resp_request (d @ e) = (k, cmd) \<and> k \<le> int (length d)"
proof -
  obtain c r where d: "d = c # r" using assms(1,2) by (cases d) (auto simp: parse_resp_request_def)
  show ?thesis
  proof (cases "c = CHR ''*''")
    case False
    then show ?thesis using assms parse_inline_extend[of d k cmd e] d by (simp add: parse_resp_request_def)
  next
    case c: True
    let ?line = "takeWhile (\<lambda>c. c \<noteq> CR) r" and ?tl = "dropWhile (\<lambda>c. c \<noteq> CR) r"
    have tl: "1 < length ?tl" using assms(1,2) d c by (auto simp: parse_resp_request_def Let_def split: if_splits)
    then have ne: "length ?tl \<noteq> 0" by linarith
    note e1 = line_extend[OF ne, of e]
    have e2: "(?tl @ e) ! 1 = ?tl ! 1" "\<not> length (?tl @ e) \<le> 1" "drop 2 (?tl @ e) = drop 2 ?tl @ e"
      using tl by (auto simp: nth_append)
    show ?thesis
    proof (cases "?tl ! 1 \<noteq> LF \<or> read_num k_max_args 0 ?line = None \<or> read_num k_max_args 0 ?line = Some 0")
      case True
      then show ?thesis using assms d c tl e1 e2 by (auto simp: parse_resp_request_def Let_def)
    next
      case False
      then obtain n where ok: "?tl ! 1 = LF" "read_num k_max_args 0 ?line = Some n" "\<not> n < 1" by auto
      have s: "parse_resp_request d = parse_bulks n (drop 2 ?tl) (1 + length ?line + 2) []"
        "parse_resp_request (d @ e) = parse_bulks n (drop 2 ?tl @ e) (1 + length ?line + 2) []"
        using ok d c tl e1 e2 by (simp_all add: parse_resp_request_def Let_def)
      have "1 + length ?line + 2 + length (drop 2 ?tl) = length d"
        using tl line_length[of "\<lambda>c. c \<noteq> CR" r] d by simp
      then show ?thesis using parse_bulks_extend[of n "drop 2 ?tl" "1 + length ?line + 2" "[]" k cmd e] assms s by simp
    qed
  qed
qed

text \<open>A request that has not arrived completely is neither executed nor refused.\<close>

lemma parse_prefix:
  assumes "cmd \<noteq> []" "length cmd \<le> k_max_args" "\<forall>s \<in> set cmd. length s \<le> k_max_msg"
    "length (send_cmd cmd) < 2147483648" "send_cmd cmd = p @ q" "q \<noteq> []"
  shows "fst (parse_resp_request p) = 0"
proof (rule ccontr)
  obtain k c where p: "parse_resp_request p = (k, c)" by fastforce
  assume "fst (parse_resp_request p) \<noteq> 0"
  then have "parse_resp_request (p @ q) = (k, c) \<and> k \<le> int (length p)"
    using p assms(4,5) by (intro parse_extend) auto
  moreover have "parse_resp_request (p @ q) = (int (length (send_cmd cmd)), cmd)"
    using parse_send[OF assms(1-3), of "[]"] assms(4,5) by (simp add: i32_id)
  ultimately show False using assms(5,6) by auto
qed

section \<open>Properties\<close>

text \<open>
  C5: what the client's \<open>send_cmd\<close> writes, the server's \<open>parse_resp_request\<close> reads back: with the
  request at the front of the incoming buffer, whatever bytes follow it, the parser returns exactly the
  arguments and the length of the request, and consuming that many bytes leaves exactly what followed.
\<close>

theorem request_roundtrip:
  assumes "buf_wf b" "content b = send_cmd cmd @ rest"
    and "cmd \<noteq> []" "length cmd \<le> k_max_args" "\<forall>s \<in> set cmd. length s \<le> k_max_msg"
    and "length (send_cmd cmd) < 2147483648"
  shows "parse_resp_request (content b) = (int (length (send_cmd cmd)), cmd) \<and>
         content (buf_consume b (length (send_cmd cmd))) = rest"
  using parse_send[OF assms(3-5), of rest] buf.consume_law[OF assms(1), of "length (send_cmd cmd)"] assms(2,6)
  by (simp add: i32_id)

theorem request_roundtrip_witness:
  "parse_resp_request (content (buf_append (buf_create 0) (send_cmd [''get'', [NUL, CR, LF]] @ ''*1'')))
     = (22, [''get'', [NUL, CR, LF]])"
proof -
  let ?cmd = "[''get'', [NUL, CR, LF]]"
  have c: "buf_wf (buf_create 0)" "content (buf_create 0) = []"
    by (simp_all add: buf_wf_def buf_create_def content_def buf_data_def)
  have a: "buf_wf (buf_append (buf_create 0) (send_cmd ?cmd @ ''*1''))"
    "content (buf_append (buf_create 0) (send_cmd ?cmd @ ''*1'')) = send_cmd ?cmd @ ''*1''"
    using buf.append_law[OF c(1), of "send_cmd ?cmd @ ''*1''"] c(2) by auto
  have "length (send_cmd ?cmd) = 22" by (simp add: send_cmd_def send_bulk_def nat_dec.simps)
  with request_roundtrip[OF a] show ?thesis by (simp add: k_max_args_def k_max_msg_def)
qed

text \<open>
  C10: a request that has only partly arrived is neither executed nor refused: on every proper prefix of
  the bytes of a request the parser answers 0, which makes the server wait for more.
\<close>

theorem request_prefix_waits:
  assumes "cmd \<noteq> []" "length cmd \<le> k_max_args" "\<forall>s \<in> set cmd. length s \<le> k_max_msg"
    and "length (send_cmd cmd) < 2147483648" "send_cmd cmd = p @ q" "q \<noteq> []"
  shows "fst (parse_resp_request p) = 0"
  using assms by (rule parse_prefix)

theorem request_prefix_waits_witness: "fst (parse_resp_request (''*1'' @ CRLF @ ''$4'' @ CRLF @ ''pi'')) = 0"
proof -
  have "send_cmd [''ping''] = (''*1'' @ CRLF @ ''$4'' @ CRLF @ ''pi'') @ (''ng'' @ CRLF)"
    by code_simp
  from request_prefix_waits[OF _ _ _ _ this] show ?thesis
    by (simp add: k_max_args_def k_max_msg_def send_cmd_def send_bulk_def nat_dec.simps)
qed

text \<open>
  C9: the parser's verdict on any input, well formed or not, is stable: once it has accepted a request or
  reported an error, later bytes change neither the verdict nor the arguments, and an accepted
  request never extends past the bytes received.
\<close>

theorem request_verdict_stable:
  assumes "parse_resp_request d = (k, cmd)" "k \<noteq> 0" "length d < 2147483648"
  shows "parse_resp_request (d @ e) = (k, cmd) \<and> k \<le> int (length d)"
  using assms by (rule parse_extend)

theorem request_verdict_stable_witness:
  "parse_resp_request ((''set a b'' @ [LF]) @ ''x'') = (8, [''set'', ''a'', ''b''])"
proof -
  have "parse_resp_request (''set a b'' @ [LF]) = (8, [''set'', ''a'', ''b''])"
    by (simp add: parse_resp_request_def parse_inline_def Let_def split_blanks.simps is_blank_def i32_def k_max_inline_def)
  from request_verdict_stable[OF this, of "''x''"] show ?thesis by simp
qed

end
