(* ===== verification/State.thy ===== *)
theory State
  imports Ttl_Heap Hash_Type Set_Type Zset Deque
begin

text \<open>
  The key space (\<open>core/state.h\<close>, \<open>core/state.cpp\<close>) and the access helpers at the head of
  \<open>commands/commands.cpp\<close>: entries and their values, memory accounting, expiry, LRU and LFU stamps,
  \<open>lookup_entry\<close> and the choice of an eviction victim. Entries live in a store indexed by address, as in
  the source, where the main table, the expiry heap and the handlers all hold pointers to them. The theory
  \<open>Keyspace\<close> gives the invariant and the abstraction.
\<close>

section \<open>Configuration and environment\<close>

datatype maxmemory_policy =
  NOEVICTION | ALLKEYS_LRU | ALLKEYS_LFU | ALLKEYS_RANDOM | VOLATILE_LRU | VOLATILE_LFU | VOLATILE_RANDOM | VOLATILE_TTL

text \<open>The part of \<open>Config\<close> the handlers read.\<close>

record config =
  notify_keyspace_events :: int
  maxmemory_samples :: int
  lfu_log_factor :: int
  lfu_decay_time :: int
  maxmemory :: u64
  policy :: maxmemory_policy
  repl_backlog_size :: nat
  aof_enable :: bool
  min_replicas_to_write :: int
  min_replicas_max_lag :: int

text \<open>
  What a handler reads from outside: the two clocks, constant while it runs, the configuration, whether
  the log is being replayed (\<open>g_loading\<close>), the protocol version of the client (\<open>g_reply_proto\<close>), and the random
  generator: \<open>rnd k n\<close> is the value of the draw numbered \<open>k\<close> when it is made by \<open>rand_idx(n)\<close>.
\<close>

record env =
  mono :: u64
  wall :: u64
  cfg :: config
  loading :: bool
  proto :: int
  rnd :: "nat \<Rightarrow> nat \<Rightarrow> nat"

section \<open>Entries\<close>

datatype etype = T_INIT | T_STR | T_ZSET | T_DLIST | T_HASH | T_SET

text \<open>\<open>EntryValue\<close>; the tag of the variant and the field \<open>type\<close> always agree.\<close>

datatype 's evalue =
  VInit
| VStr cstr
| VZset "'s zset"
| VList deque
| VHash "hash_node hmap"
| VSet "set_node hmap"

fun vtype :: "'s evalue \<Rightarrow> etype" where
  "vtype VInit = T_INIT"
| "vtype (VStr _) = T_STR"
| "vtype (VZset _) = T_ZSET"
| "vtype (VList _) = T_DLIST"
| "vtype (VHash _) = T_HASH"
| "vtype (VSet _) = T_SET"

text \<open>\<open>heap_idx\<close> is not a field here: the expiry heap keeps the \<open>heap_idx\<close> of every entry in its own store.\<close>

record 's entry =
  ekey :: cstr
  emem :: u64
  elru :: u32
  eval :: "'s evalue"

text \<open>
  The fields of \<open>GlobalData\<close> the handlers change, with the store of entries and the number of the
  next free address. \<open>draws\<close> numbers the random draws made so far; \<open>events\<close> records, newest first, what
  handlers do to parts of the server outside the key space and never read back: the calls of
  \<open>notify_keyspace_event\<close>, of \<open>propagate_cmd\<close> (guarded by \<open>propagate_enabled\<close>), of \<open>watch_touch\<close> and of
  \<open>watch_touch_all\<close>.
\<close>

datatype effect =
  E_Notify int string string
| E_Feed "string list"
| E_Touch string
| E_TouchAll

record 's gdata =
  db :: "addr hmap"
  ents :: "addr \<Rightarrow> 's entry option"
  next_addr :: addr
  heap :: ttl_heap
  used_memory :: u64
  writes_since_save :: u32
  lru_clock :: u32
  evicted_keys :: u64
  evict_pending :: bool
  draws :: nat
  events :: "effect list"

definition ent_at :: "'s gdata \<Rightarrow> addr \<Rightarrow> 's entry" where
  "ent_at g a = the (ents g a)"

definition key_at :: "'s gdata \<Rightarrow> addr \<Rightarrow> string" where
  "key_at g a = chars (ekey (ent_at g a))"

definition val_at :: "'s gdata \<Rightarrow> addr \<Rightarrow> 's evalue" where
  "val_at g a = eval (ent_at g a)"

definition type_at :: "'s gdata \<Rightarrow> addr \<Rightarrow> etype" where
  "type_at g a = vtype (val_at g a)"

text \<open>Assignment through a pointer to an entry.\<close>

definition put_ent :: "addr \<Rightarrow> ('s entry \<Rightarrow> 's entry) \<Rightarrow> 's gdata \<Rightarrow> 's gdata" where
  "put_ent a f g = g\<lparr>ents := (ents g)(a := map_option f (ents g a))\<rparr>"

definition put_val :: "addr \<Rightarrow> 's evalue \<Rightarrow> 's gdata \<Rightarrow> 's gdata" where
  "put_val a v = put_ent a (\<lambda>e. e\<lparr>eval := v\<rparr>)"

text \<open>\<open>g_writes_since_save += n\<close>.\<close>

definition wrote :: "nat \<Rightarrow> 's gdata \<Rightarrow> 's gdata" where
  "wrote n g = g\<lparr>writes_since_save := writes_since_save g + of_nat n\<rparr>"

text \<open>The random generator: the next draw below \<open>n\<close>, and the three draws \<open>hm_random\<close> makes.\<close>

definition rand_idx :: "env \<Rightarrow> nat \<Rightarrow> 's gdata \<Rightarrow> nat \<times> 's gdata" where
  "rand_idx v n g = (rnd v (draws g) n, g\<lparr>draws := draws g + 1\<rparr>)"

definition random_node :: "env \<Rightarrow> 'a hmap \<Rightarrow> 's gdata \<Rightarrow> 'a hnode option \<times> 's gdata" where
  "random_node v m g =
     (hm_random m (rnd v (draws g)) (rnd v (draws g + 1)) (rnd v (draws g + 2)), g\<lparr>draws := draws g + 3\<rparr>)"

definition emit :: "effect \<Rightarrow> 's gdata \<Rightarrow> 's gdata" where
  "emit e g = g\<lparr>events := e # events g\<rparr>"

section \<open>Creation, accounting, removal\<close>

definition empty_val :: "etype \<Rightarrow> 's evalue" where
  "empty_val t =
     (case t of
        T_INIT \<Rightarrow> VInit
      | T_STR \<Rightarrow> VStr str_empty
      | T_ZSET \<Rightarrow> VZset \<lparr>zroot = ALeaf, zhmap = hmap_empty\<rparr>
      | T_DLIST \<Rightarrow> VList deque_init
      | T_HASH \<Rightarrow> VHash hmap_empty
      | T_SET \<Rightarrow> VSet hmap_empty)"

text \<open>\<open>entry_new\<close> allocates; the caller assigns the key.\<close>

definition entry_new :: "etype \<Rightarrow> 's gdata \<Rightarrow> addr \<times> 's gdata" where
  "entry_new t g =
     (let a = next_addr g
      in (a, g\<lparr>ents := (ents g)(a \<mapsto> \<lparr>ekey = str_empty, emem = 0, elru = 0, eval = empty_val t\<rparr>),
               next_addr := a + 1\<rparr>))"

text \<open>\<open>sizeof(Entry)\<close> is 152 and \<open>sizeof(std::string)\<close> 32.\<close>

definition val_mem :: "'s evalue \<Rightarrow> u64" where
  "val_mem v =
     (case v of
        VInit \<Rightarrow> 0
      | VStr s \<Rightarrow> of_nat (scap s)
      | VList d \<Rightarrow> of_nat (dcap d) * 32 + dbytes d
      | VHash h \<Rightarrow> of_nat (elem_bytes h)
      | VSet h \<Rightarrow> of_nat (elem_bytes h)
      | VZset z \<Rightarrow> of_nat (elem_bytes (zhmap z)))"

definition entry_mem_usage :: "'s entry \<Rightarrow> u64" where
  "entry_mem_usage e = 152 + of_nat (scap (ekey e)) + val_mem (eval e)"

definition mem_reaccount :: "addr \<Rightarrow> 's gdata \<Rightarrow> 's gdata" where
  "mem_reaccount a g =
     (let now = entry_mem_usage (ent_at g a);
          g = g\<lparr>used_memory := used_memory g + now\<rparr>;
          g = g\<lparr>used_memory := used_memory g - emem (ent_at g a)\<rparr>
      in put_ent a (\<lambda>e. e\<lparr>emem := now\<rparr>) g)"

definition set_ttl :: "env \<Rightarrow> addr \<Rightarrow> int \<Rightarrow> 's gdata \<Rightarrow> 's gdata" where
  "set_ttl v a ttl_ms g = g\<lparr>heap := entry_set_ttl (mono v) (heap g) a ttl_ms\<rparr>"

text \<open>
  \<open>entry_del\<close>. A container of more than 1000 elements is handed to the thread pool, which runs
  \<open>entry_del_sync\<close> later; either way nothing reaches the entry any more, and the model frees its
  address at once.
\<close>

definition entry_del_sync :: "env \<Rightarrow> addr \<Rightarrow> 's gdata \<Rightarrow> 's gdata" where
  "entry_del_sync v a g =
     (let g = put_val a (case val_at g a of
                           VZset z \<Rightarrow> VZset (zset_clear z)
                         | VSet h \<Rightarrow> VSet (set_clear h)
                         | VHash h \<Rightarrow> VHash (hash_clear h)
                         | VList d \<Rightarrow> VList (deque_free d)
                         | w \<Rightarrow> w) g;
          g = set_ttl v a (- 1) g
      in g\<lparr>ents := (ents g)(a := None)\<rparr>)"

definition entry_del :: "env \<Rightarrow> addr \<Rightarrow> 's gdata \<Rightarrow> 's gdata" where
  "entry_del v a g =
     (let g = g\<lparr>used_memory := used_memory g - emem (ent_at g a)\<rparr>;
          g = set_ttl v a (- 1) g
      in entry_del_sync v a g)"

section \<open>The main table\<close>

text \<open>\<open>hm_lookup(&g_data.db, &key.node, &entry_eq)\<close>.\<close>

definition db_lookup :: "string \<Rightarrow> 's gdata \<Rightarrow> 's gdata \<times> addr option" where
  "db_lookup k g = (let (m, r) = sk_lookup (key_at g) (db g) k in (g\<lparr>db := m\<rparr>, r))"

text \<open>\<open>hm_insert(&g_data.db, &ent->node)\<close>, the node carrying the hash of the key.\<close>

definition db_insert :: "addr \<Rightarrow> 's gdata \<Rightarrow> 's gdata" where
  "db_insert a g = g\<lparr>db := sk_insert (key_at g) (db g) a\<rparr>"

text \<open>\<open>hm_delete(&g_data.db, &key.node, &entry_eq)\<close>.\<close>

definition db_delete :: "string \<Rightarrow> 's gdata \<Rightarrow> 's gdata \<times> addr option" where
  "db_delete k g = (let (m, r) = sk_delete (key_at g) (db g) k in (g\<lparr>db := m\<rparr>, r))"

text \<open>\<open>hm_delete(&g_data.db, &ent->node, &hnode_same)\<close>: the node is compared by its address.\<close>

definition hnode_same :: "addr \<Rightarrow> addr \<Rightarrow> bool" where
  "hnode_same key node \<longleftrightarrow> node = key"

definition db_unlink :: "addr \<Rightarrow> 's gdata \<Rightarrow> 's gdata" where
  "db_unlink a g = g\<lparr>db := fst (hm_delete (db g) (str_hash (key_at g a)) (hnode_same a))\<rparr>"

text \<open>The pair of calls by which handlers remove a key.\<close>

definition drop_entry :: "env \<Rightarrow> addr \<Rightarrow> 's gdata \<Rightarrow> 's gdata" where
  "drop_entry v a g = entry_del v a (db_unlink a g)"

definition NOTIFY_EXPIRED :: int where
  "NOTIFY_EXPIRED = 256"

definition NOTIFY_EVICTED :: int where
  "NOTIFY_EVICTED = 512"

definition heap_val :: "'s gdata \<Rightarrow> addr \<Rightarrow> u64" where
  "heap_val g a = val (items (heap g) ! heap_idx (heap g) a)"

definition expire_if_needed :: "env \<Rightarrow> addr \<Rightarrow> 's gdata \<Rightarrow> 's gdata \<times> bool" where
  "expire_if_needed v a g =
     (if \<not> entry_has_ttl (heap g) a then (g, False)
      else if mono v < heap_val g a then (g, False)
      else (let g = emit (E_Notify NOTIFY_EXPIRED ''expired'' (key_at g a)) g
            in (drop_entry v a g, True)))"

section \<open>Access stamps\<close>

definition lfu_now_minutes :: "'s gdata \<Rightarrow> u16" where
  "lfu_now_minutes g = ucast ((lru_clock g div 60) AND 0xFFFF)"

definition lfu_decay :: "env \<Rightarrow> 's gdata \<Rightarrow> u32 \<Rightarrow> u8" where
  "lfu_decay v g lru =
     (let last = ucast (drop_bit 8 lru) :: u16;
          counter = ucast (lru AND 0xFF) :: u8
      in if lfu_decay_time (cfg v) \<le> 0 then counter
         else let elapsed = lfu_now_minutes g - last;
                  periods = elapsed div word_of_int (lfu_decay_time (cfg v))
              in if periods \<noteq> 0
                 then (if ucast counter < periods then 0 else ucast (ucast counter - periods))
                 else counter)"

definition LFU_INIT_VAL :: u8 where
  "LFU_INIT_VAL = 5"

text \<open>
  The test \<open>r < p\<close> with \<open>r = k / 10^6\<close> and \<open>p = 1 / x\<close>, cross-multiplied. Both quotients are
  rounded once; distinct ones differ by a relative \<open>10^-6\<close>, so rounding never changes the comparison.
  \<open>p\<close> is infinite for \<open>x = 0\<close> and negative for \<open>x < 0\<close>.
\<close>

definition lfu_log_incr :: "env \<Rightarrow> u8 \<Rightarrow> 's gdata \<Rightarrow> u8 \<times> 's gdata" where
  "lfu_log_incr v counter g =
     (if counter = 255 then (255, g)
      else let baseval = max 0 (uint counter - uint LFU_INIT_VAL);
               x = baseval * lfu_log_factor (cfg v) + 1;
               (k, g) = rand_idx v 1000000 g
           in (if x = 0 \<or> 0 < x \<and> int k * x < 1000000 then counter + 1 else counter, g))"

definition policy_is_lfu :: "env \<Rightarrow> bool" where
  "policy_is_lfu v \<longleftrightarrow> policy (cfg v) = ALLKEYS_LFU \<or> policy (cfg v) = VOLATILE_LFU"

definition entry_init_access :: "env \<Rightarrow> addr \<Rightarrow> 's gdata \<Rightarrow> 's gdata" where
  "entry_init_access v a g =
     (if policy_is_lfu v
      then put_ent a (\<lambda>e. e\<lparr>elru := push_bit 8 (ucast (lfu_now_minutes g)) OR ucast LFU_INIT_VAL\<rparr>) g
      else put_ent a (\<lambda>e. e\<lparr>elru := lru_clock g\<rparr>) g)"

definition entry_touch_access :: "env \<Rightarrow> addr \<Rightarrow> 's gdata \<Rightarrow> 's gdata" where
  "entry_touch_access v a g =
     (if policy_is_lfu v
      then let c = lfu_decay v g (elru (ent_at g a));
               (c, g) = lfu_log_incr v c g
           in put_ent a (\<lambda>e. e\<lparr>elru := push_bit 8 (ucast (lfu_now_minutes g)) OR ucast c\<rparr>) g
      else put_ent a (\<lambda>e. e\<lparr>elru := lru_clock g\<rparr>) g)"

section \<open>Lookup\<close>

datatype lookup = LOk addr | LMissing | LWrongType

text \<open>The tail of \<open>lookup_entry\<close>: a new entry of the wanted type under the key.\<close>

definition create_entry :: "env \<Rightarrow> string \<Rightarrow> etype \<Rightarrow> 's gdata \<Rightarrow> 's gdata \<times> addr" where
  "create_entry v k t g =
     (let (a, g) = entry_new t g;
          g = put_ent a (\<lambda>e. e\<lparr>ekey := str_new k\<rparr>) g;
          g = entry_init_access v a g
      in (db_insert a g, a))"

definition lookup_entry ::
  "env \<Rightarrow> string \<Rightarrow> etype \<Rightarrow> bool \<Rightarrow> bool \<Rightarrow> 's gdata \<Rightarrow> 's gdata \<times> lookup"
where
  "lookup_entry v k want create replace g =
     (let (g, node) = db_lookup k g;
          missing = (\<lambda>g. if \<not> create then (g, LMissing)
                         else let (g, a) = create_entry v k want g in (g, LOk a))
      in case node of
           None \<Rightarrow> missing g
         | Some a \<Rightarrow>
             (let (g, expired) = expire_if_needed v a g
              in if expired then missing g
                 else if type_at g a \<noteq> want
                 then (if \<not> replace then (g, LWrongType)
                       else let (g, _) = db_delete (key_at g a) g in missing (entry_del v a g))
                 else (entry_touch_access v a g, LOk a)))"

text \<open>
  The lookup many handlers write out: find the node, drop it if it has expired, do not stamp it.
\<close>

definition find_live :: "env \<Rightarrow> string \<Rightarrow> 's gdata \<Rightarrow> 's gdata \<times> addr option" where
  "find_live v k g =
     (let (g, node) = db_lookup k g
      in case node of
           None \<Rightarrow> (g, None)
         | Some a \<Rightarrow> (let (g, expired) = expire_if_needed v a g in (g, if expired then None else Some a)))"

section \<open>Eviction\<close>

definition db_random_entry :: "env \<Rightarrow> 's gdata \<Rightarrow> addr option \<times> 's gdata" where
  "db_random_entry v g = (let (n, g) = random_node v (db g) g in (map_option pay n, g))"

definition volatile_random_entry :: "env \<Rightarrow> 's gdata \<Rightarrow> addr option \<times> 's gdata" where
  "volatile_random_entry v g =
     (if items (heap g) = [] then (None, g)
      else let (i, g) = rand_idx v (length (items (heap g))) g
           in (Some (ref (items (heap g) ! i)), g))"

definition LRU_CLOCK_MAX :: u32 where
  "LRU_CLOCK_MAX = 0xFFFFFF"

definition evict_score :: "env \<Rightarrow> 's gdata \<Rightarrow> addr \<Rightarrow> u64" where
  "evict_score v g a =
     (if policy_is_lfu v then 255 - ucast (elru (ent_at g a) AND 0xFF)
      else ucast ((lru_clock g - elru (ent_at g a)) AND LRU_CLOCK_MAX))"

text \<open>The sampling loop of \<open>evict_pick_victim\<close>, \<open>n\<close> rounds left.\<close>

fun evict_sample ::
  "env \<Rightarrow> bool \<Rightarrow> nat \<Rightarrow> (addr \<times> u64) option \<Rightarrow> 's gdata \<Rightarrow> addr option \<times> 's gdata"
where
  "evict_sample v volatile_only 0 best g = (map_option fst best, g)"
| "evict_sample v volatile_only (Suc n) best g =
     (let (e, g) = (if volatile_only then volatile_random_entry v g else db_random_entry v g)
      in case e of
           None \<Rightarrow> (map_option fst best, g)
         | Some a \<Rightarrow>
             (let s = evict_score v g a
              in evict_sample v volatile_only n
                   (case best of
                      None \<Rightarrow> Some (a, s)
                    | Some (b, bs) \<Rightarrow> if bs < s then Some (a, s) else Some (b, bs)) g))"

definition evict_pick_victim :: "env \<Rightarrow> 's gdata \<Rightarrow> addr option \<times> 's gdata" where
  "evict_pick_victim v g =
     (case policy (cfg v) of
        NOEVICTION \<Rightarrow> (None, g)
      | ALLKEYS_RANDOM \<Rightarrow> db_random_entry v g
      | VOLATILE_RANDOM \<Rightarrow> volatile_random_entry v g
      | VOLATILE_TTL \<Rightarrow> (if items (heap g) = [] then None else Some (ref (items (heap g) ! 0)), g)
      | pol \<Rightarrow> evict_sample v (pol = VOLATILE_LRU \<or> pol = VOLATILE_LFU) (nat (maxmemory_samples (cfg v))) None g)"

end
