(* ===== verification/Keyspace.thy ===== *)
theory Keyspace
  imports State
begin

text \<open>
  The invariant of the key space and its abstraction. A state stands for a finite map from keys to a
  value and an optional deadline, restricted to the keys that have not expired (\<open>live\<close>). The
  invariant (\<open>g_ok\<close>) ties the main table, the store of entries and the expiry heap together and states
  that the memory counter is the sum of the sizes of all entries; its set argument names the entries whose
  size is not yet accounted, in the middle of a handler. The lemmas give the effect of every helper of
  theory \<open>State\<close> on the two, and the locale \<open>keyspace\<close> collects what the handlers use.
\<close>

section \<open>Invariant and abstraction\<close>

fun val_wf :: "'s::linorder evalue \<Rightarrow> bool" where
  "val_wf VInit = True"
| "val_wf (VStr s) = True"
| "val_wf (VZset z) = zset_wf z"
| "val_wf (VList d) = deque_ok d"
| "val_wf (VHash h) = hash_wf h"
| "val_wf (VSet h) = set_wf h"

datatype 's avalue =
  AInit
| AStr string
| AZset "string \<Rightarrow> 's option"
| AList "string list"
| AHash "string \<Rightarrow> string option"
| ASet "string set"

fun aval :: "'s evalue \<Rightarrow> 's avalue" where
  "aval VInit = AInit"
| "aval (VStr s) = AStr (chars s)"
| "aval (VZset z) = AZset (zset_abs z)"
| "aval (VList d) = AList (deque_list d)"
| "aval (VHash h) = AHash (hash_abs h)"
| "aval (VSet h) = ASet (set_abs h)"

fun atype :: "'s avalue \<Rightarrow> etype" where
  "atype AInit = T_INIT"
| "atype (AStr _) = T_STR"
| "atype (AZset _) = T_ZSET"
| "atype (AList _) = T_DLIST"
| "atype (AHash _) = T_HASH"
| "atype (ASet _) = T_SET"

lemma atype_aval [simp]: "atype (aval w) = vtype w"
  by (cases w) auto

definition g_ok :: "addr set \<Rightarrow> 's::linorder gdata \<Rightarrow> bool" where
  "g_ok S g \<longleftrightarrow>
     sk_wf (key_at g) (db g) \<and> set_mset (sk_payloads (db g)) = dom (ents g) \<and>
     heap_inv (heap g) \<and> dom (ttl_of (heap g)) \<subseteq> dom (ents g) \<and>
     (\<forall>a \<in> dom (ents g). a < next_addr g \<and> val_wf (val_at g a)) \<and>
     (\<forall>a \<in> dom (ents g) - S. emem (ent_at g a) = entry_mem_usage (ent_at g a)) \<and>
     used_memory g = (\<Sum>a \<in> dom (ents g). emem (ent_at g a))"

definition index :: "'s gdata \<Rightarrow> string \<Rightarrow> addr option" where
  "index g = sk_map (key_at g) (db g)"

definition expired :: "env \<Rightarrow> 's gdata \<Rightarrow> addr \<Rightarrow> bool" where
  "expired v g a \<longleftrightarrow> (\<exists>d. ttl_of (heap g) a = Some d \<and> d \<le> mono v)"

definition live :: "env \<Rightarrow> 's gdata \<Rightarrow> string \<Rightarrow> ('s avalue \<times> u64 option) option" where
  "live v g k =
     (case index g k of
        None \<Rightarrow> None
      | Some a \<Rightarrow> if expired v g a then None else Some (aval (val_at g a), ttl_of (heap g) a))"

definition g_room :: "'s gdata \<Rightarrow> bool" where
  "g_room g \<longleftrightarrow> card (dom (ents g)) < 2 ^ 60"

text \<open>The key is present, alive, and its entry is at the address.\<close>

definition at :: "env \<Rightarrow> 's gdata \<Rightarrow> string \<Rightarrow> addr \<Rightarrow> bool" where
  "at v g k a \<longleftrightarrow> index g k = Some a \<and> \<not> expired v g a"

lemma g_okD:
  assumes "g_ok S g"
  shows "sk_wf (key_at g) (db g)" "set_mset (sk_payloads (db g)) = dom (ents g)" "heap_inv (heap g)"
    "dom (ttl_of (heap g)) \<subseteq> dom (ents g)" "\<And>a. a \<in> dom (ents g) \<Longrightarrow> a < next_addr g"
    "\<And>a. a \<in> dom (ents g) \<Longrightarrow> val_wf (val_at g a)" "hm_wf (db g)" "finite (dom (ents g))"
    "used_memory g = (\<Sum>a \<in> dom (ents g). emem (ent_at g a))"
    "\<And>a. a \<in> dom (ents g) \<Longrightarrow> a \<notin> S \<Longrightarrow> emem (ent_at g a) = entry_mem_usage (ent_at g a)"
proof -
  show "finite (dom (ents g))" using assms finite_set_mset[of "sk_payloads (db g)"] by (simp add: g_ok_def)
qed (use assms in \<open>auto simp: g_ok_def sk_wf_def\<close>)

lemma g_okI:
  assumes "sk_wf (key_at g) (db g)" "set_mset (sk_payloads (db g)) = dom (ents g)" "heap_inv (heap g)"
    "dom (ttl_of (heap g)) \<subseteq> dom (ents g)" "\<And>a. a \<in> dom (ents g) \<Longrightarrow> a < next_addr g"
    "\<And>a. a \<in> dom (ents g) \<Longrightarrow> val_wf (val_at g a)"
    "\<And>a. a \<in> dom (ents g) \<Longrightarrow> a \<notin> S \<Longrightarrow> emem (ent_at g a) = entry_mem_usage (ent_at g a)"
    "used_memory g = (\<Sum>a \<in> dom (ents g). emem (ent_at g a))"
  shows "g_ok S g"
  using assms by (simp add: g_ok_def)

lemma g_ok_mono: "g_ok S g \<Longrightarrow> S \<subseteq> T \<Longrightarrow> g_ok T g"
  by (auto simp: g_ok_def)

lemma g_ok_index: "g_ok S g \<Longrightarrow> index g k = Some a \<longleftrightarrow> a \<in> dom (ents g) \<and> key_at g a = k"
  using sk_map_iff[OF g_okD(1), of S g k a] g_okD(2)[of S g] by (simp add: index_def)

lemma index_key: "g_ok S g \<Longrightarrow> a \<in> dom (ents g) \<Longrightarrow> index g (key_at g a) = Some a"
  using g_ok_index by blast

lemma g_ok_size: "g_ok S g \<Longrightarrow> size (sk_payloads (db g)) = card (dom (ents g))"
proof -
  assume ok: "g_ok S g"
  have "count (sk_payloads (db g)) p = 1" if p: "p \<in># sk_payloads (db g)" for p
  proof -
    have "0 < count (sk_payloads (db g)) p" using p by (rule count_greater_zero_iff[THEN iffD2])
    then show ?thesis using sk_unique[OF g_okD(1)[OF ok], of p] by linarith
  qed
  then have "size (sk_payloads (db g)) = card (set_mset (sk_payloads (db g)))"
    by (simp add: size_multiset_overloaded_eq)
  then show ?thesis by (simp add: g_okD(2)[OF ok])
qed

lemma g_room_db: "g_ok S g \<Longrightarrow> g_room g \<longleftrightarrow> hm_room (db g)"
  by (simp add: g_room_def hm_room_payloads g_ok_size)

lemma g_room_heap:
  assumes "g_ok S g" "card (dom (ents g)) \<le> 2 ^ 60"
  shows "length (items (heap g)) + 1 < NO_TTL"
proof -
  have "refs_ok (items (heap g)) (heap_idx (heap g))" using g_okD(3)[OF assms(1)] by (simp add: heap_inv_def)
  then have "distinct (map ref (items (heap g)))" by (rule refs_ok_distinct)
  then have "length (items (heap g)) = card (ref ` set (items (heap g)))" by (metis distinct_card length_map set_map)
  also have "ref ` set (items (heap g)) = dom (ttl_of (heap g))"
    by (rule set_eqI) (metis domIff ttl_of_None)
  also have "card \<dots> \<le> card (dom (ents g))" by (rule card_mono[OF g_okD(8)[OF assms(1)] g_okD(4)[OF assms(1)]])
  finally show ?thesis using assms(2) by (simp add: NO_TTL_def)
qed

lemma at_addr: "g_ok S g \<Longrightarrow> at v g k a \<Longrightarrow> a \<in> dom (ents g) \<and> key_at g a = k"
  by (simp add: at_def g_ok_index)

lemma at_live: "at v g k a \<Longrightarrow> live v g k = Some (aval (val_at g a), ttl_of (heap g) a)"
  by (simp add: at_def live_def)

lemma live_at: "live v g k = Some x \<Longrightarrow> \<exists>a. at v g k a"
  by (auto simp: at_def live_def split: option.splits if_splits)

lemma at_val_wf: "g_ok S g \<Longrightarrow> at v g k a \<Longrightarrow> val_wf (val_at g a)"
  using at_addr g_okD(6) by blast


section \<open>Frames\<close>

text \<open>The fields the invariant and the abstraction depend on.\<close>

definition core :: "'s gdata \<Rightarrow> addr hmap \<times> (addr \<Rightarrow> 's entry option) \<times> addr \<times> ttl_heap \<times> u64" where
  "core g = (db g, ents g, next_addr g, heap g, used_memory g)"

lemma core_same:
  assumes "core g' = core g"
  shows "ents g' = ents g" "heap g' = heap g" "ent_at g' = ent_at g" "val_at g' = val_at g" "key_at g' = key_at g"
    "type_at g' = type_at g" "index g' = index g" "expired v g' = expired v g" "live v g' = live v g" "at v g' = at v g"
    "g_room g' = g_room g" "db g' = db g"
proof -
  have e: "db g' = db g" "ents g' = ents g" "heap g' = heap g" using assms by (auto simp: core_def)
  show ea: "ent_at g' = ent_at g" by (simp add: ent_at_def fun_eq_iff e)
  show va: "val_at g' = val_at g" and ka: "key_at g' = key_at g" by (simp_all add: val_at_def key_at_def fun_eq_iff ea)
  show "type_at g' = type_at g" by (simp add: type_at_def fun_eq_iff va)
  show ix: "index g' = index g" by (simp add: index_def ka e)
  show ex: "expired v g' = expired v g" by (simp add: expired_def fun_eq_iff e)
  show "live v g' = live v g" unfolding live_def ix ex va e ..
  show "at v g' = at v g" by (simp add: at_def fun_eq_iff ix ex)
  show "g_room g' = g_room g" by (simp add: g_room_def e)
qed (use assms in \<open>auto simp: core_def\<close>)

lemma core_g_ok:
  assumes "core g' = core g"
  shows "g_ok S g' = g_ok S g"
proof -
  have e: "next_addr g' = next_addr g" "used_memory g' = used_memory g" using assms by (auto simp: core_def)
  show ?thesis unfolding g_ok_def core_same(1-5,12)[OF assms] e ..
qed

lemma core_simps [simp]:
  "core (wrote n g) = core g"
  "core (snd (rand_idx v n g)) = core g"
  "core (snd (random_node v m g)) = core g"
  "core (emit e g) = core g"
  by (simp_all add: core_def wrote_def rand_idx_def random_node_def emit_def)

lemmas wrote_same [simp] = core_same[OF core_simps(1)] core_g_ok[OF core_simps(1)]

lemma wrote_fields [simp]: "next_addr (wrote n g) = next_addr g" "used_memory (wrote n g) = used_memory g"
  by (simp_all add: wrote_def)

lemma db_upd_simps [simp]:
  "ent_at (g\<lparr>db := m\<rparr>) = ent_at g" "key_at (g\<lparr>db := m\<rparr>) = key_at g" "val_at (g\<lparr>db := m\<rparr>) = val_at g"
  by (simp_all add: ent_at_def key_at_def val_at_def fun_eq_iff)

lemma put_ent_simps:
  "dom (ents (put_ent a f g)) = dom (ents g)"
  "db (put_ent a f g) = db g" "heap (put_ent a f g) = heap g" "next_addr (put_ent a f g) = next_addr g"
  "used_memory (put_ent a f g) = used_memory g"
  "a \<in> dom (ents g) \<Longrightarrow> ent_at (put_ent a f g) b = (if b = a then f (ent_at g a) else ent_at g b)"
  by (auto simp: put_ent_def ent_at_def split: if_splits)

lemma put_ent_key:
  assumes "a \<in> dom (ents g)" "ekey (f (ent_at g a)) = ekey (ent_at g a)"
  shows "key_at (put_ent a f g) = key_at g" "index (put_ent a f g) = index g"
proof -
  show "key_at (put_ent a f g) = key_at g"
    using assms by (auto simp: key_at_def fun_eq_iff put_ent_simps(6)[OF assms(1)])
  then show "index (put_ent a f g) = index g" by (simp add: index_def put_ent_simps)
qed

lemma live_upd:
  assumes "g_ok S g" "index g k = Some a" "index g' = index g"
    "\<And>b. b \<in> dom (ents g) \<Longrightarrow> b \<noteq> a \<Longrightarrow> val_at g' b = val_at g b \<and> ttl_of (heap g') b = ttl_of (heap g) b"
  shows "live v g' = (live v g)(k := if expired v g' a then None else Some (aval (val_at g' a), ttl_of (heap g') a))"
proof
  fix j
  show "live v g' j = ((live v g)(k := if expired v g' a then None else Some (aval (val_at g' a), ttl_of (heap g') a))) j"
  proof (cases "j = k")
    case True
    then show ?thesis using assms(2,3) by (simp add: live_def)
  next
    case False
    have "b \<noteq> a \<and> b \<in> dom (ents g)" if "index g j = Some b" for b
      using that assms(2) g_ok_index[OF assms(1)] False by auto
    then show ?thesis using False assms(3,4) by (auto simp: live_def expired_def split: option.splits)
  qed
qed

lemma put_ent_ok:
  assumes ok: "g_ok S g" and a: "index g k = Some a"
    and f: "ekey (f (ent_at g a)) = ekey (ent_at g a)" "emem (f (ent_at g a)) = emem (ent_at g a)" "val_wf (eval (f (ent_at g a)))"
  shows "g_ok (insert a S) (put_ent a f g)"
    and "eval (f (ent_at g a)) = eval (ent_at g a) \<Longrightarrow> g_ok S (put_ent a f g)"
    and "index (put_ent a f g) = index g" "expired v (put_ent a f g) = expired v g"
    and "val_at (put_ent a f g) b = (if b = a then eval (f (ent_at g a)) else val_at g b)"
    and "live v (put_ent a f g) = (live v g)(k := if expired v g a then None else Some (aval (eval (f (ent_at g a))), ttl_of (heap g) a))"
proof -
  have ad: "a \<in> dom (ents g)" using a g_ok_index[OF ok] by simp
  note ps = put_ent_simps(1-5) put_ent_simps(6)[OF ad]
  note key = put_ent_key[where f = f, OF ad f(1)]
  show ix: "index (put_ent a f g) = index g" by (rule key(2))
  show ex: "expired v (put_ent a f g) = expired v g" by (simp add: expired_def ps fun_eq_iff)
  show va: "val_at (put_ent a f g) b = (if b = a then eval (f (ent_at g a)) else val_at g b)" for b by (simp add: val_at_def ps)
  have sum: "(\<Sum>b \<in> dom (ents g). emem (ent_at (put_ent a f g) b)) = (\<Sum>b \<in> dom (ents g). emem (ent_at g b))"
    using f(2) by (intro sum.cong) (auto simp: ps)
  note d = g_okD[OF ok]
  have wf: "val_wf (val_at (put_ent a f g) b)" if "b \<in> dom (ents g)" for b using d(6)[OF that] f(3) by (simp add: va)
  have base: "g_ok T (put_ent a f g)"
    if "\<And>b. b \<in> dom (ents g) \<Longrightarrow> b \<notin> T \<Longrightarrow> emem (ent_at (put_ent a f g) b) = entry_mem_usage (ent_at (put_ent a f g) b)" for T
    by (rule g_okI, unfold ps(1-5) key sum) (fact d that wf)+
  show "g_ok (insert a S) (put_ent a f g)" by (rule base) (use d(10) in \<open>simp add: ps\<close>)
  show "g_ok S (put_ent a f g)" if e: "eval (f (ent_at g a)) = eval (ent_at g a)"
    by (rule base) (use d(10) f(1,2) e in \<open>auto simp: ps entry_mem_usage_def\<close>)
  show "live v (put_ent a f g) = (live v g)(k := if expired v g a then None else Some (aval (eval (f (ent_at g a))), ttl_of (heap g) a))"
    using live_upd[OF ok a ix, of v] by (simp add: va ex ps)
qed


section \<open>Writing, accounting, expiry times\<close>

lemma put_val_ok:
  assumes ok: "g_ok S g" and a: "at v g k a" and w: "val_wf w"
  shows "g_ok (insert a S) (put_val a w g)" "at v (put_val a w g) k a" "val_at (put_val a w g) a = w"
    "live v (put_val a w g) = (live v g)(k \<mapsto> (aval w, ttl_of (heap g) a))"
    "ttl_of (heap (put_val a w g)) = ttl_of (heap g)" "dom (ents (put_val a w g)) = dom (ents g)"
proof -
  have ix: "index g k = Some a" "\<not> expired v g a" using a by (auto simp: at_def)
  let ?f = "\<lambda>e. e\<lparr>eval := w\<rparr>"
  note p = put_ent_ok[where f = ?f, OF ok ix(1)]
  show "g_ok (insert a S) (put_val a w g)" unfolding put_val_def by (rule p(1)) (simp_all add: w)
  show "at v (put_val a w g) k a" unfolding put_val_def at_def using p(3,4) ix w by simp
  show "val_at (put_val a w g) a = w" unfolding put_val_def using p(5) w by simp
  show "live v (put_val a w g) = (live v g)(k \<mapsto> (aval w, ttl_of (heap g) a))"
    unfolding put_val_def using p(6)[of v] ix w by simp
qed (simp_all add: put_val_def put_ent_simps)

lemma mem_reaccount_ok:
  assumes ok: "g_ok S g" and a: "a \<in> dom (ents g)"
  shows "g_ok (S - {a}) (mem_reaccount a g)" "val_at (mem_reaccount a g) = val_at g" "key_at (mem_reaccount a g) = key_at g"
    "index (mem_reaccount a g) = index g" "live v (mem_reaccount a g) = live v g" "at v (mem_reaccount a g) = at v g"
    "heap (mem_reaccount a g) = heap g" "dom (ents (mem_reaccount a g)) = dom (ents g)"
proof -
  note d = g_okD[OF ok]
  let ?m = "entry_mem_usage (ent_at g a)" and ?g = "mem_reaccount a g"
  have e: "ent_at ?g b = (if b = a then (ent_at g a)\<lparr>emem := ?m\<rparr> else ent_at g b)" for b
    using a by (auto simp: mem_reaccount_def put_ent_def ent_at_def Let_def)
  show va: "val_at ?g = val_at g" and ka: "key_at ?g = key_at g" by (auto simp: val_at_def key_at_def e)
  show dm: "dom (ents ?g) = dom (ents g)" and hp: "heap ?g = heap g"
    by (auto simp: mem_reaccount_def put_ent_def Let_def split: if_splits)
  have f: "db ?g = db g" "next_addr ?g = next_addr g" "used_memory ?g = used_memory g + ?m - emem (ent_at g a)"
    by (simp_all add: mem_reaccount_def put_ent_def Let_def ent_at_def)
  show ix: "index ?g = index g" by (simp add: index_def ka f)
  have ex: "expired v ?g = expired v g" by (simp add: expired_def fun_eq_iff hp)
  show "live v ?g = live v g" unfolding live_def ix ex va hp ..
  show "at v ?g = at v g" by (simp add: at_def fun_eq_iff ix ex)
  have "(\<Sum>b \<in> dom (ents g). emem (ent_at ?g b)) = ?m + (\<Sum>b \<in> dom (ents g) - {a}. emem (ent_at g b))"
    unfolding sum.remove[OF d(8) a] by (simp add: e)
  also have "\<dots> = used_memory ?g" unfolding f d(9) sum.remove[OF d(8) a] by simp
  finally have us: "used_memory ?g = (\<Sum>b \<in> dom (ents g). emem (ent_at ?g b))" by simp
  have ac: "emem (ent_at ?g b) = entry_mem_usage (ent_at ?g b)" if "b \<in> dom (ents g)" "b \<notin> S - {a}" for b
    using that d(10)[of b] by (auto simp: e entry_mem_usage_def)
  show "g_ok (S - {a}) ?g"
    by (rule g_okI, unfold dm f(1,2) ka va hp) (fact d us ac)+
qed

lemma set_ttl_simps:
  "ents (set_ttl v a t g) = ents g" "db (set_ttl v a t g) = db g" "next_addr (set_ttl v a t g) = next_addr g"
  "used_memory (set_ttl v a t g) = used_memory g" "val_at (set_ttl v a t g) = val_at g" "key_at (set_ttl v a t g) = key_at g"
  "ent_at (set_ttl v a t g) = ent_at g" "index (set_ttl v a t g) = index g"
proof -
  show ka: "key_at (set_ttl v a t g) = key_at g" by (simp add: set_ttl_def key_at_def ent_at_def fun_eq_iff)
  show "index (set_ttl v a t g) = index g" unfolding index_def ka by (simp add: set_ttl_def)
qed (simp_all add: set_ttl_def val_at_def ent_at_def fun_eq_iff)

lemma set_ttl_ok:
  assumes ok: "g_ok S g" and a: "index g k = Some a" and room: "card (dom (ents g)) \<le> 2 ^ 60"
    and t'_def: "t' = (if t < 0 then None else Some (mono v + word_of_int t))"
  shows "g_ok S (set_ttl v a t g)" "ttl_of (heap (set_ttl v a t g)) = (ttl_of (heap g))(a := t')"
    "live v (set_ttl v a t g) = (live v g)(k := if \<exists>d. t' = Some d \<and> d \<le> mono v then None else Some (aval (val_at g a), t'))"
    "(\<nexists>d. t' = Some d \<and> d \<le> mono v) \<Longrightarrow> at v (set_ttl v a t g) k a"
proof -
  note d = g_okD[OF ok]
  have ad: "a \<in> dom (ents g)" using a g_ok_index[OF ok] by simp
  note hr = g_room_heap[OF ok room]
  have hi: "heap_inv (heap (set_ttl v a t g))" unfolding set_ttl_def using ttlq.inv_set_ttl[OF d(3) hr] by simp
  show tt: "ttl_of (heap (set_ttl v a t g)) = (ttl_of (heap g))(a := t')"
    unfolding set_ttl_def t'_def using ttlq.deadline_set_ttl[OF d(3) hr] by simp
  have sub: "dom (ttl_of (heap (set_ttl v a t g))) \<subseteq> dom (ents g)" unfolding tt using d(4) ad by auto
  show "g_ok S (set_ttl v a t g)"
    by (rule g_okI, unfold set_ttl_simps) (fact d hi sub)+
  have ex: "expired v (set_ttl v a t g) a \<longleftrightarrow> (\<exists>d. t' = Some d \<and> d \<le> mono v)" by (simp add: expired_def tt)
  have lu: "live v (set_ttl v a t g) = (live v g)(k := if expired v (set_ttl v a t g) a then None
      else Some (aval (val_at (set_ttl v a t g) a), ttl_of (heap (set_ttl v a t g)) a))"
    by (rule live_upd[OF ok a set_ttl_simps(8)]) (simp add: tt set_ttl_simps)
  show "live v (set_ttl v a t g) = (live v g)(k := if \<exists>d. t' = Some d \<and> d \<le> mono v then None else Some (aval (val_at g a), t'))"
    unfolding lu ex tt set_ttl_simps by auto
  show "at v (set_ttl v a t g) k a" if "\<nexists>d. t' = Some d \<and> d \<le> mono v"
    using that a ex by (simp add: at_def set_ttl_simps)
qed


section \<open>Removal\<close>

lemma entry_del_simps:
  assumes hi: "heap_inv (heap g)"
  shows "ents (entry_del v a g) = (ents g)(a := None)" "db (entry_del v a g) = db g"
    "next_addr (entry_del v a g) = next_addr g" "used_memory (entry_del v a g) = used_memory g - emem (ent_at g a)"
    "heap_inv (heap (entry_del v a g))" "ttl_of (heap (entry_del v a g)) = (ttl_of (heap g))(a := None)"
proof -
  let ?h = "entry_set_ttl (mono v) (heap g) a (- 1)"
  have h: "heap (entry_del v a g) = entry_set_ttl (mono v) ?h a (- 1)"
    by (simp add: entry_del_def entry_del_sync_def set_ttl_def put_val_def put_ent_def Let_def)
  have i: "heap_inv ?h" using ttlq.inv_clear[OF hi] by simp
  show "heap_inv (heap (entry_del v a g))" unfolding h using ttlq.inv_clear[OF i] by simp
  show "ttl_of (heap (entry_del v a g)) = (ttl_of (heap g))(a := None)"
    unfolding h using ttlq.deadline_clear[OF i] ttlq.deadline_clear[OF hi] by simp
  show "ents (entry_del v a g) = (ents g)(a := None)"
    by (auto simp: entry_del_def entry_del_sync_def set_ttl_def put_val_def put_ent_def Let_def)
qed (simp_all add: entry_del_def entry_del_sync_def set_ttl_def put_val_def put_ent_def Let_def)

text \<open>Freeing an entry whose node has left the main table.\<close>

lemma entry_del_ok:
  assumes ok: "g_ok S g" and a: "index g k = Some a"
    and m: "sk_wf (key_at g) m" "sk_payloads (db g) = add_mset a (sk_payloads m)"
    and g'_def: "g' = entry_del v a (g\<lparr>db := m\<rparr>)"
  shows "g_ok S g'" "live v' g' = (live v' g)(k := None)" "dom (ents g') = dom (ents g) - {a}"
    "index g' = (index g)(k := None)" "\<And>b. b \<noteq> a \<Longrightarrow> val_at g' b = val_at g b"
    "ttl_of (heap g') = (ttl_of (heap g))(a := None)"
proof -
  note d = g_okD[OF ok]
  have ad: "a \<in> dom (ents g)" "key_at g a = k" using a g_ok_index[OF ok] by auto
  let ?g = "g\<lparr>db := m\<rparr>"
  have hi: "heap_inv (heap ?g)" using d(3) by simp
  have em: "ent_at ?g = ent_at g" by (simp add: ent_at_def fun_eq_iff)
  note s = entry_del_simps[OF hi, of v a, folded g'_def, unfolded em, simplified]
  have ea: "ent_at g' b = ent_at g b" if "b \<noteq> a" for b using that by (simp add: ent_at_def s)
  show va: "val_at g' b = val_at g b" if "b \<noteq> a" for b using ea[OF that] by (simp add: val_at_def)
  show dm: "dom (ents g') = dom (ents g) - {a}" by (simp add: s)
  show tt: "ttl_of (heap g') = (ttl_of (heap g))(a := None)" by (rule s)
  have "a \<notin># sk_payloads m" using sk_unique[OF d(1), of a] m(2) by (simp add: not_in_iff)
  then have ane: "b \<noteq> a" if "b \<in># sk_payloads m" for b using that by auto
  have pl: "set_mset (sk_payloads m) = dom (ents g) - {a}"
    using d(2) m(2) \<open>a \<notin># sk_payloads m\<close> by auto
  have kc: "key_at g b = key_at g' b" if "b \<in># sk_payloads m" for b
    using ane[OF that] ea by (simp add: key_at_def)
  have wf: "sk_wf (key_at g') m" using sk_key_cong(1)[of m "key_at g" "key_at g'"] kc m(1) by blast
  have us: "used_memory g' = (\<Sum>b \<in> dom (ents g) - {a}. emem (ent_at g' b))"
    unfolding s d(9) sum.remove[OF d(8) ad(1)] by (simp add: ea)
  have sub: "dom (ttl_of (heap g')) \<subseteq> dom (ents g) - {a}" unfolding tt using d(4) by auto
  have lt: "b < next_addr g" if "b \<in> dom (ents g) - {a}" for b using d(5) that by blast
  have vw: "val_wf (val_at g' b)" if "b \<in> dom (ents g) - {a}" for b using d(6) that by (simp add: va)
  have ac: "emem (ent_at g' b) = entry_mem_usage (ent_at g' b)" if "b \<in> dom (ents g) - {a}" "b \<notin> S" for b
    using d(10) that by (simp add: ea)
  show ok': "g_ok S g'"
    by (rule g_okI, unfold dm s(2,3)) (fact wf pl s(5) sub lt vw ac us)+
  show ix: "index g' = (index g)(k := None)"
  proof (rule map_eqI_Some)
    fix j b
    have "key_at g' b = key_at g b" if "b \<noteq> a" using ea[OF that] by (simp add: key_at_def)
    then show "index g' j = Some b \<longleftrightarrow> ((index g)(k := None)) j = Some b"
      using g_ok_index[OF ok, of j b] g_ok_index[OF ok', of j b] g_ok_index[OF ok, of k b] a ad unfolding dm by auto
  qed
  show "live v' g' = (live v' g)(k := None)"
  proof
    fix j
    have "b \<noteq> a" if "j \<noteq> k" "index g j = Some b" for b using that g_ok_index[OF ok] a by auto
    then show "live v' g' j = ((live v' g)(k := None)) j"
      by (auto simp: live_def ix expired_def tt va split: option.splits)
  qed
qed

lemma db_unlink_ok:
  assumes ok: "g_ok S g" and a: "a \<in> dom (ents g)"
  obtains m where "db_unlink a g = g\<lparr>db := m\<rparr>" "sk_wf (key_at g) m" "sk_payloads (db g) = add_mset a (sk_payloads m)"
proof -
  note d = g_okD[OF ok]
  obtain m r where r: "hm_delete (db g) (str_hash (key_at g a)) (hnode_same a) = (m, r)" by fastforce
  note h = hm_delete_ok[OF d(7) r]
  have "a \<in># sk_payloads (db g)" using d(2) a by simp
  then obtain n where n: "n \<in># hm_mset (db g)" "pay n = a" by (auto simp: sk_payloads_def)
  have hc: "hcode n = str_hash (key_at g a)" using d(1) n by (auto simp: sk_wf_def)
  have sm: "hnode_same a (pay n)" using n(2) by (simp add: hnode_same_def)
  obtain x where x: "r = Some x"
  proof (cases r)
    case None
    then show ?thesis using h n(1) hc sm by auto
  qed (use that in blast)
  then have ms: "hm_mset (db g) = add_mset x (hm_mset m)" and px: "pay x = a" "hm_wf m"
    using h by (auto simp: hnode_same_def)
  then have pl: "sk_payloads (db g) = add_mset a (sk_payloads m)" by (simp add: sk_payloads_def)
  have c: "count (image_mset (key_at g) (sk_payloads m)) j \<le> count (image_mset (key_at g) (sk_payloads (db g))) j" for j
    unfolding pl by simp
  have "sk_wf (key_at g) m"
    unfolding sk_wf_iff[OF px(2)] using d(1)[unfolded sk_wf_iff[OF d(7)]] c ms px(2) le_trans[OF c] by auto
  then show ?thesis using that[of m] pl r by (simp add: db_unlink_def)
qed

lemma drop_entry_ok:
  assumes ok: "g_ok S g" and a: "index g k = Some a"
  shows "g_ok S (drop_entry v a g)" "live v' (drop_entry v a g) = (live v' g)(k := None)"
    "dom (ents (drop_entry v a g)) = dom (ents g) - {a}" "index (drop_entry v a g) = (index g)(k := None)"
    "\<And>b. b \<noteq> a \<Longrightarrow> val_at (drop_entry v a g) b = val_at g b"
    "ttl_of (heap (drop_entry v a g)) = (ttl_of (heap g))(a := None)"
proof -
  have ad: "a \<in> dom (ents g)" using a g_ok_index[OF ok] by simp
  obtain m where m: "db_unlink a g = g\<lparr>db := m\<rparr>" "sk_wf (key_at g) m" "sk_payloads (db g) = add_mset a (sk_payloads m)"
    by (rule db_unlink_ok[OF ok ad])
  note e = entry_del_ok[OF ok a m(2,3), where v = v, folded m(1) drop_entry_def, OF refl]
  show "g_ok S (drop_entry v a g)" "live v' (drop_entry v a g) = (live v' g)(k := None)"
    "dom (ents (drop_entry v a g)) = dom (ents g) - {a}" "index (drop_entry v a g) = (index g)(k := None)"
    "\<And>b. b \<noteq> a \<Longrightarrow> val_at (drop_entry v a g) b = val_at g b"
    "ttl_of (heap (drop_entry v a g)) = (ttl_of (heap g))(a := None)"
    using e by auto
qed


section \<open>Lookup\<close>

lemma db_lookup_ok:
  assumes ok: "g_ok S g" and r: "db_lookup k g = (g', r)"
  shows "g_ok S g'" "r = index g k" "index g' = index g" "live v g' = live v g" "expired v g' = expired v g"
    "ents g' = ents g" "heap g' = heap g" "val_at g' = val_at g" "key_at g' = key_at g" "ent_at g' = ent_at g"
proof -
  note d = g_okD[OF ok]
  obtain m where m: "sk_lookup (key_at g) (db g) k = (m, r)" "g' = g\<lparr>db := m\<rparr>"
    using r by (auto simp: db_lookup_def split: prod.splits)
  note l = sk.lookup_law[OF d(1) m(1)]
  show e: "ents g' = ents g" and hp: "heap g' = heap g" by (simp_all add: m)
  show ea: "ent_at g' = ent_at g" by (simp add: ent_at_def fun_eq_iff m)
  show va: "val_at g' = val_at g" and ka: "key_at g' = key_at g" by (simp_all add: val_at_def key_at_def fun_eq_iff ea)
  show "r = index g k" using l by (simp add: index_def)
  show ix: "index g' = index g" unfolding index_def ka using l by (simp add: m)
  show ex: "expired v g' = expired v g" by (simp add: expired_def fun_eq_iff hp)
  show "live v g' = live v g" unfolding live_def ix ex va hp ..
  have f: "next_addr g' = next_addr g" "used_memory g' = used_memory g" "db g' = m" by (simp_all add: m)
  have w: "sk_wf (key_at g) m" "set_mset (sk_payloads m) = dom (ents g)" using l d(2) by auto
  show "g_ok S g'" by (rule g_okI, unfold e hp va ka ea f) (fact d w)+
qed

lemma expired_iff: "g_ok S g \<Longrightarrow> expired v g a \<longleftrightarrow> entry_has_ttl (heap g) a \<and> heap_val g a \<le> mono v"
  using heap_inv_has_ttl[OF g_okD(3), of S g a] heap_inv_deadline[OF g_okD(3), of S g a]
  by (auto simp: expired_def heap_val_def)

lemma expire_if_needed_ok:
  assumes ok: "g_ok S g" and a: "index g k = Some a" and r: "expire_if_needed v a g = (g', b)"
  shows "g_ok S g'" "b \<longleftrightarrow> expired v g a" "live v g' = live v g" "\<not> b \<Longrightarrow> g' = g"
    "b \<Longrightarrow> index g' = (index g)(k := None)" "b \<Longrightarrow> dom (ents g') = dom (ents g) - {a}"
proof -
  let ?n = "emit (E_Notify NOTIFY_EXPIRED ''expired'' (key_at g a)) g"
  have okn: "g_ok S ?n" "index ?n k = Some a" using ok a by (simp_all add: core_g_ok[OF core_simps(4)] core_same[OF core_simps(4)])
  note dr = drop_entry_ok[OF okn, where v = v, unfolded core_same[OF core_simps(4)]]
  have res: "(g', b) = (if expired v g a then (drop_entry v a ?n, True) else (g, False))"
    using r unfolding expired_iff[OF ok] expire_if_needed_def by (auto simp: not_less Let_def split: if_splits)
  have lk: "live v g k = None" if "expired v g a" using that a by (simp add: live_def)
  show "g_ok S g'" "b \<longleftrightarrow> expired v g a" "\<not> b \<Longrightarrow> g' = g" "b \<Longrightarrow> index g' = (index g)(k := None)"
    "b \<Longrightarrow> dom (ents g') = dom (ents g) - {a}"
    using res dr ok by (auto split: if_splits)
  show "live v g' = live v g"
    using res dr(2)[of v] lk by (auto split: if_splits simp: fun_upd_idem)
qed

lemma find_live_ok:
  assumes ok: "g_ok S g" and r: "find_live v k g = (g', r)"
  shows "g_ok S g'" "live v g' = live v g" "r = Some a \<Longrightarrow> at v g' k a" "r = None \<Longrightarrow> live v g k = None \<and> index g' k = None"
    "dom (ents g') \<subseteq> dom (ents g)"
proof -
  obtain g1 n where l: "db_lookup k g = (g1, n)" by fastforce
  note ll = db_lookup_ok[OF ok l]
  have "g_ok S g' \<and> live v g' = live v g \<and> (\<forall>a. r = Some a \<longrightarrow> at v g' k a) \<and>
    (r = None \<longrightarrow> live v g k = None \<and> index g' k = None) \<and> dom (ents g') \<subseteq> dom (ents g)"
  proof (cases n)
    case None
    then show ?thesis using r l ll by (auto simp: find_live_def live_def)
  next
    case (Some a)
    obtain g2 b where e: "expire_if_needed v a g1 = (g2, b)" by fastforce
    have ia: "index g1 k = Some a" using ll Some by simp
    note ee = expire_if_needed_ok[OF ll(1) ia e]
    have "g' = g2" "r = (if b then None else Some a)" using r l Some e by (auto simp: find_live_def)
    then show ?thesis using ee ll ia by (auto simp: at_def live_def)
  qed
  then show "g_ok S g'" "live v g' = live v g" "r = Some a \<Longrightarrow> at v g' k a"
    "r = None \<Longrightarrow> live v g k = None \<and> index g' k = None" "dom (ents g') \<subseteq> dom (ents g)" by auto
qed


lemma empty_val_wf [simp]: "val_wf (empty_val t)" "vtype (empty_val t) = t"
  by (cases t; simp add: empty_val_def hash_empty_ok set_empty_ok deque_init_wf[unfolded deque_wf_def])+

lemma new_entry_ok:
  assumes ok: "g_ok S g" and k: "index g k = None" and room: "g_room g" and a: "a = next_addr g"
    and e: "ents g' = (ents g)(a \<mapsto> e)" "chars (ekey e) = k" "val_wf (eval e)"
    and f: "next_addr g' = a + 1" "heap g' = heap g" "used_memory g' = used_memory g + emem e"
    and b: "db g' = sk_insert (key_at g') (db g) a"
  shows "g_ok (insert a S) g'" "emem e = entry_mem_usage e \<Longrightarrow> g_ok S g'" "at v g' k a" "val_at g' a = eval e" "a \<notin> dom (ents g)"
    "live v g' = (live v g)(k \<mapsto> (aval (eval e), None))" "dom (ents g') = insert a (dom (ents g))"
    "\<And>c. c \<noteq> a \<Longrightarrow> val_at g' c = val_at g c"
proof -
  note d = g_okD[OF ok]
  show an: "a \<notin> dom (ents g)" using d(5)[of a] a by auto
  then have ea: "ent_at g' c = (if c = a then e else ent_at g c)" for c
    by (auto simp: ent_at_def e)
  show va: "val_at g' a = eval e" and "\<And>c. c \<noteq> a \<Longrightarrow> val_at g' c = val_at g c" by (simp_all add: val_at_def ea)
  then have vc: "val_at g' c = (if c = a then eval e else val_at g c)" for c by simp
  show dm: "dom (ents g') = insert a (dom (ents g))" by (auto simp: e)
  have ka: "key_at g' a = k" and kb: "\<And>c. c \<noteq> a \<Longrightarrow> key_at g' c = key_at g c" by (simp_all add: key_at_def ea e)
  have kc: "key_at g c = key_at g' c" if "c \<in># sk_payloads (db g)" for c
    using that d(2) an kb[of c] by (cases "c = a") auto
  have w: "sk_wf (key_at g') (db g)" using sk_key_cong(1)[of "db g" "key_at g" "key_at g'"] kc d(1) by blast
  have mn: "sk_map (key_at g') (db g) (key_at g' a) = None"
    using sk_key_cong(2)[of "db g" "key_at g" "key_at g'"] kc d(7) k ka by (simp add: index_def)
  have rm: "hm_room (db g)" using room g_room_db[OF ok] by simp
  note ins = sk_insert_ok[OF w rm mn, folded b]
  have pl: "set_mset (sk_payloads (db g')) = insert a (dom (ents g))" using ins d(2) by simp
  have us: "used_memory g' = (\<Sum>c \<in> insert a (dom (ents g)). emem (ent_at g' c))"
  proof -
    have "(\<Sum>c \<in> dom (ents g). emem (ent_at g' c)) = (\<Sum>c \<in> dom (ents g). emem (ent_at g c))"
      using an by (intro sum.cong) (auto simp: ea)
    then show ?thesis using an d(8,9) by (simp add: f ea)
  qed
  have lt: "c < next_addr g'" if "c \<in> insert a (dom (ents g))" for c
  proof (cases "c = a")
    case False
    then show ?thesis using d(5)[of c] that by (simp add: f a)
  qed (simp add: f)
  have vw: "val_wf (val_at g' c)" if "c \<in> insert a (dom (ents g))" for c using that d(6) e(3) by (auto simp: vc)
  have sub: "dom (ttl_of (heap g)) \<subseteq> insert a (dom (ents g))" using d(4) by auto
  have base: "g_ok T g'"
    if ac: "\<And>c. c \<in> insert a (dom (ents g)) \<Longrightarrow> c \<notin> T \<Longrightarrow> emem (ent_at g' c) = entry_mem_usage (ent_at g' c)" for T
    by (rule g_okI, unfold dm f(2)) (fact conjunct1[OF ins] pl d(3) sub lt vw ac us)+
  show ok': "g_ok (insert a S) g'" by (rule base) (use d(10) in \<open>auto simp: ea\<close>)
  show "g_ok S g'" if "emem e = entry_mem_usage e" by (rule base) (use d(10) that in \<open>auto simp: ea\<close>)
  have ta: "ttl_of (heap g) a = None" using d(4) an by auto
  have ix: "index g' = (index g)(k \<mapsto> a)"
  proof (rule map_eqI_Some)
    fix j c
    show "index g' j = Some c \<longleftrightarrow> ((index g)(k \<mapsto> a)) j = Some c"
      using g_ok_index[OF ok', of j c] g_ok_index[OF ok, of j c] k ka kb[of c] an unfolding dm
      by (cases "c = a") auto
  qed
  show "at v g' k a" by (simp add: at_def ix expired_def f ta)
  show "live v g' = (live v g)(k \<mapsto> (aval (eval e), None))"
  proof
    fix j
    have "c \<noteq> a" if "index g j = Some c" for c using that g_ok_index[OF ok, of j c] an by auto
    then show "live v g' j = ((live v g)(k \<mapsto> (aval (eval e), None))) j"
      by (auto simp: live_def ix expired_def f ta vc split: option.splits)
  qed
qed

lemma create_entry_ok:
  assumes ok: "g_ok S g" and k: "index g k = None" and room: "g_room g" and r: "create_entry v k t g = (g', a)"
  shows "g_ok (insert a S) g'" "at v g' k a" "val_at g' a = empty_val t" "a \<notin> dom (ents g)"
    "live v g' = (live v g)(k \<mapsto> (aval (empty_val t), None))" "dom (ents g') = insert a (dom (ents g))"
    "ttl_of (heap g') = ttl_of (heap g)" "\<And>b. b \<noteq> a \<Longrightarrow> val_at g' b = val_at g b"
proof -
  have a: "a = next_addr g" using r by (auto simp: create_entry_def entry_new_def Let_def)
  obtain x where
    e: "ents g' = (ents g)(a \<mapsto> \<lparr>ekey = str_new k, emem = 0, elru = x, eval = empty_val t\<rparr>)" and
    f: "next_addr g' = a + 1" "heap g' = heap g" "used_memory g' = used_memory g" and
    b: "db g' = sk_insert (key_at g') (db g) a"
  proof -
    let ?e = "\<lparr>ekey = str_new k, emem = 0, elru = 0, eval = empty_val t\<rparr>"
    let ?g2 = "g\<lparr>ents := (ents g)(a \<mapsto> ?e), next_addr := a + 1\<rparr>"
    have g2: "put_ent a (\<lambda>e. e\<lparr>ekey := str_new k\<rparr>) (snd (entry_new t g)) = ?g2"
      by (simp add: entry_new_def put_ent_def a Let_def)
    define y where "y = (if policy_is_lfu v then push_bit 8 (ucast (lfu_now_minutes ?g2)) OR ucast LFU_INIT_VAL else lru_clock ?g2)"
    have g3: "entry_init_access v a ?g2 = ?g2\<lparr>ents := (ents g)(a \<mapsto> ?e\<lparr>elru := y\<rparr>)\<rparr>"
      by (simp add: entry_init_access_def put_ent_def y_def)
    have "g' = db_insert a (?g2\<lparr>ents := (ents g)(a \<mapsto> ?e\<lparr>elru := y\<rparr>)\<rparr>)"
      using r g2 g3 by (simp add: create_entry_def split_beta Let_def a entry_new_def)
    then show ?thesis using that[of y] by (simp add: db_insert_def)
  qed
  note n = new_entry_ok[OF ok k room a e _ _ f(1,2) _ b, simplified, OF f(3)]
  show "g_ok (insert a S) g'" "at v g' k a" "val_at g' a = empty_val t" "a \<notin> dom (ents g)"
    "live v g' = (live v g)(k \<mapsto> (aval (empty_val t), None))" "dom (ents g') = insert a (dom (ents g))"
    "\<And>b. b \<noteq> a \<Longrightarrow> val_at g' b = val_at g b" using n by auto
  show "ttl_of (heap g') = ttl_of (heap g)" by (simp add: f)
qed

lemma entry_touch_access_ok:
  assumes ok: "g_ok S g" and a: "index g k = Some a"
  shows "g_ok S (entry_touch_access v a g)" "live v' (entry_touch_access v a g) = live v' g"
    "index (entry_touch_access v a g) = index g" "heap (entry_touch_access v a g) = heap g"
    "val_at (entry_touch_access v a g) = val_at g" "dom (ents (entry_touch_access v a g)) = dom (ents g)"
proof -
  obtain g1 x where g1: "core g1 = core g" and t: "entry_touch_access v a g = put_ent a (\<lambda>e. e\<lparr>elru := x\<rparr>) g1"
  proof (cases "policy_is_lfu v")
    case False
    then show ?thesis using that[of g "lru_clock g"] by (simp add: entry_touch_access_def)
  next
    case True
    obtain c g1 where l: "lfu_log_incr v (lfu_decay v g (elru (ent_at g a))) g = (c, g1)" by fastforce
    have "core g1 = core g"
      using l by (auto simp: lfu_log_incr_def rand_idx_def core_def Let_def split: if_splits)
    then show ?thesis using that[of g1] True l by (simp add: entry_touch_access_def)
  qed
  have ok1: "g_ok S g1" "index g1 k = Some a" using ok a by (simp_all add: core_g_ok[OF g1] core_same[OF g1])
  have vw: "val_wf (eval (ent_at g1 a))" using at_addr[of S g1] g_okD(6)[OF ok1(1), of a] g_ok_index[OF ok1(1)] ok1(2) by (simp add: val_at_def)
  let ?f = "\<lambda>e. e\<lparr>elru := x\<rparr>"
  note p = put_ent_ok[where f = ?f, OF ok1]
  note c = core_same[OF g1]
  show "g_ok S (entry_touch_access v a g)" unfolding t by (rule p(2)) (simp_all add: vw)
  show ix: "index (entry_touch_access v a g) = index g" unfolding t using p(3) vw by (simp add: c)
  show hp: "heap (entry_touch_access v a g) = heap g" by (simp add: t put_ent_simps(3) c)
  show "dom (ents (entry_touch_access v a g)) = dom (ents g)" by (simp add: t put_ent_simps(1) c)
  have "val_at (put_ent a ?f g1) b = val_at g b" for b
    using p(5)[of b] vw by (simp add: c val_at_def)
  then show va: "val_at (entry_touch_access v a g) = val_at g" by (simp add: fun_eq_iff t)
  have ex: "expired v' (entry_touch_access v a g) = expired v' g" by (simp add: expired_def fun_eq_iff hp)
  show "live v' (entry_touch_access v a g) = live v' g" unfolding live_def ix ex hp va ..
qed

text \<open>The value under a key, or the empty value of the wanted type.\<close>

definition or_new :: "etype \<Rightarrow> ('s avalue \<times> u64 option) option \<Rightarrow> 's avalue \<times> u64 option" where
  "or_new t x =
     (case x of
        Some (w, d) \<Rightarrow> if atype w = t then (w, d) else (aval (empty_val t), None)
      | None \<Rightarrow> (aval (empty_val t), None))"

definition wrong_type :: "etype \<Rightarrow> ('s avalue \<times> u64 option) option \<Rightarrow> bool" where
  "wrong_type t x \<longleftrightarrow> (case x of Some (w, d) \<Rightarrow> atype w \<noteq> t | None \<Rightarrow> False)"

lemma lookup_entry_cases:
  assumes ok: "g_ok S g" and room: "create \<Longrightarrow> g_room g" and rc: "replace \<Longrightarrow> create" and r: "lookup_entry v k t create replace g = (g', r)"
  obtains
    (found) a where "r = LOk a" "at v g' k a" "g_ok S g'" "live v g' = live v g" "\<not> wrong_type t (live v g k)" "type_at g' a = t"
      "dom (ents g') = dom (ents g)"
  | (created) a where "create" "r = LOk a" "at v g' k a" "g_ok (insert a S) g'"
      "live v g' = (live v g)(k \<mapsto> (aval (empty_val t), None))" "val_at g' a = empty_val t"
      "live v g k = None \<or> replace \<and> wrong_type t (live v g k)" "card (dom (ents g')) \<le> Suc (card (dom (ents g)))"
  | (missing) "\<not> create" "r = LMissing" "g_ok S g'" "live v g' = live v g"
      "live v g k = None" "dom (ents g') \<subseteq> dom (ents g)"
  | (wrong) "r = LWrongType" "g_ok S g'" "live v g' = live v g" "wrong_type t (live v g k)" "\<not> replace"
      "dom (ents g') = dom (ents g)"
proof -
  obtain g1 n where l: "db_lookup k g = (g1, n)" by fastforce
  note ll = db_lookup_ok[OF ok l]
  define miss where "miss = (\<lambda>h :: 'a gdata. if \<not> create then (h, LMissing) else let (h, a) = create_entry v k t h in (h, LOk a))"
  have step: thesis
    if h: "g_ok S h" "index h k = None" "dom (ents h) \<subseteq> dom (ents g)" "live v h = (live v g)(k := None)"
      and res: "(g', r) = miss h" and lk: "live v g k = None \<or> replace \<and> wrong_type t (live v g k)" for h
  proof (cases create)
    case False
    then have "live v g k = None" using lk rc by blast
    show thesis by (rule missing) (use False res h lk rc in \<open>auto simp: miss_def fun_upd_idem\<close>)
  next
    case True
    obtain a where ca: "create_entry v k t h = (g', a)" "r = LOk a"
      using res True by (auto simp: miss_def split: prod.splits)
    have fin: "finite (dom (ents g))" by (rule g_okD(8)[OF ok])
    have "g_room h" using room[OF True] card_mono[OF fin h(3)] by (simp add: g_room_def)
    note c = create_entry_ok[OF h(1,2) this ca(1)]
    have cd: "card (dom (ents g')) \<le> Suc (card (dom (ents g)))"
      unfolding c(6) using card_mono[OF fin h(3)] card_insert_le_m1 finite_subset[OF h(3) fin] by (simp add: card_insert_if)
    show thesis by (rule created) (use True ca c lk h(4) cd in \<open>simp_all\<close>)
  qed
  show thesis
  proof (cases n)
    case None
    then have "index g k = None" using ll(2) by simp
    then have "live v g k = None" by (simp add: live_def)
    then show thesis
      using ll r l None \<open>index g k = None\<close> by (intro step[of g1]) (auto simp: lookup_entry_def miss_def fun_upd_idem)
  next
    case (Some a)
    obtain g2 b where e: "expire_if_needed v a g1 = (g2, b)" by fastforce
    have ia: "index g1 k = Some a" using ll Some by simp
    note ee = expire_if_needed_ok[OF ll(1) ia e]
    have res: "(g', r) = (if b then miss g2
       else if type_at g2 a \<noteq> t
         then (if \<not> replace then (g2, LWrongType) else miss (entry_del v a (fst (db_delete (key_at g2 a) g2))))
         else (entry_touch_access v a g2, LOk a))"
      using r unfolding lookup_entry_def l Let_def prod.case Some option.case e miss_def[unfolded Let_def, symmetric]
      by (cases "db_delete (key_at g2 a) g2") (auto split: if_splits)
    show thesis
    proof (cases b)
      case True
      then have n: "live v g k = None" using ee(2) ia ll by (simp add: live_def)
      show thesis by (rule step[of g2]) (use True ee ll res n in \<open>auto simp: fun_upd_idem\<close>)
    next
      case nb: False
      then have g2: "g2 = g1" and nex: "\<not> expired v g1 a" using ee by auto
      have lk: "live v g k = Some (aval (val_at g1 a), ttl_of (heap g1) a)"
        using ia nex ll(4)[of v] by (simp add: live_def flip: ll(4))
      have wt: "wrong_type t (live v g k) \<longleftrightarrow> type_at g1 a \<noteq> t" by (simp add: lk wrong_type_def type_at_def)
      show thesis
      proof (cases "type_at g1 a = t")
        case True
        note tc = entry_touch_access_ok[OF ll(1) ia, where v = v]
        have g': "g' = entry_touch_access v a g1" "r = LOk a" using res nb g2 True by auto
        have ex: "expired v g' = expired v g1" unfolding expired_def g' tc(4) ..
        show thesis
          by (rule found) (use g' tc ll ia nex wt True ex in \<open>auto simp: at_def type_at_def\<close>)
      next
        case nt: False
        show thesis
        proof (cases replace)
          case False
          show thesis by (rule wrong) (use False res nb g2 nt ll wt in auto)
        next
          case True
          have ka: "key_at g1 a = k" using ia g_ok_index[OF ll(1)] by simp
          obtain m x where m: "sk_delete (key_at g1) (db g1) k = (m, x)" by fastforce
          note dl = sk_delete_ok[OF g_okD(1)[OF ll(1)] m]
          have x: "x = Some a" using dl ia by (simp add: index_def)
          have fd: "fst (db_delete (key_at g2 a) g2) = g1\<lparr>db := m\<rparr>" by (simp add: g2 ka db_delete_def m)
          have wm: "sk_wf (key_at g1) m" "sk_payloads (db g1) = add_mset a (sk_payloads m)" using dl x by auto
          note ed = entry_del_ok[OF ll(1) ia wm, where v = v, OF refl]
          show thesis
            by (rule step[of "entry_del v a (g1\<lparr>db := m\<rparr>)"]) (use ed res nb nt True fd wt ll g2 in auto)
        qed
      qed
    qed
  qed
qed


text \<open>The two ways handlers call it: to read, and to write.\<close>

lemma lookup_ro_ok:
  assumes "g_ok S g" "lookup_entry v k t False False g = (g', r)"
  shows "g_ok S g'" "live v g' = live v g" "r = LMissing \<longleftrightarrow> live v g k = None"
    "r = LWrongType \<longleftrightarrow> wrong_type t (live v g k)" "r = LOk a \<Longrightarrow> at v g' k a \<and> type_at g' a = t"
    "dom (ents g') \<subseteq> dom (ents g)"
proof -
  have "g_ok S g' \<and> live v g' = live v g \<and> (r = LMissing \<longleftrightarrow> live v g k = None) \<and>
    (r = LWrongType \<longleftrightarrow> wrong_type t (live v g k)) \<and> (\<forall>a. r = LOk a \<longrightarrow> at v g' k a \<and> type_at g' a = t) \<and>
    dom (ents g') \<subseteq> dom (ents g)"
  proof (rule lookup_entry_cases[OF assms(1) _ _ assms(2)])
    fix a assume f: "r = LOk a" "at v g' k a" "g_ok S g'" "live v g' = live v g" "\<not> wrong_type t (live v g k)" "type_at g' a = t"
      "dom (ents g') = dom (ents g)"
    have "live v g k \<noteq> None" using at_live[OF f(2)] f(4) by simp
    then show ?thesis using f by simp
  qed (simp_all add: wrong_type_def split: option.splits)
  then show "g_ok S g'" "live v g' = live v g" "r = LMissing \<longleftrightarrow> live v g k = None"
    "r = LWrongType \<longleftrightarrow> wrong_type t (live v g k)" "r = LOk a \<Longrightarrow> at v g' k a \<and> type_at g' a = t"
    "dom (ents g') \<subseteq> dom (ents g)" by auto
qed

lemma lookup_rw_ok:
  assumes ok: "g_ok S g" and room: "g_room g" and r: "lookup_entry v k t True rep g = (g', r)"
  shows "r = LMissing \<Longrightarrow> False"
    "r = LWrongType \<longleftrightarrow> \<not> rep \<and> wrong_type t (live v g k)"
    "r = LWrongType \<Longrightarrow> g_ok S g' \<and> live v g' = live v g"
    "r = LOk a \<Longrightarrow> g_ok (insert a S) g' \<and> at v g' k a \<and> type_at g' a = t \<and>
       live v g' = (live v g)(k \<mapsto> or_new t (live v g k)) \<and>
       or_new t (live v g k) = (aval (val_at g' a), ttl_of (heap g') a)"
    "card (dom (ents g')) \<le> Suc (card (dom (ents g)))"
proof -
  have "(r \<noteq> LMissing) \<and> (r = LWrongType \<longleftrightarrow> \<not> rep \<and> wrong_type t (live v g k)) \<and>
    (r = LWrongType \<longrightarrow> g_ok S g' \<and> live v g' = live v g) \<and>
    (\<forall>a. r = LOk a \<longrightarrow> g_ok (insert a S) g' \<and> at v g' k a \<and> type_at g' a = t \<and>
       live v g' = (live v g)(k \<mapsto> or_new t (live v g k)) \<and>
       or_new t (live v g k) = (aval (val_at g' a), ttl_of (heap g') a)) \<and> card (dom (ents g')) \<le> Suc (card (dom (ents g)))"
    using ok room TrueI r
  proof (cases rule: lookup_entry_cases)
    case (found a)
    have l: "live v g k = Some (aval (val_at g' a), ttl_of (heap g') a)" using at_live[OF found(2)] found(4) by simp
    have o: "or_new t (live v g k) = (aval (val_at g' a), ttl_of (heap g') a)"
      using found(6) by (simp add: l or_new_def type_at_def)
    have "(live v g)(k \<mapsto> or_new t (live v g k)) = live v g" unfolding o by (rule fun_upd_idem) (simp add: l)
    then show ?thesis using found o g_ok_mono[OF found(3), of "insert a S"] by (auto simp: wrong_type_def)
  next
    case (created a)
    have l: "live v g' k = Some (aval (val_at g' a), ttl_of (heap g') a)" by (rule at_live[OF created(3)])
    have "or_new t (live v g k) = (aval (empty_val t), None)"
      using created(7) by (auto simp: or_new_def wrong_type_def split: option.splits)
    then show ?thesis using created l by (auto simp: wrong_type_def type_at_def split: option.splits)
  qed auto
  then show "r = LMissing \<Longrightarrow> False" "r = LWrongType \<longleftrightarrow> \<not> rep \<and> wrong_type t (live v g k)"
    "r = LWrongType \<Longrightarrow> g_ok S g' \<and> live v g' = live v g"
    "r = LOk a \<Longrightarrow> g_ok (insert a S) g' \<and> at v g' k a \<and> type_at g' a = t \<and>
       live v g' = (live v g)(k \<mapsto> or_new t (live v g k)) \<and>
       or_new t (live v g k) = (aval (val_at g' a), ttl_of (heap g') a)"
    "card (dom (ents g')) \<le> Suc (card (dom (ents g)))"
    by auto
qed


section \<open>The interface\<close>

text \<open>
  What the handlers rely on. \<open>inv\<close> is the full invariant, \<open>part a\<close> the invariant while the memory of
  the entry \<open>a\<close> is not yet accounted; \<open>view\<close> is the abstract key space; \<open>holds g k a\<close> says that the
  live key \<open>k\<close> is at address \<open>a\<close>.
\<close>

locale keyspace =
  fixes inv :: "'g \<Rightarrow> bool"
    and part :: "'a \<Rightarrow> 'g \<Rightarrow> bool"
    and view :: "'g \<Rightarrow> string \<Rightarrow> ('w \<times> 't option) option"
    and holds :: "'g \<Rightarrow> string \<Rightarrow> 'a \<Rightarrow> bool"
    and deadline :: "'g \<Rightarrow> 'a \<Rightarrow> 't option"
    and val_ok :: "'v \<Rightarrow> bool"
    and abs :: "'v \<Rightarrow> 'w"
    and get :: "'g \<Rightarrow> 'a \<Rightarrow> 'v"
    and commit :: "'a \<Rightarrow> 'v \<Rightarrow> 'g \<Rightarrow> 'g"
    and drop :: "'a \<Rightarrow> 'g \<Rightarrow> 'g"
  assumes inv_part: "inv g \<Longrightarrow> part a g"
    and holds_view: "holds g k a \<Longrightarrow> view g k = Some (abs (get g a), deadline g a)"
    and commit_inv: "part a g \<Longrightarrow> holds g k a \<Longrightarrow> val_ok w \<Longrightarrow> inv (commit a w g) \<and> holds (commit a w g) k a"
    and commit_get: "part a g \<Longrightarrow> holds g k a \<Longrightarrow> val_ok w \<Longrightarrow> get (commit a w g) a = w"
    and commit_view: "part a g \<Longrightarrow> holds g k a \<Longrightarrow> val_ok w \<Longrightarrow>
          view (commit a w g) = (view g)(k \<mapsto> (abs w, deadline g a))"
    and drop_law: "part a g \<Longrightarrow> holds g k a \<Longrightarrow> inv (drop a g) \<and> view (drop a g) = (view g)(k := None)"
begin

lemma commit_deadline: "part a g \<Longrightarrow> holds g k a \<Longrightarrow> val_ok w \<Longrightarrow> deadline (commit a w g) a = deadline g a"
  using commit_inv[of a g k w] commit_view[of a g k w] holds_view[of "commit a w g" k a] by simp

lemma commit_other: "part a g \<Longrightarrow> holds g k a \<Longrightarrow> val_ok w \<Longrightarrow> j \<noteq> k \<Longrightarrow> view (commit a w g) j = view g j"
  by (simp add: commit_view)

lemma commit_twice:
  "part a g \<Longrightarrow> holds g k a \<Longrightarrow> val_ok w \<Longrightarrow> val_ok w' \<Longrightarrow> view (commit a w' (commit a w g)) = view (commit a w' g)"
  using commit_inv[of a g k w] commit_deadline[of a g k w]
  by (simp add: commit_view[of a g k] commit_view[OF inv_part, of "commit a w g" k])

lemma commit_drop: "part a g \<Longrightarrow> holds g k a \<Longrightarrow> val_ok w \<Longrightarrow> view (drop a (commit a w g)) = (view g)(k := None)"
  using commit_inv[of a g k w] drop_law[OF inv_part, of "commit a w g" k a] by (simp add: commit_view)

end

interpretation ks: keyspace "g_ok {}" "\<lambda>a. g_ok {a}" "live v" "at v" "\<lambda>g. ttl_of (heap g)" val_wf aval val_at
  "\<lambda>a w g. mem_reaccount a (put_val a w g)" "drop_entry v" for v
proof unfold_locales
  fix g :: "'a gdata" and a k and w :: "'a evalue"
  show "g_ok {a} g" if "g_ok {} g" by (rule g_ok_mono[OF that]) simp
  show "live v g k = Some (aval (val_at g a), ttl_of (heap g) a)" if "at v g k a" by (rule at_live[OF that])
  show "g_ok {} (drop_entry v a g) \<and> live v (drop_entry v a g) = (live v g)(k := None)"
    if "g_ok {a} g" "at v g k a"
  proof
    have i: "index g k = Some a" using that by (simp add: at_def)
    note d = drop_entry_ok[OF that(1) i, where v = v]
    show "live v (drop_entry v a g) = (live v g)(k := None)" by (rule d(2))
    show "g_ok {} (drop_entry v a g)" using d(1) unfolding g_ok_def d(3) by auto
  qed
  assume a: "g_ok {a} g" "at v g k a" "val_wf w"
  note p = put_val_ok[OF a]
  have ad: "a \<in> dom (ents (put_val a w g))" using at_addr[OF a(1,2)] p(6) by simp
  note m = mem_reaccount_ok[OF p(1) ad]
  show "g_ok {} (mem_reaccount a (put_val a w g)) \<and> at v (mem_reaccount a (put_val a w g)) k a"
    using m(1) m(6)[of v] p(2) by simp
  show "val_at (mem_reaccount a (put_val a w g)) a = w" using m(2) p(3) by simp
  show "live v (mem_reaccount a (put_val a w g)) = (live v g)(k \<mapsto> (aval w, ttl_of (heap g) a))"
    using m(5) p(4) by simp
qed

section \<open>Resources\<close>

text \<open>
  Room for \<open>n\<close> more keys and \<open>n\<close> more elements in every container. The bounds are far beyond the address
  space, except the \<open>2 ^ 32\<close> members of a sorted set, whose subtree counters have 32 bits.
\<close>

fun afits :: "nat \<Rightarrow> 's avalue \<Rightarrow> bool" where
  "afits n (AZset m) \<longleftrightarrow> card (dom m) + n < 2 ^ 32"
| "afits n (AHash m) \<longleftrightarrow> card (dom m) + n \<le> 2 ^ 60"
| "afits n (ASet m) \<longleftrightarrow> card m + n \<le> 2 ^ 60"
| "afits n _ \<longleftrightarrow> True"

definition fits :: "env \<Rightarrow> nat \<Rightarrow> 's gdata \<Rightarrow> bool" where
  "fits v n g \<longleftrightarrow> card (dom (ents g)) + n \<le> 2 ^ 60 \<and> (\<forall>k w d. live v g k = Some (w, d) \<longrightarrow> afits n w)"

lemma fits_room: "fits v n g \<Longrightarrow> 0 < n \<Longrightarrow> g_room g"
  by (simp add: fits_def g_room_def)

lemma fits_card: "fits v n g \<Longrightarrow> card (dom (ents g)) + n \<le> 2 ^ 60"
  by (simp add: fits_def)

lemma afits_mono: "afits n w \<Longrightarrow> m \<le> n \<Longrightarrow> afits m w"
  by (cases w) auto

lemma fits_mono: "fits v n g \<Longrightarrow> m \<le> n \<Longrightarrow> fits v m g"
  unfolding fits_def using afits_mono by fastforce

lemma fits_live: "fits v n g \<Longrightarrow> live v g k = Some (w, d) \<Longrightarrow> afits n w"
  unfolding fits_def by blast

lemma fits_sub: "fits v n g \<Longrightarrow> live v g' = live v g \<Longrightarrow> card (dom (ents g')) \<le> card (dom (ents g)) \<Longrightarrow> fits v n g'"
  by (simp add: fits_def)

section \<open>The common tails of the handlers\<close>

text \<open>A deadline that has passed leaves no live key.\<close>

definition gone :: "env \<Rightarrow> u64 option \<Rightarrow> bool" where
  "gone v d \<longleftrightarrow> (\<exists>x. d = Some x \<and> x \<le> mono v)"

definition live_put :: "env \<Rightarrow> (string \<Rightarrow> ('s avalue \<times> u64 option) option) \<Rightarrow> string \<Rightarrow> 's avalue \<Rightarrow> u64 option \<Rightarrow>
    string \<Rightarrow> ('s avalue \<times> u64 option) option" where
  "live_put v m k w d = m(k := if gone v d then None else Some (w, d))"

text \<open>The deadline \<open>entry_set_ttl\<close> records.\<close>

definition dl_in :: "env \<Rightarrow> int \<Rightarrow> u64 option" where
  "dl_in v t = (if t < 0 then None else Some (mono v + word_of_int t))"

lemma gone_None [simp]: "\<not> gone v None"
  by (simp add: gone_def)

lemma live_put_None [simp]: "live_put v m k w None = m(k \<mapsto> (w, None))"
  by (simp add: live_put_def)

lemma dl_in_neg [simp]: "t < 0 \<Longrightarrow> dl_in v t = None"
  by (simp add: dl_in_def)

lemma store_ok:
  assumes "g_ok {a} g" "at v g k a" "val_wf w"
  shows "g_ok {} (wrote n (mem_reaccount a (put_val a w g)))"
    "at v (wrote n (mem_reaccount a (put_val a w g))) k a"
    "val_at (wrote n (mem_reaccount a (put_val a w g))) a = w"
    "live v (wrote n (mem_reaccount a (put_val a w g))) = (live v g)(k \<mapsto> (aval w, ttl_of (heap g) a))"
  using ks.commit_inv[OF assms] ks.commit_get[OF assms] ks.commit_view[OF assms] by simp_all

lemma store_ttl_ok:
  assumes ok: "g_ok {a} g" and a: "at v g k a" and w: "val_wf w" and c: "card (dom (ents g)) \<le> 2 ^ 60"
  shows "g_ok {} (mem_reaccount a (set_ttl v a t (put_val a w g)))"
    "live v (mem_reaccount a (set_ttl v a t (put_val a w g))) = live_put v (live v g) k (aval w) (dl_in v t)"
proof -
  note p = put_val_ok[OF ok a w]
  have i: "index (put_val a w g) k = Some a" using p(2) by (simp add: at_def)
  have c': "card (dom (ents (put_val a w g))) \<le> 2 ^ 60" using c p(6) by simp
  note s = set_ttl_ok[OF p(1) i c' refl, where t = t and v = v]
  have ad: "a \<in> dom (ents (set_ttl v a t (put_val a w g)))" using at_addr[OF p(1,2)] by (simp add: set_ttl_simps)
  note m = mem_reaccount_ok[OF s(1) ad]
  show "g_ok {} (mem_reaccount a (set_ttl v a t (put_val a w g)))" using m(1) by simp
  show "live v (mem_reaccount a (set_ttl v a t (put_val a w g))) = live_put v (live v g) k (aval w) (dl_in v t)"
    unfolding m(5) s(3) p(3,4) live_put_def gone_def dl_in_def by auto
qed

lemma touch_ttl_ok:
  assumes ok: "g_ok {} g" and a: "at v g k a" and c: "card (dom (ents g)) \<le> 2 ^ 60"
  shows "g_ok {} (set_ttl v a t g)" "live v (set_ttl v a t g) = live_put v (live v g) k (aval (val_at g a)) (dl_in v t)"
proof -
  have i: "index g k = Some a" using a by (simp add: at_def)
  note s = set_ttl_ok[OF ok i c refl, where t = t and v = v]
  show "g_ok {} (set_ttl v a t g)" by (rule s(1))
  show "live v (set_ttl v a t g) = live_put v (live v g) k (aval (val_at g a)) (dl_in v t)"
    unfolding s(3) live_put_def gone_def dl_in_def by auto
qed

lemma drop_ok:
  assumes "g_ok {a} g" "at v g k a"
  shows "g_ok {} (drop_entry v a g)" "live v (drop_entry v a g) = (live v g)(k := None)"
  using ks.drop_law[OF assms] by simp_all

lemma dom_ents_simps [simp]:
  "dom (ents (put_ent a f g)) = dom (ents g)" "dom (ents (put_val a w g)) = dom (ents g)"
  "dom (ents (mem_reaccount a g)) = dom (ents g)" "dom (ents (set_ttl v a t g)) = dom (ents g)"
  by (auto simp: put_val_def put_ent_def mem_reaccount_def set_ttl_def Let_def split: if_splits)

text \<open>Reading a string, a list, ... under a key, and the deadline.\<close>

definition cur_dl :: "('s avalue \<times> u64 option) option \<Rightarrow> u64 option" where
  "cur_dl x = (case x of None \<Rightarrow> None | Some (w, d) \<Rightarrow> d)"

lemma cur_dl_simps [simp]: "cur_dl None = None" "cur_dl (Some (w, d)) = d"
  by (simp_all add: cur_dl_def)

lemma or_new_dl: "\<not> wrong_type t x \<Longrightarrow> snd (or_new t x) = cur_dl x"
  by (auto simp: or_new_def wrong_type_def split: option.splits)

section \<open>The state at start\<close>

definition gdata_init :: "'s gdata" where
  "gdata_init = \<lparr>db = hmap_empty, ents = (\<lambda>_. None), next_addr = 0, heap = \<lparr>items = [], heap_idx = (\<lambda>_. NO_TTL)\<rparr>,
     used_memory = 0, writes_since_save = 0, lru_clock = 0, evicted_keys = 0, evict_pending = False, draws = 0, events = []\<rparr>"

text \<open>The defaults of \<open>Config\<close>, a clock at one second and a generator that always draws 0.\<close>

definition config_default :: config where
  "config_default = \<lparr>notify_keyspace_events = 0, maxmemory_samples = 10, lfu_log_factor = 10, lfu_decay_time = 1,
     maxmemory = 0, policy = NOEVICTION, repl_backlog_size = 1048576, aof_enable = False, min_replicas_to_write = 0,
     min_replicas_max_lag = 10\<rparr>"

definition env_start :: env where
  "env_start = \<lparr>mono = 1000, wall = 1000, cfg = config_default, loading = False, proto = 2, rnd = (\<lambda>_ _. 0)\<rparr>"

lemma gdata_init_ok [simp]: "g_ok {} gdata_init"
  by (simp add: g_ok_def gdata_init_def heap_inv_def is_heap_def refs_ok_def ttl_of_def entry_has_ttl_def dom_def sk_empty_ok NO_TTL_def)

lemma live_init [simp]: "live v gdata_init = Map.empty"
  by (rule ext) (simp add: live_def index_def gdata_init_def sk_empty_ok)

lemma fits_init [simp]: "n \<le> 2 ^ 60 \<Longrightarrow> fits v n gdata_init"
  by (simp add: fits_def) (simp add: gdata_init_def)

section \<open>Passing of time\<close>

definition pass :: "env \<Rightarrow> (string \<Rightarrow> ('s avalue \<times> u64 option) option) \<Rightarrow> string \<Rightarrow> ('s avalue \<times> u64 option) option" where
  "pass v m k = (case m k of None \<Rightarrow> None | Some (w, d) \<Rightarrow> if gone v d then None else Some (w, d))"

lemma live_later: "mono v \<le> mono v' \<Longrightarrow> live v' g = pass v' (live v g)"
  by (rule ext) (auto simp: live_def pass_def expired_def gone_def split: option.splits)

lemma fits_later: "mono v \<le> mono v' \<Longrightarrow> fits v n g \<Longrightarrow> fits v' n g"
  by (auto simp: fits_def live_later pass_def split: option.splits if_splits)

end
