(* ===== verification/Reply.thy ===== *)
theory Reply
  imports Resp
begin

text \<open>
  Replies as the handlers produce them: one token per call of an encoder of \<open>protocol/resp.cpp\<close>, in order.
  \<open>encode\<close> gives the bytes under a protocol version. \<open>one_reply\<close> says that a sequence of tokens is
  exactly one complete reply: every aggregate header is followed by as many elements as it announces.
\<close>

section \<open>Model\<close>

datatype 's reply =
  RNil
| RNilArr
| ROk
| RSimple string
| RErr string
| RInt int
| RStr string
| RDbl 's
| RArr u32
| RMap u32
| RSet u32
| RPush u32
| RVerbatim string

fun encode :: "int \<Rightarrow> ('s \<Rightarrow> string) \<Rightarrow> ('s \<Rightarrow> dbl_class) \<Rightarrow> 's reply \<Rightarrow> string" where
  "encode proto fmt cls RNil = resp_nil proto"
| "encode proto fmt cls RNilArr = resp_nil_arr proto"
| "encode proto fmt cls ROk = resp_ok"
| "encode proto fmt cls (RSimple s) = resp_simple s"
| "encode proto fmt cls (RErr s) = resp_err s"
| "encode proto fmt cls (RInt i) = resp_int i"
| "encode proto fmt cls (RStr s) = resp_str s"
| "encode proto fmt cls (RDbl d) = resp_dbl proto fmt cls d"
| "encode proto fmt cls (RArr n) = resp_arr n"
| "encode proto fmt cls (RMap n) = resp_map proto n"
| "encode proto fmt cls (RSet n) = resp_set proto n"
| "encode proto fmt cls (RPush n) = resp_push_n proto n"
| "encode proto fmt cls (RVerbatim s) = resp_verbatim proto s"

section \<open>Framing\<close>

text \<open>How many elements follow a token.\<close>

fun width :: "'s reply \<Rightarrow> nat" where
  "width (RArr n) = unat n"
| "width (RMap n) = 2 * unat n"
| "width (RSet n) = unat n"
| "width (RPush n) = unat n"
| "width _ = 0"

fun frame :: "nat \<Rightarrow> 's reply list \<Rightarrow> 's reply list option" where
  "frame 0 ts = Some ts"
| "frame (Suc n) [] = None"
| "frame (Suc n) (t # ts) = frame (width t + n) ts"

definition one_reply :: "'s reply list \<Rightarrow> bool" where
  "one_reply ts \<longleftrightarrow> frame 1 ts = Some []"

lemma frame_add: "frame n xs = Some ys \<Longrightarrow> frame (n + m) xs = frame m ys"
proof (induction n xs rule: frame.induct)
  case (3 n t ts)
  then show ?case by (simp add: add.assoc)
qed auto

lemma frame_append: "frame n xs = Some ys \<Longrightarrow> frame n (xs @ zs) = Some (ys @ zs)"
  by (induction n xs rule: frame.induct) auto

lemma frame_seq: "frame n xs = Some [] \<Longrightarrow> frame m ys = Some zs \<Longrightarrow> frame (n + m) (xs @ ys) = Some zs"
  using frame_add[OF frame_append[of n xs "[]" ys], of m] by simp

lemma frame_flat: "list_all (\<lambda>t. width t = 0) ts \<Longrightarrow> frame (length ts) ts = Some []"
  by (induction ts) auto

lemma one_reply_single [simp]: "one_reply [t] \<longleftrightarrow> width t = 0"
  by (cases "width t") (auto simp: one_reply_def)

lemma one_reply_aggregate: "width t = n \<Longrightarrow> frame n ts = Some [] \<Longrightarrow> one_reply (t # ts)"
  by (simp add: one_reply_def)

end
