(* ===== verification/Num_Parse.thy ===== *)
theory Num_Parse
  imports Prelude
begin

text \<open>
  The strict integer parser of the commands, \<open>str2int\<close> of \<open>commands/commands.cpp\<close>.
\<close>

section \<open>Model\<close>

text \<open>The digit loop: \<open>v\<close> is the 64-bit accumulator.\<close>

fun str2int_loop :: "nat \<Rightarrow> string \<Rightarrow> nat option" where
  "str2int_loop v [] = Some v"
| "str2int_loop v (c # cs) =
     (if \<not> isdigit c then None
      else let d = digit_val c
           in if (UINT64_MAX - d) div 10 < v then None else str2int_loop (v * 10 + d) cs)"

definition str2int :: "string \<Rightarrow> int option" where
  "str2int s =
     (if s = [] then None
      else if s = ''0'' then Some 0
      else let neg = (hd s = CHR ''-'');
               p = (if neg then tl s else s)
           in if neg \<and> length s = 1 then None
              else if byte_of (hd p) < 49 \<or> 57 < byte_of (hd p) then None
              else case str2int_loop 0 p of
                     None \<Rightarrow> None
                   | Some v \<Rightarrow>
                       if neg then (if nat INT64_MAX + 1 < v then None else Some (- int v))
                       else (if nat INT64_MAX < v then None else Some (int v)))"

section \<open>Lemmas\<close>

lemma str2int_loop_dec: "str2int_loop v s = Some n \<Longrightarrow> n = dec_val v s \<and> list_all isdigit s \<and> (v \<le> UINT64_MAX \<longrightarrow> n \<le> UINT64_MAX)"
proof (induction v s arbitrary: n rule: str2int_loop.induct)
  case (2 v c cs)
  have s: "isdigit c" "v \<le> (UINT64_MAX - digit_val c) div 10" "str2int_loop (v * 10 + digit_val c) cs = Some n"
    using 2(2) by (auto simp: Let_def split: if_splits)
  have d: "digit_val c \<le> 9" using s(1) unfolding isdigit_def digit_val_def by linarith
  have "v * 10 \<le> UINT64_MAX - digit_val c" using s(2) by (simp add: less_eq_div_iff_mult_less_eq)
  then have b: "v * 10 + digit_val c \<le> UINT64_MAX" using d by (simp add: UINT64_MAX_def)
  show ?case using 2(1)[OF _ refl, of n] s b by (simp add: not_less)
qed auto

lemma str2int_loop_ok:
  "list_all isdigit s \<Longrightarrow> dec_val v s \<le> UINT64_MAX \<Longrightarrow> str2int_loop v s = Some (dec_val v s)"
proof (induction v s rule: str2int_loop.induct)
  case (2 v c cs)
  have mono: "w \<le> dec_val w xs" for w xs
  proof (induction w xs rule: dec_val.induct)
    case (2 acc c cs)
    have "acc \<le> acc * 10 + digit_val c" by simp
    then show ?case using 2 by simp
  qed simp
  have "v * 10 + digit_val c \<le> UINT64_MAX" using 2(3) mono[of "v * 10 + digit_val c" cs] by simp
  then have "v \<le> (UINT64_MAX - digit_val c) div 10" by (simp add: less_eq_div_iff_mult_less_eq)
  then show ?case using 2 by (simp add: not_less)
qed simp

lemma dec_val_append: "dec_val v (xs @ ys) = dec_val (dec_val v xs) ys"
  by (induction v xs rule: dec_val.induct) auto

lemma dec_val_nat_dec: "dec_val 0 (nat_dec n) = n"
proof (induction n rule: nat_dec.induct)
  case (1 n)
  show ?case
  proof (cases "n < 10")
    case True
    then show ?thesis by (subst nat_dec.simps) (simp add: digit_char_digit)
  next
    case False
    then show ?thesis using 1 by (subst nat_dec.simps) (simp add: dec_val_append digit_char_digit)
  qed
qed

lemma nat_dec_head: "0 < n \<Longrightarrow> hd (nat_dec n) \<noteq> CHR ''0''"
proof (induction n rule: nat_dec.induct)
  case (1 n)
  show ?case
  proof (cases "n < 10")
    case True
    have "digit_char n \<noteq> CHR ''0''"
      using True 1(2) digit_char_digit[of n] by (auto simp: digit_val_def byte_of_def)
    then show ?thesis using True by (subst nat_dec.simps) simp
  next
    case False
    then show ?thesis using 1 by (subst nat_dec.simps) simp
  qed
qed

lemma digit_char_val: "isdigit c \<Longrightarrow> digit_char (digit_val c) = c"
  by (simp add: isdigit_def digit_val_def digit_char_def byte_of_def)

lemma byte_range: "isdigit c \<Longrightarrow> c \<noteq> CHR ''0'' \<longleftrightarrow> 49 \<le> byte_of c \<and> byte_of c \<le> 57"
proof -
  assume d: "isdigit c"
  have "byte_of c = byte_of CHR ''0'' \<longleftrightarrow> c = CHR ''0''" unfolding byte_of_def by (rule of_char_eq_iff)
  then have "byte_of c = 48 \<longleftrightarrow> c = CHR ''0''" by (simp add: byte_of_def)
  then show ?thesis using d unfolding isdigit_def by linarith
qed

lemma dec_val_pos: "0 < v \<Longrightarrow> 0 < dec_val v s"
  by (induction v s rule: dec_val.induct) auto

lemma nat_dec_dec_val:
  "list_all isdigit s \<Longrightarrow> s \<noteq> [] \<Longrightarrow> hd s \<noteq> CHR ''0'' \<Longrightarrow> nat_dec (dec_val 0 s) = s \<and> 0 < dec_val 0 s"
proof (induction s rule: rev_induct)
  case (snoc c s)
  have c: "isdigit c" "digit_val c < 10" using snoc.prems unfolding isdigit_def digit_val_def by (auto simp: isdigit_def)
  show ?case
  proof (cases "s = []")
    case True
    have "49 \<le> byte_of c" using byte_range[OF c(1)] snoc.prems True by simp
    then have "digit_val c \<noteq> 0" by (simp add: digit_val_def)
    then show ?thesis using True c by (subst nat_dec.simps) (simp add: digit_char_val)
  next
    case False
    then have IH: "nat_dec (dec_val 0 s) = s" "0 < dec_val 0 s" using snoc by auto
    have "nat_dec (dec_val 0 s * 10 + digit_val c) = s @ [c]"
      using IH c by (subst nat_dec.simps) (simp add: digit_char_val)
    then show ?thesis using IH by (simp add: dec_val_append)
  qed
qed simp

lemma int_dec_zero: "int_dec 0 = ''0''"
  by code_simp

lemma nat_dec_all_digits: "list_all isdigit (nat_dec n)"
  using nat_dec_digits by (auto simp: list_all_iff)

lemma str2int_iff: "str2int s = Some i \<longleftrightarrow> in_i64 i \<and> s = int_dec i"
proof
  assume a: "str2int s = Some i"
  show "in_i64 i \<and> s = int_dec i"
  proof (cases "s = ''0''")
    case True
    then show ?thesis using a by (simp add: str2int_def in_i64_def INT64_MAX_def INT64_MIN_def int_dec_zero)
  next
    case False
    define neg where "neg = (hd s = CHR ''-'')"
    define p where "p = (if neg then tl s else s)"
    obtain v where v: "s \<noteq> []" "\<not> (neg \<and> length s = 1)" "49 \<le> byte_of (hd p)" "byte_of (hd p) \<le> 57" "str2int_loop 0 p = Some v"
      "i = (if neg then - int v else int v)" "v \<le> (if neg then nat INT64_MAX + 1 else nat INT64_MAX)"
      using a False unfolding str2int_def neg_def[symmetric] Let_def p_def[symmetric]
      by (auto simp: not_less split: if_splits option.splits)
    have p: "p \<noteq> []" using v(1,2) by (cases s) (auto simp: p_def neg_def split: if_splits)
    have "isdigit (hd p)" using v(3,4) by (simp add: isdigit_def)
    then have h: "hd p \<noteq> CHR ''0''" using byte_range[of "hd p"] v(3,4) by simp
    note l = str2int_loop_dec[OF v(5)]
    have d: "nat_dec v = p" "0 < v" using nat_dec_dec_val[of p] l p h by auto
    have "s = int_dec i" using d v(1,6) by (cases s) (auto simp: int_dec_def p_def neg_def split: if_splits)
    moreover have "in_i64 i" using v(6,7) by (auto simp: in_i64_def INT64_MAX_def INT64_MIN_def split: if_splits)
    ultimately show ?thesis by simp
  qed
next
  assume a: "in_i64 i \<and> s = int_dec i"
  show "str2int s = Some i"
  proof (cases "i = 0")
    case True
    then show ?thesis using a by (simp add: str2int_def int_dec_zero)
  next
    case False
    let ?v = "nat \<bar>i\<bar>"
    have vp: "0 < ?v" using False by simp
    have b: "?v \<le> (if i < 0 then nat INT64_MAX + 1 else nat INT64_MAX)" and u: "?v \<le> UINT64_MAX"
      using a by (auto simp: in_i64_def INT64_MAX_def INT64_MIN_def UINT64_MAX_def)
    have loop: "str2int_loop 0 (nat_dec ?v) = Some ?v"
      using str2int_loop_ok[OF nat_dec_all_digits, of 0 ?v] u by (simp add: dec_val_nat_dec)
    have hd: "isdigit (hd (nat_dec ?v))" by (rule nat_dec_digits[of _ ?v]) (simp add: hd_in_set)
    then have r: "49 \<le> byte_of (hd (nat_dec ?v))" "byte_of (hd (nat_dec ?v)) \<le> 57"
      using byte_range[OF hd] nat_dec_head[OF vp] by auto
    have m: "hd (nat_dec ?v) \<noteq> CHR ''-''" using r by (auto simp: byte_of_def)
    have z: "nat_dec ?v \<noteq> ''0''" using nat_dec_head[OF vp] by auto
    have s: "s = (if i < 0 then CHR ''-'' # nat_dec ?v else nat_dec ?v)" using a by (simp add: int_dec_def)
    show ?thesis
    proof (cases "i < 0")
      case True
      then show ?thesis using s loop r b by (simp add: str2int_def not_less)
    next
      case False
      then show ?thesis using s loop r b m z by (auto simp: str2int_def not_less INT64_MAX_def)
    qed
  qed
qed

lemma str2int_int_dec: "in_i64 i \<Longrightarrow> str2int (int_dec i) = Some i"
  by (simp add: str2int_iff)

lemma str2int_range: "str2int s = Some i \<Longrightarrow> in_i64 i"
  by (simp add: str2int_iff)

text \<open>
  C16: \<open>str2int\<close> accepts exactly the canonical decimal spelling of the 64-bit signed integers, and returns
  the integer spelled: no leading zeros, no plus sign, no spaces, no minus zero, nothing out of range.
\<close>

theorem str2int_canonical: "str2int s = Some i \<longleftrightarrow> in_i64 i \<and> s = int_dec i"
  by (rule str2int_iff)

end
