(* ===== verification/Cmd_String.thy ===== *)
theory Cmd_String
  imports Keyspace Reply Num_Parse
begin

text \<open>
  The string commands of \<open>commands/commands.cpp\<close>. A handler takes the environment, the argument vector and
  the state, and returns the new state and its reply. Argument counts outside the range of the command
  table never reach a handler, so the indices it reads exist.
\<close>

section \<open>Model\<close>

type_synonym 's handler = "env \<Rightarrow> string list \<Rightarrow> 's gdata \<Rightarrow> 's gdata \<times> 's reply list"

text \<open>The result of a handler that may run into undefined behaviour, or not return, is an option.\<close>

type_synonym 's opt_handler = "env \<Rightarrow> string list \<Rightarrow> 's gdata \<Rightarrow> ('s gdata \<times> 's reply list) option"

definition MSG_WRONGTYPE :: string where
  "MSG_WRONGTYPE = ''WRONGTYPE Operation against a key holding the wrong kind of value''"

definition MSG_WRONG :: string where
  "MSG_WRONG = ''WRONGTYPE wrong type''"

definition MSG_NOT_INT :: string where
  "MSG_NOT_INT = ''ERR value is not an integer or out of range''"

definition MSG_SYNTAX :: string where
  "MSG_SYNTAX = ''ERR syntax error''"

definition MSG_OUT_OF_RANGE :: string where
  "MSG_OUT_OF_RANGE = ''ERR index out of range''"

definition arg_ieq :: "string \<Rightarrow> string \<Rightarrow> bool" where
  "arg_ieq s lit \<longleftrightarrow> length s = length lit \<and> lower s = lit"

text \<open>\<open>entry_str(ent)\<close>; the handlers call it on string entries only.\<close>

definition entry_str :: "'s gdata \<Rightarrow> addr \<Rightarrow> cstr" where
  "entry_str g a = (case val_at g a of VStr s \<Rightarrow> s | _ \<Rightarrow> str_empty)"

definition do_get :: "'s handler" where
  "do_get v cmd g =
     (let (g, r) = lookup_entry v (cmd ! 1) T_STR False False g
      in case r of
           LWrongType \<Rightarrow> (g, [RErr MSG_WRONG])
         | LMissing \<Rightarrow> (g, [RNil])
         | LOk a \<Rightarrow> (g, [RStr (chars (entry_str g a))]))"

subsection \<open>SET\<close>

datatype set_opt = O_NX | O_XX | O_GET | O_KEEPTTL | O_EX | O_PX | O_EXAT | O_PXAT

definition EXPIRY :: "set_opt list" where
  "EXPIRY = [O_EX, O_PX, O_EXAT, O_PXAT]"

record set_opts =
  o_nx :: bool
  o_xx :: bool
  o_get :: bool
  o_keepttl :: bool
  o_has_exp :: bool
  o_abs_ms :: int

text \<open>
  The loop over \<open>cmd[3..]\<close>; \<open>f\<close> lists the options seen, \<open>abs_ms\<close> is the field of the same name. The
  result is the error text or the final values of both.
\<close>

definition unit_opt :: "set_opt list \<Rightarrow> string \<Rightarrow> string \<Rightarrow> set_opt \<Rightarrow> bool" where
  "unit_opt f a name opt \<longleftrightarrow>
     arg_ieq a name \<and> O_KEEPTTL \<notin> set f \<and> \<not> list_ex (\<lambda>x. x \<in> set f \<and> x \<noteq> opt) EXPIRY"

fun set_opts_loop :: "int \<Rightarrow> set_opt list \<Rightarrow> int \<Rightarrow> string list \<Rightarrow> string + set_opt list \<times> int" where
  "set_opts_loop now f abs_ms [] = Inr (f, abs_ms)"
| "set_opts_loop now f abs_ms (a # as) =
     (if arg_ieq a ''nx'' \<and> O_XX \<notin> set f then set_opts_loop now (O_NX # f) abs_ms as
      else if arg_ieq a ''xx'' \<and> O_NX \<notin> set f then set_opts_loop now (O_XX # f) abs_ms as
      else if arg_ieq a ''get'' then set_opts_loop now (O_GET # f) abs_ms as
      else if arg_ieq a ''keepttl'' \<and> \<not> list_ex (\<lambda>x. x \<in> set f) EXPIRY
      then set_opts_loop now (O_KEEPTTL # f) abs_ms as
      else
        let kind = (if unit_opt f a ''ex'' O_EX then Some (O_EX, True, False)
                    else if unit_opt f a ''px'' O_PX then Some (O_PX, False, False)
                    else if unit_opt f a ''exat'' O_EXAT then Some (O_EXAT, True, True)
                    else if unit_opt f a ''pxat'' O_PXAT then Some (O_PXAT, False, True)
                    else None)
        in case kind of
             None \<Rightarrow> Inl MSG_SYNTAX
           | Some (opt, secs, absolute) \<Rightarrow>
               (case as of
                  [] \<Rightarrow> Inl MSG_SYNTAX
                | b # bs \<Rightarrow>
                    (case str2int b of
                       None \<Rightarrow> Inl MSG_NOT_INT
                     | Some n \<Rightarrow>
                         let bad = ''ERR invalid expire time in 'set' command''
                         in if n \<le> 0 \<or> secs \<and> INT64_MAX div 1000 < n then Inl bad
                            else let ms = (if secs then n * 1000 else n)
                                 in if \<not> absolute \<and> INT64_MAX - now < ms then Inl bad
                                    else set_opts_loop now (opt # f) (if absolute then ms else ms + now) bs)))"

definition parse_set_opts :: "env \<Rightarrow> string list \<Rightarrow> string + set_opts" where
  "parse_set_opts v cmd =
     (case set_opts_loop (sint (wall v)) [] 0 (drop 3 cmd) of
        Inl e \<Rightarrow> Inl e
      | Inr (f, abs_ms) \<Rightarrow>
          Inr \<lparr>o_nx = O_NX \<in> set f, o_xx = O_XX \<in> set f, o_get = O_GET \<in> set f, o_keepttl = O_KEEPTTL \<in> set f,
               o_has_exp = list_ex (\<lambda>x. x \<in> set f) EXPIRY, o_abs_ms = abs_ms\<rparr>)"

text \<open>The last lines of every \<open>SET\<close>: the value, the expiry time, the accounting.\<close>

definition set_tail :: "env \<Rightarrow> addr \<Rightarrow> string \<Rightarrow> int \<Rightarrow> 's gdata \<Rightarrow> 's gdata" where
  "set_tail v a value ttl_ms g =
     wrote 1 (mem_reaccount a (set_ttl v a ttl_ms (put_val a (VStr (str_new value)) g)))"

definition do_set :: "'s handler" where
  "do_set v cmd g =
     (if length cmd = 3 then
        (let (g, r) = lookup_entry v (cmd ! 1) T_STR True True g
         in case r of
              LOk a \<Rightarrow> (set_tail v a (cmd ! 2) (- 1) g, [ROk])
            | _ \<Rightarrow> (g, [RErr MSG_WRONG]))
      else
        case parse_set_opts v cmd of
          Inl e \<Rightarrow> (g, [RErr e])
        | Inr op \<Rightarrow>
            (let (g, old) = find_live v (cmd ! 1) g
             in if o_get op \<and> (\<exists>a \<in> set_option old. type_at g a \<noteq> T_STR) then (g, [RErr MSG_WRONGTYPE])
                else
                  let reply = (if o_get op
                               then (case old of None \<Rightarrow> [RNil] | Some a \<Rightarrow> [RStr (chars (entry_str g a))])
                               else [ROk])
                  in if o_nx op \<and> old \<noteq> None \<or> o_xx op \<and> old = None
                     then (g, if o_get op then reply else [RNil])
                     else
                       let keep_ms = (case old of
                                        None \<Rightarrow> - 1
                                      | Some a \<Rightarrow>
                                          if o_keepttl op \<and> entry_has_ttl (heap g) a
                                          then (if mono v < heap_val g a then sint (heap_val g a - mono v) else 0)
                                          else - 1);
                           ttl_ms = i64 (o_abs_ms op - sint (wall v))
                       in if o_has_exp op \<and> ttl_ms \<le> 0
                          then ((case old of None \<Rightarrow> g | Some a \<Rightarrow> wrote 1 (drop_entry v a g)), reply)
                          else
                            let ttl_ms = (if o_has_exp op then ttl_ms else if o_keepttl op then keep_ms else - 1);
                                (g, r) = lookup_entry v (cmd ! 1) T_STR True True g
                            in case r of
                                 LOk a \<Rightarrow> (set_tail v a (cmd ! 2) ttl_ms g, reply)
                               | _ \<Rightarrow> (g, [RErr MSG_WRONGTYPE])))"

text \<open>
  The product \<open>ttl * per\<close> is a signed multiplication with no check before it: where it does not fit 64 bits the
  behaviour is undefined and the handler has no result.
\<close>

definition setex_generic :: "int \<Rightarrow> 's opt_handler" where
  "setex_generic per v cmd g =
     (case str2int (cmd ! 2) of
        None \<Rightarrow> Some (g, [RErr ''ERR invalid expire time in setex command''])
      | Some ttl \<Rightarrow>
          if ttl \<le> 0 then Some (g, [RErr ''ERR invalid expire time in setex command''])
          else
            let (g, r) = lookup_entry v (cmd ! 1) T_STR True True g
            in case r of
                 LOk a \<Rightarrow> map_option (\<lambda>ttl_ms. (set_tail v a (cmd ! 3) ttl_ms g, [ROk])) (exact_i64 (ttl * per))
               | _ \<Rightarrow> Some (g, [RErr MSG_WRONGTYPE]))"

definition do_setex :: "'s opt_handler" where
  "do_setex = setex_generic 1000"

definition do_psetex :: "'s opt_handler" where
  "do_psetex = setex_generic 1"

text \<open>
  \<open>ent\<close> is uninitialised when \<open>lookup_entry\<close> does not return \<open>OK\<close>, which cannot happen after the key was
  found missing; the model leaves the state unchanged there.
\<close>

definition do_setnx :: "'s handler" where
  "do_setnx v cmd g =
     (let (g, old) = find_live v (cmd ! 1) g
      in if old \<noteq> None then (g, [RInt 0])
         else let (g, r) = lookup_entry v (cmd ! 1) T_STR True False g
              in case r of
                   LOk a \<Rightarrow> (wrote 1 (mem_reaccount a (put_val a (VStr (str_new (cmd ! 2))) g)), [RInt 1])
                 | _ \<Rightarrow> (g, [RInt 1]))"

text \<open>The new entry of \<open>GETSET\<close> gets no access stamp.\<close>

definition do_getset :: "'s handler" where
  "do_getset v cmd g =
     (let (g, old) = find_live v (cmd ! 1) g
      in case old of
           Some a \<Rightarrow>
             if type_at g a \<noteq> T_STR then (g, [RErr MSG_WRONGTYPE])
             else let prev = chars (entry_str g a)
                  in (set_tail v a (cmd ! 2) (- 1) g, [RStr prev])
         | None \<Rightarrow>
             let (a, g) = entry_new T_STR g;
                 g = put_ent a (\<lambda>e. e\<lparr>ekey := str_new (cmd ! 1)\<rparr>) g;
                 g = put_val a (VStr (str_new (cmd ! 2))) g;
                 g = mem_reaccount a g
             in (wrote 1 (db_insert a g), [RNil]))"

definition do_getdel :: "'s handler" where
  "do_getdel v cmd g =
     (let (g, r) = lookup_entry v (cmd ! 1) T_STR False False g
      in case r of
           LWrongType \<Rightarrow> (g, [RErr MSG_WRONG])
         | LMissing \<Rightarrow> (g, [RNil])
         | LOk a \<Rightarrow> (wrote 1 (drop_entry v a g), [RStr (chars (entry_str g a))]))"

text \<open>The deadline \<open>GETEX\<close> asks for, relative to now, or the error.\<close>

definition getex_ttl :: "env \<Rightarrow> string \<Rightarrow> int \<Rightarrow> string + int" where
  "getex_ttl v opt n =
     (let bad = ''ERR invalid expire time in getex command''
      in if opt = ''ex'' then (if n \<le> 0 \<or> INT64_MAX div 1000 < n then Inl bad else Inr (n * 1000))
         else if opt = ''px'' then (if n \<le> 0 then Inl bad else Inr n)
         else if opt = ''exat''
         then (if INT64_MAX div 1000 < n then Inl bad else Inr (i64 (i64 (n * 1000) - sint (wall v))))
         else if opt = ''pxat'' then Inr (i64 (n - sint (wall v)))
         else Inl MSG_SYNTAX)"

definition do_getex :: "'s handler" where
  "do_getex v cmd g =
     (let (g, r) = lookup_entry v (cmd ! 1) T_STR False False g
      in case r of
           LWrongType \<Rightarrow> (g, [RErr MSG_WRONG])
         | LMissing \<Rightarrow> (g, [RNil])
         | LOk a \<Rightarrow>
             (let value = [RStr (chars (entry_str g a))]
              in if length cmd = 2 then (g, value)
                 else
                   let opt = lower (cmd ! 2)
                   in if opt = ''persist''
                      then (if length cmd \<noteq> 3 then (g, [RErr MSG_SYNTAX])
                            else (if entry_has_ttl (heap g) a then wrote 1 (set_ttl v a (- 1) g) else g, value))
                      else if length cmd \<noteq> 4 then (g, [RErr MSG_SYNTAX])
                      else case str2int (cmd ! 3) of
                             None \<Rightarrow> (g, [RErr MSG_NOT_INT])
                           | Some n \<Rightarrow>
                               (case getex_ttl v opt n of
                                  Inl e \<Rightarrow> (g, [RErr e])
                                | Inr ttl_ms \<Rightarrow>
                                    if ttl_ms \<le> 0 then (wrote 1 (drop_entry v a g), value)
                                    else (wrote 1 (set_ttl v a ttl_ms g), value))))"

fun mget_loop :: "env \<Rightarrow> string list \<Rightarrow> 's gdata \<Rightarrow> 's gdata \<times> 's reply list" where
  "mget_loop v [] g = (g, [])"
| "mget_loop v (k # ks) g =
     (let (g, r) = lookup_entry v k T_STR False False g;
          t = (case r of LOk a \<Rightarrow> RStr (chars (entry_str g a)) | _ \<Rightarrow> RNil);
          (g, ts) = mget_loop v ks g
      in (g, t # ts))"

definition do_mget :: "'s handler" where
  "do_mget v cmd g =
     (let (g, ts) = mget_loop v (tl cmd) g in (g, RArr (of_nat (length cmd - 1)) # ts))"

definition do_append :: "'s handler" where
  "do_append v cmd g =
     (let (g, r) = lookup_entry v (cmd ! 1) T_STR True False g
      in case r of
           LOk a \<Rightarrow>
             (let s = str_append (entry_str g a) (cmd ! 2);
                  g = mem_reaccount a (put_val a (VStr s) g)
              in (wrote 1 g, [RInt (int (length (chars s)))]))
         | _ \<Rightarrow> (g, [RErr MSG_WRONGTYPE]))"

definition do_strlen :: "'s handler" where
  "do_strlen v cmd g =
     (let (g, r) = lookup_entry v (cmd ! 1) T_STR False False g
      in case r of
           LWrongType \<Rightarrow> (g, [RErr MSG_WRONGTYPE])
         | LMissing \<Rightarrow> (g, [RInt 0])
         | LOk a \<Rightarrow> (g, [RInt (int (length (chars (entry_str g a))))]))"

text \<open>The bytes \<open>GETRANGE\<close> selects.\<close>

definition getrange :: "int \<Rightarrow> int \<Rightarrow> string \<Rightarrow> string" where
  "getrange start en s =
     (let len = int (length s)
      in if start < 0 \<and> en < 0 \<and> en < start then []
         else
           let start = (if start < 0 then start + len else start);
               en = (if en < 0 then en + len else en);
               start = (if start < 0 then 0 else start);
               en = (if en < 0 then 0 else en);
               en = (if len \<le> en then len - 1 else en)
           in if en < start then [] else take (nat (en - start + 1)) (drop (nat start) s))"

definition do_getrange :: "'s handler" where
  "do_getrange v cmd g =
     (case (str2int (cmd ! 2), str2int (cmd ! 3)) of
        (Some start, Some en) \<Rightarrow>
          (let (g, r) = lookup_entry v (cmd ! 1) T_STR False False g
           in case r of
                LWrongType \<Rightarrow> (g, [RErr MSG_WRONGTYPE])
              | LMissing \<Rightarrow> (g, [RStr []])
              | LOk a \<Rightarrow> (g, [RStr (getrange start en (chars (entry_str g a)))]))
      | _ \<Rightarrow> (g, [RErr MSG_NOT_INT]))"

text \<open>\<open>memcpy(&s[offset], data, n)\<close> inside the string.\<close>

definition str_overwrite :: "cstr \<Rightarrow> nat \<Rightarrow> string \<Rightarrow> cstr" where
  "str_overwrite s offset data =
     s\<lparr>chars := take offset (chars s) @ data @ drop (offset + length data) (chars s)\<rparr>"

definition do_setrange :: "'s handler" where
  "do_setrange v cmd g =
     (case str2int (cmd ! 2) of
        None \<Rightarrow> (g, [RErr MSG_NOT_INT])
      | Some offset \<Rightarrow>
          if offset < 0 then (g, [RErr ''ERR offset is not an integer or out of range''])
          else if 536870912 \<le> offset then (g, [RErr ''ERR string exceeds maximun allowed size (512MB)''])
          else if cmd ! 3 = [] then
            (let (g, r) = lookup_entry v (cmd ! 1) T_STR False False g
             in case r of
                  LWrongType \<Rightarrow> (g, [RErr MSG_WRONGTYPE])
                | LMissing \<Rightarrow> (g, [RInt 0])
                | LOk a \<Rightarrow> (g, [RInt (int (length (chars (entry_str g a))))]))
          else
            (let (g, r) = lookup_entry v (cmd ! 1) T_STR True False g
             in case r of
                  LOk a \<Rightarrow>
                    (let new_end = nat offset + length (cmd ! 3);
                         s = entry_str g a;
                         s = (if length (chars s) < new_end then str_resize s new_end (char_of (0 :: nat)) else s);
                         s = str_overwrite s (nat offset) (cmd ! 3);
                         g = mem_reaccount a (put_val a (VStr s) g)
                     in (wrote 1 g, [RInt (int (length (chars s)))]))
                | _ \<Rightarrow> (g, [RErr MSG_WRONGTYPE])))"

subsection \<open>Several keys\<close>

definition MSG_MSET_ARGS :: string where
  "MSG_MSET_ARGS = ''ERR wrong number of arguments for 'mset' command''"

text \<open>The write passes of \<open>MSET\<close> and \<open>MSETNX\<close> over the remaining keys and values.\<close>

fun mset_loop :: "env \<Rightarrow> string list \<Rightarrow> 's gdata \<Rightarrow> 's gdata" where
  "mset_loop v (k # x # rest) g =
     (let (g, r) = lookup_entry v k T_STR True True g;
          g = (case r of
                 LOk a \<Rightarrow> mem_reaccount a (set_ttl v a (- 1) (put_val a (VStr (str_new x)) g))
               | _ \<Rightarrow> g)
      in mset_loop v rest g)"
| "mset_loop v _ g = g"

definition do_mset :: "'s handler" where
  "do_mset v cmd g =
     (if length cmd < 3 \<or> even (length cmd) then (g, [RErr MSG_MSET_ARGS])
      else (wrote ((length cmd - 1) div 2) (mset_loop v (tl cmd) g), [ROk]))"

fun msetnx_check :: "env \<Rightarrow> string list \<Rightarrow> 's gdata \<Rightarrow> 's gdata \<times> bool" where
  "msetnx_check v (k # x # rest) g =
     (let (g, old) = find_live v k g in if old \<noteq> None then (g, False) else msetnx_check v rest g)"
| "msetnx_check v _ g = (g, True)"

fun msetnx_loop :: "env \<Rightarrow> string list \<Rightarrow> 's gdata \<Rightarrow> 's gdata" where
  "msetnx_loop v (k # x # rest) g =
     (let (g, r) = lookup_entry v k T_STR True False g;
          g = (case r of LOk a \<Rightarrow> mem_reaccount a (put_val a (VStr (str_new x)) g) | _ \<Rightarrow> g)
      in msetnx_loop v rest g)"
| "msetnx_loop v _ g = g"

definition do_msetnx :: "'s handler" where
  "do_msetnx v cmd g =
     (if length cmd < 3 \<or> even (length cmd) then (g, [RErr MSG_MSET_ARGS])
      else let (g, free) = msetnx_check v (tl cmd) g
           in if \<not> free then (g, [RInt 0])
              else (wrote ((length cmd - 1) div 2) (msetnx_loop v (tl cmd) g), [RInt 1]))"

subsection \<open>Counters\<close>

definition MSG_OVERFLOW :: string where
  "MSG_OVERFLOW = ''ERR increment or decrement would overflow''"

text \<open>\<open>entry_str(ent) = std::to_string(cur)\<close> moves a new string into the old one.\<close>

definition incr_generic :: "int \<Rightarrow> 's handler" where
  "incr_generic delta v cmd g =
     (let (g, r) = lookup_entry v (cmd ! 1) T_STR False False g;
          cur = (case r of LOk a \<Rightarrow> str2int (chars (entry_str g a)) | _ \<Rightarrow> Some 0)
      in if r = LWrongType then (g, [RErr MSG_WRONGTYPE])
         else case cur of
                None \<Rightarrow> (g, [RErr MSG_NOT_INT])
              | Some cur \<Rightarrow>
                  if 0 < delta \<and> INT64_MAX - delta < cur \<or> delta < 0 \<and> cur < INT64_MIN - delta
                  then (g, [RErr MSG_OVERFLOW])
                  else
                    let cur = cur + delta;
                        (g, r) = (if r = LMissing then lookup_entry v (cmd ! 1) T_STR True False g else (g, r))
                    in case r of
                         LOk a \<Rightarrow>
                           (let s = fst (str_move (entry_str g a) (str_new (int_dec cur)));
                                g = mem_reaccount a (put_val a (VStr s) g)
                            in (wrote 1 g, [RInt cur]))
                       | _ \<Rightarrow> (g, []))"

definition do_incr :: "'s handler" where
  "do_incr = incr_generic 1"

definition do_decr :: "'s handler" where
  "do_decr = incr_generic (- 1)"

definition do_incrby :: "'s handler" where
  "do_incrby v cmd g =
     (case str2int (cmd ! 2) of
        None \<Rightarrow> (g, [RErr MSG_NOT_INT])
      | Some delta \<Rightarrow> incr_generic delta v cmd g)"

definition do_decrby :: "'s handler" where
  "do_decrby v cmd g =
     (case str2int (cmd ! 2) of
        None \<Rightarrow> (g, [RErr MSG_NOT_INT])
      | Some by \<Rightarrow> if by = INT64_MIN then (g, [RErr MSG_OVERFLOW]) else incr_generic (- by) v cmd g)"

text \<open>
  \<open>INCRBYFLOAT\<close>. The arithmetic of \<open>long double\<close> is a parameter: \<open>ld_of\<close> parses as \<open>str2ld\<close> does,
  \<open>ld_add\<close> adds and is \<open>None\<close> when the sum is infinite or not a number, \<open>ld_zero\<close> is zero and \<open>ld_str\<close>
  prints as \<open>ld2str_human\<close> does.
\<close>

definition do_incrbyfloat ::
  "(string \<Rightarrow> 'd option) \<Rightarrow> ('d \<Rightarrow> 'd \<Rightarrow> 'd option) \<Rightarrow> 'd \<Rightarrow> ('d \<Rightarrow> string) \<Rightarrow> 's handler"
where
  "do_incrbyfloat ld_of ld_add ld_zero ld_str v cmd g =
     (let (g, r) = lookup_entry v (cmd ! 1) T_STR False False g;
          cur = (case r of LOk a \<Rightarrow> ld_of (chars (entry_str g a)) | _ \<Rightarrow> Some ld_zero)
      in if r = LWrongType then (g, [RErr MSG_WRONGTYPE])
         else case (cur, ld_of (cmd ! 2)) of
                (Some cur, Some delta) \<Rightarrow>
                  (case ld_add cur delta of
                     None \<Rightarrow> (g, [RErr ''ERR increment would produce NaN or infinity''])
                   | Some result \<Rightarrow>
                       let (g, r) = (if r = LMissing then lookup_entry v (cmd ! 1) T_STR True False g else (g, r))
                       in case r of
                            LOk a \<Rightarrow>
                              (let s = fst (str_move (entry_str g a) (str_new (ld_str result)));
                                   g = mem_reaccount a (put_val a (VStr s) g)
                               in (wrote 1 g, [RStr (chars s)]))
                          | _ \<Rightarrow> (g, []))
              | _ \<Rightarrow> (g, [RErr ''ERR value is not a valid float'']))"

section \<open>String entries\<close>

lemma str_at: "type_at g a = T_STR \<Longrightarrow> val_at g a = VStr (entry_str g a)"
  by (cases "val_at g a") (auto simp: type_at_def entry_str_def)

lemma at_str: "at v g k a \<Longrightarrow> type_at g a = T_STR \<Longrightarrow> live v g k = Some (AStr (chars (entry_str g a)), ttl_of (heap g) a)"
  using at_live[of v g k a] by (simp add: str_at)

text \<open>What a string handler sees under a key: nothing, a string, or a value of another type.\<close>

definition str_case :: "('s avalue \<times> u64 option) option \<Rightarrow> 'b \<Rightarrow> 'b \<Rightarrow> (string \<Rightarrow> 'b) \<Rightarrow> 'b" where
  "str_case x missing wrong f = (case x of None \<Rightarrow> missing | Some (AStr s, d) \<Rightarrow> f s | Some _ \<Rightarrow> wrong)"

definition cur_str :: "('s avalue \<times> u64 option) option \<Rightarrow> string" where
  "cur_str x = str_case x [] [] (\<lambda>s. s)"

lemma str_case_simps [simp]:
  "str_case None x y f = x" "str_case (Some (AStr s, d)) x y f = f s"
  "wrong_type T_STR z \<Longrightarrow> str_case z x y f = y"
  by (auto simp: str_case_def wrong_type_def split: option.splits avalue.splits)

lemma cur_str_simps [simp]: "cur_str None = []" "cur_str (Some (AStr s, d)) = s"
  by (simp_all add: cur_str_def)

lemma wrong_type_None [simp]: "\<not> wrong_type t None"
  by (simp add: wrong_type_def)

lemma wrong_type_Some [simp]: "wrong_type t (Some (w, d)) \<longleftrightarrow> atype w \<noteq> t"
  by (simp add: wrong_type_def)

lemma or_new_str: "\<not> wrong_type T_STR x \<Longrightarrow> or_new T_STR x = (AStr (cur_str x), cur_dl x)"
proof (cases x)
  case (Some p)
  then show "\<not> wrong_type T_STR x \<Longrightarrow> ?thesis" by (cases "fst p") (auto simp: or_new_def wrong_type_def cur_str_def str_case_def)
qed (simp add: or_new_def empty_val_def)

text \<open>The two forms of lookup, by outcome.\<close>

lemma lookup_str_ro:
  assumes "g_ok S g" "lookup_entry v k T_STR False False g = (g', r)"
  obtains "r = LMissing" "live v g k = None" "g_ok S g'" "live v g' = live v g"
  | "r = LWrongType" "wrong_type T_STR (live v g k)" "g_ok S g'" "live v g' = live v g"
  | a where "r = LOk a" "at v g' k a" "val_at g' a = VStr (entry_str g' a)" "g_ok S g'" "live v g' = live v g"
      "live v g k = Some (AStr (chars (entry_str g' a)), ttl_of (heap g') a)"
proof -
  note l = lookup_ro_ok[OF assms]
  show thesis
  proof (cases r)
    case (LOk a)
    then have "at v g' k a" "type_at g' a = T_STR" using l(5) by auto
    then show thesis using that(3)[of a] LOk l at_str[of v g' k a] str_at[of g' a] by simp
  qed (use l that in auto)
qed

lemma lookup_str_rw:
  assumes ok: "g_ok {} g" and room: "g_room g" and l: "lookup_entry v k T_STR True rep g = (g', r)"
  obtains "r = LWrongType" "\<not> rep" "wrong_type T_STR (live v g k)" "g_ok {} g'" "live v g' = live v g"
  | a where "r = LOk a" "at v g' k a" "g_ok {a} g'" "rep \<or> \<not> wrong_type T_STR (live v g k)"
      "card (dom (ents g')) \<le> 2 ^ 60" "card (dom (ents g')) \<le> Suc (card (dom (ents g)))"
      "\<And>x. (live v g')(k := x) = (live v g)(k := x)"
      "\<not> wrong_type T_STR (live v g k) \<Longrightarrow> chars (entry_str g' a) = cur_str (live v g k) \<and> ttl_of (heap g') a = cur_dl (live v g k)"
proof -
  note ll = lookup_rw_ok[OF ok room l]
  show thesis
  proof (cases r)
    case (LOk a)
    note o = ll(4)[OF LOk]
    have t: "val_at g' a = VStr (entry_str g' a)" using o by (intro str_at) simp
    have "chars (entry_str g' a) = cur_str (live v g k) \<and> ttl_of (heap g') a = cur_dl (live v g k)"
      if "\<not> wrong_type T_STR (live v g k)" using o or_new_str[OF that] t by auto
    then show thesis using that(2)[of a] LOk o ll(2,5) room by (auto simp: g_room_def)
  qed (use ll that in auto)
qed

section \<open>Reading\<close>

lemma do_get_ok:
  assumes "g_ok {} g" "do_get v cmd g = (g', rs)"
  shows "g_ok {} g' \<and> live v g' = live v g \<and> rs = str_case (live v g (cmd ! 1)) [RNil] [RErr MSG_WRONG] (\<lambda>s. [RStr s])"
proof -
  obtain g1 r where l: "lookup_entry v (cmd ! 1) T_STR False False g = (g1, r)" by fastforce
  from assms(1) l show ?thesis
    by (rule lookup_str_ro) (use assms(2) l in \<open>auto simp: do_get_def\<close>)
qed

lemma do_strlen_ok:
  assumes "g_ok {} g" "do_strlen v cmd g = (g', rs)"
  shows "g_ok {} g' \<and> live v g' = live v g \<and>
    rs = str_case (live v g (cmd ! 1)) [RInt 0] [RErr MSG_WRONGTYPE] (\<lambda>s. [RInt (int (length s))])"
proof -
  obtain g1 r where l: "lookup_entry v (cmd ! 1) T_STR False False g = (g1, r)" by fastforce
  from assms(1) l show ?thesis
    by (rule lookup_str_ro) (use assms(2) l in \<open>auto simp: do_strlen_def\<close>)
qed

lemma do_getrange_ok:
  assumes "g_ok {} g" "do_getrange v cmd g = (g', rs)"
  shows "g_ok {} g' \<and> live v g' = live v g \<and>
    rs = (case (str2int (cmd ! 2), str2int (cmd ! 3)) of
            (Some s, Some e) \<Rightarrow> str_case (live v g (cmd ! 1)) [RStr []] [RErr MSG_WRONGTYPE] (\<lambda>x. [RStr (getrange s e x)])
          | _ \<Rightarrow> [RErr MSG_NOT_INT])"
proof -
  obtain g1 r where l: "lookup_entry v (cmd ! 1) T_STR False False g = (g1, r)" by fastforce
  from assms(1) l show ?thesis
    by (rule lookup_str_ro) (use assms l in \<open>auto simp: do_getrange_def split: option.splits\<close>)
qed

lemma mget_loop_ok:
  "g_ok {} g \<Longrightarrow> mget_loop v ks g = (g', rs) \<Longrightarrow>
   g_ok {} g' \<and> live v g' = live v g \<and> rs = map (\<lambda>k. str_case (live v g k) RNil RNil RStr) ks"
proof (induction ks arbitrary: g g' rs)
  case (Cons k ks)
  obtain g1 r where l: "lookup_entry v k T_STR False False g = (g1, r)" by fastforce
  obtain ts where m: "mget_loop v ks g1 = (g', ts)" "rs = (case r of LOk a \<Rightarrow> RStr (chars (entry_str g1 a)) | _ \<Rightarrow> RNil) # ts"
    using Cons(3) l by (auto split: prod.splits)
  from Cons(2) l show ?case
    by (rule lookup_str_ro) (use Cons(1)[OF _ m(1)] m(2) in auto)
qed simp

lemma do_mget_ok:
  assumes "g_ok {} g" "do_mget v cmd g = (g', rs)"
  shows "g_ok {} g' \<and> live v g' = live v g \<and>
    rs = RArr (of_nat (length cmd - 1)) # map (\<lambda>k. str_case (live v g k) RNil RNil RStr) (tl cmd)"
proof -
  obtain ts where m: "mget_loop v (tl cmd) g = (g', ts)" "rs = RArr (of_nat (length cmd - 1)) # ts"
    using assms(2) by (auto simp: do_mget_def split: prod.splits)
  show ?thesis using mget_loop_ok[OF assms(1) m(1)] m(2) by simp
qed

section \<open>Writing\<close>

lemma do_append_ok:
  assumes "g_ok {} g" "fits v 1 g" "do_append v cmd g = (g', rs)"
  defines "x \<equiv> live v g (cmd ! 1)"
  shows "g_ok {} g' \<and>
    (if wrong_type T_STR x then live v g' = live v g \<and> rs = [RErr MSG_WRONGTYPE]
     else live v g' = (live v g)(cmd ! 1 \<mapsto> (AStr (cur_str x @ cmd ! 2), cur_dl x)) \<and>
          rs = [RInt (int (length (cur_str x) + length (cmd ! 2)))])"
proof -
  obtain g1 r where l: "lookup_entry v (cmd ! 1) T_STR True False g = (g1, r)" by fastforce
  have room: "g_room g" using fits_room[OF assms(2)] by simp
  from assms(1) room l show ?thesis
  proof (cases rule: lookup_str_rw)
    case (2 a)
    let ?w = "VStr (str_append (entry_str g1 a) (cmd ! 2))"
    have g': "g' = wrote 1 (mem_reaccount a (put_val a ?w g1))" "rs = [RInt (int (length (chars (entry_str g1 a) @ cmd ! 2)))]"
      using assms(3) l 2(1) by (auto simp: do_append_def Let_def)
    show ?thesis using store_ok[OF 2(3,2), of ?w 1] 2 g' by (auto simp: x_def)
  qed (use assms(3) l in \<open>auto simp: do_append_def x_def\<close>)
qed

lemma chars_resize: "chars (str_resize s n c) = take n (chars s) @ replicate (n - length (chars s)) c"
  by (simp add: str_resize_def)

text \<open>The string \<open>SETRANGE\<close> writes.\<close>

definition overwrite :: "string \<Rightarrow> nat \<Rightarrow> string \<Rightarrow> string" where
  "overwrite s off d = take off (s @ replicate (off - length s) (char_of (0 :: nat))) @ d @ drop (off + length d) s"

lemma setrange_chars:
  assumes "new_end = off + length d"
  shows "chars (str_overwrite (if length (chars s) < new_end then str_resize s new_end (char_of (0 :: nat)) else s) off d) =
    overwrite (chars s) off d"
  using assms by (auto simp: str_overwrite_def overwrite_def chars_resize min_def)

lemma do_setrange_ok:
  assumes "g_ok {} g" "fits v 1 g" "do_setrange v cmd g = (g', rs)"
  defines "x \<equiv> live v g (cmd ! 1)"
  shows "g_ok {} g' \<and>
    (case str2int (cmd ! 2) of
       None \<Rightarrow> live v g' = live v g \<and> rs = [RErr MSG_NOT_INT]
     | Some off \<Rightarrow>
         if off < 0 \<or> 536870912 \<le> off then live v g' = live v g \<and> (\<exists>e. rs = [RErr e])
         else if wrong_type T_STR x then live v g' = live v g \<and> rs = [RErr MSG_WRONGTYPE]
         else if cmd ! 3 = [] then live v g' = live v g \<and> rs = [RInt (int (length (cur_str x)))]
         else let s = overwrite (cur_str x) (nat off) (cmd ! 3)
              in live v g' = (live v g)(cmd ! 1 \<mapsto> (AStr s, cur_dl x)) \<and> rs = [RInt (int (length s))])"
proof (cases "str2int (cmd ! 2)")
  case (Some off)
  consider "off < 0 \<or> 536870912 \<le> off" | "0 \<le> off" "off < 536870912" "cmd ! 3 = []" | "0 \<le> off" "off < 536870912" "cmd ! 3 \<noteq> []"
    by linarith
  then show ?thesis
  proof cases
    case 2
    obtain g1 r where l: "lookup_entry v (cmd ! 1) T_STR False False g = (g1, r)" by fastforce
    from assms(1) l show ?thesis
      by (rule lookup_str_ro) (use assms(3) l 2 Some in \<open>auto simp: do_setrange_def x_def\<close>)
  next
    case 3
    obtain g1 r where l: "lookup_entry v (cmd ! 1) T_STR True False g = (g1, r)" by fastforce
    have room: "g_room g" using fits_room[OF assms(2)] by simp
    from assms(1) room l show ?thesis
    proof (cases rule: lookup_str_rw)
      case (2 a)
      let ?e = "nat off + length (cmd ! 3)"
      let ?s = "str_overwrite (if length (chars (entry_str g1 a)) < ?e then str_resize (entry_str g1 a) ?e (char_of (0 :: nat))
          else entry_str g1 a) (nat off) (cmd ! 3)"
      have g': "g' = wrote 1 (mem_reaccount a (put_val a (VStr ?s) g1))" "rs = [RInt (int (length (chars ?s)))]"
        using assms(3) l 2(1) 3 Some by (auto simp: do_setrange_def Let_def)
      show ?thesis using store_ok[OF 2(3,2), of "VStr ?s" 1] 2 g' 3 Some setrange_chars[OF refl, of "entry_str g1 a"]
        by (auto simp: x_def Let_def simp del: fun_upd_apply)
    qed (use assms(3) l 3 Some in \<open>auto simp: do_setrange_def x_def\<close>)
  qed (use assms(1,3) Some in \<open>auto simp: do_setrange_def\<close>)
qed (use assms(1,3) in \<open>auto simp: do_setrange_def\<close>)

lemma set_tail_ok:
  assumes "g_ok {a} g" "at v g k a" "card (dom (ents g)) \<le> 2 ^ 60"
  shows "g_ok {} (set_tail v a y t g)" "live v (set_tail v a y t g) = live_put v (live v g) k (AStr y) (dl_in v t)"
  using store_ttl_ok[OF assms(1,2) _ assms(3), of "VStr (str_new y)" t] by (simp_all add: set_tail_def)

lemma live_put_upd: "(\<And>x. m'(k := x) = m(k := x)) \<Longrightarrow> live_put v m' k w d = live_put v m k w d"
  by (simp add: live_put_def)

text \<open>A string is stored under the key whatever was there.\<close>

lemma set_over_ok:
  assumes "g_ok {} g" "g_room g" "lookup_entry v k T_STR True True g = (g1, r)"
  obtains a where "r = LOk a" "g_ok {} (set_tail v a y t g1)" "live v (set_tail v a y t g1) = live_put v (live v g) k (AStr y) (dl_in v t)"
  using assms
proof (cases rule: lookup_str_rw)
  case (2 a)
  have "live v (set_tail v a y t g1) = live_put v (live v g) k (AStr y) (dl_in v t)"
    unfolding set_tail_ok(2)[OF 2(3,2,5)] by (rule live_put_upd) (rule 2(7))
  then show thesis using that[of a] set_tail_ok(1)[OF 2(3,2,5), of y t] 2(1) by simp
qed simp

text \<open>What \<open>SETEX\<close> and \<open>PSETEX\<close> do to the live keys.\<close>

definition setex_spec :: "int \<Rightarrow> env \<Rightarrow> string list \<Rightarrow> (string \<Rightarrow> ('s avalue \<times> u64 option) option) \<Rightarrow>
    ((string \<Rightarrow> ('s avalue \<times> u64 option) option) \<times> 's reply list) option" where
  "setex_spec per v cmd m =
     (case str2int (cmd ! 2) of
        None \<Rightarrow> Some (m, [RErr ''ERR invalid expire time in setex command''])
      | Some t \<Rightarrow>
          if t \<le> 0 then Some (m, [RErr ''ERR invalid expire time in setex command''])
          else if in_i64 (t * per) then Some (live_put v m (cmd ! 1) (AStr (cmd ! 3)) (dl_in v (t * per)), [ROk])
          else None)"

lemma setex_generic_ok:
  assumes "g_ok {} g" "fits v 1 g"
  shows "rel_option (\<lambda>(g', rs) (m, qs). g_ok {} g' \<and> live v g' = m \<and> rs = qs)
    (setex_generic per v cmd g) (setex_spec per v cmd (live v g))"
proof (cases "str2int (cmd ! 2)")
  case (Some t)
  show ?thesis
  proof (cases "t \<le> 0")
    case False
    obtain g1 r where l: "lookup_entry v (cmd ! 1) T_STR True True g = (g1, r)" by fastforce
    have room: "g_room g" using fits_room[OF assms(2)] by simp
    from assms(1) room l show ?thesis
      by (rule set_over_ok[where y = "cmd ! 3" and t = "t * per"])
        (use l Some False in \<open>auto simp: setex_generic_def setex_spec_def exact_i64_def Let_def\<close>)
  qed (use assms(1) Some in \<open>auto simp: setex_generic_def setex_spec_def\<close>)
qed (use assms(1) in \<open>auto simp: setex_generic_def setex_spec_def\<close>)

lemma do_getdel_ok:
  assumes "g_ok {} g" "do_getdel v cmd g = (g', rs)"
  defines "x \<equiv> live v g (cmd ! 1)"
  shows "g_ok {} g' \<and> rs = str_case x [RNil] [RErr MSG_WRONG] (\<lambda>s. [RStr s]) \<and>
    live v g' = (if wrong_type T_STR x then live v g else (live v g)(cmd ! 1 := None))"
proof -
  obtain g1 r where l: "lookup_entry v (cmd ! 1) T_STR False False g = (g1, r)" by fastforce
  from assms(1) l show ?thesis
  proof (cases rule: lookup_str_ro)
    case (3 a)
    have ok: "g_ok {a} g1" by (rule g_ok_mono[OF 3(4)]) simp
    have g': "g' = wrote 1 (drop_entry v a g1)" "rs = [RStr (chars (entry_str g1 a))]"
      using assms(2) l 3(1) by (auto simp: do_getdel_def)
    show ?thesis using drop_ok[OF ok 3(2)] 3 g' by (simp add: x_def)
  qed (use assms(2) l in \<open>auto simp: do_getdel_def x_def fun_upd_idem\<close>)
qed

lemma do_setnx_ok:
  assumes "g_ok {} g" "fits v 1 g" "do_setnx v cmd g = (g', rs)"
  shows "g_ok {} g' \<and>
    (if live v g (cmd ! 1) = None
     then live v g' = (live v g)(cmd ! 1 \<mapsto> (AStr (cmd ! 2), None)) \<and> rs = [RInt 1]
     else live v g' = live v g \<and> rs = [RInt 0])"
proof -
  obtain g1 old where f: "find_live v (cmd ! 1) g = (g1, old)" by fastforce
  note ff = find_live_ok[OF assms(1) f]
  show ?thesis
  proof (cases old)
    case (Some a)
    have "live v g (cmd ! 1) \<noteq> None" using at_live[OF ff(3)[OF Some]] ff(2) by simp
    then show ?thesis using assms(3) f Some ff by (auto simp: do_setnx_def)
  next
    case None
    have n: "live v g1 (cmd ! 1) = None" using ff(2,4) None by simp
    obtain g2 r where l: "lookup_entry v (cmd ! 1) T_STR True False g1 = (g2, r)" by fastforce
    have "card (dom (ents g1)) \<le> card (dom (ents g))" by (rule card_mono[OF g_okD(8)[OF assms(1)] ff(5)])
    then have room: "g_room g1" using fits_card[OF assms(2)] by (simp add: g_room_def)
    from ff(1) room l show ?thesis
    proof (cases rule: lookup_str_rw)
      case (2 a)
      have "g' = wrote 1 (mem_reaccount a (put_val a (VStr (str_new (cmd ! 2))) g2))" "rs = [RInt 1]"
        using assms(3) f None l 2(1) by (auto simp: do_setnx_def Let_def)
      then show ?thesis using store_ok[OF 2(3,2), of "VStr (str_new (cmd ! 2))" 1] 2 n ff(2) by auto
    qed (use n in simp)
  qed
qed

lemma find_str:
  assumes ok: "g_ok {} g" and f: "find_live v k g = (g', old)"
  obtains "old = None" "live v g k = None" "g_ok {} g'" "live v g' = live v g" "index g' k = None" "card (dom (ents g')) \<le> card (dom (ents g))"
  | a where "old = Some a" "at v g' k a" "g_ok {} g'" "live v g' = live v g" "card (dom (ents g')) \<le> card (dom (ents g))"
      "live v g k = Some (aval (val_at g' a), ttl_of (heap g') a)" "type_at g' a \<noteq> T_STR \<longleftrightarrow> wrong_type T_STR (live v g k)"
proof -
  note ff = find_live_ok[OF ok f]
  have c: "card (dom (ents g')) \<le> card (dom (ents g))" by (rule card_mono[OF g_okD(8)[OF ok] ff(5)])
  show thesis
  proof (cases old)
    case (Some a)
    have "live v g k = Some (aval (val_at g' a), ttl_of (heap g') a)" using at_live[OF ff(3)[OF Some]] ff(2) by simp
    then show thesis using that(2)[of a] Some ff c by (simp add: type_at_def)
  qed (use that ff c in simp)
qed

lemma do_getset_ok:
  assumes "g_ok {} g" "fits v 1 g" "do_getset v cmd g = (g', rs)"
  defines "x \<equiv> live v g (cmd ! 1)"
  shows "g_ok {} g' \<and> rs = str_case x [RNil] [RErr MSG_WRONGTYPE] (\<lambda>s. [RStr s]) \<and>
    live v g' = (if wrong_type T_STR x then live v g else (live v g)(cmd ! 1 \<mapsto> (AStr (cmd ! 2), None)))"
proof -
  obtain g1 old where f: "find_live v (cmd ! 1) g = (g1, old)" by fastforce
  from assms(1) f show ?thesis
  proof (cases rule: find_str)
    case 1
    let ?e = "\<lparr>ekey = str_new (cmd ! 1), emem = 0, elru = 0, eval = VStr (str_new (cmd ! 2))\<rparr> :: 'a entry"
    let ?e' = "?e\<lparr>emem := entry_mem_usage ?e\<rparr>" and ?a = "next_addr g1"
    have e: "ents g' = (ents g1)(?a \<mapsto> ?e')" "next_addr g' = ?a + 1" "heap g' = heap g1"
      "used_memory g' = used_memory g1 + emem ?e'" "db g' = sk_insert (key_at g') (db g1) ?a" "rs = [RNil]"
    proof -
      let ?h = "g1\<lparr>ents := (ents g1)(?a \<mapsto> ?e'), next_addr := ?a + 1, used_memory := used_memory g1 + emem ?e'\<rparr>"
      have "mem_reaccount ?a (put_val ?a (VStr (str_new (cmd ! 2))) (put_ent ?a (\<lambda>e. e\<lparr>ekey := str_new (cmd ! 1)\<rparr>) (snd (entry_new T_STR g1)))) = ?h"
        by (simp add: entry_new_def put_ent_def put_val_def mem_reaccount_def ent_at_def Let_def)
      moreover have "fst (entry_new T_STR g1) = ?a" by (simp add: entry_new_def Let_def)
      ultimately have "g' = wrote 1 (db_insert ?a ?h)" "rs = [RNil]"
        using assms(3) f 1(1) by (auto simp: do_getset_def Let_def split_beta)
      then show "ents g' = (ents g1)(?a \<mapsto> ?e')" "next_addr g' = ?a + 1" "heap g' = heap g1"
        "used_memory g' = used_memory g1 + emem ?e'" "db g' = sk_insert (key_at g') (db g1) ?a" "rs = [RNil]"
        by (simp_all add: db_insert_def)
    qed
    have room: "g_room g1" using fits_card[OF assms(2)] 1(6) by (simp add: g_room_def)
    note n = new_entry_ok[OF 1(3,5) room refl e(1) _ _ e(2,3,4,5), simplified]
    show ?thesis using n(2) n(6)[of v] 1 e(6) by (simp add: x_def entry_mem_usage_def)
  next
    case (2 a)
    show ?thesis
    proof (cases "wrong_type T_STR x")
      case True
      then show ?thesis using assms(3) f 2 by (auto simp: do_getset_def x_def)
    next
      case False
      then have t: "type_at g1 a = T_STR" using 2 by (simp add: x_def)
      have ok: "g_ok {a} g1" by (rule g_ok_mono[OF 2(3)]) simp
      have c: "card (dom (ents g1)) \<le> 2 ^ 60" using fits_card[OF assms(2)] 2(5) by simp
      have "g' = set_tail v a (cmd ! 2) (- 1) g1" "rs = [RStr (chars (entry_str g1 a))]"
        using assms(3) f 2(1) t by (auto simp: do_getset_def Let_def)
      then show ?thesis using set_tail_ok[OF ok 2(2) c, of "cmd ! 2" "- 1"] 2 False t str_at[OF t] by (simp add: x_def)
    qed
  qed
qed

lemma do_getex_ok:
  assumes "g_ok {} g" "fits v 1 g" "do_getex v cmd g = (g', rs)"
  defines "k \<equiv> cmd ! 1"
  shows "g_ok {} g' \<and>
    (case live v g k of
       Some (AStr s, d) \<Rightarrow>
         (if length cmd = 2 then live v g' = live v g \<and> rs = [RStr s]
          else if lower (cmd ! 2) = ''persist'' \<and> length cmd = 3
          then live v g' = (live v g)(k \<mapsto> (AStr s, None)) \<and> rs = [RStr s]
          else if length cmd = 4 \<and> lower (cmd ! 2) \<noteq> ''persist''
          then case str2int (cmd ! 3) of
                 None \<Rightarrow> live v g' = live v g \<and> rs = [RErr MSG_NOT_INT]
               | Some n \<Rightarrow>
                   (case getex_ttl v (lower (cmd ! 2)) n of
                      Inl e \<Rightarrow> live v g' = live v g \<and> rs = [RErr e]
                    | Inr t \<Rightarrow> rs = [RStr s] \<and>
                        live v g' = (if t \<le> 0 then (live v g)(k := None) else live_put v (live v g) k (AStr s) (dl_in v t)))
          else live v g' = live v g \<and> rs = [RErr MSG_SYNTAX])
     | x \<Rightarrow> live v g' = live v g \<and> rs = str_case x [RNil] [RErr MSG_WRONG] (\<lambda>s. []))"
proof -
  obtain g1 r where l: "lookup_entry v k T_STR False False g = (g1, r)" by fastforce
  from assms(1) l show ?thesis
  proof (cases rule: lookup_str_ro)
    case 1
    then show ?thesis using assms(3) l by (simp add: do_getex_def k_def)
  next
    case 2
    have "g' = g1" "rs = [RErr MSG_WRONG]" using assms(3) l 2(1) by (auto simp: do_getex_def k_def)
    moreover obtain w d where "live v g k = Some (w, d)" "atype w \<noteq> T_STR"
      using 2(2) by (auto simp: wrong_type_def split: option.splits)
    ultimately show ?thesis using 2 by (cases w) auto
  next
    case (3 a)
    have ok: "g_ok {a} g1" by (rule g_ok_mono[OF 3(4)]) simp
    have "card (dom (ents g1)) \<le> card (dom (ents g))"
      by (rule card_mono[OF g_okD(8)[OF assms(1)] lookup_ro_ok(6)[OF assms(1) l]])
    then have c: "card (dom (ents g1)) \<le> 2 ^ 60" using fits_card[OF assms(2)] by simp
    let ?s = "chars (entry_str g1 a)"
    have run: "(if length cmd = 2 then (g1, [RStr ?s])
       else if lower (cmd ! 2) = ''persist''
       then (if length cmd \<noteq> 3 then (g1, [RErr MSG_SYNTAX])
             else (if entry_has_ttl (heap g1) a then wrote 1 (set_ttl v a (- 1) g1) else g1, [RStr ?s]))
       else if length cmd \<noteq> 4 then (g1, [RErr MSG_SYNTAX])
       else case str2int (cmd ! 3) of
              None \<Rightarrow> (g1, [RErr MSG_NOT_INT])
            | Some n \<Rightarrow> (case getex_ttl v (lower (cmd ! 2)) n of
                Inl e \<Rightarrow> (g1, [RErr e])
              | Inr t \<Rightarrow> if t \<le> 0 then (wrote 1 (drop_entry v a g1), [RStr ?s]) else (wrote 1 (set_ttl v a t g1), [RStr ?s]))) = (g', rs)"
      using assms(3) unfolding do_getex_def l[unfolded k_def] Let_def prod.case 3(1) lookup.case .
    note tt = touch_ttl_ok[OF 3(4,2) c]
    have nt: "ttl_of (heap g1) a = None" if "\<not> entry_has_ttl (heap g1) a"
      using that heap_inv_has_ttl[OF g_okD(3)[OF 3(4)], of a] by simp
    have lk: "live v g k = Some (AStr ?s, ttl_of (heap g1) a)" using 3 by simp
    have idem: "(live v g)(k \<mapsto> (AStr ?s, None)) = live v g" if "\<not> entry_has_ttl (heap g1) a"
      using lk nt[OF that] by (simp add: fun_upd_idem)
    show ?thesis
      using run drop_ok[OF ok 3(2)] tt[of "- 1"] tt 3(3,4,5) idem unfolding lk
      by (auto split: if_splits option.splits sum.splits)
  qed
qed

lemma incr_generic_ok:
  assumes "g_ok {} g" "fits v 1 g" "incr_generic delta v cmd g = (g', rs)" "in_i64 delta"
  defines "x \<equiv> live v g (cmd ! 1)"
  shows "g_ok {} g' \<and>
    (if wrong_type T_STR x then live v g' = live v g \<and> rs = [RErr MSG_WRONGTYPE]
     else case (if x = None then Some 0 else str2int (cur_str x)) of
            None \<Rightarrow> live v g' = live v g \<and> rs = [RErr MSG_NOT_INT]
          | Some n \<Rightarrow>
              if in_i64 (n + delta)
              then live v g' = (live v g)(cmd ! 1 \<mapsto> (AStr (int_dec (n + delta)), cur_dl x)) \<and> rs = [RInt (n + delta)]
              else live v g' = live v g \<and> rs = [RErr MSG_OVERFLOW])"
proof -
  obtain g1 r where l: "lookup_entry v (cmd ! 1) T_STR False False g = (g1, r)" by fastforce
  have ov: "(0 < delta \<and> INT64_MAX - delta < n \<or> delta < 0 \<and> n < INT64_MIN - delta) \<longleftrightarrow> \<not> in_i64 (n + delta)"
    if "in_i64 n" for n using that assms(4) by (auto simp: in_i64_def)
  have z: "in_i64 0" by (simp add: in_i64_def INT64_MAX_def INT64_MIN_def)
  have cd: "card (dom (ents g1)) \<le> card (dom (ents g))"
    by (rule card_mono[OF g_okD(8)[OF assms(1)] lookup_ro_ok(6)[OF assms(1) l]])
  from assms(1) l show ?thesis
  proof (cases rule: lookup_str_ro)
    case 1
    obtain g2 r2 where l2: "lookup_entry v (cmd ! 1) T_STR True False g1 = (g2, r2)" by fastforce
    have room: "g_room g1" using fits_card[OF assms(2)] cd by (simp add: g_room_def)
    show ?thesis
    proof (cases "in_i64 delta")
      case True
      from 1(3) room l2 show ?thesis
      proof (cases rule: lookup_str_rw)
        case (2 a)
        let ?w = "VStr (fst (str_move (entry_str g2 a) (str_new (int_dec delta))))"
        have "g' = wrote 1 (mem_reaccount a (put_val a ?w g2))" "rs = [RInt delta]"
          using assms(3) l 1(1) l2 2(1) ov[OF z] True by (auto simp: incr_generic_def Let_def)
        then show ?thesis using store_ok[OF 2(3,2), of ?w 1] 2 1 True by (auto simp: x_def)
      qed (use 1 in simp)
    qed (use assms(4) in simp)
  next
    case 2
    then show ?thesis using assms(3) l by (auto simp: incr_generic_def x_def)
  next
    case (3 a)
    have nw: "\<not> wrong_type T_STR x" "x \<noteq> None" "cur_str x = chars (entry_str g1 a)" "cur_dl x = ttl_of (heap g1) a"
      using 3 by (simp_all add: x_def)
    show ?thesis
    proof (cases "str2int (chars (entry_str g1 a))")
      case None
      then show ?thesis using assms(3) l 3 nw by (auto simp: incr_generic_def)
    next
      case (Some n)
      have ok: "g_ok {a} g1" by (rule g_ok_mono[OF 3(4)]) simp
      let ?w = "VStr (fst (str_move (entry_str g1 a) (str_new (int_dec (n + delta)))))"
      have "(g', rs) = (if in_i64 (n + delta) then (wrote 1 (mem_reaccount a (put_val a ?w g1)), [RInt (n + delta)]) else (g1, [RErr MSG_OVERFLOW]))"
        using assms(3) l 3(1) Some ov[OF str2int_range[OF Some]] by (auto simp: incr_generic_def Let_def)
      then show ?thesis using store_ok[OF ok 3(2), of ?w 1] 3 Some nw by (auto split: if_splits)
    qed
  qed
qed

lemma do_incrbyfloat_ok:
  assumes "g_ok {} g" "fits v 1 g" "do_incrbyfloat ld_of ld_add ld_zero ld_str v cmd g = (g', rs)"
  defines "x \<equiv> live v g (cmd ! 1)"
  shows "g_ok {} g' \<and>
    (if wrong_type T_STR x then live v g' = live v g \<and> rs = [RErr MSG_WRONGTYPE]
     else case (if x = None then Some ld_zero else ld_of (cur_str x), ld_of (cmd ! 2)) of
            (Some c, Some d) \<Rightarrow>
              (case ld_add c d of
                 None \<Rightarrow> live v g' = live v g \<and> rs = [RErr ''ERR increment would produce NaN or infinity'']
               | Some y \<Rightarrow> live v g' = (live v g)(cmd ! 1 \<mapsto> (AStr (ld_str y), cur_dl x)) \<and> rs = [RStr (ld_str y)])
          | _ \<Rightarrow> live v g' = live v g \<and> rs = [RErr ''ERR value is not a valid float''])"
proof -
  obtain g1 r where l: "lookup_entry v (cmd ! 1) T_STR False False g = (g1, r)" by fastforce
  have cd: "card (dom (ents g1)) \<le> card (dom (ents g))"
    by (rule card_mono[OF g_okD(8)[OF assms(1)] lookup_ro_ok(6)[OF assms(1) l]])
  from assms(1) l show ?thesis
  proof (cases rule: lookup_str_ro)
    case 1
    obtain g2 r2 where l2: "lookup_entry v (cmd ! 1) T_STR True False g1 = (g2, r2)" by fastforce
    have room: "g_room g1" using fits_card[OF assms(2)] cd by (simp add: g_room_def)
    from 1(3) room l2 show ?thesis
    proof (cases rule: lookup_str_rw)
      case (2 a)
      have "g_ok {} (wrote 1 (mem_reaccount a (put_val a (VStr (fst (str_move (entry_str g2 a) (str_new s)))) g2))) \<and>
          live v (wrote 1 (mem_reaccount a (put_val a (VStr (fst (str_move (entry_str g2 a) (str_new s)))) g2))) =
            (live v g)(cmd ! 1 \<mapsto> (AStr s, None))" for s
        using store_ok[OF 2(3,2), of "VStr (fst (str_move (entry_str g2 a) (str_new s)))" 1] 2 1 by auto
      then show ?thesis using assms(3) l 1 l2 2(1)
        by (auto simp: do_incrbyfloat_def Let_def x_def split: option.splits)
    qed (use 1 in simp)
  next
    case 2
    then show ?thesis using assms(3) l by (auto simp: do_incrbyfloat_def x_def)
  next
    case (3 a)
    have nw: "\<not> wrong_type T_STR x" "x \<noteq> None" "cur_str x = chars (entry_str g1 a)" "cur_dl x = ttl_of (heap g1) a"
      using 3 by (simp_all add: x_def)
    have ok: "g_ok {a} g1" by (rule g_ok_mono[OF 3(4)]) simp
    have "g_ok {} (wrote 1 (mem_reaccount a (put_val a (VStr (fst (str_move (entry_str g1 a) (str_new s)))) g1))) \<and>
        live v (wrote 1 (mem_reaccount a (put_val a (VStr (fst (str_move (entry_str g1 a) (str_new s)))) g1))) =
          (live v g)(cmd ! 1 \<mapsto> (AStr s, cur_dl x))" for s
      using store_ok[OF ok 3(2), of "VStr (fst (str_move (entry_str g1 a) (str_new s)))" 1] 3 nw by auto
    then show ?thesis using assms(3) l 3(1,4,5) nw
      by (auto simp: do_incrbyfloat_def Let_def split: option.splits)
  qed
qed

section \<open>Several keys\<close>

fun kv_pairs :: "string list \<Rightarrow> (string \<times> string) list" where
  "kv_pairs (k # x # rest) = (k, x) # kv_pairs rest"
| "kv_pairs _ = []"

definition put_all :: "(string \<times> string) list \<Rightarrow> (string \<Rightarrow> ('s avalue \<times> u64 option) option) \<Rightarrow>
    string \<Rightarrow> ('s avalue \<times> u64 option) option" where
  "put_all kvs m = foldl (\<lambda>m (k, x). m(k \<mapsto> (AStr x, None))) m kvs"

lemma put_all_Cons [simp]: "put_all ((k, x) # kvs) m = put_all kvs (m(k \<mapsto> (AStr x, None)))" "put_all [] m = m"
  by (simp_all add: put_all_def)

lemma kv_pairs_len: "length (kv_pairs as) = length as div 2"
  by (induction as rule: kv_pairs.induct) auto

lemma mset_loop_ok:
  "g_ok {} g \<Longrightarrow> card (dom (ents g)) + length (kv_pairs as) \<le> 2 ^ 60 \<Longrightarrow>
   g_ok {} (mset_loop v as g) \<and> live v (mset_loop v as g) = put_all (kv_pairs as) (live v g)"
proof (induction v as g rule: mset_loop.induct)
  case (1 v k x rest g)
  obtain g1 r where l: "lookup_entry v k T_STR True True g = (g1, r)" by fastforce
  have room: "g_room g" using 1(3) by (simp add: g_room_def)
  from 1(2) room l show ?case
  proof (cases rule: lookup_str_rw)
    case (2 a)
    let ?g = "mem_reaccount a (set_ttl v a (- 1) (put_val a (VStr (str_new x)) g1))"
    note s = store_ttl_ok[OF 2(3,2) _ 2(5), of "VStr (str_new x)" "- 1"]
    have run: "mset_loop v (k # x # rest) g = mset_loop v rest ?g" using l 2(1) by simp
    have c: "card (dom (ents ?g)) + length (kv_pairs rest) \<le> 2 ^ 60" using 2(6) 1(3) by simp
    have lv: "live v ?g = (live v g)(k \<mapsto> (AStr x, None))" using s(2) 2(7) by simp
    show ?thesis using 1(1)[OF l[symmetric] refl, of ?g] s(1) c lv run 2(1) by (simp add: fun_upd_def)
  qed simp
qed auto

lemma do_mset_ok:
  assumes "g_ok {} g" "fits v (length cmd) g" "do_mset v cmd g = (g', rs)"
  shows "g_ok {} g' \<and>
    (if length cmd < 3 \<or> even (length cmd) then live v g' = live v g \<and> rs = [RErr MSG_MSET_ARGS]
     else live v g' = put_all (kv_pairs (tl cmd)) (live v g) \<and> rs = [ROk])"
proof -
  have c: "card (dom (ents g)) + length (kv_pairs (tl cmd)) \<le> 2 ^ 60"
    using fits_card[OF assms(2)] by (simp add: kv_pairs_len)
  show ?thesis using mset_loop_ok[OF assms(1) c, of v] assms(1,3) by (auto simp: do_mset_def)
qed

lemma msetnx_check_ok:
  "g_ok {} g \<Longrightarrow> msetnx_check v as g = (g', b) \<Longrightarrow>
   g_ok {} g' \<and> live v g' = live v g \<and> (b \<longleftrightarrow> (\<forall>k \<in> fst ` set (kv_pairs as). live v g k = None)) \<and>
   card (dom (ents g')) \<le> card (dom (ents g))"
proof (induction v as g arbitrary: g' b rule: msetnx_check.induct)
  case (1 v k x rest g)
  obtain g1 old where f: "find_live v k g = (g1, old)" by fastforce
  from 1(2) f show ?case
  proof (cases rule: find_str)
    case t: 1
    have "msetnx_check v rest g1 = (g', b)" using 1(3) f t(1) by simp
    from 1(1)[OF f[symmetric] refl _ t(3) this] t show ?thesis by simp
  next
    case (2 a)
    have "g' = g1" "\<not> b" using 1(3) f 2(1) by auto
    then show ?thesis using 2 by auto
  qed
qed auto

lemma msetnx_loop_ok:
  "g_ok {} g \<Longrightarrow> card (dom (ents g)) + length (kv_pairs as) \<le> 2 ^ 60 \<Longrightarrow>
   \<forall>k \<in> fst ` set (kv_pairs as). live v g k = None \<or> (\<exists>s. live v g k = Some (AStr s, None)) \<Longrightarrow>
   g_ok {} (msetnx_loop v as g) \<and> live v (msetnx_loop v as g) = put_all (kv_pairs as) (live v g)"
proof (induction v as g rule: msetnx_loop.induct)
  case (1 v k x rest g)
  obtain g1 r where l: "lookup_entry v k T_STR True False g = (g1, r)" by fastforce
  have room: "g_room g" using 1(3) by (simp add: g_room_def)
  have k: "\<not> wrong_type T_STR (live v g k)" "cur_dl (live v g k) = None" using 1(4) by auto
  from 1(2) room l show ?case
  proof (cases rule: lookup_str_rw)
    case (2 a)
    let ?g = "mem_reaccount a (put_val a (VStr (str_new x)) g1)"
    note s = store_ok[OF 2(3,2), of "VStr (str_new x)" 0]
    have w: "g_ok {} ?g" "live v ?g = (live v g)(k \<mapsto> (AStr x, None))" using s 2(7,8) k by auto
    have run: "msetnx_loop v (k # x # rest) g = msetnx_loop v rest ?g" using l 2(1) by simp
    have c: "card (dom (ents ?g)) + length (kv_pairs rest) \<le> 2 ^ 60" using 2(6) 1(3) by simp
    have h: "\<forall>j \<in> fst ` set (kv_pairs rest). live v ?g j = None \<or> (\<exists>s. live v ?g j = Some (AStr s, None))"
      using 1(4) unfolding w(2) by auto
    show ?thesis using 1(1)[OF l[symmetric] refl, of ?g] w c h run 2(1) by (simp add: fun_upd_def)
  qed (use k in simp)
qed auto

lemma do_msetnx_ok:
  assumes "g_ok {} g" "fits v (length cmd) g" "do_msetnx v cmd g = (g', rs)"
  shows "g_ok {} g' \<and>
    (if length cmd < 3 \<or> even (length cmd) then live v g' = live v g \<and> rs = [RErr MSG_MSET_ARGS]
     else if \<forall>k \<in> fst ` set (kv_pairs (tl cmd)). live v g k = None
     then live v g' = put_all (kv_pairs (tl cmd)) (live v g) \<and> rs = [RInt 1]
     else live v g' = live v g \<and> rs = [RInt 0])"
proof -
  obtain g1 b where m: "msetnx_check v (tl cmd) g = (g1, b)" by fastforce
  note ch = msetnx_check_ok[OF assms(1) m]
  have c: "card (dom (ents g1)) + length (kv_pairs (tl cmd)) \<le> 2 ^ 60"
    using fits_card[OF assms(2)] conjunct2[OF conjunct2[OF conjunct2[OF ch]]] by (simp add: kv_pairs_len)
  show ?thesis
  proof (cases "length cmd < 3 \<or> even (length cmd) \<or> \<not> b")
    case True
    have "(g', rs) = (if length cmd < 3 \<or> even (length cmd) then (g, [RErr MSG_MSET_ARGS]) else (g1, [RInt 0]))"
      using assms(3) m True by (auto simp: do_msetnx_def)
    then show ?thesis using assms(1) ch True by (auto split: if_splits)
  next
    case False
    have "g' = wrote ((length cmd - 1) div 2) (msetnx_loop v (tl cmd) g1)" "rs = [RInt 1]"
      using assms(3) m False by (auto simp: do_msetnx_def)
    then show ?thesis using msetnx_loop_ok[OF _ c, of v] ch False by auto
  qed
qed

section \<open>SET\<close>

text \<open>A deadline kept by \<open>KEEPTTL\<close>: the remaining time passes through a signed 64-bit integer.\<close>

definition keep_dl :: "env \<Rightarrow> u64 option \<Rightarrow> u64 option" where
  "keep_dl v d = (case d of None \<Rightarrow> None | Some x \<Rightarrow> dl_in v (sint (x - mono v)))"

text \<open>\<open>SET\<close> on the abstract key space.\<close>

definition set_spec :: "env \<Rightarrow> string list \<Rightarrow> (string \<Rightarrow> ('s avalue \<times> u64 option) option) \<Rightarrow>
    (string \<Rightarrow> ('s avalue \<times> u64 option) option) \<times> 's reply list" where
  "set_spec v cmd m =
     (let k = cmd ! 1; x = m k
      in if length cmd = 3 then (m(k \<mapsto> (AStr (cmd ! 2), None)), [ROk])
         else case parse_set_opts v cmd of
                Inl e \<Rightarrow> (m, [RErr e])
              | Inr op \<Rightarrow>
                  if o_get op \<and> wrong_type T_STR x then (m, [RErr MSG_WRONGTYPE])
                  else
                    let reply = (if o_get op then str_case x [RNil] [] (\<lambda>s. [RStr s]) else [ROk]);
                        ttl = i64 (o_abs_ms op - sint (wall v))
                    in if o_nx op \<and> x \<noteq> None \<or> o_xx op \<and> x = None then (m, if o_get op then reply else [RNil])
                       else if o_has_exp op \<and> ttl \<le> 0 then (m(k := None), reply)
                       else (live_put v m k (AStr (cmd ! 2))
                               (if o_has_exp op then dl_in v ttl else if o_keepttl op then keep_dl v (cur_dl x) else None), reply))"

lemma do_set_ok:
  assumes ok: "g_ok {} (g :: ('s :: linorder) gdata)" and fits: "fits v 1 g" and run: "do_set v cmd g = (g', rs)"
  shows "g_ok {} g' \<and> set_spec v cmd (live v g) = (live v g', rs)"
proof (cases "length cmd = 3")
  case True
  have room: "g_room g" using fits_room[OF fits] by simp
  obtain g1 r where l: "lookup_entry v (cmd ! 1) T_STR True True g = (g1, r)" by fastforce
  from ok room l show ?thesis
    by (rule set_over_ok[where y = "cmd ! 2" and t = "- 1"]) (use run l True in \<open>auto simp: do_set_def set_spec_def Let_def\<close>)
next
  case len: False
  show ?thesis
  proof (cases "parse_set_opts v cmd")
    case (Inl e)
    then show ?thesis using ok run len by (auto simp: do_set_def set_spec_def Let_def)
  next
    case (Inr op)
    let ?k = "cmd ! 1" and ?ttl = "i64 (o_abs_ms op - sint (wall v))"
    let ?x = "live v g ?k"
    obtain g1 old where f: "find_live v ?k g = (g1, old)" by fastforce
    obtain g2 r where l: "lookup_entry v ?k T_STR True True g1 = (g2, r)" by fastforce
    define reply :: "'s reply list" where "reply = (if o_get op then (case old of None \<Rightarrow> [RNil] | Some a \<Rightarrow> [RStr (chars (entry_str g1 a))]) else [ROk])"
    define keep where "keep = (case old of None \<Rightarrow> - 1
       | Some a \<Rightarrow> if o_keepttl op \<and> entry_has_ttl (heap g1) a
            then (if mono v < heap_val g1 a then sint (heap_val g1 a - mono v) else 0) else - 1)"
    define t where "t = (if o_has_exp op then ?ttl else if o_keepttl op then keep else - 1)"
    have body: "(g', rs) = (if o_get op \<and> (\<exists>a \<in> set_option old. type_at g1 a \<noteq> T_STR) then (g1, [RErr MSG_WRONGTYPE])
       else if o_nx op \<and> old \<noteq> None \<or> o_xx op \<and> old = None then (g1, if o_get op then reply else [RNil])
       else if o_has_exp op \<and> ?ttl \<le> 0 then ((case old of None \<Rightarrow> g1 | Some a \<Rightarrow> wrote 1 (drop_entry v a g1)), reply)
       else case r of LOk a \<Rightarrow> (set_tail v a (cmd ! 2) t g2, reply) | _ \<Rightarrow> (g2, [RErr MSG_WRONGTYPE]))"
      unfolding run[symmetric] do_set_def f Inr l Let_def prod.case sum.case keep_def[symmetric] t_def[symmetric] reply_def[symmetric]
      using len by simp
    have spec: "set_spec v cmd (live v g) = (if o_get op \<and> wrong_type T_STR ?x then (live v g, [RErr MSG_WRONGTYPE])
       else if o_nx op \<and> ?x \<noteq> None \<or> o_xx op \<and> ?x = None
         then (live v g, if o_get op then (if o_get op then str_case ?x [RNil] [] (\<lambda>s. [RStr s]) else [ROk]) else [RNil])
       else if o_has_exp op \<and> ?ttl \<le> 0 then ((live v g)(?k := None), if o_get op then str_case ?x [RNil] [] (\<lambda>s. [RStr s]) else [ROk])
       else (live_put v (live v g) ?k (AStr (cmd ! 2))
              (if o_has_exp op then dl_in v ?ttl else if o_keepttl op then keep_dl v (cur_dl ?x) else None),
             if o_get op then str_case ?x [RNil] [] (\<lambda>s. [RStr s]) else [ROk]))"
      unfolding set_spec_def Inr Let_def sum.case using len by simp
    have fin: "card (dom (ents g1)) \<le> card (dom (ents g))"
      by (rule card_mono[OF g_okD(8)[OF ok] find_live_ok(5)[OF ok f]])
    have room: "g_room g1" using fits_card[OF fits] fin by (simp add: g_room_def)
    have w: "\<exists>a. r = LOk a \<and> g_ok {} (set_tail v a (cmd ! 2) t g2) \<and>
        live v (set_tail v a (cmd ! 2) t g2) = live_put v (live v g) ?k (AStr (cmd ! 2)) (dl_in v t)"
      using find_live_ok(1,2)[OF ok f] room l by (metis set_over_ok)
    show ?thesis using ok f
    proof (cases rule: find_str)
      case 1
      have "dl_in v t = (if o_has_exp op then dl_in v ?ttl else if o_keepttl op then keep_dl v (cur_dl ?x) else None)"
        using 1 by (simp add: t_def keep_def keep_dl_def)
      then show ?thesis using body w 1 unfolding spec by (auto simp: reply_def fun_upd_idem split: if_splits)
    next
      case (2 a)
      have ok1: "g_ok {a} g1" by (rule g_ok_mono[OF 2(3)]) simp
      have ne: "\<not> expired v g1 a" using 2(2) by (simp add: at_def)
      have kp: "keep_dl v (cur_dl ?x) = dl_in v keep" if "o_keepttl op"
      proof (cases "entry_has_ttl (heap g1) a")
        case True
        have h: "ttl_of (heap g1) a = Some (heap_val g1 a)"
          using heap_inv_deadline[OF g_okD(3)[OF 2(3)] True] by (simp add: heap_val_def)
        then have "mono v < heap_val g1 a" using ne by (auto simp: expired_def)
        then show ?thesis using that 2(1,6) h True by (simp add: keep_def keep_dl_def)
      next
        case False
        then have "ttl_of (heap g1) a = None" using heap_inv_has_ttl[OF g_okD(3)[OF 2(3)], of a] by simp
        then show ?thesis using that 2(1,6) False by (simp add: keep_def keep_dl_def)
      qed
      then have dl: "dl_in v t = (if o_has_exp op then dl_in v ?ttl else if o_keepttl op then keep_dl v (cur_dl ?x) else None)"
        by (simp add: t_def)
      have rp: "reply = (if o_get op then str_case ?x [RNil] [] (\<lambda>s. [RStr s]) else [ROk])"
        if "\<not> (o_get op \<and> wrong_type T_STR ?x)"
      proof (cases "o_get op")
        case True
        then have "type_at g1 a = T_STR" using that 2(7) by simp
        then show ?thesis using 2(1,6) str_at[of g1 a] True by (simp add: reply_def)
      qed (simp add: reply_def)
      show ?thesis
      proof (cases "o_get op \<and> wrong_type T_STR ?x")
        case True
        then show ?thesis using body 2 unfolding spec by simp
      next
        case False
        have "\<not> (o_get op \<and> (\<exists>a \<in> set_option old. type_at g1 a \<noteq> T_STR))" using False 2(1,7) by simp
        then show ?thesis
          using body w rp[OF False] dl drop_ok[OF ok1 2(2)] 2(1,3,4,6) False unfolding spec
          by (auto split: if_splits)
      qed
    qed
  qed
qed

section \<open>Properties\<close>

text \<open>
  C13. \<open>SET\<close> with every combination of its options does on the key space what \<open>set_spec\<close> says of the map from
  live keys to values and deadlines, with the same reply, and leaves a consistent state: the main table,
  the expiry heap and the memory account agree again.
\<close>

theorem do_set_refines:
  assumes "g_ok {} g" and "fits v 1 g"
  shows "g_ok {} (fst (do_set v cmd g)) \<and>
    set_spec v cmd (live v g) = (live v (fst (do_set v cmd g)), snd (do_set v cmd g))"
  using do_set_ok[OF assms prod.collapse[symmetric]] .

theorem do_set_refines_witness:
  "g_ok {} (gdata_init :: nat gdata) \<and> fits env_start 1 (gdata_init :: nat gdata) \<and>
   set_spec env_start [''set'', ''k'', ''x'', ''PX'', ''500'', ''NX''] Map.empty =
     ((\<lambda>j. if j = ''k'' then Some (AStr ''x'', Some 1500) else None),
      snd (do_set env_start [''set'', ''k'', ''x'', ''PX'', ''500'', ''NX''] (gdata_init :: nat gdata)))"
proof -
  let ?cmd = "[''set'', ''k'', ''x'', ''PX'', ''500'', ''NX'']"
  have f: "fits env_start 1 (gdata_init :: nat gdata)" by simp
  have p: "parse_set_opts env_start ?cmd = Inr \<lparr>o_nx = True, o_xx = False, o_get = False, o_keepttl = False,
      o_has_exp = True, o_abs_ms = 1500\<rparr>"
    by (simp add: parse_set_opts_def arg_ieq_def unit_opt_def EXPIRY_def str2int_def env_start_def char_eval)
  have "set_spec env_start ?cmd (Map.empty :: string \<Rightarrow> (nat avalue \<times> u64 option) option) =
      ((\<lambda>j. if j = ''k'' then Some (AStr ''x'', Some 1500) else None), [ROk])"
    unfolding set_spec_def Let_def p sum.case
    by (simp add: live_put_def gone_def dl_in_def env_start_def i64_def fun_eq_iff)
  then show ?thesis using do_set_refines[OF gdata_init_ok f, of ?cmd] by simp
qed

text \<open>
  C15. \<open>MSETNX\<close> writes all its pairs or none: when every key is absent, the pairs are stored in order without
  deadlines and the reply is 1; when one of them is live, no key changes and the reply is 0.
\<close>

theorem do_msetnx_atomic:
  assumes "g_ok {} g" and "fits v (length cmd) g" and "3 \<le> length cmd" and "odd (length cmd)"
  shows "g_ok {} (fst (do_msetnx v cmd g)) \<and>
    (live v (fst (do_msetnx v cmd g)), snd (do_msetnx v cmd g)) =
      (if \<exists>k \<in> set (map fst (kv_pairs (tl cmd))). live v g k \<noteq> None then (live v g, [RInt 0])
       else (put_all (kv_pairs (tl cmd)) (live v g), [RInt 1]))"
  using do_msetnx_ok[OF assms(1,2) prod.collapse[symmetric]] assms(3,4) by (auto simp: not_less split: if_splits)

theorem do_msetnx_atomic_witness:
  "g_ok {} (gdata_init :: nat gdata) \<and> fits env_start 5 (gdata_init :: nat gdata) \<and>
   live env_start (fst (do_msetnx env_start [''msetnx'', ''a'', ''1'', ''b'', ''2''] (gdata_init :: nat gdata))) =
     [''a'' \<mapsto> (AStr ''1'', None), ''b'' \<mapsto> (AStr ''2'', None)] \<and>
   snd (do_msetnx env_start [''msetnx'', ''a'', ''1'', ''b'', ''2''] (gdata_init :: nat gdata)) = [RInt 1]"
  using do_msetnx_atomic[of "gdata_init :: nat gdata" env_start "[''msetnx'', ''a'', ''1'', ''b'', ''2'']"] by simp

text \<open>The integer commands on the abstract key space.\<close>

definition incr_spec :: "int \<Rightarrow> string \<Rightarrow> (string \<Rightarrow> ('s avalue \<times> u64 option) option) \<Rightarrow>
    (string \<Rightarrow> ('s avalue \<times> u64 option) option) \<times> 's reply list" where
  "incr_spec delta k m =
     (if wrong_type T_STR (m k) then (m, [RErr MSG_WRONGTYPE])
      else case (if m k = None then Some 0 else str2int (cur_str (m k))) of
             None \<Rightarrow> (m, [RErr MSG_NOT_INT])
           | Some n \<Rightarrow>
               if in_i64 (n + delta) then (m(k \<mapsto> (AStr (int_dec (n + delta)), cur_dl (m k))), [RInt (n + delta)])
               else (m, [RErr MSG_OVERFLOW]))"

text \<open>
  C14. The integer commands never wrap: on a string that is a decimal 64-bit integer the handler either
  stores the exact sum in decimal under the old deadline and returns it, or, when the sum does not fit
  64 bits, refuses and leaves the key space as it was. A missing key counts as 0; other strings and
  other types are refused.
\<close>

theorem incr_exact:
  assumes "g_ok {} g" and "fits v 1 g" and "in_i64 delta"
  shows "g_ok {} (fst (incr_generic delta v cmd g)) \<and>
    incr_spec delta (cmd ! 1) (live v g) = (live v (fst (incr_generic delta v cmd g)), snd (incr_generic delta v cmd g))"
  using incr_generic_ok[OF assms(1,2) prod.collapse[symmetric] assms(3), of cmd]
  by (auto simp: incr_spec_def split: option.splits if_splits)

theorem incr_exact_witness:
  "g_ok {} (gdata_init :: nat gdata) \<and> fits env_start 1 (gdata_init :: nat gdata) \<and> in_i64 (- 7) \<and>
   live env_start (fst (incr_generic (- 7) env_start [''decrby'', ''n'', ''7''] (gdata_init :: nat gdata))) =
     [''n'' \<mapsto> (AStr ''-7'', None)]"
proof -
  have d: "in_i64 (- 7)" by (simp add: in_i64_def INT64_MAX_def INT64_MIN_def)
  have i: "int_dec (- 7) = ''-7''" by (simp add: char_eval)
  have "incr_spec (- 7) ''n'' (Map.empty :: string \<Rightarrow> (nat avalue \<times> u64 option) option) = ([''n'' \<mapsto> (AStr ''-7'', None)], [RInt (- 7)])"
    using d i by (simp add: incr_spec_def)
  then show ?thesis using incr_exact[of "gdata_init :: nat gdata" env_start "- 7" "[''decrby'', ''n'', ''7'']"] d by simp
qed

text \<open>
  C17. \<open>SETEX\<close> and \<open>PSETEX\<close> on every branch: a time that is not a positive number is refused and changes nothing;
  a time whose milliseconds fit 64 bits stores the value under the key, whatever was there, with exactly that deadline; a
  larger one is undefined behaviour, the product not being checked. So \<open>PSETEX\<close> always has a result, \<open>SETEX\<close> has none
  exactly for more than \<open>INT64_MAX / 1000\<close> seconds, and \<open>SET ... EX\<close> refuses those with an error.
\<close>

theorem setex_exact:
  assumes "g_ok {} (g :: ('s :: linorder) gdata)" "fits v 1 g"
  shows "rel_option (\<lambda>(g', rs) (m, qs). g_ok {} g' \<and> live v g' = m \<and> rs = qs)
      (do_setex v cmd g) (setex_spec 1000 v cmd (live v g)) \<and>
    rel_option (\<lambda>(g', rs) (m, qs). g_ok {} g' \<and> live v g' = m \<and> rs = qs)
      (do_psetex v cmd g) (setex_spec 1 v cmd (live v g)) \<and>
    do_psetex v cmd g \<noteq> None \<and>
    (do_setex v cmd g = None \<longleftrightarrow> (\<exists>n. str2int (cmd ! 2) = Some n \<and> INT64_MAX div 1000 < n)) \<and>
    (do_setex v cmd g = None \<longrightarrow>
       do_set v [c, cmd ! 1, cmd ! 3, ''EX'', cmd ! 2] g = (g, [RErr ''ERR invalid expire time in 'set' command'']))"
proof -
  note s = setex_generic_ok[OF assms, of 1000 cmd] and p = setex_generic_ok[OF assms, of 1 cmd]
  have i: "in_i64 n" if "str2int (cmd ! 2) = Some n" for n using that by (simp add: str2int_iff)
  have "setex_spec 1 v cmd (live v g) \<noteq> None" using i by (auto simp: setex_spec_def split: option.splits)
  then have pn: "setex_generic 1 v cmd g \<noteq> None" using p by (auto simp: option_rel_Some2)
  have "setex_spec 1000 v cmd (live v g) = None \<longleftrightarrow> (\<exists>n. str2int (cmd ! 2) = Some n \<and> INT64_MAX div 1000 < n)"
    by (auto simp: setex_spec_def in_i64_def INT64_MAX_def INT64_MIN_def split: option.splits)
  moreover have "setex_generic 1000 v cmd g = None \<longleftrightarrow> setex_spec 1000 v cmd (live v g) = None"
    using s by (auto elim: option.rel_cases)
  ultimately have sn: "setex_generic 1000 v cmd g = None \<longleftrightarrow> (\<exists>n. str2int (cmd ! 2) = Some n \<and> INT64_MAX div 1000 < n)" by simp
  have "do_set v [c, cmd ! 1, cmd ! 3, ''EX'', cmd ! 2] g = (g, [RErr ''ERR invalid expire time in 'set' command''])"
    if "str2int (cmd ! 2) = Some n" "INT64_MAX div 1000 < n" for n
    using that by (simp add: do_set_def parse_set_opts_def arg_ieq_def unit_opt_def EXPIRY_def char_eval)
  then show ?thesis using s p pn sn unfolding do_setex_def do_psetex_def by blast
qed

theorem setex_exact_witness:
  "g_ok {} (gdata_init :: nat gdata) \<and> fits env_start 1 (gdata_init :: nat gdata) \<and>
   (\<exists>g'. do_setex env_start [''setex'', ''k'', ''10'', ''x''] (gdata_init :: nat gdata) = Some (g', [ROk]) \<and>
      live env_start g' = [''k'' \<mapsto> (AStr ''x'', Some 11000)]) \<and>
   do_setex env_start [''setex'', ''k'', ''9223372036854776'', ''x''] (gdata_init :: nat gdata) = None"
proof -
  let ?cmd = "[''setex'', ''k'', ''10'', ''x'']" and ?big = "[''setex'', ''k'', ''9223372036854776'', ''x'']"
  have n: "str2int ''10'' = Some 10" "str2int ''9223372036854776'' = Some 9223372036854776" by (simp_all add: str2int_def char_eval)
  have "setex_spec 1000 env_start ?cmd (Map.empty :: string \<Rightarrow> (nat avalue \<times> u64 option) option) = Some ([''k'' \<mapsto> (AStr ''x'', Some 11000)], [ROk])"
    using n by (simp add: setex_spec_def in_i64_def INT64_MAX_def INT64_MIN_def live_put_def gone_def dl_in_def env_start_def)
  then show ?thesis
    using setex_exact[of "gdata_init :: nat gdata" env_start ?cmd] setex_exact[of "gdata_init :: nat gdata" env_start ?big] n
    by (auto simp: option_rel_Some2 INT64_MAX_def)
qed

section \<open>A state with one key\<close>

definition g_one :: "'s gdata" where
  "g_one = fst (do_set env_start [''set'', ''a'', ''1''] gdata_init)"

lemma g_one_ok: "g_ok {} (g_one :: ('s :: linorder) gdata)" "live env_start (g_one :: 's gdata) = [''a'' \<mapsto> (AStr ''1'', None)]"
  "n < 2 ^ 32 \<Longrightarrow> fits env_start n (g_one :: 's gdata)"
proof -
  let ?cmd = "[''set'', ''a'', ''1'']" and ?g = "gdata_init :: 's gdata"
  have f: "fits env_start 1 ?g" by simp
  have r: "do_set env_start ?cmd ?g = (g_one, snd (do_set env_start ?cmd ?g))" by (simp add: g_one_def)
  note s = do_set_ok[OF gdata_init_ok f r]
  show "g_ok {} (g_one :: 's gdata)" using s by simp
  show l: "live env_start (g_one :: 's gdata) = [''a'' \<mapsto> (AStr ''1'', None)]"
    using s by (simp add: set_spec_def Let_def)
  have e: "ents ?g = Map.empty" by (simp add: gdata_init_def)
  obtain g1 q where lk: "lookup_entry env_start ''a'' T_STR True True ?g = (g1, q)" by fastforce
  have "g_room ?g" using fits_room[OF f] by simp
  from gdata_init_ok this lk have "card (dom (ents (g_one :: 's gdata))) \<le> 1"
    by (cases rule: lookup_str_rw) (auto simp: g_one_def do_set_def lk set_tail_def wrote_def e)
  then show "fits env_start n (g_one :: 's gdata)" if "n < 2 ^ 32" using that by (auto simp: fits_def l)
qed

end
