(* ===== verification/Glob.thy ===== *)
theory Glob
  imports Prelude "HOL-Library.While_Combinator"
begin

text \<open>
  The glob matcher of \<open>commands/commands.cpp\<close>, used by \<open>KEYS\<close>, the scans, the access lists and the pattern
  subscriptions: its loop with one backtracking point, against the usual recursive meaning of a pattern.
\<close>

section \<open>Model\<close>

text \<open>
  The inside of \<open>[...]\<close> after the optional \<open>^\<close>: whether the byte \<open>c\<close> is in the set, and the pattern after the
  closing bracket. Ranges compare plain \<open>char\<close>s, which are signed.
\<close>

definition in_range :: "char \<Rightarrow> char \<Rightarrow> char \<Rightarrow> bool" where
  "in_range lo hi c \<longleftrightarrow>
     (let (lo, hi) = (if schar hi < schar lo then (hi, lo) else (lo, hi)) in schar lo \<le> schar c \<and> schar c \<le> schar hi)"

text \<open>One item of the set, after its first byte \<open>x\<close>: an escaped byte, a range, or the byte itself.\<close>

definition class_item :: "char \<Rightarrow> string \<Rightarrow> (char \<Rightarrow> bool) \<times> string" where
  "class_item x cp =
     (if x = CHR 0x5C \<and> 1 \<le> length cp then (\<lambda>c. cp ! 0 = c, drop 1 cp)
      else if 2 \<le> length cp \<and> cp ! 0 = CHR ''-'' \<and> cp ! 1 \<noteq> CHR '']'' then (in_range x (cp ! 1), drop 2 cp)
      else (\<lambda>c. x = c, cp))"

function glob_class :: "char \<Rightarrow> bool \<Rightarrow> string \<Rightarrow> bool \<times> string" where
  "glob_class c hit [] = (hit, [])"
| "glob_class c hit (x # cp) =
     (if x = CHR '']'' then (hit, cp)
      else let (m, cp') = class_item x cp in glob_class c (hit \<or> m c) cp')"
  by pat_completeness auto
termination
  by (relation "measure (\<lambda>(c, hit, p). length p)") (auto simp: class_item_def split: if_splits)

text \<open>The \<open>switch\<close> on a non-empty pattern that does not start with a star: \<open>matched\<close> and the pattern left.\<close>

definition glob_one :: "string \<Rightarrow> char \<Rightarrow> bool \<times> string" where
  "glob_one p c =
     (case p of
        [] \<Rightarrow> (False, [])
      | x # p' \<Rightarrow>
          if x = CHR ''?'' then (True, p')
          else if x = CHR ''['' then
            (let negate = (p' \<noteq> [] \<and> hd p' = CHR ''^'');
                 (hit, rest) = glob_class c False (if negate then tl p' else p')
             in (if negate then \<not> hit else hit, rest))
          else if x = CHR 0x5C then (case p' of [] \<Rightarrow> (False, p') | y # p'' \<Rightarrow> (y = c, p''))
          else (x = c, p'))"

text \<open>
  The variables of the loop: the pattern and the string left, and the saved pair \<open>bp\<close>, \<open>bs\<close>. \<open>G_Outside\<close> is
  the state in which \<open>bslen\<close> was decremented at 0: the length wraps to the largest \<open>size_t\<close> and the loop goes
  on behind the end of the string, where nothing is known of the bytes it reads.
\<close>

datatype glob_state =
  G_Run string string "(string \<times> string) option"
| G_Done bool
| G_Outside

definition glob_retry :: "(string \<times> string) option \<Rightarrow> glob_state" where
  "glob_retry b =
     (case b of
        None \<Rightarrow> G_Done False
      | Some (bp, []) \<Rightarrow> G_Outside
      | Some (bp, _ # bs) \<Rightarrow> G_Run bp bs (Some (bp, bs)))"

text \<open>One pass of \<open>while (true)\<close>; \<open>glob_try\<close> is the part after the stars.\<close>

definition glob_try :: "string \<Rightarrow> string \<Rightarrow> (string \<times> string) option \<Rightarrow> glob_state" where
  "glob_try p s b =
     (if p = [] \<and> s = [] then G_Done True
      else if p = [] \<or> s = [] then glob_retry b
      else let (matched, rest) = glob_one p (hd s)
           in if matched then G_Run rest (tl s) b else glob_retry b)"

fun glob_step :: "glob_state \<Rightarrow> glob_state" where
  "glob_step (G_Run p s b) =
     (if p \<noteq> [] \<and> hd p = CHR ''*'' then
        (let q = dropWhile (\<lambda>x. x = CHR ''*'') p
         in if q = [] then G_Done True else glob_try q s (Some (q, s)))
      else glob_try p s b)"
| "glob_step st = st"

fun running :: "glob_state \<Rightarrow> bool" where
  "running (G_Run p s b) \<longleftrightarrow> True"
| "running st \<longleftrightarrow> False"

text \<open>The result, or \<open>None\<close> when the loop leaves the string.\<close>

definition glob_match :: "string \<Rightarrow> string \<Rightarrow> bool option" where
  "glob_match p s =
     (case while_option running glob_step (G_Run p s None) of
        Some (G_Done b) \<Rightarrow> Some b
      | _ \<Rightarrow> None)"

section \<open>The meaning of a pattern\<close>

text \<open>The pattern left by \<open>glob_one\<close> does not depend on the byte.\<close>

definition glob_rest :: "string \<Rightarrow> string" where
  "glob_rest p = snd (glob_one p (CHR ''x''))"

definition glob_hit :: "string \<Rightarrow> char \<Rightarrow> bool" where
  "glob_hit p c = fst (glob_one p c)"

definition starred :: "string \<Rightarrow> bool" where
  "starred p \<longleftrightarrow> p \<noteq> [] \<and> hd p = CHR ''*''"

lemma glob_class_rest: "snd (glob_class c h p) = snd (glob_class d k p)"
proof (induction p arbitrary: c h d k rule: length_induct)
  case (1 p)
  show ?case
  proof (cases p)
    case (Cons x cp)
    obtain m r where i: "class_item x cp = (m, r)" by fastforce
    have "length r < length p" using i Cons by (auto simp: class_item_def split: if_splits)
    then have "snd (glob_class c (h \<or> m c) r) = snd (glob_class d (k \<or> m d) r)" using 1 by blast
    then show ?thesis using Cons i by simp
  qed simp
qed

lemma glob_class_shorter: "length (snd (glob_class c h p)) \<le> length p"
proof (induction c h p rule: glob_class.induct)
  case (2 c hit x cp)
  obtain m r where i: "class_item x cp = (m, r)" by fastforce
  then have "length r \<le> length cp" by (auto simp: class_item_def split: if_splits)
  then show ?case using 2[OF _ i[symmetric] refl] i by auto
qed simp

declare glob_class.simps [simp del]

lemma glob_one_split: "glob_one p c = (glob_hit p c, glob_rest p)"
proof -
  have "snd (glob_one p c) = glob_rest p"
    unfolding glob_rest_def glob_one_def Let_def case_prod_beta
    by (cases p) (auto split: list.splits intro: glob_class_rest)
  then show ?thesis by (simp add: glob_hit_def prod_eq_iff)
qed

lemma glob_rest_shorter: "p \<noteq> [] \<Longrightarrow> length (glob_rest p) < length p"
proof (cases p)
  case (Cons x q)
  have "length (snd (glob_class c h q)) \<le> length q" "length (snd (glob_class c h (tl q))) \<le> length q" for c h
    using glob_class_shorter[of c h q] glob_class_shorter[of c h "tl q"] by simp_all
  then show ?thesis using Cons unfolding glob_rest_def glob_one_def Let_def case_prod_beta
    by (auto simp: less_Suc_eq_le split: list.splits)
qed simp

function glob_spec :: "string \<Rightarrow> string \<Rightarrow> bool" where
  "glob_spec p s =
     (if p = [] then s = []
      else if starred p then (if s = [] then glob_spec (tl p) s else glob_spec (tl p) s \<or> glob_spec p (tl s))
      else if s = [] then False
      else glob_hit p (hd s) \<and> glob_spec (glob_rest p) (tl s))"
  by auto
termination
  by (relation "measure (\<lambda>(p, s). length p + length s)") (auto simp: add_less_le_mono glob_rest_shorter)

declare glob_spec.simps [simp del]

lemma glob_spec_Nil [simp]: "glob_spec [] s \<longleftrightarrow> s = []"
  by (simp add: glob_spec.simps)

lemma glob_spec_star: "starred p \<Longrightarrow> glob_spec p s \<longleftrightarrow> glob_spec (tl p) s \<or> s \<noteq> [] \<and> glob_spec p (tl s)"
  by (subst glob_spec.simps) (auto simp: starred_def)

lemma glob_spec_one:
  "p \<noteq> [] \<Longrightarrow> \<not> starred p \<Longrightarrow> glob_spec p s \<longleftrightarrow> s \<noteq> [] \<and> glob_hit p (hd s) \<and> glob_spec (glob_rest p) (tl s)"
  by (subst glob_spec.simps) simp

text \<open>A star is satisfied by the string exactly when the rest of the pattern is satisfied by one of its ends.\<close>

lemma ex_le_Suc: "(\<exists>n \<le> Suc k. Q n) \<longleftrightarrow> Q 0 \<or> (\<exists>n \<le> k. Q (Suc n))"
proof
  assume "\<exists>n \<le> Suc k. Q n"
  then obtain n where "n \<le> Suc k" "Q n" by blast
  then show "Q 0 \<or> (\<exists>n \<le> k. Q (Suc n))" by (cases n) auto
qed auto

lemma glob_spec_star_suffix: "starred p \<Longrightarrow> glob_spec p s \<longleftrightarrow> (\<exists>n \<le> length s. glob_spec (tl p) (drop n s))"
proof (induction s)
  case Nil
  then show ?case using glob_spec_star[of p "[]"] by auto
next
  case (Cons c s)
  have "(\<exists>n \<le> length (c # s). glob_spec (tl p) (drop n (c # s))) \<longleftrightarrow>
      glob_spec (tl p) (c # s) \<or> (\<exists>n \<le> length s. glob_spec (tl p) (drop n s))"
    using ex_le_Suc[of "length s" "\<lambda>n. glob_spec (tl p) (drop n (c # s))"] by simp
  then show ?case using Cons(1)[OF Cons(2)] glob_spec_star[OF Cons(2), of "c # s"] by simp
qed

lemma ex_drop_drop: "(\<exists>n \<le> length s. \<exists>m \<le> length s - n. Q (drop m (drop n s))) \<longleftrightarrow> (\<exists>n \<le> length s. Q (drop n s))"
proof
  assume "\<exists>n \<le> length s. \<exists>m \<le> length s - n. Q (drop m (drop n s))"
  then obtain n m where "n \<le> length s" "m \<le> length s - n" "Q (drop (m + n) s)" by auto
  moreover have "m + n \<le> length s" using calculation by linarith
  ultimately show "\<exists>n \<le> length s. Q (drop n s)" by blast
next
  assume "\<exists>n \<le> length s. Q (drop n s)"
  then show "\<exists>n \<le> length s. \<exists>m \<le> length s - n. Q (drop m (drop n s))" by (intro exI[of _ 0]) auto
qed

lemma glob_spec_star_more: "starred p \<Longrightarrow> n \<le> length s \<Longrightarrow> glob_spec p (drop n s) \<Longrightarrow> glob_spec p s"
  using glob_spec_star_suffix[of p s] glob_spec_star_suffix[of p "drop n s"] ex_drop_drop[of s "glob_spec (tl p)"] by auto

lemma glob_stars: "starred p \<Longrightarrow> q = dropWhile (\<lambda>x. x = CHR ''*'') p \<Longrightarrow> glob_spec p s \<longleftrightarrow> (\<exists>n \<le> length s. glob_spec q (drop n s))"
proof (induction p arbitrary: s)
  case (Cons x p)
  have x: "x = CHR ''*''" using Cons(2) by (simp add: starred_def)
  show ?case
  proof (cases "starred p")
    case True
    have q: "q = dropWhile (\<lambda>x. x = CHR ''*'') p" using Cons(3) x by simp
    have "glob_spec (x # p) s \<longleftrightarrow> (\<exists>n \<le> length s. \<exists>m \<le> length s - n. glob_spec q (drop m (drop n s)))"
      using glob_spec_star_suffix[OF Cons(2), of s] Cons(1)[OF True q] by simp
    also have "\<dots> \<longleftrightarrow> (\<exists>n \<le> length s. glob_spec q (drop n s))"
      by (rule ex_drop_drop)
    finally show ?thesis .
  next
    case False
    have "q = p" using Cons(3) x False by (cases p) (auto simp: starred_def)
    then show ?thesis using glob_spec_star_suffix[OF Cons(2)] by simp
  qed
qed (simp add: starred_def)

section \<open>Correctness of the loop\<close>

text \<open>\<open>segment n bp p\<close>: the loop goes from the pattern \<open>bp\<close> to \<open>p\<close> over \<open>n\<close> bytes without meeting a star.\<close>

inductive segment :: "nat \<Rightarrow> string \<Rightarrow> string \<Rightarrow> bool" where
  segment_0: "segment 0 p p"
| segment_Suc: "segment n bp p \<Longrightarrow> p \<noteq> [] \<Longrightarrow> \<not> starred p \<Longrightarrow> segment (Suc n) bp (glob_rest p)"

lemma segment_spec: "segment n bp p \<Longrightarrow> glob_spec bp t \<Longrightarrow> n \<le> length t \<and> glob_spec p (drop n t)"
proof (induction arbitrary: t rule: segment.induct)
  case (segment_Suc n bp p)
  then have "n \<le> length t" "glob_spec p (drop n t)" by blast+
  then show ?case using glob_spec_one[OF segment_Suc(2,3), of "drop n t"] by (auto simp: drop_Suc tl_drop Suc_le_eq)
qed simp

lemma segment_len: "segment n bp p \<Longrightarrow> length p \<le> length bp"
proof (induction rule: segment.induct)
  case (segment_Suc n bp p)
  then show ?case using glob_rest_shorter[of p] by simp
qed simp

text \<open>The match gets as far as a star.\<close>

function glob_reach :: "string \<Rightarrow> string \<Rightarrow> bool" where
  "glob_reach p s =
     (if p = [] then False
      else if starred p then True
      else if s = [] then False
      else glob_hit p (hd s) \<and> glob_reach (glob_rest p) (tl s))"
  by auto
termination
  by (relation "measure (\<lambda>(p, s). length p)") (auto simp: glob_rest_shorter)

declare glob_reach.simps [simp del]

lemma glob_reach_Nil [simp]: "\<not> glob_reach [] s"
  by (simp add: glob_reach.simps)

lemma glob_reach_star: "starred p \<Longrightarrow> glob_reach p s"
  by (subst glob_reach.simps) (simp add: starred_def)

text \<open>
  The invariant of the loop on the pattern \<open>P\<close> and the string \<open>S\<close>: they match exactly when the current pair
  does, or a later start of the saved pair does; a pair is saved once a star has been reached.
\<close>

fun glob_inv :: "string \<Rightarrow> string \<Rightarrow> glob_state \<Rightarrow> bool" where
  "glob_inv P S (G_Run p s None) \<longleftrightarrow> glob_spec P S = glob_spec p s \<and> glob_reach P S = glob_reach p s"
| "glob_inv P S (G_Run p s (Some (bp, bs))) \<longleftrightarrow>
     glob_reach P S \<and> \<not> starred bp \<and> (\<exists>n. segment n bp p \<and> n \<le> length bs \<and> s = drop n bs) \<and>
     (glob_spec P S \<longleftrightarrow> glob_spec p s \<or> (\<exists>m. 0 < m \<and> m \<le> length bs \<and> glob_spec bp (drop m bs)))"
| "glob_inv P S (G_Done b) \<longleftrightarrow> glob_spec P S = b \<and> (b \<or> \<not> glob_reach P S)"
| "glob_inv P S G_Outside \<longleftrightarrow> \<not> glob_spec P S \<and> glob_reach P S"

lemma ex_drop_0: "(\<exists>n \<le> length s. Q (drop n s)) \<longleftrightarrow> Q s \<or> (\<exists>n. 0 < n \<and> n \<le> length s \<and> Q (drop n s))"
proof
  assume "\<exists>n \<le> length s. Q (drop n s)"
  then obtain n where "n \<le> length s" "Q (drop n s)" by blast
  then show "Q s \<or> (\<exists>n. 0 < n \<and> n \<le> length s \<and> Q (drop n s))" by (cases n) auto
next
  assume "Q s \<or> (\<exists>n. 0 < n \<and> n \<le> length s \<and> Q (drop n s))"
  then show "\<exists>n \<le> length s. Q (drop n s)" by (metis drop0 le0)
qed

lemma ex_drop_Cons: "(\<exists>n. 0 < n \<and> n \<le> length (x # s) \<and> Q (drop n (x # s))) \<longleftrightarrow> (\<exists>n \<le> length s. Q (drop n s))"
proof
  assume "\<exists>n. 0 < n \<and> n \<le> length (x # s) \<and> Q (drop n (x # s))"
  then obtain n where "0 < n" "n \<le> length (x # s)" "Q (drop n (x # s))" by blast
  then show "\<exists>n \<le> length s. Q (drop n s)" by (cases n) auto
next
  assume "\<exists>n \<le> length s. Q (drop n s)"
  then obtain n where "n \<le> length s" "Q (drop n s)" by blast
  then show "\<exists>n. 0 < n \<and> n \<le> length (x # s) \<and> Q (drop n (x # s))" by (intro exI[of _ "Suc n"]) simp
qed

lemma glob_retry_inv:
  assumes "glob_inv P S (G_Run p s b)" "\<not> glob_spec p s" "b = None \<Longrightarrow> \<not> glob_reach p s"
  shows "glob_inv P S (glob_retry b)"
proof (cases b)
  case None
  then show ?thesis using assms by (simp add: glob_retry_def)
next
  case (Some w)
  obtain bp bs where w: "w = (bp, bs)" by fastforce
  show ?thesis
  proof (cases bs)
    case Nil
    then show ?thesis using assms Some w by (auto simp: glob_retry_def)
  next
    case (Cons x r)
    have "(\<exists>m. 0 < m \<and> m \<le> length bs \<and> glob_spec bp (drop m bs)) \<longleftrightarrow>
        glob_spec bp r \<or> (\<exists>m. 0 < m \<and> m \<le> length r \<and> glob_spec bp (drop m r))"
      using ex_drop_Cons[of x r "glob_spec bp"] ex_drop_0[of r "glob_spec bp"] Cons by simp
    moreover have "segment 0 bp bp" by (rule segment_0)
    ultimately show ?thesis using assms Some w Cons by (auto simp: glob_retry_def)
  qed
qed

lemma glob_reach_one:
  "p \<noteq> [] \<Longrightarrow> \<not> starred p \<Longrightarrow> glob_reach p s \<longleftrightarrow> s \<noteq> [] \<and> glob_hit p (hd s) \<and> glob_reach (glob_rest p) (tl s)"
  by (subst glob_reach.simps) simp

lemma glob_try_inv:
  assumes i: "glob_inv P S (G_Run p s b)" and p: "\<not> starred p"
  shows "glob_inv P S (glob_try p s b)"
proof (cases "p = [] \<or> s = []")
  case True
  show ?thesis
  proof (cases "p = [] \<and> s = []")
    case both: True
    then show ?thesis using i by (cases b) (auto simp: glob_try_def)
  next
    case False
    have n: "\<not> glob_spec p s" using True False glob_spec_one[OF _ p, of s] by auto
    have r: "\<not> glob_reach p s" using True False glob_reach_one[OF _ p, of s] by auto
    show ?thesis using glob_retry_inv[OF i n] r True False by (auto simp: glob_try_def)
  qed
next
  case False
  then have ne: "p \<noteq> []" "s \<noteq> []" by auto
  note sp = glob_spec_one[OF ne(1) p, of s] and rc = glob_reach_one[OF ne(1) p, of s]
  have t: "glob_try p s b = (if glob_hit p (hd s) then G_Run (glob_rest p) (tl s) b else glob_retry b)"
    using False by (simp add: glob_try_def glob_one_split)
  show ?thesis
  proof (cases "glob_hit p (hd s)")
    case hit: True
    show ?thesis
    proof (cases b)
      case None
      then show ?thesis using i sp rc hit ne t by simp
    next
      case (Some w)
      obtain bp bs where w: "w = (bp, bs)" by fastforce
      obtain n where n: "segment n bp p" "n \<le> length bs" "s = drop n bs" using i Some w by auto
      have "segment (Suc n) bp (glob_rest p)" by (rule segment_Suc[OF n(1) ne(1) p])
      moreover have "Suc n \<le> length bs" using n ne(2) by (auto simp: Suc_le_eq intro: le_neq_implies_less)
      moreover have "tl s = drop (Suc n) bs" using n(3) by (simp add: drop_Suc tl_drop)
      ultimately show ?thesis using i Some w sp hit ne t by auto
    qed
  next
    case False
    show ?thesis using glob_retry_inv[OF i] sp rc False t by simp
  qed
qed

lemma glob_star_inv:
  assumes i: "glob_inv P S (G_Run p s b)" and p: "starred p" and q: "q = dropWhile (\<lambda>x. x = CHR ''*'') p"
  shows "if q = [] then glob_spec P S else glob_inv P S (G_Run q s (Some (q, s)))"
proof -
  have ns: "\<not> starred q" using q hd_dropWhile[of "\<lambda>x. x = CHR ''*''" p] by (auto simp: starred_def)
  have "glob_spec P S \<longleftrightarrow> glob_spec p s"
  proof (cases b)
    case (Some w)
    obtain bp bs where w: "w = (bp, bs)" by fastforce
    obtain n where n: "segment n bp p" "n \<le> length bs" "s = drop n bs" using i Some w by auto
    have "glob_spec p s" if m: "m \<le> length bs" "glob_spec bp (drop m bs)" for m
    proof -
      have "n \<le> length bs - m" "glob_spec p (drop n (drop m bs))" using segment_spec[OF n(1) m(2)] by simp_all
      then have "m \<le> length s" "glob_spec p (drop m s)" using n(2,3) m(1) by (simp_all add: add.commute)
      then show ?thesis by (rule glob_spec_star_more[OF p])
    qed
    then show ?thesis using i Some w by auto
  qed (use i in simp)
  moreover have "glob_reach P S"
    using i p glob_reach_star[OF p] by (cases b) auto
  moreover have "glob_spec p s \<longleftrightarrow> glob_spec q s \<or> (\<exists>m. 0 < m \<and> m \<le> length s \<and> glob_spec q (drop m s))"
    unfolding glob_stars[OF p q] by (rule ex_drop_0)
  moreover have "glob_spec p s" if "q = []" using glob_stars[OF p q, of s] that by auto
  moreover have "segment 0 q q" by (rule segment_0)
  ultimately show ?thesis using ns by auto
qed

lemma glob_step_inv: "glob_inv P S st \<Longrightarrow> glob_inv P S (glob_step st)"
proof (cases st)
  case (G_Run p s b)
  assume i: "glob_inv P S st"
  show ?thesis
  proof (cases "starred p")
    case True
    define q where "q = dropWhile (\<lambda>x. x = CHR ''*'') p"
    have ns: "\<not> starred q" using hd_dropWhile[of "\<lambda>x. x = CHR ''*''" p] by (auto simp: starred_def q_def)
    have "glob_step st = (if q = [] then G_Done True else glob_try q s (Some (q, s)))"
      using True G_Run by (simp add: starred_def q_def Let_def)
    then show ?thesis using glob_star_inv[OF i[unfolded G_Run] True q_def] glob_try_inv[OF _ ns, of P S s "Some (q, s)"]
      by (simp split: if_splits)
  next
    case False
    then have "glob_step st = glob_try p s b" using G_Run by (auto simp: starred_def)
    then show ?thesis using glob_try_inv[OF i[unfolded G_Run] False] by simp
  qed
qed simp_all

text \<open>The loop ends: a star shortens the saved pattern, a retry the saved string, a match the pattern.\<close>

fun glob_rank :: "glob_state \<Rightarrow> nat \<times> nat \<times> nat" where
  "glob_rank (G_Run p s None) = (Suc (length p), 0, 0)"
| "glob_rank (G_Run p s (Some (bp, bs))) = (length bp, length bs, Suc (length p))"
| "glob_rank _ = (0, 0, 0)"

definition rank_less :: "((nat \<times> nat \<times> nat) \<times> nat \<times> nat \<times> nat) set" where
  "rank_less = less_than <*lex*> less_than <*lex*> less_than"

lemma glob_try_rank: "\<not> starred p \<Longrightarrow> (glob_rank (glob_try p s b), glob_rank (G_Run p s b)) \<in> rank_less"
  by (cases b) (auto simp: glob_try_def glob_retry_def glob_one_split rank_less_def glob_rest_shorter split: list.splits)

lemma glob_step_rank:
  assumes "glob_inv P S (G_Run p s b)"
  shows "(glob_rank (glob_step (G_Run p s b)), glob_rank (G_Run p s b)) \<in> rank_less"
proof (cases "starred p")
  case True
  define q where "q = dropWhile (\<lambda>x. x = CHR ''*'') p"
  have ns: "\<not> starred q" using hd_dropWhile[of "\<lambda>x. x = CHR ''*''" p] by (auto simp: starred_def q_def)
  have "length (dropWhile (\<lambda>x. x = CHR ''*'') (tl p)) \<le> length (tl p)" by (rule length_dropWhile_le)
  then have "length q < length p" using True by (cases p) (auto simp: starred_def q_def)
  moreover have "length p \<le> length bp" if "b = Some (bp, bs)" for bp bs
    using assms that segment_len by auto
  ultimately have "(glob_rank (G_Run q s (Some (q, s))), glob_rank (G_Run p s b)) \<in> rank_less"
    by (cases b) (auto simp: rank_less_def)
  moreover have "trans rank_less" by (simp add: rank_less_def trans_less_than lex_prod_def trans_def)
  moreover have "glob_step (G_Run p s b) = (if q = [] then G_Done True else glob_try q s (Some (q, s)))"
    using True by (simp add: starred_def q_def Let_def)
  moreover have "(glob_rank (G_Done True), glob_rank (G_Run p s b)) \<in> rank_less"
    by (cases b) (auto simp: rank_less_def)
  ultimately show ?thesis using glob_try_rank[OF ns, of s "Some (q, s)"] by (auto dest: transD)
next
  case False
  then have "glob_step (G_Run p s b) = glob_try p s b" by (auto simp: starred_def)
  then show ?thesis using glob_try_rank[OF False] by simp
qed

lemma glob_ends: "\<exists>st. while_option running glob_step (G_Run p s None) = Some st \<and> \<not> running st \<and> glob_inv p s st"
proof -
  let ?P = "glob_inv p s"
  have "wf {(t, st). (?P st \<and> running st) \<and> t = glob_step st}"
  proof (rule wf_subset[OF wf_inv_image])
    show "wf rank_less" unfolding rank_less_def by (intro wf_lex_prod wf_less_than)
    show "{(t, st). (?P st \<and> running st) \<and> t = glob_step st} \<subseteq> inv_image rank_less glob_rank"
    proof clarify
      fix st assume "?P st" "running st"
      then show "(glob_step st, st) \<in> inv_image rank_less glob_rank" using glob_step_rank by (cases st) auto
    qed
  qed
  moreover have start: "?P (G_Run p s None)" by simp
  ultimately obtain st where st: "while_option running glob_step (G_Run p s None) = Some st"
    using wf_while_option_Some[where P = ?P] glob_step_inv by blast
  have "?P st" by (rule while_option_rule[OF _ st, of ?P]) (auto intro: glob_step_inv)
  then show ?thesis using st while_option_stop[OF st] by blast
qed

section \<open>Properties\<close>

text \<open>
  C19. The loop always ends, and its result is exactly this: on a string the pattern means, true; on any
  other string, false when the match fails before the first star, and otherwise the loop leaves the
  string. There is no other outcome: past a star the matcher never answers false.
\<close>

theorem glob_match_exact:
  "glob_match p s = (if glob_spec p s then Some True else if glob_reach p s then None else Some False)"
proof -
  obtain st where st: "while_option running glob_step (G_Run p s None) = Some st" "\<not> running st" "glob_inv p s st"
    using glob_ends by blast
  then show ?thesis by (cases st) (auto simp: glob_match_def)
qed

end
