(* ===== verification/Cmd_Keys.thy ===== *)
theory Cmd_Keys
  imports Cmd_String Glob
begin

text \<open>
  The key commands of \<open>commands/commands.cpp\<close>: deletion, expiry, renaming, enumeration and inspection.
  \<open>find_live\<close> is the lookup with lazy expiry that these handlers write out (and that \<open>lookup_any\<close> names).
\<close>

section \<open>Model\<close>

subsection \<open>Deletion and existence\<close>

text \<open>\<open>DEL\<close> removes the node without looking at its expiry time.\<close>

fun del_loop :: "env \<Rightarrow> string list \<Rightarrow> nat \<Rightarrow> 's gdata \<Rightarrow> 's gdata \<times> nat" where
  "del_loop v [] deleted g = (g, deleted)"
| "del_loop v (k # ks) deleted g =
     (let (g, node) = db_delete k g
      in case node of
           None \<Rightarrow> del_loop v ks deleted g
         | Some a \<Rightarrow> del_loop v ks (deleted + 1) (entry_del v a g))"

definition do_del :: "'s handler" where
  "do_del v cmd g =
     (let (g, deleted) = del_loop v (tl cmd) 0 g
      in (if 0 < deleted then wrote deleted g else g, [RInt (int deleted)]))"

text \<open>\<open>UNLINK\<close>.\<close>

definition do_asyncdel :: "'s handler" where
  "do_asyncdel v cmd g =
     (let (g, node) = db_lookup (cmd ! 1) g
      in case node of
           None \<Rightarrow> (g, [RInt 0])
         | Some a \<Rightarrow> (wrote 1 (drop_entry v a g), [RInt 1]))"

text \<open>The loop of \<open>EXISTS\<close> and \<open>TOUCH\<close>.\<close>

fun count_live :: "env \<Rightarrow> string list \<Rightarrow> nat \<Rightarrow> 's gdata \<Rightarrow> 's gdata \<times> nat" where
  "count_live v [] n g = (g, n)"
| "count_live v (k # ks) n g =
     (let (g, node) = find_live v k g in count_live v ks (if node = None then n else n + 1) g)"

definition do_exists :: "'s handler" where
  "do_exists v cmd g = (let (g, n) = count_live v (tl cmd) 0 g in (g, [RInt (int n)]))"

definition do_touch :: "'s handler" where
  "do_touch v cmd g = (let (g, n) = count_live v (tl cmd) 0 g in (g, [RInt (int n)]))"

definition type_name :: "etype \<Rightarrow> string" where
  "type_name t =
     (case t of
        T_STR \<Rightarrow> ''string''
      | T_ZSET \<Rightarrow> ''zset''
      | T_DLIST \<Rightarrow> ''list''
      | T_HASH \<Rightarrow> ''hash''
      | T_SET \<Rightarrow> ''set''
      | T_INIT \<Rightarrow> ''none'')"

definition do_type :: "'s handler" where
  "do_type v cmd g =
     (let (g, node) = find_live v (cmd ! 1) g
      in (g, [RSimple (case node of None \<Rightarrow> ''none'' | Some a \<Rightarrow> type_name (type_at g a))]))"

definition do_dbsize :: "'s handler" where
  "do_dbsize v cmd g = (g, [RInt (int (hm_size (db g)))])"

text \<open>The entries are collected, the table is emptied, then every entry is freed.\<close>

definition do_flushall :: "'s handler" where
  "do_flushall v cmd g =
     (let es = sk_nodes (db g);
          g = g\<lparr>db := hm_clear (db g)\<rparr>;
          g = fold (entry_del v) es g
      in (emit E_TouchAll (wrote 1 g), [ROk]))"

subsection \<open>Expiry\<close>

text \<open>
  The products \<open>ttl * per\<close> and \<open>when * per\<close> and the difference with the wall clock are signed and not checked: where
  one of them does not fit 64 bits the behaviour is undefined and there is no result.
\<close>

definition expire_generic :: "int \<Rightarrow> 's opt_handler" where
  "expire_generic per v cmd g =
     (case str2int (cmd ! 2) of
        None \<Rightarrow> Some (g, [RErr ''ERR invalid TTL''])
      | Some ttl \<Rightarrow>
          Option.bind (exact_i64 (ttl * per)) (\<lambda>ttl_ms.
            let (g, node) = find_live v (cmd ! 1) g
            in case node of
                 None \<Rightarrow> Some (g, [RInt 0])
               | Some a \<Rightarrow>
                   if ttl_ms \<le> 0 then Some (wrote 1 (drop_entry v a g), [RInt 1])
                   else Some (wrote 1 (set_ttl v a ttl_ms g), [RInt 1])))"

definition do_pexpire :: "'s opt_handler" where
  "do_pexpire = expire_generic 1"

definition do_expire :: "'s opt_handler" where
  "do_expire = expire_generic 1000"

definition expireat_generic :: "int \<Rightarrow> 's opt_handler" where
  "expireat_generic per v cmd g =
     (case str2int (cmd ! 2) of
        None \<Rightarrow> Some (g, [RErr ''ERR invalid expire time''])
      | Some when \<Rightarrow>
          Option.bind (exact_i64 (when * per)) (\<lambda>abs_ms.
            let (g, node) = find_live v (cmd ! 1) g
            in case node of
                 None \<Rightarrow> Some (g, [RInt 0])
               | Some a \<Rightarrow>
                   Option.bind (exact_i64 (abs_ms - sint (wall v))) (\<lambda>remaining.
                     if remaining \<le> 0 then Some (wrote 1 (drop_entry v a g), [RInt 1])
                     else Some (wrote 1 (set_ttl v a remaining g), [RInt 1]))))"

definition do_expireat :: "'s opt_handler" where
  "do_expireat = expireat_generic 1000"

definition do_pexpireat :: "'s opt_handler" where
  "do_pexpireat = expireat_generic 1"

text \<open>The time left, in units of \<open>per\<close> milliseconds, rounded to the nearest one.\<close>

definition ttl_left :: "int \<Rightarrow> env \<Rightarrow> u64 \<Rightarrow> int" where
  "ttl_left per v expire_at =
     (let remaining = (if mono v < expire_at then sint (expire_at - mono v) else 0)
      in if 1 < per then c_div (i64 (remaining + per div 2)) per else remaining)"

definition ttl_generic :: "int \<Rightarrow> 's handler" where
  "ttl_generic per v cmd g =
     (let (g, node) = find_live v (cmd ! 1) g
      in case node of
           None \<Rightarrow> (g, [RInt (- 2)])
         | Some a \<Rightarrow>
             if \<not> entry_has_ttl (heap g) a then (g, [RInt (- 1)])
             else (g, [RInt (ttl_left per v (heap_val g a))]))"

definition do_ttl :: "'s handler" where
  "do_ttl = ttl_generic 1"

definition do_ttl_seconds :: "'s handler" where
  "do_ttl_seconds = ttl_generic 1000"

definition do_persist :: "'s handler" where
  "do_persist v cmd g =
     (let (g, node) = find_live v (cmd ! 1) g
      in case node of
           None \<Rightarrow> (g, [RInt 0])
         | Some a \<Rightarrow>
             if \<not> entry_has_ttl (heap g) a then (g, [RInt 0])
             else (wrote 1 (set_ttl v a (- 1) g), [RInt 1]))"

subsection \<open>Renaming\<close>

text \<open>The result is 1 for a rename done, 0 for an occupied destination, -1 for a missing source.\<close>

definition rename_move :: "addr \<Rightarrow> string \<Rightarrow> 's gdata \<Rightarrow> 's gdata" where
  "rename_move a dst g =
     (let g = db_unlink a g;
          g = put_ent a (\<lambda>e. e\<lparr>ekey := str_assign (ekey e) dst\<rparr>) g;
          g = db_insert a g
      in mem_reaccount a g)"

definition rename_key :: "env \<Rightarrow> string \<Rightarrow> string \<Rightarrow> bool \<Rightarrow> 's gdata \<Rightarrow> 's gdata \<times> int" where
  "rename_key v src dst nx g =
     (let (g, node) = find_live v src g
      in case node of
           None \<Rightarrow> (g, - 1)
         | Some a \<Rightarrow>
             if src = dst then (g, if nx then 0 else 1)
             else let (g, dnode) = find_live v dst g
                  in case dnode of
                       None \<Rightarrow> (rename_move a dst g, 1)
                     | Some d \<Rightarrow>
                         if nx then (g, 0) else (rename_move a dst (drop_entry v d g), 1))"

definition do_rename :: "'s handler" where
  "do_rename v cmd g =
     (let (g, rc) = rename_key v (cmd ! 1) (cmd ! 2) False g
      in if rc = - 1 then (g, [RErr ''ERR no such key'']) else (wrote 1 g, [ROk]))"

definition do_renamenx :: "'s handler" where
  "do_renamenx v cmd g =
     (let (g, rc) = rename_key v (cmd ! 1) (cmd ! 2) True g
      in if rc = - 1 then (g, [RErr ''ERR no such key''])
         else (if rc = 1 then wrote 1 g else g, [RInt rc]))"

subsection \<open>Enumeration\<close>

text \<open>The names a pattern selects, or \<open>None\<close> when the matcher leaves one of them.\<close>

fun glob_filter :: "string \<Rightarrow> string list \<Rightarrow> string list option" where
  "glob_filter p [] = Some []"
| "glob_filter p (s # ss) =
     (case glob_match p s of
        None \<Rightarrow> None
      | Some m \<Rightarrow> map_option (\<lambda>r. if m then s # r else r) (glob_filter p ss))"

text \<open>The keys of expired entries are listed too.\<close>

definition do_keys :: "env \<Rightarrow> string list \<Rightarrow> 's gdata \<Rightarrow> ('s gdata \<times> 's reply list) option" where
  "do_keys v cmd g =
     (let ks = map (key_at g) (sk_nodes (db g))
      in if length cmd < 2 \<or> cmd ! 1 = ''*''
         then Some (g, RArr (of_nat (hm_size (db g))) # map RStr ks)
         else map_option (\<lambda>hits. (g, RArr (of_nat (length hits)) # map RStr hits)) (glob_filter (cmd ! 1) ks))"

text \<open>The options of \<open>SCAN\<close>, \<open>HSCAN\<close> and \<open>SSCAN\<close>, in pairs; a last unpaired argument is ignored.\<close>

fun scan_opts :: "string list \<Rightarrow> nat \<Rightarrow> string option \<Rightarrow> string + nat \<times> string option" where
  "scan_opts (opt # x # rest) cnt pat =
     (if lower opt = ''count'' then
        (case str2int x of
           None \<Rightarrow> Inl ''ERR invalid count''
         | Some n \<Rightarrow> if n \<le> 0 then Inl ''ERR invalid count'' else scan_opts rest (nat n) pat)
      else if lower opt = ''match'' then scan_opts rest cnt (Some x)
      else Inl MSG_SYNTAX)"
| "scan_opts _ cnt pat = Inr (cnt, pat)"

definition scan_filter :: "string option \<Rightarrow> string list \<Rightarrow> string list option" where
  "scan_filter pat names = (case pat of None \<Rightarrow> Some names | Some p \<Rightarrow> glob_filter p names)"

definition do_scan :: "env \<Rightarrow> string list \<Rightarrow> 's gdata \<Rightarrow> ('s gdata \<times> 's reply list) option" where
  "do_scan v cmd g =
     (case str2int (cmd ! 1) of
        None \<Rightarrow> Some (g, [RErr ''ERR invalid cursor''])
      | Some cursor \<Rightarrow>
          if cursor < 0 then Some (g, [RErr ''ERR invalid cursor''])
          else case scan_opts (drop 2 cmd) 10 None of
                 Inl e \<Rightarrow> Some (g, [RErr e])
               | Inr (cnt, pat) \<Rightarrow>
                   (let (nxt, nodes) = hm_scan (db g) (word_of_int cursor) cnt;
                        alive = filter (\<lambda>a. \<not> (entry_has_ttl (heap g) a \<and> heap_val g a \<le> mono v)) (map pay nodes)
                    in map_option
                         (\<lambda>ks. (g, [RArr 2, RStr (nat_dec (unat nxt)), RArr (of_nat (length ks))] @ map RStr ks))
                         (scan_filter pat (map (key_at g) alive))))"

text \<open>Reservoir sampling with one element: \<open>seen\<close> nodes so far, \<open>key\<close> the current choice.\<close>

fun randomkey_loop :: "env \<Rightarrow> addr list \<Rightarrow> nat \<Rightarrow> string \<Rightarrow> 's gdata \<Rightarrow> 's gdata \<times> string" where
  "randomkey_loop v [] seen key g = (g, key)"
| "randomkey_loop v (a # as) seen key g =
     (let (i, g) = rand_idx v (seen + 1) g
      in randomkey_loop v as (seen + 1) (if i = 0 then key_at g a else key) g)"

definition do_randomkey :: "'s handler" where
  "do_randomkey v cmd g =
     (if hm_size (db g) = 0 then (g, [RNil])
      else let (g, key) = randomkey_loop v (sk_nodes (db g)) 0 [] g in (g, [RStr key]))"

subsection \<open>Inspection\<close>

definition object_encoding :: "'s evalue \<Rightarrow> string" where
  "object_encoding w =
     (case w of
        VStr s \<Rightarrow> if str2int (chars s) \<noteq> None then ''int'' else ''raw''
      | VList _ \<Rightarrow> ''deque''
      | VHash _ \<Rightarrow> ''hashtable''
      | VSet _ \<Rightarrow> ''hashtable''
      | VZset _ \<Rightarrow> ''skiplist''
      | VInit \<Rightarrow> ''unknown'')"

definition maxmemory_policy_name :: "maxmemory_policy \<Rightarrow> string" where
  "maxmemory_policy_name p =
     (case p of
        NOEVICTION \<Rightarrow> ''noeviction''
      | ALLKEYS_LRU \<Rightarrow> ''allkeys-lru''
      | ALLKEYS_LFU \<Rightarrow> ''allkeys-lfu''
      | ALLKEYS_RANDOM \<Rightarrow> ''allkeys-random''
      | VOLATILE_LRU \<Rightarrow> ''volatile-lru''
      | VOLATILE_LFU \<Rightarrow> ''volatile-lfu''
      | VOLATILE_RANDOM \<Rightarrow> ''volatile-random''
      | VOLATILE_TTL \<Rightarrow> ''volatile-ttl'')"

text \<open>The sum \<open>MEMORY DOCTOR\<close> compares with the counter.\<close>

definition mem_sweep :: "'s gdata \<Rightarrow> u64" where
  "mem_sweep g = sum_list (map (\<lambda>a. entry_mem_usage (ent_at g a)) (sk_nodes (db g)))"

definition doctor_text :: "u64 \<Rightarrow> u64 \<Rightarrow> string" where
  "doctor_text used sweep =
     (if sweep = used
      then ''Can't find any memory problem. used_memory='' @ nat_dec (unat used) @ '' matches a full sweep.''
      else ''Accounting drift detected: counter='' @ nat_dec (unat used) @ '' sweep='' @ nat_dec (unat sweep) @
           '' (delta='' @ int_dec (i64 (sint sweep - sint used)) @
           '') - a write handler is likely a missing a mem_reaccount.'')"

text \<open>\<open>MEMORY USAGE\<close> without a key reads behind the end of the argument vector: \<open>None\<close>.\<close>

definition do_memory :: "env \<Rightarrow> string list \<Rightarrow> 's gdata \<Rightarrow> ('s gdata \<times> 's reply list) option" where
  "do_memory v cmd g =
     (let sub = lower (cmd ! 1)
      in if sub = ''usage'' then
           (let bad = (4 \<le> length cmd \<and>
                       (lower (cmd ! 3) \<noteq> ''samples'' \<or> length cmd < 5 \<or>
                        (case str2int (cmd ! 4) of None \<Rightarrow> True | Some n \<Rightarrow> n < 0)))
            in if bad then Some (g, [RErr MSG_SYNTAX])
               else if length cmd < 3 then None
               else let (g, node) = find_live v (cmd ! 2) g
                    in case node of
                         None \<Rightarrow> Some (g, [RNil])
                       | Some a \<Rightarrow> Some (g, [RInt (sint (entry_mem_usage (ent_at g a)))]))
         else if sub = ''doctor'' then Some (g, [RStr (doctor_text (used_memory g) (mem_sweep g))])
         else if sub = ''stats'' then
           Some (g, [RArr 10, RStr ''used_memory'', RInt (sint (used_memory g)),
                     RStr ''keys.count'', RInt (int (hm_size (db g))),
                     RStr ''maxmemory'', RInt (sint (maxmemory (cfg v))),
                     RStr ''maxmemory.policy'', RStr (maxmemory_policy_name (policy (cfg v))),
                     RStr ''evicted.keys'', RInt (sint (evicted_keys g))])
         else Some (g, [RErr ''ERR unknown MEMORY subcommand'']))"

definition do_object :: "'s handler" where
  "do_object v cmd g =
     (if length cmd < 3 then (g, [RErr ''ERR wrong nubmer of arguments''])
      else
        let sub = lower (cmd ! 1);
            (g, node) = find_live v (cmd ! 2) g
        in case node of
             None \<Rightarrow> (g, [RErr ''ERR no such key''])
           | Some a \<Rightarrow>
               let lru = elru (ent_at g a)
               in if sub = ''encoding'' then (g, [RStr (object_encoding (val_at g a))])
                  else if sub = ''idletime'' then
                    (if policy_is_lfu v
                     then (g, [RErr ''ERR an LFU maxmemory policy is selected, idle time not tracked''])
                     else (g, [RInt (uint ((lru_clock g - lru) AND LRU_CLOCK_MAX))]))
                  else if sub = ''freq'' then
                    (if \<not> policy_is_lfu v
                     then (g, [RErr ''ERR An LFU maxmemory policy is not selected, access frequency not tracked.''])
                     else (g, [RInt (uint (lru AND 0xFF))]))
                  else if sub = ''refcount'' then (g, [RInt 1])
                  else (g, [RErr ''ERR unknown object subcommand'']))"

section \<open>Deletion\<close>

lemma db_delete_ok:
  assumes ok: "g_ok S g" and r: "db_delete k g = (g1, r)"
  shows "r = index g k"
    "r = None \<Longrightarrow> g_ok S g1 \<and> index g1 = index g \<and> live v g1 = live v g \<and> dom (ents g1) = dom (ents g)"
    "r = Some a \<Longrightarrow> g_ok S (entry_del v a g1) \<and> live v' (entry_del v a g1) = (live v' g)(k := None) \<and>
       index (entry_del v a g1) = (index g)(k := None) \<and> dom (ents (entry_del v a g1)) \<subseteq> dom (ents g)"
proof -
  note d = g_okD[OF ok]
  obtain m where m: "sk_delete (key_at g) (db g) k = (m, r)" "g1 = g\<lparr>db := m\<rparr>"
    using r by (auto simp: db_delete_def split: prod.splits)
  note l = sk.delete_law[OF d(1) m(1)]
  show "r = index g k" using l by (simp add: index_def)
  have e: "ents g1 = ents g" "heap g1 = heap g" "next_addr g1 = next_addr g" "used_memory g1 = used_memory g" "db g1 = m"
    by (simp_all add: m)
  have ea: "ent_at g1 = ent_at g" by (simp add: ent_at_def fun_eq_iff m)
  have va: "val_at g1 = val_at g" "key_at g1 = key_at g" by (simp_all add: val_at_def key_at_def fun_eq_iff ea)
  show "g_ok S g1 \<and> index g1 = index g \<and> live v g1 = live v g \<and> dom (ents g1) = dom (ents g)" if n: "r = None"
  proof -
    have w: "sk_wf (key_at g) m" "set_mset (sk_payloads m) = dom (ents g)" using l d(2) n by auto
    have ok1: "g_ok S g1" by (rule g_okI, unfold e va ea) (fact d w)+
    have ix: "index g1 = index g" unfolding index_def va e using l n by (simp add: fun_upd_idem)
    have "live v g1 = live v g" unfolding live_def ix expired_def e va ..
    then show ?thesis using ok1 ix e by simp
  qed
  show "g_ok S (entry_del v a g1) \<and> live v' (entry_del v a g1) = (live v' g)(k := None) \<and>
      index (entry_del v a g1) = (index g)(k := None) \<and> dom (ents (entry_del v a g1)) \<subseteq> dom (ents g)" if s: "r = Some a"
  proof -
    have i: "index g k = Some a" using l s by (simp add: index_def)
    have w: "sk_wf (key_at g) m" "sk_payloads (db g) = add_mset a (sk_payloads m)" using l s by auto
    show ?thesis using entry_del_ok[OF ok i w refl, where v = v] unfolding m by auto
  qed
qed

lemma del_loop_ok:
  "g_ok {} g \<Longrightarrow> del_loop v ks n g = (g', m) \<Longrightarrow>
   g_ok {} g' \<and> live v' g' = (live v' g) |` (- set ks) \<and> m = n + card (set ks \<inter> dom (index g)) \<and>
   card (dom (ents g')) \<le> card (dom (ents g))"
proof (induction v ks n g rule: del_loop.induct)
  case (2 v k ks n g)
  obtain g1 r where d: "db_delete k g = (g1, r)" by fastforce
  note dd = db_delete_ok[OF 2(3) d]
  show ?case
  proof (cases r)
    case None
    have i: "index g k = None" using dd(1) None by simp
    have run: "del_loop v ks n g1 = (g', m)" using 2(4) d None by simp
    have n1: "g_ok {} g1" "index g1 = index g" "live v' g1 = live v' g" "dom (ents g1) = dom (ents g)" using dd(2)[OF None] by auto
    have ih: "g_ok {} g'" "live v' g' = (live v' g) |` (- set ks)" "m = n + card (set ks \<inter> dom (index g))"
      "card (dom (ents g')) \<le> card (dom (ents g))"
      using 2(1)[OF d[symmetric] refl None n1(1) run] n1 by auto
    have "live v' g k = None" using i by (simp add: live_def)
    then have "(live v' g) |` (- set ks) = (live v' g) |` (- set (k # ks))" by (auto simp: restrict_map_def fun_eq_iff)
    moreover have "set (k # ks) \<inter> dom (index g) = set ks \<inter> dom (index g)" using i by auto
    ultimately show ?thesis using ih by simp
  next
    case (Some a)
    have i: "index g k = Some a" using dd(1) Some by simp
    let ?g = "entry_del v a g1"
    have n1: "g_ok {} ?g" "index ?g = (index g)(k := None)" "live v' ?g = (live v' g)(k := None)" "dom (ents ?g) \<subseteq> dom (ents g)"
      using dd(3)[OF Some] by auto
    have run: "del_loop v ks (n + 1) ?g = (g', m)" using 2(4) d Some by simp
    have ih: "g_ok {} g'" "live v' g' = (live v' ?g) |` (- set ks)" "m = n + 1 + card (set ks \<inter> dom (index ?g))"
      "card (dom (ents g')) \<le> card (dom (ents ?g))"
      using 2(2)[OF d[symmetric] refl Some n1(1) run] by auto
    have "card (set (k # ks) \<inter> dom (index g)) = Suc (card (set ks \<inter> dom (index ?g)))"
    proof -
      have "set (k # ks) \<inter> dom (index g) = insert k (set ks \<inter> dom (index ?g))" using i unfolding n1 by auto
      moreover have "k \<notin> set ks \<inter> dom (index ?g)" unfolding n1 by auto
      ultimately show ?thesis by simp
    qed
    moreover have "card (dom (ents ?g)) \<le> card (dom (ents g))" by (rule card_mono[OF g_okD(8)[OF 2(3)] n1(4)])
    ultimately show ?thesis using ih unfolding n1 by (auto simp: restrict_map_def fun_eq_iff)
  qed
qed (simp add: restrict_map_def)

lemma do_del_ok:
  assumes "g_ok {} g" "do_del v cmd g = (g', rs)"
  shows "g_ok {} g' \<and> live v g' = (live v g) |` (- set (tl cmd)) \<and> rs = [RInt (int (card (set (tl cmd) \<inter> dom (index g))))]"
proof -
  obtain g1 n where l: "del_loop v (tl cmd) 0 g = (g1, n)" by fastforce
  show ?thesis using del_loop_ok[OF assms(1) l, where v' = v] assms(2) l by (auto simp: do_del_def split: if_splits)
qed

lemma do_asyncdel_ok:
  assumes "g_ok {} g" "do_asyncdel v cmd g = (g', rs)"
  shows "g_ok {} g' \<and> live v g' = (live v g)(cmd ! 1 := None) \<and> rs = [RInt (if index g (cmd ! 1) = None then 0 else 1)]"
proof -
  obtain g1 r where l: "db_lookup (cmd ! 1) g = (g1, r)" by fastforce
  note ll = db_lookup_ok[OF assms(1) l]
  show ?thesis
  proof (cases r)
    case None
    then have "live v g (cmd ! 1) = None" using ll(2) by (simp add: live_def)
    then show ?thesis using assms(2) l None ll by (auto simp: do_asyncdel_def)
  next
    case (Some a)
    then have i: "index g1 (cmd ! 1) = Some a" using ll by simp
    show ?thesis using assms(2) l Some ll drop_entry_ok[OF ll(1) i, where v = v] by (auto simp: do_asyncdel_def)
  qed
qed

lemma fold_entry_del:
  "heap_inv (heap g) \<Longrightarrow> distinct es \<Longrightarrow>
   let g' = fold (entry_del v) es g in
     ents g' = ents g |` (- set es) \<and> db g' = db g \<and> next_addr g' = next_addr g \<and> heap_inv (heap g') \<and>
     ttl_of (heap g') = ttl_of (heap g) |` (- set es) \<and> used_memory g' = used_memory g - (\<Sum>a \<in> set es. emem (ent_at g a))"
proof (induction es arbitrary: g)
  case (Cons a es)
  note s = entry_del_simps[OF Cons(2), of v a]
  have ne: "ent_at (entry_del v a g) b = ent_at g b" if "b \<in> set es" for b
    using that Cons(3) by (auto simp: ent_at_def s)
  have "(\<Sum>b \<in> set es. emem (ent_at (entry_del v a g) b)) = (\<Sum>b \<in> set es. emem (ent_at g b))"
    by (intro sum.cong) (simp_all add: ne)
  then show ?case using Cons(1)[OF s(5)] Cons(3) by (auto simp: Let_def s restrict_map_def fun_eq_iff)
qed (simp add: Let_def restrict_map_def)

lemma g_ok_nodes: "g_ok S g \<Longrightarrow> distinct (sk_nodes (db g)) \<and> set (sk_nodes (db g)) = dom (ents g)"
  using sk_nodes_mset[OF g_okD(7), of S g] g_okD(1,2)[of S g]
  by (auto simp: sk_wf_def distinct_map simp flip: set_mset_mset)

lemma do_flushall_ok:
  assumes ok: "g_ok {} g" and r: "do_flushall v cmd g = (g', rs)"
  shows "g_ok {} g' \<and> live v g' = Map.empty \<and> rs = [ROk] \<and> ents g' = Map.empty \<and> used_memory g' = 0"
proof -
  note d = g_okD[OF ok] and n = g_ok_nodes[OF ok]
  let ?h = "g\<lparr>db := hm_clear (db g)\<rparr>"
  define f where "f = fold (entry_del v) (sk_nodes (db g)) ?h"
  have hi: "heap_inv (heap ?h)" using d(3) by simp
  have em: "ent_at ?h = ent_at g" by (simp add: ent_at_def fun_eq_iff)
  note s = fold_entry_del[OF hi conjunct1[OF n], of v, folded f_def, unfolded Let_def]
  have e: "ents f = Map.empty" using s n by (auto simp: restrict_map_def fun_eq_iff)
  have tt: "ttl_of (heap f) = Map.empty" using s n d(4) by (auto simp: restrict_map_def fun_eq_iff dom_def)
  have us: "used_memory f = 0" using s n d(9) em by simp
  have db: "db f = hmap_empty" using s by (simp add: hm_clear_def)
  have okf: "g_ok {} f" unfolding g_ok_def e tt us db using s by (simp add: sk_empty_ok)
  have "live v f = Map.empty" by (rule ext) (simp add: live_def index_def db sk_empty_ok)
  moreover have "g' = emit E_TouchAll (wrote 1 f)" "rs = [ROk]" using r by (auto simp: do_flushall_def f_def Let_def)
  ultimately show ?thesis
    using okf e us by (simp add: core_same[OF core_simps(4)] core_g_ok[OF core_simps(4)]) (simp add: emit_def wrote_def)
qed

section \<open>Reading\<close>

text \<open>\<open>find_live\<close> from a consistent state: nothing live changes and the entry, if any, is the live one.\<close>

lemma find_any:
  assumes ok: "g_ok {} g" and f: "find_live v k g = (g', r)"
  obtains "r = None" "live v g k = None" "g_ok {} g'" "live v g' = live v g" "index g' k = None"
  | a where "r = Some a" "at v g' k a" "g_ok {} g'" "g_ok {a} g'" "live v g' = live v g"
      "live v g k = Some (aval (val_at g' a), ttl_of (heap g') a)"
      "entry_has_ttl (heap g') a \<longleftrightarrow> ttl_of (heap g') a \<noteq> None"
      "entry_has_ttl (heap g') a \<Longrightarrow> ttl_of (heap g') a = Some (heap_val g' a) \<and> mono v < heap_val g' a"
  using ok f
proof (cases rule: find_str)
  case (2 a)
  have h: "heap_inv (heap g')" by (rule g_okD(3)[OF 2(3)])
  have "\<not> expired v g' a" using 2(2) by (simp add: at_def)
  then have "entry_has_ttl (heap g') a \<Longrightarrow> ttl_of (heap g') a = Some (heap_val g' a) \<and> mono v < heap_val g' a"
    using heap_inv_deadline[OF h] by (auto simp: expired_def heap_val_def not_le)
  then show ?thesis using that(2)[of a] 2 heap_inv_has_ttl[OF h, of a] g_ok_mono[OF 2(3), of "{a}"] by auto
qed (use that in blast)

lemma count_live_ok:
  "g_ok {} g \<Longrightarrow> count_live v ks n g = (g', m) \<Longrightarrow>
   g_ok {} g' \<and> live v g' = live v g \<and> m = n + length (filter (\<lambda>k. live v g k \<noteq> None) ks)"
proof (induction v ks n g rule: count_live.induct)
  case (2 v k ks n g)
  obtain g1 r where f: "find_live v k g = (g1, r)" by fastforce
  from 2(2) f show ?case
    by (cases rule: find_any) (use 2(1)[OF f[symmetric] refl] 2(3) f in auto)
qed simp

lemma do_exists_ok:
  assumes "g_ok {} g" "do_exists v cmd g = (g', rs)"
  shows "g_ok {} g' \<and> live v g' = live v g \<and> rs = [RInt (int (length (filter (\<lambda>k. live v g k \<noteq> None) (tl cmd))))]"
proof -
  obtain g1 n where l: "count_live v (tl cmd) 0 g = (g1, n)" by fastforce
  show ?thesis using count_live_ok[OF assms(1) l] assms(2) l by (auto simp: do_exists_def)
qed

lemma do_touch_ok: "do_touch v cmd g = do_exists v cmd g"
  by (simp add: do_touch_def do_exists_def)

lemma do_type_ok:
  assumes "g_ok {} g" "do_type v cmd g = (g', rs)"
  shows "g_ok {} g' \<and> live v g' = live v g \<and>
    rs = [RSimple (case live v g (cmd ! 1) of None \<Rightarrow> ''none'' | Some (w, d) \<Rightarrow> type_name (atype w))]"
proof -
  obtain g1 r where f: "find_live v (cmd ! 1) g = (g1, r)" by fastforce
  from assms(1) f show ?thesis
    by (cases rule: find_any) (use assms(2) f in \<open>auto simp: do_type_def type_at_def\<close>)
qed

lemma ttl_generic_ok:
  assumes "g_ok {} g" "ttl_generic per v cmd g = (g', rs)"
  shows "g_ok {} g' \<and> live v g' = live v g \<and>
    rs = [RInt (case live v g (cmd ! 1) of None \<Rightarrow> - 2 | Some (w, None) \<Rightarrow> - 1 | Some (w, Some d) \<Rightarrow> ttl_left per v d)]"
proof -
  obtain g1 r where f: "find_live v (cmd ! 1) g = (g1, r)" by fastforce
  from assms(1) f show ?thesis
    by (cases rule: find_any) (use assms(2) f in \<open>auto simp: ttl_generic_def split: if_splits option.splits\<close>)
qed

section \<open>Expiry\<close>

text \<open>A time-to-live of \<open>ms\<close> milliseconds is given to a live key.\<close>

definition expire_in :: "env \<Rightarrow> int \<Rightarrow> string \<Rightarrow> 's avalue \<Rightarrow> (string \<Rightarrow> ('s avalue \<times> u64 option) option) \<Rightarrow>
    string \<Rightarrow> ('s avalue \<times> u64 option) option" where
  "expire_in v ms k w m = (if ms \<le> 0 then m(k := None) else live_put v m k w (dl_in v ms))"

lemma expire_generic_ok:
  assumes "g_ok {} g" "fits v 1 g" "expire_generic per v cmd g = Some (g', rs)"
  shows "g_ok {} g' \<and>
    (case str2int (cmd ! 2) of
       None \<Rightarrow> live v g' = live v g \<and> rs = [RErr ''ERR invalid TTL'']
     | Some t \<Rightarrow> in_i64 (t * per) \<and>
         (case live v g (cmd ! 1) of
            None \<Rightarrow> live v g' = live v g \<and> rs = [RInt 0]
          | Some (w, d) \<Rightarrow> live v g' = expire_in v (t * per) (cmd ! 1) w (live v g) \<and> rs = [RInt 1]))"
proof (cases "str2int (cmd ! 2)")
  case (Some t)
  obtain g1 r where f: "find_live v (cmd ! 1) g = (g1, r)" by fastforce
  have c: "card (dom (ents g1)) \<le> 2 ^ 60"
    using fits_card[OF assms(2)] card_mono[OF g_okD(8)[OF assms(1)] find_live_ok(5)[OF assms(1) f]] by simp
  have i: "in_i64 (t * per)" using assms(3) Some by (cases "in_i64 (t * per)") (simp_all add: expire_generic_def exact_i64_simps)
  from assms(1) f show ?thesis
  proof (cases rule: find_any)
    case 1
    then show ?thesis using assms(3) Some f i by (auto simp: expire_generic_def Let_def exact_i64_simps)
  next
    case (2 a)
    have "(g', rs) = (if t * per \<le> 0 then (wrote 1 (drop_entry v a g1), [RInt 1]) else (wrote 1 (set_ttl v a (t * per) g1), [RInt 1]))"
      using assms(3) Some f 2(1) i by (auto simp: expire_generic_def Let_def exact_i64_simps split: if_splits)
    then show ?thesis using Some i 2(5,6) drop_ok[OF 2(4,2)] touch_ttl_ok[OF 2(3,2) c, of "t * per"]
      by (auto simp: expire_in_def split: if_splits)
  qed
qed (use assms in \<open>auto simp: expire_generic_def\<close>)

lemma expire_generic_defined:
  "str2int (cmd ! 2) = Some t \<Longrightarrow> expire_generic per v cmd g = None \<longleftrightarrow> \<not> in_i64 (t * per)"
  by (cases "find_live v (cmd ! 1) g") (auto simp: expire_generic_def exact_i64_def split: option.split)

lemma expireat_generic_ok:
  assumes "g_ok {} g" "fits v 1 g" "expireat_generic per v cmd g = Some (g', rs)"
  shows "g_ok {} g' \<and>
    (case str2int (cmd ! 2) of
       None \<Rightarrow> live v g' = live v g \<and> rs = [RErr ''ERR invalid expire time'']
     | Some t \<Rightarrow> in_i64 (t * per) \<and>
         (case live v g (cmd ! 1) of
            None \<Rightarrow> live v g' = live v g \<and> rs = [RInt 0]
          | Some (w, d) \<Rightarrow> in_i64 (t * per - sint (wall v)) \<and>
              live v g' = expire_in v (t * per - sint (wall v)) (cmd ! 1) w (live v g) \<and> rs = [RInt 1]))"
proof (cases "str2int (cmd ! 2)")
  case (Some t)
  define left where "left = t * per - sint (wall v)"
  obtain g1 r where f: "find_live v (cmd ! 1) g = (g1, r)" by fastforce
  have c: "card (dom (ents g1)) \<le> 2 ^ 60"
    using fits_card[OF assms(2)] card_mono[OF g_okD(8)[OF assms(1)] find_live_ok(5)[OF assms(1) f]] by simp
  have i: "in_i64 (t * per)" using assms(3) Some by (cases "in_i64 (t * per)") (simp_all add: expireat_generic_def exact_i64_simps)
  from assms(1) f show ?thesis
  proof (cases rule: find_any)
    case 1
    then show ?thesis using assms(3) Some f i by (auto simp: expireat_generic_def Let_def exact_i64_simps)
  next
    case (2 a)
    have l: "in_i64 left" using assms(3) Some f 2(1) i
      by (cases "in_i64 left") (simp_all add: expireat_generic_def Let_def exact_i64_simps flip: left_def)
    have "(g', rs) = (if left \<le> 0 then (wrote 1 (drop_entry v a g1), [RInt 1]) else (wrote 1 (set_ttl v a left g1), [RInt 1]))"
      using assms(3) Some f 2(1) i l by (auto simp: expireat_generic_def Let_def exact_i64_simps simp flip: left_def split: if_splits)
    then show ?thesis using Some i l 2(5,6) drop_ok[OF 2(4,2)] touch_ttl_ok[OF 2(3,2) c, of left]
      by (auto simp: expire_in_def simp flip: left_def split: if_splits)
  qed
qed (use assms in \<open>auto simp: expireat_generic_def\<close>)

lemma do_persist_ok:
  assumes "g_ok {} g" "fits v 1 g" "do_persist v cmd g = (g', rs)"
  shows "g_ok {} g' \<and>
    (case live v g (cmd ! 1) of
       Some (w, Some d) \<Rightarrow> live v g' = (live v g)(cmd ! 1 \<mapsto> (w, None)) \<and> rs = [RInt 1]
     | _ \<Rightarrow> live v g' = live v g \<and> rs = [RInt 0])"
proof -
  obtain g1 r where f: "find_live v (cmd ! 1) g = (g1, r)" by fastforce
  have c: "card (dom (ents g1)) \<le> 2 ^ 60"
    using fits_card[OF assms(2)] card_mono[OF g_okD(8)[OF assms(1)] find_live_ok(5)[OF assms(1) f]] by simp
  from assms(1) f show ?thesis
  proof (cases rule: find_any)
    case 1
    then show ?thesis using assms(3) f by (auto simp: do_persist_def)
  next
    case (2 a)
    have "(g', rs) = (if ttl_of (heap g1) a = None then (g1, [RInt 0]) else (wrote 1 (set_ttl v a (- 1) g1), [RInt 1]))"
      using assms(3) f 2(1,7) by (simp add: do_persist_def)
    then show ?thesis using 2(3,5,6) touch_ttl_ok[OF 2(3,2) c, of "- 1"] by (auto split: if_splits option.splits)
  qed
qed

section \<open>Renaming\<close>

lemma put_key_simps:
  "ents (put_ent a (\<lambda>e. e\<lparr>ekey := f e\<rparr>) g) = (ents g)(a := map_option (\<lambda>e. e\<lparr>ekey := f e\<rparr>) (ents g a))"
  "db (put_ent a h g) = db g" "heap (put_ent a h g) = heap g" "next_addr (put_ent a h g) = next_addr g"
  "used_memory (put_ent a h g) = used_memory g"
  by (simp_all add: put_ent_def)

lemma rename_move_ok:
  assumes ok: "g_ok {} g" and a: "at v g src a" and free: "index g dst = None"
    and room: "card (dom (ents g)) \<le> 2 ^ 60"
  shows "g_ok {} (rename_move a dst g) \<and>
    live v (rename_move a dst g) = (live v g)(src := None, dst := live v g src)"
proof -
  note d = g_okD[OF ok]
  have ix: "index g src = Some a" "\<not> expired v g a" using a by (auto simp: at_def)
  have ad: "a \<in> dom (ents g)" "key_at g a = src" using ix g_ok_index[OF ok] by auto
  have sd: "src \<noteq> dst" using free ix by auto
  obtain m where m: "db_unlink a g = g\<lparr>db := m\<rparr>" "sk_wf (key_at g) m" "sk_payloads (db g) = add_mset a (sk_payloads m)"
    by (rule db_unlink_ok[OF ok ad(1)])
  let ?f = "\<lambda>e. e\<lparr>ekey := str_assign (ekey e) dst\<rparr>"
  define g1 where "g1 = put_ent a ?f (g\<lparr>db := m\<rparr>)"
  define g2 where "g2 = db_insert a g1"
  have res: "rename_move a dst g = mem_reaccount a g2" by (simp add: rename_move_def m(1) g1_def g2_def Let_def)
  obtain e where e: "ents g a = Some e" using ad(1) by blast
  have ents1: "ents g2 = (ents g)(a \<mapsto> ?f e)" and
    f: "heap g2 = heap g" "next_addr g2 = next_addr g" "used_memory g2 = used_memory g" "db g2 = sk_insert (key_at g2) m a"
  proof -
    show "ents g2 = (ents g)(a \<mapsto> ?f e)" "heap g2 = heap g" "next_addr g2 = next_addr g" "used_memory g2 = used_memory g"
      using e by (simp_all add: g2_def g1_def db_insert_def put_ent_def)
    have "key_at g2 = key_at g1" by (simp add: g2_def db_insert_def key_at_def ent_at_def fun_eq_iff)
    then show "db g2 = sk_insert (key_at g2) m a" by (simp add: g2_def db_insert_def) (simp add: g1_def put_ent_def)
  qed
  have ea: "ent_at g2 b = (if b = a then ?f (ent_at g a) else ent_at g b)" for b using e by (simp add: ent_at_def ents1)
  have va: "val_at g2 = val_at g" by (auto simp: val_at_def ea)
  have ka: "key_at g2 b = (if b = a then dst else key_at g b)" for b by (simp add: key_at_def ea cstr_simps)
  have dm: "dom (ents g2) = dom (ents g)" using ad(1) by (auto simp: ents1)
  have "a \<notin># sk_payloads m" using sk_unique[OF d(1), of a] m(3) by (simp add: not_in_iff)
  then have ane: "b \<noteq> a" if "b \<in># sk_payloads m" for b using that by auto
  have kc: "key_at g b = key_at g2 b" if "b \<in># sk_payloads m" for b using ane[OF that] ka by simp
  have wf: "sk_wf (key_at g2) m" using sk_key_cong(1)[of m "key_at g" "key_at g2"] kc m(2) by blast
  have mm: "size (sk_payloads m) < 2 ^ 60" using room m(3) g_ok_size[OF ok] by simp
  have rm: "hm_room m" using mm by (simp add: hm_room_def sk_payloads_def)
  have mn: "sk_map (key_at g2) m (key_at g2 a) = None"
  proof (cases "sk_map (key_at g2) m dst")
    case (Some b)
    then have "b \<in># sk_payloads m" "key_at g2 b = dst" using sk_map_iff[OF wf] by auto
    then have "b \<in> dom (ents g)" "key_at g b = dst" using d(2) m(3) kc by auto
    then show ?thesis using index_key[OF ok, of b] free by simp
  qed (simp add: ka)
  note ins = sk_insert_ok[OF wf rm mn, folded f(4)]
  have pl: "set_mset (sk_payloads (db g2)) = dom (ents g)" using ins m(3) d(2) by auto
  have us: "used_memory g = (\<Sum>b \<in> dom (ents g). emem (ent_at g2 b))"
    unfolding d(9) by (intro sum.cong) (simp_all add: ea)
  have ac: "emem (ent_at g2 b) = entry_mem_usage (ent_at g2 b)" if "b \<in> dom (ents g)" "b \<notin> {a}" for b
    using that d(10) by (simp add: ea)
  have ok2: "g_ok {a} g2"
    by (rule g_okI, unfold dm f(1,2,3) va) (fact conjunct1[OF ins] pl d us ac)+
  have ix2: "index g2 = (index g)(src := None, dst \<mapsto> a)"
  proof (rule map_eqI_Some)
    fix j c
    show "index g2 j = Some c \<longleftrightarrow> ((index g)(src := None, dst \<mapsto> a)) j = Some c"
      using g_ok_index[OF ok2, of j c] g_ok_index[OF ok, of j c] ad free sd ix(1) unfolding dm ka by (cases "c = a") auto
  qed
  have ad2: "a \<in> dom (ents g2)" using ad dm by simp
  note mr = mem_reaccount_ok[OF ok2 ad2]
  have ex: "expired v g2 = expired v g" by (simp add: expired_def fun_eq_iff f)
  have "live v g2 = (live v g)(src := None, dst := live v g src)"
    unfolding live_def ix2 ex va f using ix sd by (auto simp: fun_eq_iff)
  then show ?thesis unfolding res using mr(1) mr(5)[of v] by simp
qed

text \<open>A lookup moves no other live entry.\<close>

lemma find_live_at:
  assumes ok: "g_ok S g" and r: "find_live v k g = (g', r)" and a: "at v g j a"
  shows "at v g' j a"
proof -
  obtain g1 n where l: "db_lookup k g = (g1, n)" by fastforce
  note ll = db_lookup_ok[OF ok l]
  have a1: "at v g1 j a" using a ll by (simp add: at_def)
  show ?thesis
  proof (cases n)
    case None
    then show ?thesis using r l a1 by (auto simp: find_live_def)
  next
    case (Some b)
    have ib: "index g1 k = Some b" using ll Some by simp
    obtain g2 x where e: "expire_if_needed v b g1 = (g2, x)" by fastforce
    note ee = expire_if_needed_ok[OF ll(1) ib e]
    have g2: "g' = g2" using r l Some e by (auto simp: find_live_def)
    show ?thesis
    proof (cases x)
      case True
      then have eb: "expired v g1 b" using ee(2) by simp
      then have ab: "a \<noteq> b" using a1 by (auto simp: at_def)
      have jk: "j \<noteq> k" using a1 ib ab by (auto simp: at_def)
      let ?n = "emit (E_Notify NOTIFY_EXPIRED ''expired'' (key_at g1 b)) g1"
      have okn: "g_ok S ?n" "index ?n k = Some b"
        using ll(1) ib by (simp_all add: core_g_ok[OF core_simps(4)] core_same[OF core_simps(4)])
      have "g2 = drop_entry v b ?n" using e True by (auto simp: expire_if_needed_def Let_def split: if_splits)
      then show ?thesis
        using g2 a1 ab jk drop_entry_ok(4,6)[OF okn, where v = v] by (simp add: at_def expired_def core_same[OF core_simps(4)])
    next
      case False
      then show ?thesis using g2 ee(4) a1 by simp
    qed
  qed
qed

definition rename_spec :: "string \<Rightarrow> string \<Rightarrow> bool \<Rightarrow> (string \<Rightarrow> 'b option) \<Rightarrow> (string \<Rightarrow> 'b option) \<times> int" where
  "rename_spec src dst nx m =
     (if m src = None then (m, - 1)
      else if nx \<and> m dst \<noteq> None then (m, 0)
      else (m(src := None, dst := m src), 1))"

lemma rename_key_ok:
  assumes ok: "g_ok {} g" and fits: "fits v 1 g" and r: "rename_key v src dst nx g = (g', rc)"
  shows "g_ok {} g' \<and> rename_spec src dst nx (live v g) = (live v g', rc)"
proof -
  obtain g1 n where f: "find_live v src g = (g1, n)" by fastforce
  have c1: "card (dom (ents g1)) \<le> 2 ^ 60"
    using fits_card[OF fits] card_mono[OF g_okD(8)[OF ok] find_live_ok(5)[OF ok f]] by simp
  from ok f show ?thesis
  proof (cases rule: find_any)
    case 1
    then show ?thesis using r f by (auto simp: rename_key_def rename_spec_def)
  next
    case (2 a)
    show ?thesis
    proof (cases "src = dst")
      case True
      have "(g', rc) = (g1, if nx then 0 else 1)" using r f 2(1) True by (simp add: rename_key_def)
      then show ?thesis using 2 True by (auto simp: rename_spec_def fun_upd_idem)
    next
      case False
      obtain g2 n2 where f2: "find_live v dst g1 = (g2, n2)" by fastforce
      have run: "(g', rc) = (case n2 of None \<Rightarrow> (rename_move a dst g2, 1)
          | Some d \<Rightarrow> if nx then (g2, 0) else (rename_move a dst (drop_entry v d g2), 1))"
        using r f f2 2(1) False by (simp add: rename_key_def split: option.splits)
      have fd: "dom (ents g2) \<subseteq> dom (ents g1)" by (rule find_live_ok(5)[OF 2(3) f2])
      have c2: "card (dom (ents g2)) \<le> 2 ^ 60" using c1 card_mono[OF g_okD(8)[OF 2(3)] fd] by simp
      have at2: "at v g2 src a" by (rule find_live_at[OF 2(3) f2 2(2)])
      from 2(3) f2 show ?thesis
      proof (cases rule: find_any)
        case n: 1
        have "(g', rc) = (rename_move a dst g2, 1)" using run n(1) by simp
        then show ?thesis using rename_move_ok[OF n(3) at2 n(5) c2] 2(5,6) n(2,4) by (auto simp: rename_spec_def)
      next
        case d: (2 b)
        note dr = drop_entry_ok[OF d(3), of dst b, where v = v]
        have ib: "index g2 dst = Some b" using d(2) by (simp add: at_def)
        have ab: "a \<noteq> b" using at_addr[OF d(3) d(2)] at_addr[OF d(3) at2] False by auto
        let ?g = "drop_entry v b g2"
        have at3: "at v ?g src a" using at2 dr(4,6)[OF ib] ab False by (auto simp: at_def expired_def)
        have fr: "index ?g dst = None" using dr(4)[OF ib] by simp
        have c3: "card (dom (ents ?g)) \<le> 2 ^ 60"
          using c2 card_mono[OF g_okD(8)[OF d(3)], of "dom (ents ?g)"] dr(3)[OF ib] by auto
        have lv: "live v ?g = (live v g)(dst := None)" using dr(2)[OF ib, of v] d(5) 2(5) by simp
        note mv = rename_move_ok[OF dr(1)[OF ib] at3 fr c3, unfolded lv]
        have "(g', rc) = (if nx then (g2, 0) else (rename_move a dst ?g, 1))" using run d(1) by simp
        then show ?thesis using mv 2(5,6) d(3,5,6) False by (auto simp: rename_spec_def fun_eq_iff split: if_splits)
      qed
    qed
  qed
qed

lemma do_rename_ok:
  assumes "g_ok {} g" "fits v 1 g" "do_rename v cmd g = (g', rs)"
  shows "g_ok {} g' \<and> (live v g', rs) =
    (case rename_spec (cmd ! 1) (cmd ! 2) False (live v g) of
       (m, rc) \<Rightarrow> (m, if rc = - 1 then [RErr ''ERR no such key''] else [ROk]))"
proof -
  obtain g1 rc where r: "rename_key v (cmd ! 1) (cmd ! 2) False g = (g1, rc)" by fastforce
  show ?thesis using rename_key_ok[OF assms(1,2) r] assms(3) r by (auto simp: do_rename_def split: if_splits)
qed

lemma do_renamenx_ok:
  assumes "g_ok {} g" "fits v 1 g" "do_renamenx v cmd g = (g', rs)"
  shows "g_ok {} g' \<and> (live v g', rs) =
    (case rename_spec (cmd ! 1) (cmd ! 2) True (live v g) of
       (m, rc) \<Rightarrow> (m, if rc = - 1 then [RErr ''ERR no such key''] else [RInt rc]))"
proof -
  obtain g1 rc where r: "rename_key v (cmd ! 1) (cmd ! 2) True g = (g1, rc)" by fastforce
  show ?thesis using rename_key_ok[OF assms(1,2) r] assms(3) r by (auto simp: do_renamenx_def split: if_splits)
qed

section \<open>Enumeration and inspection\<close>

lemma glob_filter_exact:
  "glob_filter p ss = Some r \<Longrightarrow> r = filter (glob_spec p) ss"
  by (induction ss arbitrary: r) (auto simp: glob_match_exact split: option.splits if_splits)

lemma g_ok_hm_size: "g_ok S g \<Longrightarrow> hm_size (db g) = card (dom (ents g))"
  using g_ok_size[of S g] hm_size_ok[OF g_okD(7), of S g] by (simp add: sk_payloads_def)

lemma g_ok_keys: "g_ok S g \<Longrightarrow> distinct (map (key_at g) (sk_nodes (db g))) \<and> set (map (key_at g) (sk_nodes (db g))) = dom (index g)"
  using g_okD(1)[of S g] g_ok_nodes[of S g] g_ok_index[of S g] by (auto simp: sk_wf_def image_iff)

lemma g_ok_nodes_size: "g_ok S g \<Longrightarrow> length (sk_nodes (db g)) = hm_size (db g)"
  using g_ok_nodes[of S g] g_ok_hm_size[of S g] distinct_card[of "sk_nodes (db g)"] by simp

text \<open>In a consistent state the sum over all entries is the counter.\<close>

lemma mem_sweep_ok: "g_ok {} g \<Longrightarrow> mem_sweep g = used_memory g"
proof -
  assume ok: "g_ok {} g"
  note d = g_okD[OF ok] and n = g_ok_nodes[OF ok]
  have "mem_sweep g = (\<Sum>a \<in> dom (ents g). entry_mem_usage (ent_at g a))"
    unfolding mem_sweep_def using n by (metis sum_list_distinct_conv_sum_set)
  also have "\<dots> = used_memory g" unfolding d(9) using d(10) by (intro sum.cong) auto
  finally show ?thesis .
qed

lemma do_memory_ok:
  assumes "g_ok {} g" "do_memory v cmd g = Some (g', rs)"
  shows "g_ok {} g' \<and> live v g' = live v g"
proof -
  obtain g1 r where f: "find_live v (cmd ! 2) g = (g1, r)" by fastforce
  from assms(1) f show ?thesis
    by (cases rule: find_any) (use assms f in \<open>auto simp: do_memory_def Let_def split: if_splits\<close>)
qed

lemma do_object_ok:
  assumes "g_ok {} g" "do_object v cmd g = (g', rs)"
  shows "g_ok {} g' \<and> live v g' = live v g"
proof -
  obtain g1 r where f: "find_live v (cmd ! 2) g = (g1, r)" by fastforce
  from assms(1) f show ?thesis
    by (cases rule: find_any) (use assms f in \<open>auto simp: do_object_def Let_def split: if_splits\<close>)
qed

lemma randomkey_loop_ok:
  "randomkey_loop v as n k g = (g', k') \<Longrightarrow>
   core g' = core g \<and>
   ((\<forall>i j. 0 < i \<longrightarrow> rnd v j i < i) \<longrightarrow> (if n = 0 then as \<noteq> [] else k \<in> K) \<longrightarrow> key_at g ` set as \<subseteq> K \<longrightarrow> k' \<in> K)"
proof (induction v as n k g rule: randomkey_loop.induct)
  case (2 v a as n k g)
  let ?g = "g\<lparr>draws := draws g + 1\<rparr>" and ?i = "rnd v (draws g) (n + 1)"
  have ka: "key_at ?g = key_at g" "core ?g = core g" by (simp_all add: key_at_def ent_at_def fun_eq_iff core_def)
  have r: "randomkey_loop v as (n + 1) (if ?i = 0 then key_at g a else k) ?g = (g', k')"
    using 2(2) ka by (auto simp: rand_idx_def split: if_splits)
  have ih: "core g' = core g" and sel: "(\<forall>i j. 0 < i \<longrightarrow> rnd v j i < i) \<Longrightarrow> (if ?i = 0 then key_at g a else k) \<in> K \<Longrightarrow>
      key_at g ` set as \<subseteq> K \<Longrightarrow> k' \<in> K"
    using 2(1)[of "(?i, ?g)" ?i ?g, unfolded ka] r ka(2) by (auto simp: rand_idx_def)
  show ?case
  proof (intro conjI impI)
    assume b: "\<forall>i j. 0 < i \<longrightarrow> rnd v j i < i" and k: "if n = 0 then a # as \<noteq> [] else k \<in> K" and s: "key_at g ` set (a # as) \<subseteq> K"
    have "?i = 0" if "n = 0" using b that by (metis less_one zero_less_one add_0)
    then show "k' \<in> K" using sel[OF b] k s by (auto split: if_splits)
  qed (fact ih)
qed auto

lemma do_randomkey_ok:
  assumes ok: "g_ok {} g" and r: "do_randomkey v cmd g = (g', rs)"
  shows "g_ok {} g' \<and> live v g' = live v g \<and>
    ((\<forall>i j. 0 < i \<longrightarrow> rnd v j i < i) \<longrightarrow> (if index g = Map.empty then rs = [RNil] else \<exists>k \<in> dom (index g). rs = [RStr k]))"
proof (cases "hm_size (db g) = 0")
  case True
  then have "dom (ents g) = {}" using g_ok_hm_size[OF ok] g_okD(8)[OF ok] by simp
  then have "index g k \<noteq> Some a" for k a using g_ok_index[OF ok, of k a] by simp
  then have "index g = Map.empty" by (intro ext) (metis not_Some_eq)
  then show ?thesis using True r ok by (auto simp: do_randomkey_def)
next
  case False
  obtain g1 k where l: "randomkey_loop v (sk_nodes (db g)) 0 [] g = (g1, k)" by fastforce
  have ne: "sk_nodes (db g) \<noteq> []" using False g_ok_nodes_size[OF ok] by auto
  then have "index g \<noteq> Map.empty" using g_ok_keys[OF ok] by auto
  moreover note randomkey_loop_ok[OF l, of "dom (index g)"]
  ultimately show ?thesis using l False r ok ne g_ok_keys[OF ok] core_same[of g1 g] core_g_ok[of g1 g]
    by (auto simp: do_randomkey_def)
qed

section \<open>Properties\<close>

text \<open>
  C20. A rename moves the value with its deadline and replaces whatever the destination held; the form with
  \<open>nx\<close> refuses an occupied destination. The result code is the one of \<open>rename_spec\<close> and the state stays
  consistent.
\<close>

theorem rename_refines:
  assumes "g_ok {} g" and "fits v 1 g"
  shows "g_ok {} (fst (rename_key v src dst nx g)) \<and>
    rename_spec src dst nx (live v g) = (live v (fst (rename_key v src dst nx g)), snd (rename_key v src dst nx g))"
  using rename_key_ok[OF assms prod.collapse[symmetric]] .

theorem rename_refines_witness:
  "g_ok {} (g_one :: nat gdata) \<and> fits env_start 1 (g_one :: nat gdata) \<and>
   live env_start (fst (rename_key env_start ''a'' ''b'' True (g_one :: nat gdata))) = [''b'' \<mapsto> (AStr ''1'', None)] \<and>
   snd (rename_key env_start ''a'' ''b'' True (g_one :: nat gdata)) = 1"
  using rename_refines[of "g_one :: nat gdata" env_start "''a''" "''b''" True] g_one_ok(1,2)[where 's = nat] g_one_ok(3)[of 1, where 's = nat]
  by (auto simp: rename_spec_def fun_eq_iff split: if_splits)

text \<open>In a consistent state \<open>MEMORY DOCTOR\<close> finds the counter equal to the sum over all entries.\<close>

lemma doctor_clean:
  assumes "g_ok {} g" and "lower (cmd ! 1) = ''doctor''"
  shows "do_memory v cmd g =
    Some (g, [RStr (''Can't find any memory problem. used_memory='' @ nat_dec (unat (used_memory g)) @ '' matches a full sweep.'')])"
  using assms mem_sweep_ok[OF assms(1)] by (simp add: do_memory_def doctor_text_def Let_def)

lemma ttl_left_exact:
  assumes "0 < x" "x < 2 ^ 62" "uint (mono v) < 2 ^ 62"
  shows "\<not> gone v (dl_in v x)" "ttl_left per v (mono v + word_of_int x) = (if 1 < per then c_div (i64 (x + per div 2)) per else x)"
proof -
  let ?d = "word_of_int x :: u64"
  have d: "uint ?d = x" using assms(1,2) by (simp add: uint_word_of_int)
  have s: "uint (mono v + ?d) = uint (mono v) + x"
    using assms(2,3) d by (simp add: uint_plus_if_size word_size)
  have lt: "mono v < mono v + ?d" using s assms(1) by (simp add: word_less_alt)
  then show "\<not> gone v (dl_in v x)" using assms(1) by (simp add: gone_def dl_in_def not_le)
  have "sint ?d = x" using assms(1,2) by (simp add: sint_uint uint_word_of_int signed_take_bit_int_eq_self)
  then show "ttl_left per v (mono v + ?d) = (if 1 < per then c_div (i64 (x + per div 2)) per else x)"
    using lt by (simp add: ttl_left_def)
qed

lemma seconds_left: "0 < t \<Longrightarrow> t * 1000 < 2 ^ 62 \<Longrightarrow> c_div (i64 (t * 1000 + 1000 div 2)) 1000 = t"
proof -
  assume t: "0 < t" "t * 1000 < (2 ^ 62 :: int)"
  have "i64 (t * 1000 + 500) = t * 1000 + 500" using t by (simp add: i64_def)
  moreover have "(t * 1000 + 500) div 1000 = t" by simp
  ultimately show ?thesis using t(1) by (simp add: c_div_def)
qed

text \<open>
  C21. \<open>EXPIRE\<close> and \<open>TTL\<close> agree: right after a positive number of seconds small enough not to overflow
  is set on a live key, the time left is that number of seconds, and the value is unchanged.
\<close>

theorem expire_ttl_roundtrip:
  assumes "g_ok {} g" and "fits v 1 g" and "str2int t = Some n" and "0 < n" and "n * 1000 < 2 ^ 62"
    and "uint (mono v) < 2 ^ 62" and "live v g k = Some (w, d)"
  shows "\<exists>g1 g2. do_expire v [c1, k, t] g = Some (g1, [RInt 1]) \<and> do_ttl_seconds v [c2, k] g1 = (g2, [RInt n]) \<and>
    g_ok {} g2 \<and> live v g2 = (live v g)(k \<mapsto> (w, Some (mono v + word_of_int (n * 1000))))"
proof -
  let ?c1 = "[c1, k, t]" and ?c2 = "[c2, k]"
  have x: "0 < n * 1000" using assms(4) by simp
  have i: "in_i64 (n * 1000)" using x assms(5) by (simp add: in_i64_def INT64_MAX_def INT64_MIN_def)
  then have "do_expire v ?c1 g \<noteq> None" using expire_generic_defined[of ?c1 n 1000 v g] assms(3) by (simp add: do_expire_def)
  then obtain g1 r1 where e: "do_expire v ?c1 g = Some (g1, r1)" by auto
  obtain g2 r2 where l: "do_ttl_seconds v ?c2 g1 = (g2, r2)" by fastforce
  note tl = ttl_left_exact[OF x assms(5,6)]
  have g1: "g_ok {} g1" "r1 = [RInt 1]" "live v g1 = (live v g)(k \<mapsto> (w, Some (mono v + word_of_int (n * 1000))))"
    using expire_generic_ok[OF assms(1,2) e[unfolded do_expire_def]] assms(3,7) x tl(1)
    by (auto simp: expire_in_def live_put_def dl_in_def)
  show ?thesis
    using ttl_generic_ok[OF g1(1) l[unfolded do_ttl_seconds_def]] g1(2,3) tl(2)[of 1000] seconds_left[OF assms(4,5)] e l
    by auto
qed

theorem expire_ttl_roundtrip_witness:
  "g_ok {} (g_one :: nat gdata) \<and> fits env_start 1 (g_one :: nat gdata) \<and> str2int ''10'' = Some 10 \<and>
   uint (mono env_start) < 2 ^ 62 \<and> live env_start (g_one :: nat gdata) ''a'' = Some (AStr ''1'', None) \<and>
   (\<exists>g1. do_expire env_start [''expire'', ''a'', ''10''] (g_one :: nat gdata) = Some (g1, [RInt 1]) \<and>
     snd (do_ttl_seconds env_start [''ttl'', ''a''] g1) = [RInt 10])"
proof -
  have p: "str2int ''10'' = Some 10" by (simp add: str2int_def char_eval)
  have m: "uint (mono env_start) < 2 ^ 62" by (simp add: env_start_def)
  have l: "live env_start (g_one :: nat gdata) ''a'' = Some (AStr ''1'', None)" using g_one_ok(2)[where 's = nat] by simp
  have f: "fits env_start 1 (g_one :: nat gdata)" by (rule g_one_ok(3)) simp
  show ?thesis
    using expire_ttl_roundtrip[OF g_one_ok(1) f p _ _ m l, of "''expire''" "''ttl''"] p m l f g_one_ok(1)[where 's = nat]
    by (auto simp: Let_def split_beta)
qed

end
