(* ===== verification/Entry_Type.thy ===== *)
theory Entry_Type
  imports Cmd_Keys
begin

text \<open>
  The interface between a container type and the handlers that work on entries of that type: how the
  container sits in an entry, what it stands for, and the two lookups by their outcome. The command
  theories for lists, hashes, sets and sorted sets interpret it.
\<close>

section \<open>Reading a container\<close>

text \<open>
  A lookup inside a container moves its rehashing forward. The entry then holds another table with the same contents
  and the same accounted size, so that nothing is accounted anew.
\<close>

lemma g_ok_remove:
  "g_ok (insert a S) g \<Longrightarrow> (a \<in> dom (ents g) \<Longrightarrow> emem (ent_at g a) = entry_mem_usage (ent_at g a)) \<Longrightarrow> g_ok S g"
  unfolding g_ok_def by blast

lemma put_val_refresh:
  assumes ok: "g_ok S g" and a: "at v g k a" and w: "val_wf w" "aval w = aval (val_at g a)" "val_mem w = val_mem (val_at g a)"
  shows "g_ok S (put_val a w g)" "live v (put_val a w g) = live v g"
proof -
  note p = put_val_ok[OF ok a w(1)]
  show "live v (put_val a w g) = live v g" using p(4) w(2) at_live[OF a] by (simp add: fun_upd_idem)
  have d: "a \<in> dom (ents g)" using at_addr[OF ok a] by simp
  have e: "ent_at (put_val a w g) a = (ent_at g a)\<lparr>eval := w\<rparr>" using d by (auto simp: put_val_def put_ent_def ent_at_def)
  show "g_ok S (put_val a w g)"
  proof (cases "a \<in> S")
    case True
    then show ?thesis using p(1) by (simp add: insert_absorb)
  next
    case False
    then show ?thesis
      by (intro g_ok_remove[OF p(1)]) (use g_okD(10)[OF ok d False] w(3) in \<open>simp add: e entry_mem_usage_def val_at_def\<close>)
  qed
qed

text \<open>A creating lookup that finds the key changes nothing that is visible.\<close>

lemma lookup_found:
  assumes "g_ok S g" "g_room g" "lookup_entry v k t True False g = (g', LOk a)" "live v g k = Some x"
  shows "g_ok S g'" "live v g' = live v g"
proof -
  have "g_ok S g' \<and> live v g' = live v g" using assms(1,2) _ assms(3)
    by (cases rule: lookup_entry_cases[where v = v]) (use assms(4) in auto)
  then show "g_ok S g'" "live v g' = live v g" by simp_all
qed

section \<open>The interface\<close>

locale entry_type =
  fixes t :: etype
    and con :: "'d \<Rightarrow> 's::linorder evalue"
    and get :: "'s gdata \<Rightarrow> addr \<Rightarrow> 'd"
    and wf :: "'d \<Rightarrow> bool"
    and acon :: "'x \<Rightarrow> 's avalue"
    and abs :: "'d \<Rightarrow> 'x"
    and none :: 'x
  assumes con_type: "vtype (con d) = t"
    and con_wf: "val_wf (con d) \<longleftrightarrow> wf d"
    and con_abs: "aval (con d) = acon (abs d)"
    and get_con: "type_at g a = t \<Longrightarrow> val_at g a = con (get g a)"
    and get_val: "val_at g a = con d \<Longrightarrow> get g a = d"
    and acon_inj: "acon x = acon y \<Longrightarrow> x = y"
    and empty_con: "aval (empty_val t) = acon none"
begin

lemma acon_type: "atype (acon (abs d)) = t"
  using con_abs[of d] con_type[of d] by (metis atype_aval)

lemma ro_cases:
  assumes ok: "g_ok S g" and l: "lookup_entry v k t False False g = (g', r)"
  obtains (missing) "r = LMissing" "live v g k = None" "g_ok S g'" "live v g' = live v g"
  | (wrong) "r = LWrongType" "wrong_type t (live v g k)" "g_ok S g'" "live v g' = live v g"
  | (found) a where "r = LOk a" "at v g' k a" "wf (get g' a)" "g_ok S g'" "live v g' = live v g"
      "live v g k = Some (acon (abs (get g' a)), ttl_of (heap g') a)" "val_at g' a = con (get g' a)"
      "card (dom (ents g')) \<le> card (dom (ents g))"
proof -
  note ll = lookup_ro_ok[OF ok l]
  show thesis
  proof (cases r)
    case (LOk a)
    then have a: "at v g' k a" "type_at g' a = t" using ll(5) by auto
    then have v: "val_at g' a = con (get g' a)" using get_con by simp
    have "wf (get g' a)" using at_val_wf[OF ll(1) a(1)] v con_wf by simp
    moreover have "card (dom (ents g')) \<le> card (dom (ents g))" by (rule card_mono[OF g_okD(8)[OF ok] ll(6)])
    moreover have "live v g k = Some (acon (abs (get g' a)), ttl_of (heap g') a)"
      using at_live[OF a(1)] ll(2) v con_abs by simp
    ultimately show thesis using found[of a] LOk a ll v by simp
  qed (use ll missing wrong in auto)
qed

lemma rw_cases:
  assumes ok: "g_ok {} g" and room: "g_room g" and l: "lookup_entry v k t True False g = (g', r)"
  obtains (wrong) "r = LWrongType" "wrong_type t (live v g k)" "g_ok {} g'" "live v g' = live v g"
  | (fresh) a where "r = LOk a" "at v g' k a" "g_ok {a} g'" "wf (get g' a)" "val_at g' a = con (get g' a)"
      "live v g k = None" "abs (get g' a) = none" "ttl_of (heap g') a = None"
      "\<And>x. (live v g')(k := x) = (live v g)(k := x)"
      "card (dom (ents g')) \<le> Suc (card (dom (ents g)))"
  | (found) a where "r = LOk a" "at v g' k a" "g_ok {a} g'" "wf (get g' a)" "val_at g' a = con (get g' a)"
      "live v g k = Some (acon (abs (get g' a)), ttl_of (heap g') a)"
      "\<And>x. (live v g')(k := x) = (live v g)(k := x)"
      "card (dom (ents g')) \<le> Suc (card (dom (ents g)))"
proof -
  note ll = lookup_rw_ok[OF ok room l]
  show thesis
  proof (cases r)
    case (LOk a)
    note o = ll(4)[OF LOk]
    have v: "val_at g' a = con (get g' a)" using get_con o by simp
    have w: "wf (get g' a)" using at_val_wf[of "{a}" g' v k a] o v con_wf by simp
    have on: "or_new t (live v g k) = (acon (abs (get g' a)), ttl_of (heap g') a)" using o v con_abs by simp
    have up: "(live v g')(k := x) = (live v g)(k := x)" for x using o by simp
    have nw: "\<not> wrong_type t (live v g k)" using ll(2) LOk by simp
    show thesis
    proof (cases "live v g k")
      case None
      have "acon (abs (get g' a)) = acon none" "ttl_of (heap g') a = None" using on None empty_con by (auto simp: or_new_def)
      then show thesis using fresh[of a] LOk o v w up None acon_inj ll(5) by simp
    next
      case (Some p)
      obtain w d where p: "p = (w, d)" by fastforce
      have "or_new t (live v g k) = p" using nw Some p by (simp add: or_new_def wrong_type_def)
      then show thesis using found[of a] LOk o v \<open>wf (get g' a)\<close> up Some on ll(5) by simp
    qed
  qed (use ll wrong in auto)
qed

lemma commit:
  assumes "g_ok {a} g" "at v g k a" "wf d"
  shows "g_ok {} (wrote n (mem_reaccount a (put_val a (con d) g)))"
    "live v (wrote n (mem_reaccount a (put_val a (con d) g))) = (live v g)(k \<mapsto> (acon (abs d), ttl_of (heap g) a))"
  using store_ok[OF assms(1,2), of "con d" n] assms(3) con_wf con_abs by simp_all

lemma refresh:
  assumes "g_ok S g" "at v g k a" "val_at g a = con (get g a)" "wf d" "abs d = abs (get g a)" "val_mem (con d) = val_mem (con (get g a))"
  shows "g_ok S (put_val a (con d) g)" "live v (put_val a (con d) g) = live v g" "at v (put_val a (con d) g) k a"
    "get (put_val a (con d) g) a = d" "ttl_of (heap (put_val a (con d) g)) = ttl_of (heap g)"
    "val_at (put_val a (con d) g) a = con d" "dom (ents (put_val a (con d) g)) = dom (ents g)"
proof -
  have w: "val_wf (con d)" "aval (con d) = aval (val_at g a)" "val_mem (con d) = val_mem (val_at g a)"
    using assms(3-6) con_wf con_abs by simp_all
  show "g_ok S (put_val a (con d) g)" "live v (put_val a (con d) g) = live v g"
    using put_val_refresh[OF assms(1,2) w] by simp_all
  note p = put_val_ok[OF assms(1,2) w(1)]
  show "at v (put_val a (con d) g) k a" "get (put_val a (con d) g) a = d" "ttl_of (heap (put_val a (con d) g)) = ttl_of (heap g)"
    "val_at (put_val a (con d) g) a = con d" "dom (ents (put_val a (con d) g)) = dom (ents g)"
    using p(2,3,5,6) get_val by auto
qed

text \<open>The value is overwritten, or, once empty, left in the entry that is then removed.\<close>

lemma discard:
  assumes "g_ok {a} g" "at v g k a" "wf d"
  shows "g_ok {} (wrote n (drop_entry v a (put_val a (con d) g)))"
    "live v (wrote n (drop_entry v a (put_val a (con d) g))) = (live v g)(k := None)"
proof -
  have w: "val_wf (con d)" using assms(3) con_wf by simp
  note p = put_val_ok[OF assms(1,2) w]
  have ok: "g_ok {a} (put_val a (con d) g)" using p(1) by simp
  show "g_ok {} (wrote n (drop_entry v a (put_val a (con d) g)))"
    "live v (wrote n (drop_entry v a (put_val a (con d) g))) = (live v g)(k := None)"
    using drop_ok[OF ok p(2)] p(4) by simp_all
qed

end

section \<open>Cursor iteration inside a container\<close>

text \<open>The items the callback keeps: \<open>key\<close> is matched, \<open>out\<close> pushed.\<close>

fun scan_items :: "('a \<Rightarrow> string) \<Rightarrow> ('a \<Rightarrow> string list) \<Rightarrow> string option \<Rightarrow> 'a list \<Rightarrow> string list option" where
  "scan_items key out pat [] = Some []"
| "scan_items key out pat (n # ns) =
     (case (case pat of None \<Rightarrow> Some True | Some p \<Rightarrow> glob_match p (key n)) of
        None \<Rightarrow> None
      | Some m \<Rightarrow> map_option (\<lambda>r. if m then out n @ r else r) (scan_items key out pat ns))"

text \<open>\<open>HSCAN\<close> and \<open>SSCAN\<close> differ in the type, the table and the callback.\<close>

definition scan_coll ::
  "etype \<Rightarrow> ('s gdata \<Rightarrow> addr \<Rightarrow> 'a hmap) \<Rightarrow> (string option \<Rightarrow> 'a list \<Rightarrow> string list option) \<Rightarrow>
   env \<Rightarrow> string list \<Rightarrow> 's gdata \<Rightarrow> ('s gdata \<times> 's reply list) option"
where
  "scan_coll t table cb v cmd g =
     (let (g, r) = lookup_entry v (cmd ! 1) t False False g
      in if r = LWrongType then Some (g, [RErr MSG_WRONG])
         else case str2int (cmd ! 2) of
           None \<Rightarrow> Some (g, [RErr ''ERR invalid cursor''])
         | Some cursor \<Rightarrow>
             if cursor < 0 then Some (g, [RErr ''ERR invalid cursor''])
             else case scan_opts (drop 3 cmd) 10 None of
                    Inl e \<Rightarrow> Some (g, [RErr e])
                  | Inr (cnt, pat) \<Rightarrow>
                      (case r of
                         LOk a \<Rightarrow>
                           (let (nxt, nodes) = hm_scan (table g a) (word_of_int cursor) cnt
                            in map_option
                                 (\<lambda>is. (g, [RArr 2, RStr (nat_dec (unat nxt)), RArr (of_nat (length is))] @ map RStr is))
                                 (cb pat (map pay nodes)))
                       | _ \<Rightarrow> Some (g, [RArr 2, RStr ''0'', RArr 0])))"

end
