(* ===== verification/Cmd_List.thy ===== *)
theory Cmd_List
  imports Entry_Type
begin

text \<open>
  The list commands of \<open>commands/commands.cpp\<close> over the ring buffer of \<open>Deque\<close>, with the list of strings
  it stands for as their specification.
\<close>

section \<open>Model\<close>

definition entry_deque :: "'s gdata \<Rightarrow> addr \<Rightarrow> deque" where
  "entry_deque g a = (case val_at g a of VList d \<Rightarrow> d | _ \<Rightarrow> deque_init)"

text \<open>The end of every push: the ring buffer is written back, accounted and its length returned.\<close>

definition push_tail :: "addr \<Rightarrow> deque \<Rightarrow> 's gdata \<Rightarrow> 's gdata \<times> 's reply list" where
  "push_tail a d g = (wrote 1 (mem_reaccount a (put_val a (VList d) g)), [RInt (int (dcount d))])"

definition do_lpush :: "'s handler" where
  "do_lpush v cmd g =
     (let (g, r) = lookup_entry v (cmd ! 1) T_DLIST True False g
      in case r of
           LOk a \<Rightarrow> push_tail a (foldl deque_push_front (entry_deque g a) (drop 2 cmd)) g
         | _ \<Rightarrow> (g, [RErr MSG_WRONG]))"

definition do_rpush :: "'s handler" where
  "do_rpush v cmd g =
     (let (g, r) = lookup_entry v (cmd ! 1) T_DLIST True False g
      in case r of
           LOk a \<Rightarrow> push_tail a (foldl deque_push_back (entry_deque g a) (drop 2 cmd)) g
         | _ \<Rightarrow> (g, [RErr MSG_WRONG]))"

text \<open>An emptied list takes its key with it.\<close>

definition list_tail :: "env \<Rightarrow> addr \<Rightarrow> deque \<Rightarrow> 's gdata \<Rightarrow> 's gdata" where
  "list_tail v a d g =
     wrote 1 (if dcount d = 0 then drop_entry v a (put_val a (VList d) g) else mem_reaccount a (put_val a (VList d) g))"

definition do_lpop :: "'s handler" where
  "do_lpop v cmd g =
     (let (g, r) = lookup_entry v (cmd ! 1) T_DLIST False False g
      in case r of
           LWrongType \<Rightarrow> (g, [RErr MSG_WRONG])
         | LMissing \<Rightarrow> (g, [RNil])
         | LOk a \<Rightarrow>
             (case pop_front_str (entry_deque g a) of
                (d, None) \<Rightarrow> (g, [RNil])
              | (d, Some x) \<Rightarrow> (list_tail v a d g, [RStr x])))"

definition do_rpop :: "'s handler" where
  "do_rpop v cmd g =
     (let (g, r) = lookup_entry v (cmd ! 1) T_DLIST False False g
      in case r of
           LWrongType \<Rightarrow> (g, [RErr MSG_WRONG])
         | LMissing \<Rightarrow> (g, [RNil])
         | LOk a \<Rightarrow>
             (case pop_back_str (entry_deque g a) of
                (d, None) \<Rightarrow> (g, [RNil])
              | (d, Some x) \<Rightarrow> (list_tail v a d g, [RStr x])))"

definition do_llen :: "'s handler" where
  "do_llen v cmd g =
     (let (g, r) = lookup_entry v (cmd ! 1) T_DLIST False False g
      in case r of
           LWrongType \<Rightarrow> (g, [RErr MSG_WRONG])
         | LMissing \<Rightarrow> (g, [RInt 0])
         | LOk a \<Rightarrow> (g, [RInt (int (dcount (entry_deque g a)))]))"

definition elem_str :: "deque \<Rightarrow> nat \<Rightarrow> string" where
  "elem_str d i = (case deque_get d i of Some s \<Rightarrow> chars s | None \<Rightarrow> [])"

definition do_lindex :: "'s handler" where
  "do_lindex v cmd g =
     (let (g, r) = lookup_entry v (cmd ! 1) T_DLIST False False g
      in case r of
           LWrongType \<Rightarrow> (g, [RErr MSG_WRONG])
         | LMissing \<Rightarrow> (g, [RNil])
         | LOk a \<Rightarrow>
             (case str2int (cmd ! 2) of
                None \<Rightarrow> (g, [RErr ''ERR invalid index''])
              | Some idx \<Rightarrow>
                  let d = entry_deque g a;
                      idx = deque_normalize d idx
                  in if idx < 0 \<or> int (dcount d) \<le> idx then (g, [RNil]) else (g, [RStr (elem_str d (nat idx))])))"

text \<open>The bounds \<open>LRANGE\<close> and \<open>LTRIM\<close> compute.\<close>

definition list_bounds :: "deque \<Rightarrow> int \<Rightarrow> int \<Rightarrow> int \<times> int" where
  "list_bounds d start stop =
     (let n = int (dcount d);
          start = deque_normalize d start;
          stop = deque_normalize d stop;
          start = (if start < 0 then 0 else start);
          stop = (if n \<le> stop then n - 1 else stop)
      in (start, stop))"

definition do_lrange :: "'s handler" where
  "do_lrange v cmd g =
     (case (str2int (cmd ! 2), str2int (cmd ! 3)) of
        (Some start, Some stop) \<Rightarrow>
          (let (g, r) = lookup_entry v (cmd ! 1) T_DLIST False False g
           in case r of
                LWrongType \<Rightarrow> (g, [RErr MSG_WRONG])
              | LMissing \<Rightarrow> (g, [RArr 0])
              | LOk a \<Rightarrow>
                  (let d = entry_deque g a;
                       (start, stop) = list_bounds d start stop
                   in if stop < start \<or> int (dcount d) \<le> start then (g, [RArr 0])
                      else (g, RArr (word_of_int (stop - start + 1)) #
                               map (\<lambda>i. RStr (elem_str d i)) [nat start..<Suc (nat stop)])))
      | _ \<Rightarrow> (g, [RErr MSG_NOT_INT]))"

text \<open>Assignment to a slot, the counter moved by the change of its capacity.\<close>

definition slot_set :: "deque \<Rightarrow> nat \<Rightarrow> string \<Rightarrow> deque" where
  "slot_set d idx value =
     (let p = deque_phys d idx;
          s = str_assign (buf d ! p) value
      in d\<lparr>buf := (buf d)[p := s], dbytes := dbytes d - of_nat (scap (buf d ! p)) + of_nat (scap s)\<rparr>)"

definition do_lset :: "'s handler" where
  "do_lset v cmd g =
     (let (g, r) = lookup_entry v (cmd ! 1) T_DLIST False False g
      in case r of
           LWrongType \<Rightarrow> (g, [RErr MSG_WRONG])
         | LMissing \<Rightarrow> (g, [RErr ''ERR no such key''])
         | LOk a \<Rightarrow>
             (case str2int (cmd ! 2) of
                None \<Rightarrow> (g, [RErr ''ERR invalid index''])
              | Some idx \<Rightarrow>
                  let d = entry_deque g a;
                      idx = deque_normalize d idx
                  in if idx < 0 \<or> int (dcount d) \<le> idx then (g, [RErr MSG_OUT_OF_RANGE])
                     else (wrote 1 (mem_reaccount a (put_val a (VList (slot_set d (nat idx) (cmd ! 3))) g)), [ROk])))"

text \<open>\<open>LINSERT\<close> after the pivot was found at \<open>i\<close>; the old capacity of the new slot was counted as nothing.\<close>

definition deque_insert :: "deque \<Rightarrow> nat \<Rightarrow> string \<Rightarrow> deque" where
  "deque_insert d idx value =
     (let d = (if dcount d = dcap d then deque_grow d else d);
          d = deque_open_gap d idx;
          p = deque_phys d idx;
          s = str_assign (buf d ! p) value
      in d\<lparr>buf := (buf d)[p := s], dbytes := dbytes d + of_nat (scap s)\<rparr>)"

definition do_linsert :: "'s handler" where
  "do_linsert v cmd g =
     (let (g, r) = lookup_entry v (cmd ! 1) T_DLIST False False g;
          w = lower (cmd ! 2)
      in case r of
           LWrongType \<Rightarrow> (g, [RErr MSG_WRONG])
         | LMissing \<Rightarrow> (g, [RInt 0])
         | LOk a \<Rightarrow>
             if w \<noteq> ''before'' \<and> w \<noteq> ''after'' then (g, [RErr MSG_SYNTAX])
             else
               let d = entry_deque g a
               in case find (\<lambda>i. elem_str d i = cmd ! 3) [0..<dcount d] of
                    None \<Rightarrow> (g, [RInt (- 1)])
                  | Some i \<Rightarrow> push_tail a (deque_insert d (if w = ''before'' then i else i + 1) (cmd ! 4)) g)"

text \<open>One removal of \<open>LREM\<close>, and its two scans; \<open>removed\<close> counts the removals so far.\<close>

definition lrem_one :: "deque \<Rightarrow> nat \<Rightarrow> deque" where
  "lrem_one d i = deque_close_gap (d\<lparr>dbytes := dbytes d - of_nat (scap (buf d ! deque_phys d i))\<rparr>) i"

fun lrem_back :: "string \<Rightarrow> int \<Rightarrow> nat \<Rightarrow> nat \<Rightarrow> deque \<Rightarrow> deque \<times> nat" where
  "lrem_back value limit 0 removed d = (d, removed)"
| "lrem_back value limit (Suc i) removed d =
     (if elem_str d i = value then
        (let d = lrem_one d i;
             removed = removed + 1
         in if 0 < limit \<and> limit \<le> int removed then (d, removed) else lrem_back value limit i removed d)
      else lrem_back value limit i removed d)"

lemma dcount_lrem_one [simp]: "dcount (lrem_one d i) = dcount d - 1"
  by (simp add: lrem_one_def deque_close_gap_def Let_def)

function lrem_front :: "string \<Rightarrow> int \<Rightarrow> nat \<Rightarrow> nat \<Rightarrow> deque \<Rightarrow> deque \<times> nat" where
  "lrem_front value limit i removed d =
     (if dcount d \<le> i then (d, removed)
      else if elem_str d i = value then
        (let d = lrem_one d i;
             removed = removed + 1
         in if 0 < limit \<and> limit \<le> int removed then (d, removed) else lrem_front value limit i removed d)
      else lrem_front value limit (i + 1) removed d)"
  by auto
termination
  by (relation "measure (\<lambda>(value, limit, i, removed, d). dcount d - i)") auto

declare lrem_front.simps [simp del]

definition do_lrem :: "'s handler" where
  "do_lrem v cmd g =
     (case str2int (cmd ! 2) of
        None \<Rightarrow> (g, [RErr ''ERR invalid count''])
      | Some n \<Rightarrow>
          (let (g, r) = lookup_entry v (cmd ! 1) T_DLIST False False g
           in case r of
                LWrongType \<Rightarrow> (g, [RErr MSG_WRONG])
              | LMissing \<Rightarrow> (g, [RInt 0])
              | LOk a \<Rightarrow>
                  (let d = entry_deque g a;
                       limit = (if n < 0 then i64 (- n) else n);
                       (d, removed) = (if n < 0 then lrem_back (cmd ! 3) limit (dcount d) 0 d
                                       else lrem_front (cmd ! 3) limit 0 0 d);
                       g = put_val a (VList d) g;
                       g = (if dcount d = 0 then drop_entry v a g else if 0 < removed then mem_reaccount a g else g)
                   in (if 0 < removed then wrote 1 g else g, [RInt (int removed)]))))"

text \<open>\<open>LTRIM\<close>: a dropped slot is replaced by a fresh string.\<close>

definition slot_free :: "nat \<Rightarrow> deque \<Rightarrow> deque" where
  "slot_free i d =
     (let p = deque_phys d i
      in d\<lparr>buf := (buf d)[p := str_empty], dbytes := dbytes d - of_nat (scap (buf d ! p))\<rparr>)"

definition deque_trim :: "deque \<Rightarrow> nat \<Rightarrow> nat \<Rightarrow> deque" where
  "deque_trim d start stop =
     (let n = dcount d;
          d = fold slot_free [0..<start] d;
          d = fold slot_free [Suc stop..<n] d
      in d\<lparr>dhead := deque_phys d start, dcount := stop - start + 1\<rparr>)"

definition do_ltrim :: "'s handler" where
  "do_ltrim v cmd g =
     (case (str2int (cmd ! 2), str2int (cmd ! 3)) of
        (Some start, Some stop) \<Rightarrow>
          (let (g, r) = lookup_entry v (cmd ! 1) T_DLIST False False g
           in case r of
                LWrongType \<Rightarrow> (g, [RErr MSG_WRONG])
              | LMissing \<Rightarrow> (g, [ROk])
              | LOk a \<Rightarrow>
                  (let d = entry_deque g a;
                       (start, stop) = list_bounds d start stop
                   in if stop < start \<or> int (dcount d) \<le> start then (wrote 1 (drop_entry v a g), [ROk])
                      else if start = 0 \<and> nat (stop + 1) = dcount d then (g, [ROk])
                      else (wrote 1 (mem_reaccount a (put_val a (VList (deque_trim d (nat start) (nat stop))) g)), [ROk])))
      | _ \<Rightarrow> (g, [RErr MSG_NOT_INT]))"

section \<open>The ring buffer operations\<close>

interpretation dqo: two_ended deque_ok deque_list deque_push_front deque_push_back pop_front_str pop_back_str
proof unfold_locales
  fix q x assume ok: "deque_ok q"
  obtain s where "deque_ok (deque_push_front q x)" "deque_elems (deque_push_front q x) = s # deque_elems q" "chars s = x"
    using deque_push_front_ok[OF ok] by metis
  then show "deque_ok (deque_push_front q x) \<and> deque_list (deque_push_front q x) = x # deque_list q"
    by (simp add: deque_list_def)
  obtain s where "deque_ok (deque_push_back q x)" "deque_elems (deque_push_back q x) = deque_elems q @ [s]" "chars s = x"
    using deque_push_back_ok[OF ok] by metis
  then show "deque_ok (deque_push_back q x) \<and> deque_list (deque_push_back q x) = deque_list q @ [x]"
    by (simp add: deque_list_def)
next
  fix q q' r assume ok: "deque_ok q" and p: "pop_front_str q = (q', r)"
  show "deque_ok q' \<and> (case deque_list q of [] \<Rightarrow> r = None \<and> deque_list q' = [] | x # xs \<Rightarrow> r = Some x \<and> deque_list q' = xs)"
  proof (cases "deque_elems q")
    case Nil
    then have "dcount q = 0" using deque_elems_len[of q] by simp
    then show ?thesis using p ok Nil by (auto simp: deque_pop_front_empty deque_list_def)
  next
    case (Cons x xs)
    from ok Cons show ?thesis by (rule pop_front_str_ok) (use p Cons in \<open>auto simp: deque_list_def\<close>)
  qed
next
  fix q q' r assume ok: "deque_ok q" and p: "pop_back_str q = (q', r)"
  show "deque_ok q' \<and> (if deque_list q = [] then r = None \<and> deque_list q' = []
      else r = Some (last (deque_list q)) \<and> deque_list q' = butlast (deque_list q))"
  proof (cases "deque_elems q" rule: rev_cases)
    case Nil
    then have "dcount q = 0" using deque_elems_len[of q] by simp
    then show ?thesis using p ok Nil by (auto simp: deque_pop_back_empty deque_list_def)
  next
    case (snoc xs x)
    from ok snoc show ?thesis by (rule pop_back_str_ok) (use p snoc in \<open>auto simp: deque_list_def\<close>)
  qed
qed

lemma elem_str_nth: "i < dcount d \<Longrightarrow> elem_str d i = deque_list d ! i"
  by (simp add: elem_str_def deque_get_ok deque_list_def)

text \<open>Assignments to the byte counter and to one slot.\<close>

lemma deque_bytes_upd [simp]:
  "deque_ok (d\<lparr>dbytes := x\<rparr>) = deque_ok d" "deque_list (d\<lparr>dbytes := x\<rparr>) = deque_list d"
  "deque_phys (d\<lparr>dbytes := x\<rparr>) = deque_phys d" "deque_phys (d\<lparr>buf := b\<rparr>) = deque_phys d"
  by (simp_all add: deque_ok_def deque_list_def deque_elems_def deque_phys_def fun_eq_iff)

lemma slot_upd_ok:
  assumes ok: "deque_ok d" and i: "i < dcap d"
  shows "deque_ok (d\<lparr>buf := (buf d)[deque_phys d i := s]\<rparr>)"
    "deque_list (d\<lparr>buf := (buf d)[deque_phys d i := s]\<rparr>) =
       (if i < dcount d then (deque_list d)[i := chars s] else deque_list d)"
proof -
  let ?e = "d\<lparr>buf := (buf d)[deque_phys d i := s]\<rparr>"
  have c: "0 < dcap d" "length (buf d) = dcap d" "dcount d \<le> dcap d" using ok i by (auto simp: deque_ok_def)
  show "deque_ok ?e" using ok by (auto simp: deque_ok_def)
  have lt: "deque_phys d j < dcap d" for j using c deque_phys_mod[OF ok c(1)] by simp
  have eq: "deque_phys d j = deque_phys d i \<longleftrightarrow> j = i" if "j < dcap d" for j
    using that i ring_inj[of j "dcap d" i "dhead d"] deque_phys_mod[OF ok c(1)] by auto
  show "deque_list ?e = (if i < dcount d then (deque_list d)[i := chars s] else deque_list d)"
  proof (rule nth_equalityI)
    fix j assume "j < length (deque_list ?e)"
    then have j: "j < dcount d" "j < dcap d" using c(3) by simp_all
    have "deque_list ?e ! j = chars ((buf d)[deque_phys d i := s] ! deque_phys d j)"
      using j(1) by (simp add: deque_list_def deque_elems_def)
    also have "\<dots> = (if j = i then chars s else deque_list d ! j)"
      using j eq[OF j(2)] lt[of i] c(2) by (auto simp: nth_list_update deque_list_def deque_elems_nth)
    finally show "deque_list ?e ! j = (if i < dcount d then (deque_list d)[i := chars s] else deque_list d) ! j"
      using j by (auto simp: nth_list_update)
  qed simp
qed

lemma slot_set_ok:
  assumes ok: "deque_ok d" and i: "i < dcount d"
  shows "deque_ok (slot_set d i x)" "deque_list (slot_set d i x) = (deque_list d)[i := x]"
proof -
  have c: "i < dcap d" using ok i by (auto simp: deque_ok_def)
  show "deque_ok (slot_set d i x)" "deque_list (slot_set d i x) = (deque_list d)[i := x]"
    using slot_upd_ok[OF ok c, of "str_assign (buf d ! deque_phys d i) x"] i
    by (simp_all add: slot_set_def Let_def cstr_simps)
qed

lemma deque_insert_ok:
  assumes ok: "deque_ok d" and i: "i \<le> dcount d"
  shows "deque_ok (deque_insert d i x)" "deque_list (deque_insert d i x) = take i (deque_list d) @ x # drop i (deque_list d)"
proof -
  define d1 where "d1 = (if dcount d = dcap d then deque_grow d else d)"
  note r = deque_room[OF ok d1_def]
  define e where "e = deque_open_gap d1 i"
  have i1: "dcount d1 < dcap d1" "i \<le> dcount d1" using r i by auto
  have l1: "deque_list d1 = deque_list d" using r by (simp add: deque_list_def)
  note o = deque_open_gap_ok[OF conjunct1[OF r] i1, folded e_def]
  have ce: "i < dcap e" using o(1,2) i1 by (auto simp: deque_ok_def)
  have ic: "i < dcount e" using o(2) i1 by simp
  note s = slot_upd_ok[OF o(1) ce, of "str_assign (buf e ! deque_phys e i) x"]
  have ins: "deque_insert d i x = e\<lparr>buf := (buf e)[deque_phys e i := str_assign (buf e ! deque_phys e i) x],
      dbytes := dbytes e + of_nat (scap (str_assign (buf e ! deque_phys e i) x))\<rparr>"
    by (simp add: deque_insert_def Let_def flip: d1_def e_def)
  show "deque_ok (deque_insert d i x)" using s(1) by (simp add: ins)
  have "deque_list (deque_insert d i x) = (deque_list e)[i := x]" using s(2) ic by (simp add: ins cstr_simps)
  also have "\<dots> = take i (deque_list d) @ x # drop i (deque_list d)"
  proof (rule nth_equalityI)
    show "length ((deque_list e)[i := x]) = length (take i (deque_list d) @ x # drop i (deque_list d))"
      using o(2) r i by simp
    fix j assume "j < length ((deque_list e)[i := x])"
    then have j: "j < Suc (dcount d)" using o(2) r by simp
    show "(deque_list e)[i := x] ! j = (take i (deque_list d) @ x # drop i (deque_list d)) ! j"
      using o(4)[of j] o(5)[of "j - 1"] i j ic r l1 by (auto simp: nth_list_update nth_append nth_Cons')
  qed
  finally show "deque_list (deque_insert d i x) = take i (deque_list d) @ x # drop i (deque_list d)" .
qed

text \<open>The list without the first \<open>n\<close> occurrences of an element, and without the last \<open>n\<close>.\<close>

fun drop_occ :: "'a \<Rightarrow> nat \<Rightarrow> 'a list \<Rightarrow> 'a list" where
  "drop_occ x 0 ys = ys"
| "drop_occ x (Suc n) [] = []"
| "drop_occ x (Suc n) (y # ys) = (if y = x then drop_occ x n ys else y # drop_occ x (Suc n) ys)"

definition rdrop_occ :: "'a \<Rightarrow> nat \<Rightarrow> 'a list \<Rightarrow> 'a list" where
  "rdrop_occ x n ys = rev (drop_occ x n (rev ys))"

lemma drop_occ_Nil [simp]: "drop_occ x n [] = []"
  by (cases n) auto

lemma drop_occ_Cons: "0 < n \<Longrightarrow> drop_occ x n (y # ys) = (if y = x then drop_occ x (n - 1) ys else y # drop_occ x n ys)"
  by (cases n) auto

lemma rdrop_occ_snoc:
  "0 < n \<Longrightarrow> rdrop_occ x n (ys @ [y]) = (if y = x then rdrop_occ x (n - 1) ys else rdrop_occ x n ys @ [y])"
  by (simp add: rdrop_occ_def drop_occ_Cons)

lemma drop_occ_len: "length (drop_occ x n ys) + min n (count_list ys x) = length ys"
  by (induction x n ys rule: drop_occ.induct) auto

text \<open>How many occurrences a scan may still remove.\<close>

definition quota :: "int \<Rightarrow> nat \<Rightarrow> 'a \<Rightarrow> 'a list \<Rightarrow> nat" where
  "quota limit removed x ys = (if 0 < limit then nat (limit - int removed) else count_list ys x)"

lemma lrem_one_ok:
  assumes "deque_ok d" "i < dcount d"
  shows "deque_ok (lrem_one d i) \<and> deque_list (lrem_one d i) = take i (deque_list d) @ drop (Suc i) (deque_list d)"
  using deque_close_gap_ok[of "d\<lparr>dbytes := dbytes d - of_nat (scap (buf d ! deque_phys d i))\<rparr>" i] assms
  by (simp add: lrem_one_def)

lemma lrem_front_ok:
  "deque_ok d \<Longrightarrow> i \<le> dcount d \<Longrightarrow> \<not> (0 < limit \<and> limit \<le> int r) \<Longrightarrow> lrem_front x limit i r d = (d', r') \<Longrightarrow>
   deque_ok d' \<and>
   deque_list d' = take i (deque_list d) @ drop_occ x (quota limit r x (drop i (deque_list d))) (drop i (deque_list d)) \<and>
   r' = r + min (quota limit r x (drop i (deque_list d))) (count_list (drop i (deque_list d)) x)"
proof (induction x limit i r d rule: lrem_front.induct)
  case (1 x limit i r d)
  let ?l = "deque_list d"
  show ?case
  proof (cases "dcount d \<le> i")
    case True
    then show ?thesis using 1(3-6) by (auto simp: lrem_front.simps[of x limit i r d])
  next
    case False
    then have i: "i < dcount d" by simp
    have dr: "drop i ?l = ?l ! i # drop (Suc i) ?l" using i by (simp add: Cons_nth_drop_Suc)
    have q: "0 < quota limit r x (?l ! i # drop (Suc i) ?l)" if "?l ! i = x" using 1(5) that by (auto simp: quota_def)
    show ?thesis
    proof (cases "elem_str d i = x")
      case True
      then have xi: "?l ! i = x" using elem_str_nth[OF i] by simp
      note o = lrem_one_ok[OF 1(3) i]
      have tk: "take i (deque_list (lrem_one d i)) = take i ?l" "drop i (deque_list (lrem_one d i)) = drop (Suc i) ?l"
        using o i by simp_all
      show ?thesis
      proof (cases "0 < limit \<and> limit \<le> int (r + 1)")
        case stop: True
        have "(d', r') = (lrem_one d i, r + 1)" using 1(6) False True stop by (simp add: lrem_front.simps[of x limit i r d] Let_def)
        moreover have "quota limit r x (drop i ?l) = 1" using stop 1(5) by (auto simp: quota_def)
        ultimately show ?thesis using o dr xi by simp
      next
        case go: False
        have run: "lrem_front x limit i (r + 1) (lrem_one d i) = (d', r')"
          using 1(6) False True go by (auto simp: lrem_front.simps[of x limit i r d] Let_def split: if_splits)
        have ih: "deque_ok d'" "deque_list d' = take i ?l @ drop_occ x (quota limit (r + 1) x (drop (Suc i) ?l)) (drop (Suc i) ?l)"
          "r' = r + 1 + min (quota limit (r + 1) x (drop (Suc i) ?l)) (count_list (drop (Suc i) ?l) x)"
          using 1(1)[OF False True refl refl go conjunct1[OF o]] i run go unfolding tk by auto
        have "quota limit r x (drop i ?l) = Suc (quota limit (r + 1) x (drop (Suc i) ?l))"
          using 1(5) go xi dr by (auto simp: quota_def)
        then show ?thesis using ih dr xi by simp
      qed
    next
      case ne: False
      then have xi: "?l ! i \<noteq> x" using elem_str_nth[OF i] by simp
      have run: "lrem_front x limit (i + 1) r d = (d', r')"
        using 1(6) False ne by (simp add: lrem_front.simps[of x limit i r d])
      have ih: "deque_ok d'" "deque_list d' = take (Suc i) ?l @ drop_occ x (quota limit r x (drop (Suc i) ?l)) (drop (Suc i) ?l)"
        "r' = r + min (quota limit r x (drop (Suc i) ?l)) (count_list (drop (Suc i) ?l) x)"
        using 1(2)[OF False ne 1(3) _ 1(5) run] i by auto
      have qe: "quota limit r x (drop i ?l) = quota limit r x (drop (Suc i) ?l)" using dr xi by (simp add: quota_def)
      have "drop_occ x n (drop i ?l) = ?l ! i # drop_occ x n (drop (Suc i) ?l)" for n unfolding dr using xi by (cases n) auto
      then show ?thesis using ih qe dr xi i by (simp add: take_Suc_conv_app_nth)
    qed
  qed
qed

lemma lrem_back_ok:
  "deque_ok d \<Longrightarrow> i \<le> dcount d \<Longrightarrow> \<not> (0 < limit \<and> limit \<le> int r) \<Longrightarrow> lrem_back x limit i r d = (d', r') \<Longrightarrow>
   deque_ok d' \<and>
   deque_list d' = rdrop_occ x (quota limit r x (take i (deque_list d))) (take i (deque_list d)) @ drop i (deque_list d) \<and>
   r' = r + min (quota limit r x (take i (deque_list d))) (count_list (take i (deque_list d)) x)"
proof (induction x limit i r d rule: lrem_back.induct)
  case (1 x limit r d)
  then show ?case by (simp add: rdrop_occ_def)
next
  case (2 x limit i r d)
  let ?l = "deque_list d"
  have i: "i < dcount d" using 2(4) by simp
  have tk: "take (Suc i) ?l = take i ?l @ [?l ! i]" using i by (simp add: take_Suc_conv_app_nth)
  show ?case
  proof (cases "elem_str d i = x")
    case True
    then have xi: "?l ! i = x" using elem_str_nth[OF i] by simp
    note o = lrem_one_ok[OF 2(3) i]
    have to: "take i (deque_list (lrem_one d i)) = take i ?l" "drop i (deque_list (lrem_one d i)) = drop (Suc i) ?l"
      using o i by simp_all
    have q: "0 < quota limit r x (take (Suc i) ?l)" using 2(5) xi by (auto simp: quota_def tk)
    show ?thesis
    proof (cases "0 < limit \<and> limit \<le> int (r + 1)")
      case stop: True
      have "(d', r') = (lrem_one d i, r + 1)" using 2(6) True stop by (simp add: Let_def)
      moreover have "quota limit r x (take (Suc i) ?l) = 1" using stop 2(5) by (auto simp: quota_def)
      ultimately show ?thesis using o xi by (simp add: tk rdrop_occ_snoc) (simp add: rdrop_occ_def)
    next
      case go: False
      have run: "lrem_back x limit i (r + 1) (lrem_one d i) = (d', r')" using 2(6) True go by (auto simp: Let_def split: if_splits)
      have ih: "deque_ok d'" "deque_list d' = rdrop_occ x (quota limit (r + 1) x (take i ?l)) (take i ?l) @ drop (Suc i) ?l"
        "r' = r + 1 + min (quota limit (r + 1) x (take i ?l)) (count_list (take i ?l) x)"
        using 2(1)[OF True refl refl go conjunct1[OF o]] i run go unfolding to by auto
      have "quota limit r x (take (Suc i) ?l) = Suc (quota limit (r + 1) x (take i ?l))"
        using 2(5) go xi by (auto simp: quota_def tk)
      then show ?thesis using ih xi by (simp add: tk rdrop_occ_snoc)
    qed
  next
    case ne: False
    then have xi: "?l ! i \<noteq> x" using elem_str_nth[OF i] by simp
    have run: "lrem_back x limit i r d = (d', r')" using 2(6) ne by simp
    have ih: "deque_ok d'" "deque_list d' = rdrop_occ x (quota limit r x (take i ?l)) (take i ?l) @ drop i ?l"
      "r' = r + min (quota limit r x (take i ?l)) (count_list (take i ?l) x)"
      using 2(2)[OF ne 2(3) _ 2(5) run] i by auto
    have qe: "quota limit r x (take (Suc i) ?l) = quota limit r x (take i ?l)" using xi by (simp add: quota_def tk)
    have "rdrop_occ x n (take i ?l @ [?l ! i]) = rdrop_occ x n (take i ?l) @ [?l ! i]" for n
      using xi by (cases n) (simp_all add: rdrop_occ_def)
    moreover have "drop i ?l = ?l ! i # drop (Suc i) ?l" using i by (simp add: Cons_nth_drop_Suc)
    ultimately show ?thesis using ih qe xi unfolding tk qe[unfolded tk] by (simp add: tk)
  qed
qed

lemma slot_free_ok:
  assumes "deque_ok d" "i < dcount d"
  shows "deque_ok (slot_free i d) \<and> deque_list (slot_free i d) = (deque_list d)[i := []] \<and> dcount (slot_free i d) = dcount d \<and>
    dcap (slot_free i d) = dcap d \<and> dhead (slot_free i d) = dhead d"
proof -
  have c: "i < dcap d" using assms by (auto simp: deque_ok_def)
  show ?thesis using slot_upd_ok[OF assms(1) c, of str_empty] assms(2) by (simp add: slot_free_def Let_def str_new_def)
qed

lemma slots_free_ok:
  "deque_ok d \<Longrightarrow> \<forall>i \<in> set is. i < dcount d \<Longrightarrow>
   deque_ok (fold slot_free is d) \<and> dcount (fold slot_free is d) = dcount d \<and> dcap (fold slot_free is d) = dcap d \<and>
   dhead (fold slot_free is d) = dhead d \<and>
   (\<forall>j < dcount d. j \<notin> set is \<longrightarrow> deque_list (fold slot_free is d) ! j = deque_list d ! j)"
proof (induction "is" arbitrary: d)
  case (Cons i js)
  have i: "i < dcount d" using Cons(3) by simp
  note s = slot_free_ok[OF Cons(2) i]
  show ?case using Cons(1)[of "slot_free i d"] s Cons(3) by simp
qed simp

lemma deque_trim_ok:
  assumes ok: "deque_ok d" and b: "start \<le> stop" "stop < dcount d"
  shows "deque_ok (deque_trim d start stop)"
    "deque_list (deque_trim d start stop) = take (stop - start + 1) (drop start (deque_list d))"
proof -
  define e1 where "e1 = fold slot_free [0..<start] d"
  have s1: "deque_ok e1" "dcount e1 = dcount d" "dcap e1 = dcap d" "dhead e1 = dhead d"
    "\<And>j. j < dcount d \<Longrightarrow> start \<le> j \<Longrightarrow> deque_list e1 ! j = deque_list d ! j"
    using slots_free_ok[OF ok, of "[0..<start]"] b by (auto simp: e1_def)
  define e where "e = fold slot_free [Suc stop..<dcount d] e1"
  have s2: "deque_ok e" "dcount e = dcount d" "dcap e = dcap d" "dhead e = dhead d"
    "\<And>j. start \<le> j \<Longrightarrow> j \<le> stop \<Longrightarrow> deque_list e ! j = deque_list d ! j"
    using slots_free_ok[OF s1(1), of "[Suc stop..<dcount d]"] s1 b by (auto simp: e_def)
  define r where "r = e\<lparr>dhead := deque_phys e start, dcount := stop - start + 1\<rparr>"
  have r: "deque_trim d start stop = r" by (simp add: deque_trim_def r_def e_def e1_def Let_def)
  have c: "0 < dcap e" "dcount e \<le> dcap e" using s2(1,2) b by (auto simp: deque_ok_def)
  have ph: "deque_phys e start = (dhead e + start) mod dcap e" by (rule deque_phys_mod[OF s2(1) c(1)])
  have okr: "deque_ok r" using s2(1,2) c b ph by (auto simp: deque_ok_def r_def)
  then show "deque_ok (deque_trim d start stop)" by (simp add: r)
  show "deque_list (deque_trim d start stop) = take (stop - start + 1) (drop start (deque_list d))"
    unfolding r
  proof (rule nth_equalityI)
    show "length (deque_list r) = length (take (stop - start + 1) (drop start (deque_list d)))"
      using b by (simp add: r_def)
    fix k assume "k < length (deque_list r)"
    then have k: "k < dcount r" "k < stop - start + 1" by (simp_all add: r_def)
    have "deque_list r ! k = chars (buf e ! (((dhead e + start) mod dcap e + k) mod dcap e))"
      using deque_list_nth[OF okr k(1)] ph by (simp add: r_def)
    also have "((dhead e + start) mod dcap e + k) mod dcap e = (dhead e + (start + k)) mod dcap e"
      by (simp add: mod_add_left_eq add.assoc)
    also have "chars (buf e ! \<dots>) = deque_list e ! (start + k)"
      using deque_list_nth[OF s2(1), of "start + k"] s2(2) k b by simp
    finally show "deque_list r ! k = take (stop - start + 1) (drop start (deque_list d)) ! k"
      using s2(5)[of "start + k"] k b by simp
  qed
qed

section \<open>The commands\<close>

interpretation lt: entry_type T_DLIST VList entry_deque deque_ok AList deque_list "[]"
  by unfold_locales (auto simp: type_at_def entry_deque_def empty_val_def deque_init_wf[unfolded deque_wf_def] deque_list_def deque_elems_def deque_init_def split: evalue.splits)

definition list_case :: "('s avalue \<times> u64 option) option \<Rightarrow> 'b \<Rightarrow> 'b \<Rightarrow> (string list \<Rightarrow> u64 option \<Rightarrow> 'b) \<Rightarrow> 'b" where
  "list_case x missing wrong f = (case x of None \<Rightarrow> missing | Some (AList l, d) \<Rightarrow> f l d | Some _ \<Rightarrow> wrong)"

lemma list_case_simps [simp]:
  "list_case None x y f = x" "list_case (Some (AList l, d)) x y f = f l d" "wrong_type T_DLIST z \<Longrightarrow> list_case z x y f = y"
  by (auto simp: list_case_def wrong_type_def split: option.splits avalue.splits)

text \<open>Storing a list under a key, an empty one by removing the key.\<close>

definition put_list :: "string \<Rightarrow> string list \<Rightarrow> u64 option \<Rightarrow> (string \<Rightarrow> ('s avalue \<times> u64 option) option) \<Rightarrow>
    string \<Rightarrow> ('s avalue \<times> u64 option) option" where
  "put_list k l d m = m(k := if l = [] then None else Some (AList l, d))"

lemma list_tail_ok:
  assumes "g_ok {a} g" "at v g k a" "deque_ok d"
  shows "g_ok {} (list_tail v a d g) \<and> live v (list_tail v a d g) = put_list k (deque_list d) (ttl_of (heap g) a) (live v g)"
proof -
  have "dcount d = 0 \<longleftrightarrow> deque_list d = []" by (metis deque_list_len length_0_conv)
  then show ?thesis
    using lt.commit[OF assms, of 1] lt.discard[OF assms, of 1] by (simp add: list_tail_def put_list_def)
qed

lemma push_ok:
  assumes ok: "g_ok {} g" and fits: "fits v 1 g" and ne: "2 < length cmd"
    and run: "(let (g, r) = lookup_entry v (cmd ! 1) T_DLIST True False g
      in case r of LOk a \<Rightarrow> push_tail a (f (entry_deque g a)) g | _ \<Rightarrow> (g, [RErr MSG_WRONG])) = (g', rs)"
    and f: "\<And>d. deque_ok d \<Longrightarrow> deque_ok (f d) \<and> deque_list (f d) = h (deque_list d)" and h: "\<And>l. h l \<noteq> []"
  shows "g_ok {} g' \<and> (live v g', rs) =
    list_case (live v g (cmd ! 1))
      (put_list (cmd ! 1) (h []) None (live v g), [RInt (int (length (h [])))])
      (live v g, [RErr MSG_WRONG])
      (\<lambda>l d. (put_list (cmd ! 1) (h l) d (live v g), [RInt (int (length (h l)))]))"
proof -
  obtain g1 r where l: "lookup_entry v (cmd ! 1) T_DLIST True False g = (g1, r)" by fastforce
  have room: "g_room g" using fits_room[OF fits] by simp
  have pt: "g_ok {} (fst (push_tail a (f d) g1)) \<and>
      (live v (fst (push_tail a (f d) g1)), snd (push_tail a (f d) g1)) =
      (put_list (cmd ! 1) (h (deque_list d)) (ttl_of (heap g1) a) (live v g1), [RInt (int (length (h (deque_list d))))])"
    if "g_ok {a} g1" "at v g1 (cmd ! 1) a" "deque_ok d" for a d
    using lt.commit[OF that(1,2), of "f d" 1] f[OF that(3)] h[of "deque_list d"] deque_list_len[of "f d"]
    by (simp add: push_tail_def put_list_def)
  from ok room l show ?thesis
  proof (cases rule: lt.rw_cases)
    case wrong
    then show ?thesis using run l by auto
  next
    case (fresh a)
    have "(g', rs) = push_tail a (f (entry_deque g1 a)) g1" using run l fresh(1) by simp
    then show ?thesis using pt[OF fresh(3,2,4)] fresh by (simp add: put_list_def prod_eq_iff)
  next
    case (found a)
    have "(g', rs) = push_tail a (f (entry_deque g1 a)) g1" using run l found(1) by simp
    then show ?thesis using pt[OF found(3,2,4)] found by (simp add: put_list_def prod_eq_iff)
  qed
qed

lemma do_lpush_ok:
  assumes "g_ok {} g" "fits v 1 g" "2 < length cmd" "do_lpush v cmd g = (g', rs)"
  shows "g_ok {} g' \<and> (live v g', rs) =
    list_case (live v g (cmd ! 1))
      (put_list (cmd ! 1) (rev (drop 2 cmd)) None (live v g), [RInt (int (length cmd) - 2)])
      (live v g, [RErr MSG_WRONG])
      (\<lambda>l d. (put_list (cmd ! 1) (rev (drop 2 cmd) @ l) d (live v g), [RInt (int (length l + length cmd) - 2)]))"
  using push_ok[OF assms(1-3), of "\<lambda>d. foldl deque_push_front d (drop 2 cmd)" g' rs "\<lambda>l. rev (drop 2 cmd) @ l"] assms(3,4) dqo.push_front_all
  by (auto simp: do_lpush_def of_nat_diff add.commute)

lemma do_rpush_ok:
  assumes "g_ok {} g" "fits v 1 g" "2 < length cmd" "do_rpush v cmd g = (g', rs)"
  shows "g_ok {} g' \<and> (live v g', rs) =
    list_case (live v g (cmd ! 1))
      (put_list (cmd ! 1) (drop 2 cmd) None (live v g), [RInt (int (length cmd) - 2)])
      (live v g, [RErr MSG_WRONG])
      (\<lambda>l d. (put_list (cmd ! 1) (l @ drop 2 cmd) d (live v g), [RInt (int (length l + length cmd) - 2)]))"
  using push_ok[OF assms(1-3), of "\<lambda>d. foldl deque_push_back d (drop 2 cmd)" g' rs "\<lambda>l. l @ drop 2 cmd"] assms(3,4) dqo.push_back_all
  by (auto simp: do_rpush_def of_nat_diff)

lemma do_lpop_ok:
  assumes ok: "g_ok {} g" and run: "do_lpop v cmd g = (g', rs)"
  shows "g_ok {} g' \<and> (live v g', rs) =
    list_case (live v g (cmd ! 1)) (live v g, [RNil]) (live v g, [RErr MSG_WRONG])
      (\<lambda>l d. case l of [] \<Rightarrow> (live v g, [RNil]) | x # xs \<Rightarrow> (put_list (cmd ! 1) xs d (live v g), [RStr x]))"
proof -
  obtain g1 r where l: "lookup_entry v (cmd ! 1) T_DLIST False False g = (g1, r)" by fastforce
  from ok l show ?thesis
  proof (cases rule: lt.ro_cases)
    case (found a)
    have ok1: "g_ok {a} g1" by (rule g_ok_mono[OF found(4)]) simp
    obtain d x where p: "pop_front_str (entry_deque g1 a) = (d, x)" by fastforce
    note w = dqo.pop_front_law[OF found(3) p]
    have "(g', rs) = (case x of None \<Rightarrow> (g1, [RNil]) | Some y \<Rightarrow> (list_tail v a d g1, [RStr y]))"
      using run l found(1) p by (simp add: do_lpop_def split: option.splits)
    then show ?thesis using w found list_tail_ok[OF ok1 found(2), of d] by (auto split: list.splits option.splits)
  qed (use run l in \<open>auto simp: do_lpop_def\<close>)
qed

lemma do_rpop_ok:
  assumes ok: "g_ok {} g" and run: "do_rpop v cmd g = (g', rs)"
  shows "g_ok {} g' \<and> (live v g', rs) =
    list_case (live v g (cmd ! 1)) (live v g, [RNil]) (live v g, [RErr MSG_WRONG])
      (\<lambda>l d. if l = [] then (live v g, [RNil]) else (put_list (cmd ! 1) (butlast l) d (live v g), [RStr (last l)]))"
proof -
  obtain g1 r where l: "lookup_entry v (cmd ! 1) T_DLIST False False g = (g1, r)" by fastforce
  from ok l show ?thesis
  proof (cases rule: lt.ro_cases)
    case (found a)
    have ok1: "g_ok {a} g1" by (rule g_ok_mono[OF found(4)]) simp
    obtain d x where p: "pop_back_str (entry_deque g1 a) = (d, x)" by fastforce
    note w = dqo.pop_back_law[OF found(3) p]
    have "(g', rs) = (case x of None \<Rightarrow> (g1, [RNil]) | Some y \<Rightarrow> (list_tail v a d g1, [RStr y]))"
      using run l found(1) p by (simp add: do_rpop_def split: option.splits)
    then show ?thesis using w found list_tail_ok[OF ok1 found(2), of d] by (auto split: option.splits if_splits)
  qed (use run l in \<open>auto simp: do_rpop_def\<close>)
qed

lemma do_llen_ok:
  assumes "g_ok {} g" "do_llen v cmd g = (g', rs)"
  shows "g_ok {} g' \<and> live v g' = live v g \<and>
    rs = list_case (live v g (cmd ! 1)) [RInt 0] [RErr MSG_WRONG] (\<lambda>l d. [RInt (int (length l))])"
proof -
  obtain g1 r where l: "lookup_entry v (cmd ! 1) T_DLIST False False g = (g1, r)" by fastforce
  from assms(1) l show ?thesis by (cases rule: lt.ro_cases) (use assms(2) l in \<open>auto simp: do_llen_def\<close>)
qed

text \<open>An index counted from the end when negative.\<close>

definition list_index :: "'a list \<Rightarrow> int \<Rightarrow> int" where
  "list_index l i = (if i < 0 then i + int (length l) else i)"

lemma deque_normalize_index: "deque_normalize d i = list_index (deque_list d) i"
  by (simp add: deque_normalize_def list_index_def)

lemma do_lindex_ok:
  assumes "g_ok {} g" "do_lindex v cmd g = (g', rs)"
  shows "g_ok {} g' \<and> live v g' = live v g \<and>
    rs = list_case (live v g (cmd ! 1)) [RNil] [RErr MSG_WRONG]
      (\<lambda>l d. case str2int (cmd ! 2) of
         None \<Rightarrow> [RErr ''ERR invalid index'']
       | Some i \<Rightarrow> if 0 \<le> list_index l i \<and> list_index l i < int (length l) then [RStr (l ! nat (list_index l i))] else [RNil])"
proof -
  obtain g1 r where l: "lookup_entry v (cmd ! 1) T_DLIST False False g = (g1, r)" by fastforce
  from assms(1) l show ?thesis
  proof (cases rule: lt.ro_cases)
    case (found a)
    let ?d = "entry_deque g1 a"
    show ?thesis
    proof (cases "str2int (cmd ! 2)")
      case (Some i)
      let ?i = "list_index (deque_list ?d) i"
      have "(g', rs) = (if ?i < 0 \<or> int (dcount ?d) \<le> ?i then (g1, [RNil]) else (g1, [RStr (elem_str ?d (nat ?i))]))"
        using assms(2) l found(1) Some by (simp add: do_lindex_def Let_def deque_normalize_index)
      moreover have "elem_str ?d (nat ?i) = deque_list ?d ! nat ?i" if "0 \<le> ?i" "?i < int (dcount ?d)"
        using that by (intro elem_str_nth) simp
      ultimately show ?thesis using found Some by (auto split: if_splits)
    qed (use assms(2) l found in \<open>auto simp: do_lindex_def\<close>)
  qed (use assms(2) l in \<open>auto simp: do_lindex_def\<close>)
qed

text \<open>The elements between two such indices, both included.\<close>

definition list_range :: "int \<Rightarrow> int \<Rightarrow> 'a list \<Rightarrow> 'a list" where
  "list_range start stop l =
     (let s = max 0 (list_index l start);
          e = min (int (length l) - 1) (list_index l stop)
      in take (nat (e - s + 1)) (drop (nat s) l))"

lemma list_bounds_ok:
  assumes "list_bounds d start stop = (s, e)"
  shows "s = max 0 (list_index (deque_list d) start)" "e = min (int (dcount d) - 1) (list_index (deque_list d) stop)"
    "0 \<le> s" "e < int (dcount d)"
    "e < s \<or> int (dcount d) \<le> s \<longleftrightarrow> list_range start stop (deque_list d) = []"
    "list_range start stop (deque_list d) = take (nat (e - s + 1)) (drop (nat s) (deque_list d))"
proof -
  show se: "s = max 0 (list_index (deque_list d) start)" "e = min (int (dcount d) - 1) (list_index (deque_list d) stop)"
    using assms by (auto simp: list_bounds_def Let_def deque_normalize_index max_def min_def)
  then show "0 \<le> s" "e < int (dcount d)" by auto
  show lr: "list_range start stop (deque_list d) = take (nat (e - s + 1)) (drop (nat s) (deque_list d))"
    using se by (simp add: list_range_def Let_def)
  show "e < s \<or> int (dcount d) \<le> s \<longleftrightarrow> list_range start stop (deque_list d) = []"
    using \<open>0 \<le> s\<close> unfolding lr by auto
qed

lemma take_drop_map:
  "a \<le> b \<Longrightarrow> b < length l \<Longrightarrow> map (\<lambda>i. l ! i) [a..<Suc b] = take (b - a + 1) (drop a l)"
  by (rule nth_equalityI) (auto simp del: upt_Suc)

lemma do_lrange_ok:
  assumes "g_ok {} g" "do_lrange v cmd g = (g', rs)"
  shows "g_ok {} g' \<and> live v g' = live v g \<and>
    rs = (case (str2int (cmd ! 2), str2int (cmd ! 3)) of
      (Some start, Some stop) \<Rightarrow>
        list_case (live v g (cmd ! 1)) [RArr 0] [RErr MSG_WRONG]
          (\<lambda>l d. RArr (of_nat (length (list_range start stop l))) # map RStr (list_range start stop l))
    | _ \<Rightarrow> [RErr MSG_NOT_INT])"
proof (cases "(str2int (cmd ! 2), str2int (cmd ! 3))")
  case (Pair x y)
  show ?thesis
  proof (cases "x = None \<or> y = None")
    case True
    then show ?thesis using assms Pair by (auto simp: do_lrange_def split: option.splits)
  next
    case False
    then obtain start stop where xy: "x = Some start" "y = Some stop" by auto
    obtain g1 r where l: "lookup_entry v (cmd ! 1) T_DLIST False False g = (g1, r)" by fastforce
    from assms(1) l show ?thesis
    proof (cases rule: lt.ro_cases)
      case (found a)
      let ?d = "entry_deque g1 a"
      obtain s e where b: "list_bounds ?d start stop = (s, e)" by fastforce
      note bb = list_bounds_ok[OF b]
      let ?lr = "list_range start stop (deque_list ?d)"
      have rsd: "(g', rs) = (if ?lr = [] then (g1, [RArr 0])
          else (g1, RArr (word_of_int (e - s + 1)) # map (\<lambda>i. RStr (elem_str ?d i)) [nat s..<Suc (nat e)]))"
        using assms(2) l found(1) Pair xy b bb(5) by (simp add: do_lrange_def Let_def)
      show ?thesis
      proof (cases "?lr = []")
        case True
        then show ?thesis using rsd found Pair xy by simp
      next
        case ne: False
        then have se: "s \<le> e" "s < int (dcount ?d)" using bb(5) by auto
        have n: "nat (e - s + 1) = nat e - nat s + 1" using se bb(3) by linarith
        have lr: "?lr = map (\<lambda>i. deque_list ?d ! i) [nat s..<Suc (nat e)]"
          unfolding bb(6) n by (rule take_drop_map[symmetric]) (use bb(3,4) se in simp_all)
        have es: "map (\<lambda>i. RStr (elem_str ?d i)) [nat s..<Suc (nat e)] = map RStr ?lr"
          unfolding lr map_map using bb(3,4) se by (intro map_cong) (auto simp: elem_str_nth)
        have ln: "length ?lr = nat (e - s + 1)" unfolding lr n using se bb(3) by simp
        have "(word_of_int (e - s + 1) :: u32) = of_nat (length ?lr)" unfolding ln using se(1) by simp
        then show ?thesis using rsd ne es found Pair xy by simp
      qed
    qed (use assms(2) l Pair xy in \<open>auto simp: do_lrange_def\<close>)
  qed
qed

lemma do_lset_ok:
  assumes "g_ok {} g" "do_lset v cmd g = (g', rs)"
  shows "g_ok {} g' \<and> (live v g', rs) =
    list_case (live v g (cmd ! 1)) (live v g, [RErr ''ERR no such key'']) (live v g, [RErr MSG_WRONG])
      (\<lambda>l d. case str2int (cmd ! 2) of
         None \<Rightarrow> (live v g, [RErr ''ERR invalid index''])
       | Some i \<Rightarrow>
           if 0 \<le> list_index l i \<and> list_index l i < int (length l)
           then ((live v g)(cmd ! 1 \<mapsto> (AList (l[nat (list_index l i) := cmd ! 3]), d)), [ROk])
           else (live v g, [RErr MSG_OUT_OF_RANGE]))"
proof -
  obtain g1 r where l: "lookup_entry v (cmd ! 1) T_DLIST False False g = (g1, r)" by fastforce
  from assms(1) l show ?thesis
  proof (cases rule: lt.ro_cases)
    case (found a)
    have ok1: "g_ok {a} g1" by (rule g_ok_mono[OF found(4)]) simp
    let ?d = "entry_deque g1 a"
    show ?thesis
    proof (cases "str2int (cmd ! 2)")
      case (Some i)
      let ?i = "list_index (deque_list ?d) i"
      let ?g = "wrote 1 (mem_reaccount a (put_val a (VList (slot_set ?d (nat ?i) (cmd ! 3))) g1))"
      have "(g', rs) = (if ?i < 0 \<or> int (dcount ?d) \<le> ?i then (g1, [RErr MSG_OUT_OF_RANGE]) else (?g, [ROk]))"
        using assms(2) l found(1) Some by (simp add: do_lset_def Let_def deque_normalize_index)
      moreover have "g_ok {} ?g \<and> live v ?g = (live v g)(cmd ! 1 \<mapsto> (AList ((deque_list ?d)[nat ?i := cmd ! 3]), ttl_of (heap g1) a))"
        if "0 \<le> ?i" "?i < int (dcount ?d)"
      proof -
        have "nat ?i < dcount ?d" using that by linarith
        note s = slot_set_ok[OF found(3) this, of "cmd ! 3"]
        show ?thesis using lt.commit[OF ok1 found(2) s(1), of 1] s(2) found(5) by simp
      qed
      ultimately show ?thesis using found Some by (auto split: if_splits)
    qed (use assms(2) l found in \<open>auto simp: do_lset_def\<close>)
  qed (use assms(2) l in \<open>auto simp: do_lset_def\<close>)
qed

text \<open>The position of the first occurrence.\<close>

definition first_pos :: "'a \<Rightarrow> 'a list \<Rightarrow> nat option" where
  "first_pos x l = find (\<lambda>i. l ! i = x) [0..<length l]"

lemma find_elem: "find (\<lambda>i. elem_str d i = x) [0..<dcount d] = first_pos x (deque_list d)"
  unfolding first_pos_def by (rule find_cong) (auto simp: elem_str_nth)

lemma first_pos_less: "first_pos x l = Some i \<Longrightarrow> i < length l"
  by (auto simp: first_pos_def find_Some_iff)

lemma do_linsert_ok:
  assumes "g_ok {} g" "do_linsert v cmd g = (g', rs)"
  shows "g_ok {} g' \<and> (live v g', rs) =
    list_case (live v g (cmd ! 1)) (live v g, [RInt 0]) (live v g, [RErr MSG_WRONG])
      (\<lambda>l d.
        if lower (cmd ! 2) \<noteq> ''before'' \<and> lower (cmd ! 2) \<noteq> ''after'' then (live v g, [RErr MSG_SYNTAX])
        else case first_pos (cmd ! 3) l of
               None \<Rightarrow> (live v g, [RInt (- 1)])
             | Some p \<Rightarrow>
                 let i = (if lower (cmd ! 2) = ''before'' then p else Suc p)
                 in ((live v g)(cmd ! 1 \<mapsto> (AList (take i l @ cmd ! 4 # drop i l), d)), [RInt (int (length l) + 1)]))"
proof -
  obtain g1 r where l: "lookup_entry v (cmd ! 1) T_DLIST False False g = (g1, r)" by fastforce
  from assms(1) l show ?thesis
  proof (cases rule: lt.ro_cases)
    case (found a)
    have ok1: "g_ok {a} g1" by (rule g_ok_mono[OF found(4)]) simp
    let ?d = "entry_deque g1 a" and ?w = "lower (cmd ! 2)"
    show ?thesis
    proof (cases "?w \<noteq> ''before'' \<and> ?w \<noteq> ''after''")
      case True
      then show ?thesis using assms(2) l found by (simp add: do_linsert_def)
    next
      case w: False
      show ?thesis
      proof (cases "first_pos (cmd ! 3) (deque_list ?d)")
        case None
        then show ?thesis using assms(2) l found w by (auto simp: do_linsert_def find_elem)
      next
        case (Some p)
        define i where "i = (if ?w = ''before'' then p else Suc p)"
        have i: "i \<le> dcount ?d" using first_pos_less[OF Some] by (simp add: i_def)
        note s = deque_insert_ok[OF found(3) i, of "cmd ! 4"]
        let ?e = "deque_insert ?d i (cmd ! 4)"
        have "(g', rs) = push_tail a ?e g1" using assms(2) l found(1) w Some by (auto simp: do_linsert_def find_elem i_def)
        moreover have "dcount ?e = Suc (dcount ?d)" using s(2) i by (simp flip: deque_list_len)
        ultimately show ?thesis
          using lt.commit[OF ok1 found(2) s(1), of 1] s(2) found(5,6) w Some by (auto simp: push_tail_def Let_def i_def)
      qed
    qed
  qed (use assms(2) l in \<open>auto simp: do_linsert_def\<close>)
qed

text \<open>\<open>LREM\<close>: the count 0 removes all; the smallest 64-bit integer has no negation and removes all, too.\<close>

definition lrem_spec :: "int \<Rightarrow> 'a \<Rightarrow> 'a list \<Rightarrow> 'a list \<times> nat" where
  "lrem_spec n x l =
     (let c = (if n = 0 \<or> n = INT64_MIN then count_list l x else nat \<bar>n\<bar>)
      in (if n < 0 then rdrop_occ x c l else drop_occ x c l, min c (count_list l x)))"

lemma lrem_back_none: "lrem_back x lim i r d = (d', r') \<Longrightarrow> r \<le> r' \<and> (r' = r \<longrightarrow> d' = d)"
  by (induction x lim i r d rule: lrem_back.induct) (fastforce simp: Let_def split: if_splits)+

lemma lrem_front_none: "lrem_front x lim i r d = (d', r') \<Longrightarrow> r \<le> r' \<and> (r' = r \<longrightarrow> d' = d)"
proof (induction x lim i r d rule: lrem_front.induct)
  case (1 x lim i r d)
  show ?case using 1(3) unfolding lrem_front.simps[of x lim i r d]
    using 1(1,2) by (fastforce simp: Let_def split: if_splits)
qed

lemma put_val_same: "val_at g a = w \<Longrightarrow> a \<in> dom (ents g) \<Longrightarrow> put_val a w g = g"
  by (auto simp: put_val_def put_ent_def val_at_def ent_at_def fun_upd_idem)

lemma do_lrem_ok:
  assumes "g_ok {} g" "do_lrem v cmd g = (g', rs)"
  shows "g_ok {} g' \<and> (live v g', rs) =
    (case str2int (cmd ! 2) of
       None \<Rightarrow> (live v g, [RErr ''ERR invalid count''])
     | Some n \<Rightarrow>
         list_case (live v g (cmd ! 1)) (live v g, [RInt 0]) (live v g, [RErr MSG_WRONG])
           (\<lambda>l d. case lrem_spec n (cmd ! 3) l of (l', c) \<Rightarrow> (put_list (cmd ! 1) l' d (live v g), [RInt (int c)])))"
proof (cases "str2int (cmd ! 2)")
  case (Some n)
  obtain g1 r where l: "lookup_entry v (cmd ! 1) T_DLIST False False g = (g1, r)" by fastforce
  from assms(1) l show ?thesis
  proof (cases rule: lt.ro_cases)
    case (found a)
    have ok1: "g_ok {a} g1" by (rule g_ok_mono[OF found(4)]) simp
    let ?d = "entry_deque g1 a" and ?x = "cmd ! 3" and ?k = "cmd ! 1"
    let ?lim = "if n < 0 then i64 (- n) else n"
    obtain d c where lr: "(if n < 0 then lrem_back ?x ?lim (dcount ?d) 0 ?d else lrem_front ?x ?lim 0 0 ?d) = (d, c)" by fastforce
    have rg: "INT64_MIN \<le> n" using str2int_range[OF Some] by (simp add: in_i64_def)
    have lim: "\<not> (0 < ?lim \<and> ?lim \<le> int 0)" by simp
    have q: "quota ?lim 0 ?x (deque_list ?d) = (if n = 0 \<or> n = INT64_MIN then count_list (deque_list ?d) ?x else nat \<bar>n\<bar>)"
      using rg by (auto simp: quota_def i64_def INT64_MIN_def)
    have w: "deque_ok d \<and> lrem_spec n ?x (deque_list ?d) = (deque_list d, c)"
    proof (cases "n < 0")
      case True
      then have "lrem_back ?x ?lim (dcount ?d) 0 ?d = (d, c)" using lr by simp
      from lrem_back_ok[OF found(3) _ lim this] q True show ?thesis by (simp add: lrem_spec_def Let_def)
    next
      case False
      then have "lrem_front ?x ?lim 0 0 ?d = (d, c)" using lr by simp
      from lrem_front_ok[OF found(3) _ lim this] q False show ?thesis by (simp add: lrem_spec_def Let_def)
    qed
    have z: "dcount d = 0 \<longleftrightarrow> deque_list d = []" by (metis deque_list_len length_0_conv)
    show ?thesis
    proof (cases "0 < c")
      case True
      have "(g', rs) = (list_tail v a d g1, [RInt (int c)])"
        using assms(2) Some l found(1) lr True by (auto simp: do_lrem_def Let_def list_tail_def split: if_splits)
      then show ?thesis using list_tail_ok[OF ok1 found(2)] w found(5,6) Some by auto
    next
      case False
      have same: "d = ?d" using lr lrem_back_none[of ?x ?lim "dcount ?d" 0 ?d d c] lrem_front_none[of ?x ?lim 0 0 ?d d c] False
        by (auto split: if_splits)
      have pv: "put_val a (VList ?d) g1 = g1" using put_val_same[OF found(7)] at_addr[OF found(4,2)] by simp
      have "(g', rs) = (if dcount ?d = 0 then drop_entry v a g1 else g1, [RInt 0])"
        using assms(2) Some l found(1) lr False same pv by (auto simp: do_lrem_def Let_def split: if_splits)
      moreover have "put_list ?k (deque_list ?d) (ttl_of (heap g1) a) (live v g) = live v g" if "deque_list ?d \<noteq> []"
        using that found(6) by (simp add: put_list_def fun_upd_idem)
      ultimately show ?thesis
        using drop_ok[OF ok1 found(2)] w found(4,5,6) Some same False z by (auto simp: put_list_def split: if_splits)
    qed
  qed (use assms(2) l Some in \<open>auto simp: do_lrem_def\<close>)
qed (use assms in \<open>auto simp: do_lrem_def\<close>)

lemma do_ltrim_ok:
  assumes "g_ok {} g" "do_ltrim v cmd g = (g', rs)"
  shows "g_ok {} g' \<and> (live v g', rs) =
    (case (str2int (cmd ! 2), str2int (cmd ! 3)) of
       (Some start, Some stop) \<Rightarrow>
         list_case (live v g (cmd ! 1)) (live v g, [ROk]) (live v g, [RErr MSG_WRONG])
           (\<lambda>l d. (put_list (cmd ! 1) (list_range start stop l) d (live v g), [ROk]))
     | _ \<Rightarrow> (live v g, [RErr MSG_NOT_INT]))"
proof (cases "(str2int (cmd ! 2), str2int (cmd ! 3))")
  case (Pair x y)
  show ?thesis
  proof (cases "x = None \<or> y = None")
    case True
    then show ?thesis using assms Pair by (auto simp: do_ltrim_def split: option.splits)
  next
    case False
    then obtain start stop where xy: "x = Some start" "y = Some stop" by auto
    obtain g1 r where l: "lookup_entry v (cmd ! 1) T_DLIST False False g = (g1, r)" by fastforce
    from assms(1) l show ?thesis
    proof (cases rule: lt.ro_cases)
      case (found a)
      have ok1: "g_ok {a} g1" by (rule g_ok_mono[OF found(4)]) simp
      let ?d = "entry_deque g1 a" and ?k = "cmd ! 1"
      obtain s e where b: "list_bounds ?d start stop = (s, e)" by fastforce
      note bb = list_bounds_ok[OF b]
      let ?lr = "list_range start stop (deque_list ?d)"
      let ?g = "wrote 1 (mem_reaccount a (put_val a (VList (deque_trim ?d (nat s) (nat e))) g1))"
      have rsd: "(g', rs) = (if ?lr = [] then (wrote 1 (drop_entry v a g1), [ROk])
          else if s = 0 \<and> nat (e + 1) = dcount ?d then (g1, [ROk]) else (?g, [ROk]))"
        using assms(2) l found(1) Pair xy b bb(5) by (simp add: do_ltrim_def Let_def)
      show ?thesis
      proof (cases "?lr = []")
        case True
        then show ?thesis using rsd found Pair xy drop_ok[OF ok1 found(2)] by (simp add: put_list_def)
      next
        case ne: False
        then have se: "s \<le> e" "s < int (dcount ?d)" using bb(5) by auto
        show ?thesis
        proof (cases "s = 0 \<and> nat (e + 1) = dcount ?d")
          case True
          then have "?lr = deque_list ?d" using bb(6) by (simp add: take_all)
          then show ?thesis using rsd ne True found Pair xy by (simp add: put_list_def fun_upd_idem)
        next
          case False
          have n: "nat s \<le> nat e" "nat e < dcount ?d" "nat (e - s + 1) = nat e - nat s + 1" using se bb(3,4) by linarith+
          note t = deque_trim_ok[OF found(3) n(1,2)]
          have "deque_list (deque_trim ?d (nat s) (nat e)) = ?lr" using t(2) unfolding bb(6) n(3) .
          then show ?thesis using rsd ne False found Pair xy lt.commit[OF ok1 found(2) t(1), of 1] by (simp add: put_list_def)
        qed
      qed
    qed (use assms(2) l Pair xy in \<open>auto simp: do_ltrim_def\<close>)
  qed
qed

section \<open>Lists: what the commands guarantee\<close>

definition g_list :: "'s gdata" where
  "g_list = fst (do_rpush env_start [''rpush'', ''a'', ''x'', ''y'', ''x''] gdata_init)"

lemma g_list_ok: "g_ok {} (g_list :: ('s :: linorder) gdata)"
  "live env_start (g_list :: 's gdata) = [''a'' \<mapsto> (AList [''x'', ''y'', ''x''], None)]"
proof -
  let ?cmd = "[''rpush'', ''a'', ''x'', ''y'', ''x'']" and ?g = "gdata_init :: 's gdata"
  have r: "do_rpush env_start ?cmd ?g = (g_list, snd (do_rpush env_start ?cmd ?g))" by (simp add: g_list_def)
  have f: "fits env_start 1 ?g" by simp
  note s = do_rpush_ok[OF gdata_init_ok f _ r]
  show "g_ok {} (g_list :: 's gdata)" using s by simp
  show "live env_start (g_list :: 's gdata) = [''a'' \<mapsto> (AList [''x'', ''y'', ''x''], None)]"
    using s by (simp add: put_list_def)
qed

text \<open>
  C22. \<open>LREM\<close> acts on the map of live keys as its specification on lists says: a positive count removes that many
  of the first occurrences, a negative one that many of the last, zero all of them; the reply is the number removed;
  a list that becomes empty takes its key with it; the deadline stays; a missing key, a key of another type and a count
  that is no integer are answered without a change. The state stays consistent.
\<close>

theorem lrem_refines:
  assumes "g_ok {} g"
  shows "case do_lrem v cmd g of (g', rs) \<Rightarrow> g_ok {} g' \<and> (live v g', rs) =
    (case str2int (cmd ! 2) of
       None \<Rightarrow> (live v g, [RErr ''ERR invalid count''])
     | Some n \<Rightarrow>
         list_case (live v g (cmd ! 1)) (live v g, [RInt 0]) (live v g, [RErr MSG_WRONG])
           (\<lambda>l d. case lrem_spec n (cmd ! 3) l of (l', c) \<Rightarrow> (put_list (cmd ! 1) l' d (live v g), [RInt (int c)])))"
  using do_lrem_ok[OF assms] by (cases "do_lrem v cmd g") blast

theorem lrem_refines_witness:
  "g_ok {} (g_list :: nat gdata) \<and>
   (case do_lrem env_start [''lrem'', ''a'', ''-1'', ''x''] (g_list :: nat gdata) of (g', rs) \<Rightarrow>
      g_ok {} g' \<and> live env_start g' = [''a'' \<mapsto> (AList [''x'', ''y''], None)] \<and> rs = [RInt 1])"
proof -
  have p: "str2int ''-1'' = Some (-1)" by (simp add: str2int_def char_eval)
  have "lrem_spec (-1) ''x'' [''x'', ''y'', ''x''] = ([''x'', ''y''], 1)"
    by (simp add: lrem_spec_def rdrop_occ_def INT64_MIN_def)
  then show ?thesis
    using lrem_refines[OF g_list_ok(1)[where 's = nat], of env_start "[''lrem'', ''a'', ''-1'', ''x'']"]
      g_list_ok[where 's = nat] p
    by (simp add: put_list_def split_beta)
qed

lemma list_range_all: "list_range 0 (-1) l = l"
  by (cases "l = []") (auto simp: list_range_def list_index_def Let_def)

text \<open>
  C23. \<open>LTRIM\<close> keeps exactly what \<open>LRANGE\<close> with the same bounds shows: after it, \<open>LRANGE 0 -1\<close> gives the reply
  the first \<open>LRANGE\<close> gave, for every pair of bounds, in or out of range, and for missing keys and keys of
  another type as well.
\<close>

theorem ltrim_lrange:
  assumes "g_ok {} g" and "str2int s = Some i" and "str2int e = Some j"
  shows "(let (g1, r1) = do_lrange v [c1, k, s, e] g;
              (g2, r2) = do_ltrim v [c2, k, s, e] g1;
              (g3, r3) = do_lrange v [c3, k, ''0'', ''-1''] g2
          in r3 = r1 \<and> g_ok {} g3)"
proof -
  obtain g1 r1 g2 r2 g3 r3 where r: "do_lrange v [c1, k, s, e] g = (g1, r1)" "do_ltrim v [c2, k, s, e] g1 = (g2, r2)"
    "do_lrange v [c3, k, ''0'', ''-1''] g2 = (g3, r3)" by fastforce
  have p: "str2int ''0'' = Some 0" "str2int ''-1'' = Some (-1)" by (simp_all add: str2int_def char_eval)
  note a = do_lrange_ok[OF assms(1) r(1)]
  then have ok1: "g_ok {} g1" by blast
  note b = do_ltrim_ok[OF ok1 r(2)]
  then have ok2: "g_ok {} g2" by blast
  note c = do_lrange_ok[OF ok2 r(3)]
  have "r3 = r1"
    using a b c assms(2,3) p
    by (cases "live v g k") (auto simp: list_range_all list_case_def put_list_def split: avalue.splits if_splits)
  then show ?thesis using r c by (simp add: Let_def)
qed

theorem ltrim_lrange_witness:
  "g_ok {} (g_list :: nat gdata) \<and> str2int ''1'' = Some 1 \<and> str2int ''99'' = Some 99 \<and>
   snd (do_lrange env_start [''lrange'', ''a'', ''1'', ''99''] (g_list :: nat gdata)) = [RArr 2, RStr ''y'', RStr ''x''] \<and>
   (let (g1, r1) = do_lrange env_start [''lrange'', ''a'', ''1'', ''99''] (g_list :: nat gdata);
        (g2, r2) = do_ltrim env_start [''ltrim'', ''a'', ''1'', ''99''] g1;
        (g3, r3) = do_lrange env_start [''lrange'', ''a'', ''0'', ''-1''] g2
    in r3 = r1 \<and> g_ok {} g3)"
proof -
  have p: "str2int ''1'' = Some 1" "str2int ''99'' = Some 99" by (simp_all add: str2int_def char_eval)
  have "snd (do_lrange env_start [''lrange'', ''a'', ''1'', ''99''] (g_list :: nat gdata)) = [RArr 2, RStr ''y'', RStr ''x'']"
    using do_lrange_ok[OF g_list_ok(1)[where 's = nat], of env_start "[''lrange'', ''a'', ''1'', ''99'']"]
      g_list_ok(2)[where 's = nat] p
    by (cases "do_lrange env_start [''lrange'', ''a'', ''1'', ''99''] (g_list :: nat gdata)")
       (simp add: list_range_def list_index_def)
  then show ?thesis
    using ltrim_lrange[OF g_list_ok(1)[where 's = nat] p] p g_list_ok(1)[where 's = nat] by blast
qed

text \<open>
  The counter of a list's bytes adds the capacity a string has when it is stored, and subtracts the capacity of its slot
  when it is removed. Moving a short string into a slot that owns a larger buffer keeps the larger buffer.
\<close>

definition drift_list :: deque where
  "drift_list = foldl deque_push_back deque_init [''a'', replicate 100 CHR ''L'', ''x'']"

text \<open>
  C24. The byte counter of a list is not exact under \<open>LREM\<close>: after three elements are pushed, the one in the middle,
  of 100 bytes, removed and the last popped, the list holds one element of one byte and the unsigned counter has
  wrapped to 70 below zero.
\<close>

theorem lrem_bytes_drift:
  "(let (d, n) = lrem_front (replicate 100 CHR ''L'') 1 0 0 drift_list;
        (d, x) = pop_back_str d
    in n = 1 \<and> x = Some ''x'' \<and> deque_list d = [''a''] \<and> dbytes d = - 70)"
proof -
  note string_ops = str_assign_def str_move_def str_new_def str_grow_def str_clear_def SSO_def
  have r: "replicate 8 z = [z, z, z, z, z, z, z, z]" "replicate 5 z = [z, z, z, z, z]" for z :: cstr
    by (simp_all add: eval_nat_numeral)
  have l: "''a'' \<noteq> replicate 100 CHR ''L''" by (auto dest: arg_cong[of _ _ length])
  have i: "[Suc 0..<2] = [Suc 0]" by (simp add: numeral_2_eq_2)
  have u: "(x # y # z # xs)[2 := t] = x # y # t # xs" for x y z t :: cstr and xs by (simp add: numeral_2_eq_2)
  have w: "(2 :: nat) AND 7 = 2" "Suc (Suc 0) AND 7 = (2 :: nat)" "Suc 0 AND 7 = (1 :: nat)" by (simp_all add: numeral_2_eq_2[symmetric])
  have e: "drift_list = \<lparr>buf = [\<lparr>chars = ''a'', scap = 15\<rparr>, \<lparr>chars = replicate 100 CHR ''L'', scap = 100\<rparr>,
      \<lparr>chars = ''x'', scap = 15\<rparr>] @ replicate 5 str_empty, dcap = 8, dhead = 0, dcount = 3, dbytes = 130\<rparr>"
    by (simp add: drift_list_def deque_push_back_def deque_init_def deque_grow_def rebuild_def deque_phys_def string_ops Let_def r w u)
  show ?thesis unfolding e
    by (simp add: lrem_front.simps lrem_one_def w r u i l deque_get_def
      elem_str_def pop_back_str_def deque_pop_back_def deque_list_def deque_elems_def deque_phys_def string_ops
      deque_close_gap_def slot_move_def Let_def)
qed

end
