(* ===== verification/Cmd_Zset.thy ===== *)
theory Cmd_Zset
  imports Cmd_List
begin

text \<open>
  The sorted set commands of \<open>commands/commands.cpp\<close>. Floating-point arithmetic is a parameter, \<open>dbl_ops\<close>: \<open>strtod\<close> gives the value
  it reads (\<^const>\<open>None\<close> for a NaN), the number of bytes it consumes and whether it sets \<open>ERANGE\<close>; \<open>dadd\<close> is the sum, \<^const>\<open>None\<close> if it
  is a NaN. Scores are the other doubles, a linear order in which the two zeros are one. The specification of a sorted set is
  the finite map from members to scores and the sequence of its pairs in ascending order.
\<close>

section \<open>Model\<close>

record 's dbl_ops =
  strtod :: "string \<Rightarrow> 's option \<times> nat \<times> bool"
  dcls :: "'s \<Rightarrow> dbl_class"
  dzero :: 's
  dadd :: "'s \<Rightarrow> 's \<Rightarrow> 's option"

text \<open>\<^const>\<open>c_str\<close> is all that \<^verbatim>\<open>strtod\<close> sees of the argument.\<close>

definition str2dbl :: "'s dbl_ops \<Rightarrow> string \<Rightarrow> 's option" where
  "str2dbl D s =
     (if s = [] then None
      else let (out, endp, erange) = strtod D (c_str s)
           in if isspace (hd s) \<or> endp \<noteq> length s then None
              else case out of
                     None \<Rightarrow> None
                   | Some d \<Rightarrow> if erange \<and> (dcls D d = DPosInf \<or> dcls D d = DNegInf \<or> d = dzero D) then None else Some d)"

definition entry_zset :: "'s gdata \<Rightarrow> addr \<Rightarrow> 's zset" where
  "entry_zset g a = (case val_at g a of VZset z \<Rightarrow> z | _ \<Rightarrow> zset_empty)"

definition MSG_FLOAT :: string where
  "MSG_FLOAT = ''ERR value is not a valid float''"

subsection \<open>Members\<close>

fun scores_ok :: "'s dbl_ops \<Rightarrow> string list \<Rightarrow> bool" where
  "scores_ok D (sc # name # rest) \<longleftrightarrow> str2dbl D sc \<noteq> None \<and> scores_ok D rest"
| "scores_ok D _ \<longleftrightarrow> True"

fun zadd_loop :: "'s::linorder dbl_ops \<Rightarrow> string list \<Rightarrow> 's zset \<Rightarrow> int \<Rightarrow> bool \<Rightarrow> 's zset \<times> int \<times> bool" where
  "zadd_loop D (sc # name # rest) z added changed =
     (let score = (case str2dbl D sc of None \<Rightarrow> dzero D | Some s \<Rightarrow> s);
          (z, zn) = zset_lookup z name
      in case zn of
           Some n \<Rightarrow>
             if fst n \<noteq> score then zadd_loop D rest (zset_update z n score) added True
             else zadd_loop D rest z added changed
         | None \<Rightarrow> (let (z, _) = zset_insert z name score in zadd_loop D rest z (added + 1) True))"
| "zadd_loop D _ z added changed = (z, added, changed)"

definition do_zadd :: "'s::linorder dbl_ops \<Rightarrow> 's handler" where
  "do_zadd D v cmd g =
     (if length cmd < 4 \<or> odd (length cmd) then (g, [RErr ''ERR wrong number of arguments for 'zadd command''])
      else if \<not> scores_ok D (drop 2 cmd) then (g, [RErr MSG_FLOAT])
      else
        let (g, r) = lookup_entry v (cmd ! 1) T_ZSET True False g
        in case r of
             LOk a \<Rightarrow>
               (let (z, added, changed) = zadd_loop D (drop 2 cmd) (entry_zset g a) 0 False;
                    g = put_val a (VZset z) g
                in (if changed then wrote 1 (mem_reaccount a g) else g, [RInt added]))
           | _ \<Rightarrow> (g, [RErr MSG_WRONG]))"

text \<open>The common end of the removing commands: an emptied set takes its key with it.\<close>

definition zset_tail :: "env \<Rightarrow> addr \<Rightarrow> 's zset \<Rightarrow> 's gdata \<Rightarrow> 's gdata" where
  "zset_tail v a z g =
     (let g = put_val a (VZset z) g
      in wrote 1 (if hm_size (zhmap z) = 0 then drop_entry v a g else mem_reaccount a g))"

definition do_zrem :: "'s::linorder handler" where
  "do_zrem v cmd g =
     (let (g, r) = lookup_entry v (cmd ! 1) T_ZSET False False g
      in case r of
           LWrongType \<Rightarrow> (g, [RErr MSG_WRONG])
         | LMissing \<Rightarrow> (g, [RInt 0])
         | LOk a \<Rightarrow>
             (let (z, zn) = zset_lookup (entry_zset g a) (cmd ! 2)
              in case zn of
                   None \<Rightarrow> (put_val a (VZset z) g, [RInt 0])
                 | Some n \<Rightarrow> (zset_tail v a (zset_delete z n) g, [RInt 1])))"

text \<open>A query about one member.\<close>

definition zquery :: "'s::linorder reply \<Rightarrow> string \<Rightarrow> ('s zset \<Rightarrow> 's \<times> string \<Rightarrow> 's reply) \<Rightarrow> 's handler" where
  "zquery none wrong answer v cmd g =
     (let (g, r) = lookup_entry v (cmd ! 1) T_ZSET False False g
      in case r of
           LWrongType \<Rightarrow> (g, [RErr wrong])
         | LMissing \<Rightarrow> (g, [none])
         | LOk a \<Rightarrow>
             (let (z, zn) = zset_lookup (entry_zset g a) (cmd ! 2)
              in (put_val a (VZset z) g, [case zn of None \<Rightarrow> none | Some n \<Rightarrow> answer z n])))"

definition do_zscore :: "'s::linorder handler" where
  "do_zscore = zquery RNil MSG_WRONG (\<lambda>z n. RDbl (fst n))"

definition do_zrank :: "'s::linorder handler" where
  "do_zrank = zquery RNil MSG_WRONG (\<lambda>z n. RInt (zset_rank z n))"

definition do_zrevrank :: "'s::linorder handler" where
  "do_zrevrank = zquery RNil MSG_WRONGTYPE (\<lambda>z n. RInt (uint (avl_cnt (zroot z)) - 1 - zset_rank z n))"

definition do_zcard :: "'s::linorder handler" where
  "do_zcard v cmd g =
     (let (g, r) = lookup_entry v (cmd ! 1) T_ZSET False False g
      in case r of
           LWrongType \<Rightarrow> (g, [RErr MSG_WRONGTYPE])
         | LMissing \<Rightarrow> (g, [RInt 0])
         | LOk a \<Rightarrow> (g, [RInt (uint (avl_cnt (zroot (entry_zset g a))))]))"

definition do_zincrby :: "'s::linorder dbl_ops \<Rightarrow> 's handler" where
  "do_zincrby D v cmd g =
     (case str2dbl D (cmd ! 2) of
        None \<Rightarrow> (g, [RErr MSG_FLOAT])
      | Some incr \<Rightarrow>
          let (g, r) = lookup_entry v (cmd ! 1) T_ZSET True False g
          in case r of
               LOk a \<Rightarrow>
                 (let (z, zn) = zset_lookup (entry_zset g a) (cmd ! 3)
                  in case (case zn of None \<Rightarrow> Some incr | Some n \<Rightarrow> dadd D (fst n) incr) of
                       None \<Rightarrow> (put_val a (VZset z) g, [RErr ''ERR resulting score is not a number (NaN)''])
                     | Some score \<Rightarrow>
                         let z = (case zn of Some n \<Rightarrow> zset_update z n score | None \<Rightarrow> fst (zset_insert z (cmd ! 3) score))
                         in (wrote 1 (mem_reaccount a (put_val a (VZset z) g)), [RDbl score]))
             | _ \<Rightarrow> (g, [RErr MSG_WRONGTYPE]))"

subsection \<open>Ranges\<close>

datatype zopt = ZO_BYSCORE | ZO_BYLEX | ZO_REV | ZO_LIMIT | ZO_WITHSCORES

record 's zrange_spec =
  by_score :: bool
  zrev :: bool
  withscores :: bool
  has_limit :: bool
  zoffset :: int
  zcount :: int
  zstart :: int
  zstop :: int
  zlo :: 's
  zhi :: 's
  lo_excl :: bool
  hi_excl :: bool

definition zrange_spec0 :: "'s dbl_ops \<Rightarrow> 's zrange_spec" where
  "zrange_spec0 D =
     \<lparr>by_score = False, zrev = False, withscores = False, has_limit = False, zoffset = 0, zcount = - 1,
      zstart = 0, zstop = 0, zlo = dzero D, zhi = dzero D, lo_excl = False, hi_excl = False\<rparr>"

text \<open>The bound and whether it is exclusive.\<close>

definition parse_score_bound :: "'s dbl_ops \<Rightarrow> string \<Rightarrow> ('s \<times> bool) option" where
  "parse_score_bound D s =
     (let excl = (s \<noteq> [] \<and> hd s = CHR ''('');
          p = (if excl then tl (c_str s) else c_str s);
          (v, endp, _) = strtod D p
      in if endp = length p then map_option (\<lambda>d. (d, excl)) v else None)"

fun parse_zrange_opts :: "zopt list \<Rightarrow> string list \<Rightarrow> 's zrange_spec \<Rightarrow> string + 's zrange_spec" where
  "parse_zrange_opts allow [] sp = Inr sp"
| "parse_zrange_opts allow (x # xs) sp =
     (if ZO_WITHSCORES \<in> set allow \<and> arg_ieq x ''withscores'' then parse_zrange_opts allow xs (sp\<lparr>withscores := True\<rparr>)
      else if ZO_REV \<in> set allow \<and> arg_ieq x ''rev'' then parse_zrange_opts allow xs (sp\<lparr>zrev := True\<rparr>)
      else if ZO_BYSCORE \<in> set allow \<and> arg_ieq x ''byscore'' then parse_zrange_opts allow xs (sp\<lparr>by_score := True\<rparr>)
      else if ZO_BYLEX \<in> set allow \<and> arg_ieq x ''bylex'' then Inl ''ERR syntax error, BYLEX is not supported''
      else if ZO_LIMIT \<in> set allow \<and> arg_ieq x ''limit'' then
        (case xs of
           a # b # rest \<Rightarrow>
             (case (str2int a, str2int b) of
                (Some off, Some cnt) \<Rightarrow> parse_zrange_opts allow rest (sp\<lparr>zoffset := off, zcount := cnt, has_limit := True\<rparr>)
              | _ \<Rightarrow> Inl MSG_NOT_INT)
         | _ \<Rightarrow> Inl MSG_SYNTAX)
      else Inl MSG_SYNTAX)"

definition zrange_bounds :: "'s dbl_ops \<Rightarrow> 's zrange_spec \<Rightarrow> string \<Rightarrow> string \<Rightarrow> string + 's zrange_spec" where
  "zrange_bounds D sp a b =
     (if \<not> by_score sp then
        (case (str2int a, str2int b) of
           (Some s, Some e) \<Rightarrow> Inr (sp\<lparr>zstart := s, zstop := e\<rparr>)
         | _ \<Rightarrow> Inl MSG_NOT_INT)
      else
        let smin = (if zrev sp then b else a);
            smax = (if zrev sp then a else b)
        in case (parse_score_bound D smin, parse_score_bound D smax) of
             (Some (lo, le), Some (hi, he)) \<Rightarrow> Inr (sp\<lparr>zlo := lo, lo_excl := le, zhi := hi, hi_excl := he\<rparr>)
           | _ \<Rightarrow> Inl ''ERR min or max is not a float'')"

definition zrange_interval :: "'s::linorder zset \<Rightarrow> 's zrange_spec \<Rightarrow> int \<times> int" where
  "zrange_interval z sp =
     (if by_score sp then (zset_count_below z (zlo sp) (lo_excl sp), zset_count_below z (zhi sp) (\<not> hi_excl sp))
      else
        let card = uint (avl_cnt (zroot z));
            s = (if zstart sp < 0 then zstart sp + card else zstart sp);
            e = (if zstop sp < 0 then zstop sp + card else zstop sp);
            s = (if s < 0 then 0 else s)
        in if e < s \<or> card \<le> s then (0, 0)
           else let e = (if card \<le> e then card - 1 else e)
                in if zrev sp then (card - 1 - e, card - s) else (s, e + 1))"

definition emit_member :: "env \<Rightarrow> bool \<Rightarrow> 's \<times> string \<Rightarrow> 's reply list" where
  "emit_member v ws zn =
     (if ws \<and> 3 \<le> proto v then [RArr 2] else []) @ [RStr (snd zn)] @ (if ws then [RDbl (fst zn)] else [])"

text \<open>At most \<open>n\<close> nodes from a node on; \<^const>\<open>None\<close> when a step of the walk does not end.\<close>

fun zwalk :: "'s zset \<Rightarrow> int \<Rightarrow> nat \<Rightarrow> ('s \<times> string) option \<Rightarrow> ('s \<times> string) list option" where
  "zwalk z dir 0 zn = Some []"
| "zwalk z dir (Suc n) None = Some []"
| "zwalk z dir (Suc n) (Some x) =
     (case znode_offset z (Some x) dir of
        None \<Rightarrow> None
      | Some y \<Rightarrow> map_option (Cons x) (zwalk z dir n y))"

text \<open>The members to skip and the number to emit.\<close>

definition zlimit :: "'s zrange_spec \<Rightarrow> int \<Rightarrow> int \<times> int" where
  "zlimit sp n =
     (if has_limit sp then
        if zoffset sp < 0 \<or> n \<le> zoffset sp then (0, 0)
        else let n = n - zoffset sp
             in (zoffset sp, if 0 \<le> zcount sp \<and> zcount sp < n then zcount sp else n)
      else (0, n))"

definition zrange_emit :: "env \<Rightarrow> 's::linorder zset \<Rightarrow> 's zrange_spec \<Rightarrow> 's reply list option" where
  "zrange_emit v z sp =
     (let (lo, hi) = zrange_interval z sp;
          n = (if lo < hi then hi - lo else 0);
          (skip, n) = zlimit sp n;
          flat = (withscores sp \<and> proto v < 3);
          zn = (if 0 < n then zset_at_rank z (if zrev sp then hi - 1 - skip else lo + skip) else None)
      in map_option (\<lambda>xs. RArr (word_of_int (if flat then n * 2 else n)) # concat (map (emit_member v (withscores sp)) xs))
           (zwalk z (if zrev sp then - 1 else 1) (nat n) zn))"

definition zrange_generic ::
  "'s::linorder dbl_ops \<Rightarrow> 's zrange_spec \<Rightarrow> zopt list \<Rightarrow> env \<Rightarrow> string list \<Rightarrow> 's gdata \<Rightarrow> ('s gdata \<times> 's reply list) option"
where
  "zrange_generic D sp allow v cmd g =
     (case parse_zrange_opts allow (drop 4 cmd) sp of
        Inl e \<Rightarrow> Some (g, [RErr e])
      | Inr sp \<Rightarrow>
          if has_limit sp \<and> \<not> by_score sp
          then Some (g, [RErr ''ERR syntax error, LIMIT is only supported in combination with either BYSCORE or BYLEX''])
          else case zrange_bounds D sp (cmd ! 2) (cmd ! 3) of
                 Inl e \<Rightarrow> Some (g, [RErr e])
               | Inr sp \<Rightarrow>
                   (let (g, r) = lookup_entry v (cmd ! 1) T_ZSET False False g
                    in case r of
                         LWrongType \<Rightarrow> Some (g, [RErr MSG_WRONGTYPE])
                       | LMissing \<Rightarrow> Some (g, [RArr 0])
                       | LOk a \<Rightarrow> map_option (Pair g) (zrange_emit v (entry_zset g a) sp)))"

definition do_zrange :: "'s::linorder dbl_ops \<Rightarrow> env \<Rightarrow> string list \<Rightarrow> 's gdata \<Rightarrow> ('s gdata \<times> 's reply list) option" where
  "do_zrange D = zrange_generic D (zrange_spec0 D) [ZO_BYSCORE, ZO_BYLEX, ZO_REV, ZO_LIMIT, ZO_WITHSCORES]"

definition do_zrevrange :: "'s::linorder dbl_ops \<Rightarrow> env \<Rightarrow> string list \<Rightarrow> 's gdata \<Rightarrow> ('s gdata \<times> 's reply list) option" where
  "do_zrevrange D = zrange_generic D ((zrange_spec0 D)\<lparr>zrev := True\<rparr>) [ZO_WITHSCORES]"

definition do_zrangebyscore :: "'s::linorder dbl_ops \<Rightarrow> env \<Rightarrow> string list \<Rightarrow> 's gdata \<Rightarrow> ('s gdata \<times> 's reply list) option" where
  "do_zrangebyscore D = zrange_generic D ((zrange_spec0 D)\<lparr>by_score := True\<rparr>) [ZO_LIMIT, ZO_WITHSCORES]"

definition do_zrevrangebyscore :: "'s::linorder dbl_ops \<Rightarrow> env \<Rightarrow> string list \<Rightarrow> 's gdata \<Rightarrow> ('s gdata \<times> 's reply list) option" where
  "do_zrevrangebyscore D = zrange_generic D ((zrange_spec0 D)\<lparr>by_score := True, zrev := True\<rparr>) [ZO_LIMIT, ZO_WITHSCORES]"

definition do_zcount :: "'s::linorder dbl_ops \<Rightarrow> 's handler" where
  "do_zcount D v cmd g =
     (case zrange_bounds D ((zrange_spec0 D)\<lparr>by_score := True\<rparr>) (cmd ! 2) (cmd ! 3) of
        Inl e \<Rightarrow> (g, [RErr e])
      | Inr sp \<Rightarrow>
          let (g, r) = lookup_entry v (cmd ! 1) T_ZSET False False g
          in case r of
               LWrongType \<Rightarrow> (g, [RErr MSG_WRONGTYPE])
             | LMissing \<Rightarrow> (g, [RInt 0])
             | LOk a \<Rightarrow> (let (lo, hi) = zrange_interval (entry_zset g a) sp in (g, [RInt (if lo < hi then hi - lo else 0)])))"

definition zremrange_generic ::
  "'s::linorder dbl_ops \<Rightarrow> bool \<Rightarrow> env \<Rightarrow> string list \<Rightarrow> 's gdata \<Rightarrow> ('s gdata \<times> 's reply list) option"
where
  "zremrange_generic D bs v cmd g =
     (case zrange_bounds D ((zrange_spec0 D)\<lparr>by_score := bs\<rparr>) (cmd ! 2) (cmd ! 3) of
        Inl e \<Rightarrow> Some (g, [RErr e])
      | Inr sp \<Rightarrow>
          let (g, r) = lookup_entry v (cmd ! 1) T_ZSET False False g
          in case r of
               LWrongType \<Rightarrow> Some (g, [RErr MSG_WRONGTYPE])
             | LMissing \<Rightarrow> Some (g, [RInt 0])
             | LOk a \<Rightarrow>
                 (let z = entry_zset g a;
                      (lo, hi) = zrange_interval z sp
                  in if hi \<le> lo then Some (g, [RInt 0])
                     else map_option
                            (\<lambda>doomed. (zset_tail v a (foldl zset_delete z doomed) g, [RInt (int (length doomed))]))
                            (zwalk z 1 (nat (hi - lo)) (zset_at_rank z lo))))"

definition do_zremrangebyscore :: "'s::linorder dbl_ops \<Rightarrow> env \<Rightarrow> string list \<Rightarrow> 's gdata \<Rightarrow> ('s gdata \<times> 's reply list) option" where
  "do_zremrangebyscore D = zremrange_generic D True"

definition do_zremrangebyrank :: "'s::linorder dbl_ops \<Rightarrow> env \<Rightarrow> string list \<Rightarrow> 's gdata \<Rightarrow> ('s gdata \<times> 's reply list) option" where
  "do_zremrangebyrank D = zremrange_generic D False"

subsection \<open>\<open>ZPOPMIN\<close>\<close>

fun zleftmost :: "'a atree \<Rightarrow> 'a option" where
  "zleftmost ALeaf = None"
| "zleftmost (ANode ALeaf y h c r) = Some y"
| "zleftmost (ANode l y h c r) = zleftmost l"

fun zpop_loop :: "nat \<Rightarrow> 's zset \<Rightarrow> 's zset \<times> ('s \<times> string) list" where
  "zpop_loop 0 z = (z, [])"
| "zpop_loop (Suc n) z =
     (case zleftmost (zroot z) of
        None \<Rightarrow> (z, [])
      | Some zn \<Rightarrow> (let (z, popped) = zpop_loop n (zset_delete z zn) in (z, zn # popped)))"

definition zpop_reply :: "env \<Rightarrow> bool \<Rightarrow> ('s \<times> string) list \<Rightarrow> 's reply list" where
  "zpop_reply v counted popped =
     (if 3 \<le> proto v \<and> counted
      then RArr (of_nat (length popped)) # concat (map (\<lambda>p. [RArr 2, RStr (snd p), RDbl (fst p)]) popped)
      else RArr (of_nat (length popped * 2)) # concat (map (\<lambda>p. [RStr (snd p), RDbl (fst p)]) popped))"

definition do_zpopmin :: "'s::linorder handler" where
  "do_zpopmin v cmd g =
     (case (if 3 \<le> length cmd then map_option (\<lambda>n. if n < 0 then 0 else n) (str2int (cmd ! 2)) else Some 1) of
        None \<Rightarrow> (g, [RErr MSG_NOT_INT])
      | Some cnt \<Rightarrow>
          let (g, r) = lookup_entry v (cmd ! 1) T_ZSET False False g
          in case r of
               LWrongType \<Rightarrow> (g, [RErr MSG_WRONGTYPE])
             | LMissing \<Rightarrow> (g, [RArr 0])
             | LOk a \<Rightarrow>
                 (let (z, popped) = zpop_loop (nat cnt) (entry_zset g a)
                  in (if popped \<noteq> [] then zset_tail v a z g else g, zpop_reply v (3 \<le> length cmd) popped)))"

section \<open>The sorted sequence\<close>

text \<open>The pairs of a finite map in ascending order of score and name.\<close>

definition zseq :: "(string \<rightharpoonup> 's::linorder) \<Rightarrow> ('s \<times> string) list" where
  "zseq m = sorted_list_of_set {(s, n). m n = Some s}"

lemma zseq_inorder:
  assumes "zset_wf z"
  shows "zseq (zset_abs z) = inorder (zroot z)"
proof -
  note w = zset_wfD[OF assms]
  have "{(s, n). zset_abs z n = Some s} = set (inorder (zroot z))" using zset_abs_iff[OF w(3)] by auto
  then show ?thesis unfolding zseq_def using w(2) by (metis sorted_list_of_set.idem_if_sorted_distinct strict_sorted_iff)
qed

lemma zset_bytes: "zset_wf z \<Longrightarrow> zset_wf z' \<Longrightarrow> zset_abs z' = zset_abs z \<Longrightarrow> elem_bytes (zhmap z') = elem_bytes (zhmap z)"
  using zseq_inorder[of z] zseq_inorder[of z'] zset_wfD(5,6)[of z] zset_wfD(5,6)[of z'] by simp

lemma zset_cnt: "zset_wf z \<Longrightarrow> uint (avl_cnt (zroot z)) = int (card (dom (zset_abs z)))"
  using uint_cnt[OF zset_wfD(1), of z] zset_card[of z] by simp

lemma zseq_length: "zset_wf z \<Longrightarrow> length (zseq (zset_abs z)) = card (dom (zset_abs z))"
  by (simp add: zseq_inorder zset_card)

lemma zset_size_0: "zset_wf z \<Longrightarrow> hm_size (zhmap z) = 0 \<longleftrightarrow> zset_abs z = Map.empty"
proof -
  assume w: "zset_wf z"
  have "hm_wf (zhmap z)" using zset_wfD(4)[OF w] by (simp add: sk_wf_def)
  then have "hm_size (zhmap z) = size (sk_payloads (zhmap z))" using hm_size_ok by (simp add: sk_payloads_def)
  also have "\<dots> = card (dom (zset_abs z))" using zset_wfD(5)[OF w] zset_card[OF w] by simp
  finally show ?thesis using zset_finite[of z] by simp
qed

interpretation zt: entry_type T_ZSET VZset entry_zset zset_wf AZset zset_abs Map.empty
  by unfold_locales (auto simp: type_at_def entry_zset_def empty_val_def split: evalue.splits)

definition zset_case :: "('s avalue \<times> u64 option) option \<Rightarrow> 'b \<Rightarrow> 'b \<Rightarrow> ((string \<rightharpoonup> 's) \<Rightarrow> u64 option \<Rightarrow> 'b) \<Rightarrow> 'b" where
  "zset_case x missing wrong f = (case x of None \<Rightarrow> missing | Some (AZset m, d) \<Rightarrow> f m d | Some _ \<Rightarrow> wrong)"

lemma zset_case_simps [simp]:
  "zset_case None x y f = x" "zset_case (Some (AZset m, d)) x y f = f m d" "wrong_type T_ZSET z \<Longrightarrow> zset_case z x y f = y"
  by (auto simp: zset_case_def wrong_type_def split: option.splits avalue.splits)

text \<open>Storing a sorted set under a key, an empty one by removing the key.\<close>

definition put_zset :: "string \<Rightarrow> (string \<rightharpoonup> 's) \<Rightarrow> u64 option \<Rightarrow> (string \<Rightarrow> ('s avalue \<times> u64 option) option) \<Rightarrow>
    string \<Rightarrow> ('s avalue \<times> u64 option) option" where
  "put_zset k m d M = M(k := if m = Map.empty then None else Some (AZset m, d))"

lemma zset_tail_ok:
  assumes "g_ok {a} g" "at v g k a" "zset_wf z"
  shows "g_ok {} (zset_tail v a z g)" "live v (zset_tail v a z g) = put_zset k (zset_abs z) (ttl_of (heap g) a) (live v g)"
  using zt.discard[OF assms, of 1] zt.commit[OF assms, of 1] zset_size_0[OF assms(3)]
  by (simp_all add: zset_tail_def Let_def put_zset_def)

lemma zset_refresh:
  assumes "g_ok S g" "at v g k a" "val_at g a = VZset (entry_zset g a)" "zset_wf (entry_zset g a)" "zset_wf z" "zset_abs z = zset_abs (entry_zset g a)"
  shows "g_ok S (put_val a (VZset z) g)" "live v (put_val a (VZset z) g) = live v g"
proof -
  have "val_mem (VZset z) = val_mem (VZset (entry_zset g a))" using zset_bytes[OF assms(4,5,6)] by (simp add: val_mem_def)
  from zt.refresh(1,2)[OF assms(1-3,5,6) this] show "g_ok S (put_val a (VZset z) g)" "live v (put_val a (VZset z) g) = live v g" by simp_all
qed

section \<open>Members\<close>

text \<open>Several scores at once, the last of a member winning.\<close>

fun put_scores :: "'s dbl_ops \<Rightarrow> (string \<times> string) list \<Rightarrow> (string \<rightharpoonup> 's) \<Rightarrow> string \<rightharpoonup> 's" where
  "put_scores D [] m = m"
| "put_scores D ((sc, n) # ps) m = put_scores D ps (m(n := str2dbl D sc))"

lemma card_new_snd: "finite A \<Longrightarrow> card (insert f A - B) = (if f \<in> B then 0 else 1) + card (A - insert f B)"
proof -
  assume A: "finite A"
  have "insert f A - B = (if f \<in> B then {} else {f}) \<union> (A - insert f B)" by auto
  then show ?thesis using A by (simp add: card_insert_if)
qed

lemma zadd_loop_ok:
  "zset_wf z \<Longrightarrow> scores_ok D as \<Longrightarrow> card (dom (zset_abs z)) + length (kv_pairs as) < 2 ^ 32 \<Longrightarrow>
   zadd_loop D as z n b = (z', n', b') \<Longrightarrow>
   zset_wf z' \<and> zset_abs z' = put_scores D (kv_pairs as) (zset_abs z) \<and>
   n' = n + int (card (snd ` set (kv_pairs as) - dom (zset_abs z))) \<and> (b \<longrightarrow> b') \<and> (\<not> b' \<longrightarrow> zset_abs z' = zset_abs z)"
proof (induction D as z n b rule: zadd_loop.induct)
  case (1 D sc name rest z n b)
  obtain s where s: "str2dbl D sc = Some s" and so: "scores_ok D rest" using 1(5) by auto
  obtain z1 zn where l: "zset_lookup z name = (z1, zn)" by fastforce
  note ll = zset_lookup_ok[OF 1(4) l]
  have w1: "zset_wf z1" "zset_abs z1 = zset_abs z" and zn: "zn = map_option (\<lambda>s. (s, name)) (zset_abs z name)" using ll by auto
  have fin: "finite (dom (zset_abs z))" by (rule zset_finite)
  have cd: "card (dom ((zset_abs z)(name \<mapsto> s))) + length (kv_pairs rest) < 2 ^ 32"
    using 1(6) fin by (simp add: card_insert_if)
  have "finite (snd ` set (kv_pairs rest))" by simp
  note cn = card_new_snd[OF this, of name "dom (zset_abs z)"]
  show ?case
  proof (cases "zset_abs z name")
    case None
    obtain z2 nw where i: "zset_insert z1 name s = (z2, nw)" by fastforce
    have "zset_room z1" using zset_room_card[OF w1(1)] w1(2) 1(6) by simp
    note ii = zset_insert_ok[OF w1(1) this i]
    have w2: "zset_wf z2" and e2: "zset_abs z2 = (zset_abs z)(name \<mapsto> s)" using ii w1(2) by auto
    have r: "zadd_loop D rest z2 (n + 1) True = (z', n', b')" using 1(7) s l zn None i by simp
    have cd2: "card (dom (zset_abs z2)) + length (kv_pairs rest) < 2 ^ 32" using cd unfolding e2 .
    have zN: "zn = None" using zn None by simp
    have "(z2, nw) = zset_insert z1 name (case str2dbl D sc of None \<Rightarrow> dzero D | Some s \<Rightarrow> s)" using i s by simp
    note ih = 1(1)[OF refl refl l[symmetric] zN refl this w2 so cd2 r]
    have "zset_wf z' \<and> zset_abs z' = put_scores D (kv_pairs rest) ((zset_abs z)(name \<mapsto> s)) \<and>
        n' = n + 1 + int (card (snd ` set (kv_pairs rest) - dom ((zset_abs z)(name \<mapsto> s)))) \<and> b'"
      using ih i s unfolding e2 by (auto simp: fun_upd_def)
    then show ?thesis using cn s None by (simp add: domIff)
  next
    case (Some t)
    show ?thesis
    proof (cases "t = s")
      case True
      have r: "zadd_loop D rest z1 n b = (z', n', b')" using 1(7) s l zn Some True by simp
      have cd1: "card (dom (zset_abs z1)) + length (kv_pairs rest) < 2 ^ 32" using 1(6) w1(2) by simp
      have ih: "zset_wf z' \<and> zset_abs z' = put_scores D (kv_pairs rest) (zset_abs z1) \<and>
          n' = n + int (card (snd ` set (kv_pairs rest) - dom (zset_abs z1))) \<and> (b \<longrightarrow> b') \<and> (\<not> b' \<longrightarrow> zset_abs z' = zset_abs z1)"
        by (rule 1(3)[OF refl refl l[symmetric] zn[unfolded Some, simplified] _ w1(1) so cd1 r]) (simp add: s True)
      have "(zset_abs z)(name := str2dbl D sc) = zset_abs z" using Some s True by (simp add: fun_upd_idem)
      moreover have "insert name (dom (zset_abs z)) = dom (zset_abs z)" using Some by auto
      ultimately show ?thesis using ih cn Some unfolding w1(2) by (auto simp: domIff)
    next
      case False
      let ?z2 = "zset_update z1 (t, name) s"
      have u: "zset_wf ?z2" "zset_abs ?z2 = (zset_abs z)(name \<mapsto> s)" using zset_update_ok[OF w1(1), of name t s] w1(2) Some by auto
      have r: "zadd_loop D rest ?z2 n True = (z', n', b')" using 1(7) s l zn Some False by simp
      have cd2: "card (dom (zset_abs ?z2)) + length (kv_pairs rest) < 2 ^ 32" using cd unfolding u(2) .
      have ih: "zset_wf z' \<and> zset_abs z' = put_scores D (kv_pairs rest) (zset_abs ?z2) \<and>
          n' = n + int (card (snd ` set (kv_pairs rest) - dom (zset_abs ?z2))) \<and> b'"
        using 1(2)[OF refl refl l[symmetric] zn[unfolded Some, simplified]] u(1) so cd2 r s False by simp
      moreover have "insert name (dom (zset_abs z)) = dom (zset_abs z)" using Some by auto
      ultimately show ?thesis using cn s Some unfolding u(2) by (simp add: domIff)
    qed
  qed
qed auto

lemma put_scores_dom: "scores_ok D as \<Longrightarrow> dom (put_scores D (kv_pairs as) m) = dom m \<union> snd ` set (kv_pairs as)"
  by (induction as arbitrary: m rule: kv_pairs.induct) auto

lemma do_zadd_ok:
  assumes "g_ok {} g" "fits v (length cmd) g" "length cmd < 2 ^ 31" "do_zadd D v cmd g = (g', rs)"
  defines "ps \<equiv> kv_pairs (drop 2 cmd)"
  shows "g_ok {} g' \<and> (live v g', rs) =
    (if length cmd < 4 \<or> odd (length cmd) then (live v g, [RErr ''ERR wrong number of arguments for 'zadd command''])
     else if \<not> scores_ok D (drop 2 cmd) then (live v g, [RErr MSG_FLOAT])
     else let put = (\<lambda>m d. (put_zset (cmd ! 1) (put_scores D ps m) d (live v g), [RInt (int (card (snd ` set ps - dom m)))]))
          in zset_case (live v g (cmd ! 1)) (put Map.empty None) (live v g, [RErr MSG_WRONG]) put)"
proof (cases "length cmd < 4 \<or> odd (length cmd) \<or> \<not> scores_ok D (drop 2 cmd)")
  case True
  then show ?thesis using assms by (auto simp: do_zadd_def)
next
  case False
  then have lc: "\<not> (length cmd < 4 \<or> odd (length cmd))" and so: "scores_ok D (drop 2 cmd)" by auto
  let ?k = "cmd ! 1"
  obtain g1 r where l: "lookup_entry v ?k T_ZSET True False g = (g1, r)" by fastforce
  have room: "g_room g" by (rule fits_room[OF assms(2)]) (use lc in linarith)
  have lp: "length ps \<le> length cmd" "0 < length ps" using lc by (auto simp: ps_def kv_pairs_len elim!: evenE)
  have ne: "put_scores D ps m \<noteq> Map.empty" for m
  proof -
    have "snd (hd ps) \<in> dom (put_scores D ps m)" using put_scores_dom[OF so, of m] lp(2) by (cases ps) (auto simp: ps_def)
    then show ?thesis by auto
  qed
  have go: "g_ok {} g' \<and> live v g' = (live v g1)(?k \<mapsto> (AZset (put_scores D ps (zset_abs (entry_zset g1 a))), ttl_of (heap g1) a)) \<and>
      rs = [RInt (int (card (snd ` set ps - dom (zset_abs (entry_zset g1 a)))))]"
    if a: "r = LOk a" "at v g1 ?k a" "g_ok {a} g1" "zset_wf (entry_zset g1 a)"
      and c: "card (dom (zset_abs (entry_zset g1 a))) + length ps < 2 ^ 32"
      and nc: "zset_abs (entry_zset g1 a) = Map.empty \<or> (val_at g1 a = VZset (entry_zset g1 a) \<and> g_ok {} g1)" for a
  proof -
    obtain z n b where z: "zadd_loop D (drop 2 cmd) (entry_zset g1 a) 0 False = (z, n, b)" by (metis prod_cases3)
    note ok = zadd_loop_ok[OF a(4) so c[unfolded ps_def] z, folded ps_def]
    have w: "zset_wf z" using ok by simp
    have rs: "rs = [RInt n]" "g' = (if b then wrote 1 (mem_reaccount a (put_val a (VZset z) g1)) else put_val a (VZset z) g1)"
      using assms(4) lc so l a(1) z by (auto simp: do_zadd_def Let_def)
    show ?thesis
    proof (cases b)
      case True
      then show ?thesis using rs ok zt.commit[OF a(3,2) w, of 1] by simp
    next
      case False
      then have e: "zset_abs z = zset_abs (entry_zset g1 a)" "put_scores D ps (zset_abs (entry_zset g1 a)) = zset_abs (entry_zset g1 a)" using ok by auto
      then have "zset_abs (entry_zset g1 a) \<noteq> Map.empty" using ne by metis
      then have "val_at g1 a = VZset (entry_zset g1 a)" "g_ok {} g1" using nc by auto
      from zset_refresh[OF this(2) a(2) this(1) a(4) w e(1)] this show ?thesis
        using rs ok False at_live[OF a(2)] e by (simp add: fun_upd_idem)
    qed
  qed
  from assms(1) room l show ?thesis
  proof (cases rule: zt.rw_cases)
    case (fresh a)
    have "card (dom (zset_abs (entry_zset g1 a))) + length ps < 2 ^ 32" using fresh(7) lp(1) assms(3) by simp
    from go[OF fresh(1-4) this] show ?thesis using fresh(6-9) lc so ne by (simp add: put_zset_def Let_def)
  next
    case (found a)
    have c: "card (dom (zset_abs (entry_zset g1 a))) + length ps < 2 ^ 32" using fits_live[OF assms(2) found(6)] lp(1) by simp
    have "g_ok {} g1" using lookup_found[OF assms(1) room l[unfolded found(1)] found(6)] by simp
    with go[OF found(1-4) c] found(5) show ?thesis using found(6,7) lc so ne by (simp add: put_zset_def Let_def)
  qed (use assms(4) l lc so in \<open>auto simp: do_zadd_def Let_def\<close>)
qed

lemma do_zrem_ok:
  assumes "g_ok {} g" "do_zrem v cmd g = (g', rs)"
  shows "g_ok {} g' \<and> (live v g', rs) =
    zset_case (live v g (cmd ! 1)) (live v g, [RInt 0]) (live v g, [RErr MSG_WRONG])
      (\<lambda>m d. if cmd ! 2 \<in> dom m then (put_zset (cmd ! 1) (m(cmd ! 2 := None)) d (live v g), [RInt 1]) else (live v g, [RInt 0]))"
proof -
  obtain g1 r where l: "lookup_entry v (cmd ! 1) T_ZSET False False g = (g1, r)" by fastforce
  from assms(1) l show ?thesis
  proof (cases rule: zt.ro_cases)
    case (found a)
    let ?z = "entry_zset g1 a" and ?n = "cmd ! 2"
    have ok1: "g_ok {a} g1" by (rule g_ok_mono[OF found(4)]) simp
    obtain z zn where z: "zset_lookup ?z ?n = (z, zn)" by fastforce
    note lk = zset_lookup_ok[OF found(3) z]
    have w: "zset_wf z" "zset_abs z = zset_abs ?z" using lk by auto
    show ?thesis
    proof (cases "zset_abs ?z ?n")
      case None
      then show ?thesis using assms(2) l found(1,5,6) z lk zset_refresh[OF found(4,2,7,3) w] by (auto simp: do_zrem_def domIff)
    next
      case (Some s)
      then have dl: "zset_wf (zset_delete z (s, ?n))" "zset_abs (zset_delete z (s, ?n)) = (zset_abs ?z)(?n := None)"
        using zset_delete_ok[OF w(1), of ?n s] w(2) by auto
      have "zn = Some (s, ?n)" using lk Some by simp
      then show ?thesis using assms(2) l found(1,5,6) z Some zset_tail_ok[OF ok1 found(2) dl(1)] dl(2) by (auto simp: do_zrem_def)
    qed
  qed (use assms(2) l in \<open>auto simp: do_zrem_def\<close>)
qed

lemma zquery_ok:
  assumes "g_ok {} g" "zquery none wrong answer v cmd g = (g', rs)"
  shows "g_ok {} g' \<and> live v g' = live v g \<and>
    zset_case (live v g (cmd ! 1)) (rs = [none]) (rs = [RErr wrong])
      (\<lambda>m d. case m (cmd ! 2) of None \<Rightarrow> rs = [none]
        | Some s \<Rightarrow> \<exists>z. zset_wf z \<and> zset_abs z = m \<and> rs = [answer z (s, cmd ! 2)])"
proof -
  obtain g1 r where l: "lookup_entry v (cmd ! 1) T_ZSET False False g = (g1, r)" by fastforce
  from assms(1) l show ?thesis
  proof (cases rule: zt.ro_cases)
    case (found a)
    let ?z = "entry_zset g1 a" and ?n = "cmd ! 2"
    obtain z zn where z: "zset_lookup ?z ?n = (z, zn)" by fastforce
    note lk = zset_lookup_ok[OF found(3) z]
    have w: "zset_wf z" "zset_abs z = zset_abs ?z" using lk by auto
    have "g' = put_val a (VZset z) g1" "rs = [case zn of None \<Rightarrow> none | Some n \<Rightarrow> answer z n]"
      using assms(2) l found(1) z by (simp_all add: zquery_def)
    then show ?thesis using zset_refresh[OF found(4,2,7,3) w] found(5,6) lk w by (auto split: option.splits)
  qed (use assms(2) l in \<open>auto simp: zquery_def\<close>)
qed

lemma do_zcard_ok:
  assumes "g_ok {} g" "do_zcard v cmd g = (g', rs)"
  shows "g_ok {} g' \<and> live v g' = live v g \<and>
    rs = zset_case (live v g (cmd ! 1)) [RInt 0] [RErr MSG_WRONGTYPE] (\<lambda>m d. [RInt (int (card (dom m)))])"
proof -
  obtain g1 r where l: "lookup_entry v (cmd ! 1) T_ZSET False False g = (g1, r)" by fastforce
  from assms(1) l show ?thesis
  proof (cases rule: zt.ro_cases)
    case (found a)
    then show ?thesis using assms(2) l zset_cnt[OF found(3)] by (auto simp: do_zcard_def)
  qed (use assms(2) l in \<open>auto simp: do_zcard_def\<close>)
qed

lemma do_zincrby_ok:
  assumes "g_ok {} g" "fits v 1 g" "do_zincrby D v cmd g = (g', rs)"
  shows "g_ok {} g' \<and> (live v g', rs) =
    (case str2dbl D (cmd ! 2) of
       None \<Rightarrow> (live v g, [RErr MSG_FLOAT])
     | Some x \<Rightarrow>
         (let go = (\<lambda>m d. case (case m (cmd ! 3) of None \<Rightarrow> Some x | Some s \<Rightarrow> dadd D s x) of
              None \<Rightarrow> (live v g, [RErr ''ERR resulting score is not a number (NaN)''])
            | Some s \<Rightarrow> (put_zset (cmd ! 1) (m(cmd ! 3 \<mapsto> s)) d (live v g), [RDbl s]))
          in zset_case (live v g (cmd ! 1)) (go Map.empty None) (live v g, [RErr MSG_WRONGTYPE]) go))"
proof (cases "str2dbl D (cmd ! 2)")
  case None
  then show ?thesis using assms by (simp add: do_zincrby_def)
next
  case (Some x)
  let ?k = "cmd ! 1" and ?n = "cmd ! 3"
  obtain g1 r where l: "lookup_entry v ?k T_ZSET True False g = (g1, r)" by fastforce
  have room: "g_room g" by (rule fits_room[OF assms(2)]) simp
  have go: "g_ok {} g' \<and> live v g' = (live v g1)(?k \<mapsto> (AZset (m(?n \<mapsto> s)), ttl_of (heap g1) a)) \<and> rs = [RDbl s]"
    if a: "r = LOk a" "at v g1 ?k a" "g_ok {a} g1" "zset_wf (entry_zset g1 a)"
      and m: "m = zset_abs (entry_zset g1 a)" "(case m ?n of None \<Rightarrow> Some x | Some s \<Rightarrow> dadd D s x) = Some s" "card (dom m) + 1 < 2 ^ 32" for a m s
  proof -
    obtain z zn where z: "zset_lookup (entry_zset g1 a) ?n = (z, zn)" by fastforce
    note lk = zset_lookup_ok[OF a(4) z]
    have w: "zset_wf z" "zset_abs z = m" "zset_room z" using lk m zset_room_card[OF a(4)] by auto
    let ?z = "case zn of Some n \<Rightarrow> zset_update z n s | None \<Rightarrow> fst (zset_insert z ?n s)"
    have zz: "zset_wf ?z" "zset_abs ?z = m(?n \<mapsto> s)"
      using lk m zset_update_ok[OF w(1), of ?n] zset_insert_ok[OF w(1,3) prod.collapse[symmetric], of ?n s] w(2) by (auto split: option.splits)
    have "(case zn of None \<Rightarrow> Some x | Some n \<Rightarrow> dadd D (fst n) x) = Some s" using lk m by (auto split: option.splits)
    then have "g' = wrote 1 (mem_reaccount a (put_val a (VZset ?z) g1))" "rs = [RDbl s]"
      using assms(3) Some l a(1) z by (auto simp: do_zincrby_def Let_def)
    then show ?thesis using zt.commit[OF a(3,2) zz(1), of 1] zz(2) by simp
  qed
  from assms(1) room l show ?thesis
  proof (cases rule: zt.rw_cases)
    case (fresh a)
    show ?thesis using go[OF fresh(1-4) fresh(7)[symmetric], of x] fresh(6-9) Some by (simp add: put_zset_def Let_def)
  next
    case (found a)
    let ?m = "zset_abs (entry_zset g1 a)"
    have c: "card (dom ?m) + 1 < 2 ^ 32" using fits_live[OF assms(2) found(6)] by simp
    show ?thesis
    proof (cases "case ?m ?n of None \<Rightarrow> Some x | Some s \<Rightarrow> dadd D s x")
      case (Some s)
      show ?thesis using go[OF found(1-4) refl Some c] found(6,7) Some \<open>str2dbl D (cmd ! 2) = Some x\<close> by (simp add: put_zset_def Let_def)
    next
      case None
      have ok1: "g_ok {} g1" "live v g1 = live v g" using lookup_found[OF assms(1) room l[unfolded found(1)] found(6)] by simp_all
      obtain z zn where z: "zset_lookup (entry_zset g1 a) ?n = (z, zn)" by fastforce
      note lk = zset_lookup_ok[OF found(4) z]
      have w: "zset_wf z" "zset_abs z = ?m" using lk by auto
      have "(case zn of None \<Rightarrow> Some x | Some n \<Rightarrow> dadd D (fst n) x) = None" using lk None by (auto split: option.splits)
      then have "g' = put_val a (VZset z) g1" "rs = [RErr ''ERR resulting score is not a number (NaN)'']"
        using assms(3) Some l found(1) z by (simp_all add: do_zincrby_def)
      then show ?thesis using zset_refresh[OF ok1(1) found(2,5,4) w] ok1(2) found(6) Some None by (simp add: Let_def)
    qed
  qed (use assms(3) l Some in \<open>auto simp: do_zincrby_def Let_def\<close>)
qed

section \<open>Ranges\<close>

lemma filter_interval:
  assumes "\<And>i. i < length xs \<Longrightarrow> P (xs ! i) \<longleftrightarrow> lo \<le> i \<and> i < hi"
  shows "filter P xs = drop lo (take hi xs)"
proof (cases "lo \<le> hi")
  case True
  have "xs = take lo xs @ drop lo (take hi xs) @ drop hi xs"
    using append_take_drop_id[of hi xs] append_take_drop_id[of lo "take hi xs"] True by (metis append.assoc min.absorb1 take_take)
  then have "filter P xs = filter P (take lo xs) @ filter P (drop lo (take hi xs)) @ filter P (drop hi xs)" by (metis filter_append)
  moreover have "filter P (take lo xs) = []" "filter P (drop hi xs) = []"
    using assms by (auto simp: filter_empty_conv in_set_conv_nth)
  moreover have "P x" if x: "x \<in> set (drop lo (take hi xs))" for x
  proof -
    obtain i where i: "i < length (drop lo (take hi xs))" "x = drop lo (take hi xs) ! i" using x by (auto simp: in_set_conv_nth)
    then have "lo \<le> length (take hi xs)" "lo + i < length xs" "lo + i < hi" by auto
    then have "x = xs ! (lo + i)" "lo + i < length xs" "lo + i < hi" using i(2) by (simp_all add: nth_drop)
    then show ?thesis using assms[of "lo + i"] by simp
  qed
  then have "filter P (drop lo (take hi xs)) = drop lo (take hi xs)" by (intro filter_True) blast
  ultimately show ?thesis by simp
next
  case False
  have "filter P xs = []" using assms False by (fastforce simp: filter_empty_conv in_set_conv_nth)
  then show ?thesis using False by simp
qed

text \<open>On a sorted sequence the members below a score are a prefix.\<close>

lemma below_prefix:
  assumes "sorted_wrt (<) I" "i < length I"
  shows "score_below s b (I ! i) \<longleftrightarrow> i < length (filter (score_below s b) I)"
proof -
  have mono: "score_below s b y \<Longrightarrow> x < y \<Longrightarrow> score_below s b x" for x y
    by (auto simp: score_below_def less_prod_def)
  have "takeWhile (score_below s b) I = filter (score_below s b) I"
    using assms(1)
  proof (induction I)
    case (Cons x I)
    then have "filter (score_below s b) I = []" if "\<not> score_below s b x"
      unfolding filter_empty_conv using that mono by (metis sorted_wrt.simps(2))
    then show ?case using Cons by auto
  qed simp
  moreover have "score_below s b (I ! i) \<longleftrightarrow> i < length (takeWhile (score_below s b) I)"
  proof
    assume "i < length (takeWhile (score_below s b) I)"
    then show "score_below s b (I ! i)" by (metis nth_mem set_takeWhileD takeWhile_nth)
  next
    assume p: "score_below s b (I ! i)"
    show "i < length (takeWhile (score_below s b) I)"
    proof (rule ccontr)
      let ?n = "length (takeWhile (score_below s b) I)"
      assume "\<not> i < ?n"
      then have "?n \<le> i" by simp
      then have n: "?n < length I" using assms(2) by simp
      then have np: "\<not> score_below s b (I ! ?n)" by (rule nth_length_takeWhile)
      then have "?n \<noteq> i" using p by auto
      then have "I ! ?n < I ! i" using \<open>?n \<le> i\<close> assms sorted_wrt_nth_less by fastforce
      then show False using mono[OF p] np by blast
    qed
  qed
  ultimately show ?thesis by simp
qed

lemma zwalk_up: "zset_wf z \<Longrightarrow> k < length (inorder (zroot z)) \<Longrightarrow>
   zwalk z 1 n (Some (inorder (zroot z) ! k)) = Some (take n (drop k (inorder (zroot z))))"
proof (induction n arbitrary: k)
  case (Suc n)
  let ?I = "inorder (zroot z)"
  note o = znode_offset_ok[OF Suc(2,3), of 1]
  show ?case
  proof (cases "Suc k < length ?I")
    case True
    then have "nat (int k + 1) = Suc k" by simp
    then show ?thesis using o True Suc(1)[OF Suc(2) True] Suc(3) by (simp add: Cons_nth_drop_Suc[symmetric])
  next
    case False
    then have "drop k ?I = [?I ! k]" using Suc(3) by (simp add: Cons_nth_drop_Suc[symmetric])
    then show ?thesis using o False by (cases n) auto
  qed
qed simp

lemma zwalk_down: "zset_wf z \<Longrightarrow> k < length (inorder (zroot z)) \<Longrightarrow>
   zwalk z (- 1) n (Some (inorder (zroot z) ! k)) = Some (take n (rev (take (Suc k) (inorder (zroot z)))))"
proof (induction n arbitrary: k)
  case (Suc n)
  let ?I = "inorder (zroot z)"
  note o = znode_offset_ok[OF Suc(2,3), of "- 1"]
  have t: "rev (take (Suc k) ?I) = ?I ! k # rev (take k ?I)" using Suc(3) by (simp add: take_Suc_conv_app_nth)
  show ?case
  proof (cases k)
    case 0
    then show ?thesis using o t by (cases n) auto
  next
    case (Suc j)
    then have "nat (int k - 1) = j" "j < length ?I" using Suc.prems(2) by auto
    then show ?thesis using o t Suc Suc.IH[OF Suc.prems(1), of j] Suc.prems(2) by simp
  qed
qed simp

text \<open>What a range covers: by score the pairs within the bounds, by rank an index range, counted from the top when reversed.\<close>

definition in_bounds :: "'s::linorder zrange_spec \<Rightarrow> 's \<times> string \<Rightarrow> bool" where
  "in_bounds sp p \<longleftrightarrow>
     (if lo_excl sp then zlo sp < fst p else zlo sp \<le> fst p) \<and> (if hi_excl sp then fst p < zhi sp else fst p \<le> zhi sp)"

definition zrange_base :: "'s::linorder zrange_spec \<Rightarrow> ('s \<times> string) list \<Rightarrow> ('s \<times> string) list" where
  "zrange_base sp I =
     (if by_score sp then (if zrev sp then rev (filter (in_bounds sp) I) else filter (in_bounds sp) I)
      else list_range (zstart sp) (zstop sp) (if zrev sp then rev I else I))"

definition limited :: "'s zrange_spec \<Rightarrow> 'a list \<Rightarrow> 'a list" where
  "limited sp xs =
     (if \<not> has_limit sp then xs
      else if zoffset sp < 0 then []
      else let ys = drop (nat (zoffset sp)) xs in if zcount sp < 0 then ys else take (nat (zcount sp)) ys)"

lemma rev_interval: "lo \<le> hi \<Longrightarrow> hi \<le> length I \<Longrightarrow> rev (drop lo (take hi I)) = take (hi - lo) (drop (length I - hi) (rev I))"
  by (simp add: rev_drop rev_take drop_take min_def)

lemma zrange_interval_ok:
  assumes w: "zset_wf z" and r: "zrange_interval z sp = (lo, hi)"
  defines "I \<equiv> inorder (zroot z)"
  shows "0 \<le> lo" "hi \<le> int (length I)"
    "(if zrev sp then rev (drop (nat lo) (take (nat hi) I)) else drop (nat lo) (take (nat hi) I)) = zrange_base sp I"
proof -
  note ww = zset_wfD[OF w]
  have cnt: "uint (avl_cnt (zroot z)) = int (length I)" using uint_cnt[OF ww(1)] by (simp add: I_def)
  show "0 \<le> lo" "hi \<le> int (length I)"
    "(if zrev sp then rev (drop (nat lo) (take (nat hi) I)) else drop (nat lo) (take (nat hi) I)) = zrange_base sp I"
  proof (atomize (full), cases "by_score sp")
    case True
    have lo: "lo = int (length (filter (score_below (zlo sp) (lo_excl sp)) I))"
      and hi: "hi = int (length (filter (score_below (zhi sp) (\<not> hi_excl sp)) I))"
      using r True count_below_ok[OF ww(1,2), of _ _ 0] by (auto simp: zrange_interval_def zset_count_below_def I_def)
    have "in_bounds sp p \<longleftrightarrow> \<not> score_below (zlo sp) (lo_excl sp) p \<and> score_below (zhi sp) (\<not> hi_excl sp) p" for p
      by (auto simp: in_bounds_def score_below_def)
    then have "in_bounds sp (I ! i) \<longleftrightarrow> nat lo \<le> i \<and> i < nat hi" if "i < length I" for i
      using below_prefix[of I i] ww(2) that by (auto simp: lo hi I_def not_less)
    then have "filter (in_bounds sp) I = drop (nat lo) (take (nat hi) I)" by (rule filter_interval)
    moreover have "length (filter P I) \<le> length I" for P by (rule length_filter_le)
    ultimately show "0 \<le> lo \<and> hi \<le> int (length I) \<and>
        (if zrev sp then rev (drop (nat lo) (take (nat hi) I)) else drop (nat lo) (take (nat hi) I)) = zrange_base sp I"
      using True by (simp add: zrange_base_def lo hi)
  next
    case False
    define s where "s = max 0 (list_index I (zstart sp))"
    define e where "e = min (int (length I) - 1) (list_index I (zstop sp))"
    have lr: "list_range (zstart sp) (zstop sp) J = take (nat (e - s + 1)) (drop (nat s) J)" if "length J = length I" for J :: "('a \<times> string) list"
      using that by (simp add: list_range_def list_index_def s_def e_def Let_def)
    have lh: "(lo, hi) = (if e < s \<or> int (length I) \<le> s then (0, 0) else if zrev sp then (int (length I) - 1 - e, int (length I) - s) else (s, e + 1))"
      using r False cnt by (auto simp: zrange_interval_def Let_def s_def e_def list_index_def split: if_splits)
    show "0 \<le> lo \<and> hi \<le> int (length I) \<and>
        (if zrev sp then rev (drop (nat lo) (take (nat hi) I)) else drop (nat lo) (take (nat hi) I)) = zrange_base sp I"
    proof (cases "e < s \<or> int (length I) \<le> s")
      case True
      then have "take (nat (e - s + 1)) (drop (nat s) J) = []" if "length J = length I" for J :: "('a \<times> string) list" using that by auto
      then show ?thesis using lh True False lr by (simp add: zrange_base_def)
    next
      case b: False
      then have be: "0 \<le> s" "s \<le> e" "e < int (length I)" by (auto simp: s_def e_def)
      show ?thesis
      proof (cases "zrev sp")
        case True
        then have l: "lo = int (length I) - 1 - e" "hi = int (length I) - s" using lh b by auto
        have n: "nat lo \<le> nat hi" "nat hi \<le> length I" "nat hi - nat lo = nat (e - s + 1)" "length I - nat hi = nat s"
          using be unfolding l by linarith+
        show ?thesis using rev_interval[OF n(1,2)] n(3,4) be True False lr[of "rev I"] by (simp add: zrange_base_def l)
      next
        case nr: False
        then have l: "lo = s" "hi = e + 1" using lh b by auto
        have "nat (e + 1) - nat s = nat (e - s + 1)" using be by linarith
        then show ?thesis using be nr False lr[of I] by (simp add: zrange_base_def l drop_take)
      qed
    qed
  qed
qed

lemma zlimit_ok:
  assumes "zlimit sp (int (length xs)) = (skip, n)"
  shows "0 \<le> skip" "0 \<le> n" "skip + n \<le> int (length xs)" "take (nat n) (drop (nat skip) xs) = limited sp xs"
  using assms by (auto simp: zlimit_def limited_def Let_def split: if_splits)

lemma zrange_emit_ok:
  assumes w: "zset_wf z"
    and xs_def: "xs = limited sp (zrange_base sp (zseq (zset_abs z)))"
  shows "zrange_emit v z sp =
    Some (RArr (of_nat (if withscores sp \<and> proto v < 3 then 2 * length xs else length xs)) # concat (map (emit_member v (withscores sp)) xs))"
proof -
  let ?I = "inorder (zroot z)"
  obtain lo hi where i: "zrange_interval z sp = (lo, hi)" by fastforce
  note ii = zrange_interval_ok[OF w i]
  let ?up = "drop (nat lo) (take (nat hi) ?I)"
  let ?seq = "zrange_base sp ?I"
  have ls: "length ?seq = length ?up" using arg_cong[OF ii(3), of length] by (simp split: if_splits)
  have lu: "int (length ?up) = (if lo < hi then hi - lo else 0)" using ii(1,2) by auto
  obtain skip n where l: "zlimit sp (if lo < hi then hi - lo else 0) = (skip, n)" by fastforce
  note ll = zlimit_ok[of sp ?seq, unfolded ls lu, OF l]
  have xs: "xs = take (nat n) (drop (nat skip) ?seq)" using ll(4) by (simp add: xs_def zseq_inorder[OF w])
  have "nat skip + nat n \<le> length ?seq" using ll(1-3) ls lu by linarith
  then have n: "length xs = nat n" unfolding xs by simp
  have walk: "zwalk z (if zrev sp then - 1 else 1) (nat n) (if 0 < n then zset_at_rank z (if zrev sp then hi - 1 - skip else lo + skip) else None) = Some xs"
  proof (cases "0 < n")
    case False
    then show ?thesis using n by simp
  next
    case True
    then have lt: "lo < hi" and b: "skip + n \<le> hi - lo" using ll(1,3) by (auto split: if_splits)
    show ?thesis
    proof (cases "zrev sp")
      case rv: True
      let ?k = "nat (hi - 1 - skip)"
      have k: "?k < length ?I" "0 \<le> hi - 1 - skip" "hi - 1 - skip < int (length ?I)" using ii(1,2) lt b ll(1) True by auto
      have "zset_at_rank z (hi - 1 - skip) = Some (?I ! ?k)"
        using at_rank_ok[OF zset_wfD(1)[OF w], of "hi - 1 - skip"] k by (simp add: zset_at_rank_def)
      moreover have "take (nat n) (rev (take (Suc ?k) ?I)) = xs"
      proof -
        have s: "?seq = rev ?up" using ii(3) rv by simp
        have m: "nat lo \<le> nat hi" "nat hi \<le> length ?I" using ii(1,2) lt by auto
        have a: "length ?I - Suc ?k = (length ?I - nat hi) + nat skip" "nat n \<le> nat hi - nat lo - nat skip" using ii(1,2) lt b ll(1) True by linarith+
        show ?thesis unfolding xs s rev_interval[OF m] rev_take a(1) using a(2) by (simp add: drop_take add.commute min_def)
      qed
      ultimately show ?thesis using True rv zwalk_down[OF w k(1), of "nat n"] by simp
    next
      case rv: False
      let ?k = "nat (lo + skip)"
      have k: "?k < length ?I" "0 \<le> lo + skip" "lo + skip < int (length ?I)" using ii(1,2) lt b ll(1) True by auto
      have "zset_at_rank z (lo + skip) = Some (?I ! ?k)"
        using at_rank_ok[OF zset_wfD(1)[OF w], of "lo + skip"] k by (simp add: zset_at_rank_def)
      moreover have "take (nat n) (drop ?k ?I) = xs"
      proof -
        have s: "?seq = ?up" using ii(3) rv by simp
        have "?k = nat lo + nat skip" "nat n \<le> nat hi - nat lo - nat skip" using ii(1) b ll(1) True lt by linarith+
        then show ?thesis unfolding xs s by (simp add: drop_take add.commute min_def)
      qed
      ultimately show ?thesis using True rv zwalk_up[OF w k(1), of "nat n"] by simp
    qed
  qed
  have "word_of_int (if withscores sp \<and> proto v < 3 then n * 2 else n) =
      (of_nat (if withscores sp \<and> proto v < 3 then 2 * length xs else length xs) :: u32)" using n ll(2) by (simp add: mult.commute)
  then show ?thesis unfolding zrange_emit_def i using l walk by (simp add: Let_def)
qed

text \<open>The arguments of a range command, and the reply it owes for a set of scores.\<close>

definition zrange_args :: "'s dbl_ops \<Rightarrow> 's zrange_spec \<Rightarrow> zopt list \<Rightarrow> string list \<Rightarrow> string + 's zrange_spec" where
  "zrange_args D sp allow cmd =
     (case parse_zrange_opts allow (drop 4 cmd) sp of
        Inl e \<Rightarrow> Inl e
      | Inr sp \<Rightarrow>
          if has_limit sp \<and> \<not> by_score sp
          then Inl ''ERR syntax error, LIMIT is only supported in combination with either BYSCORE or BYLEX''
          else zrange_bounds D sp (cmd ! 2) (cmd ! 3))"

definition zrange_members :: "'s::linorder zrange_spec \<Rightarrow> (string \<rightharpoonup> 's) \<Rightarrow> ('s \<times> string) list" where
  "zrange_members sp m = limited sp (zrange_base sp (zseq m))"

definition zrange_reply :: "env \<Rightarrow> bool \<Rightarrow> ('s \<times> string) list \<Rightarrow> 's reply list" where
  "zrange_reply v ws xs =
     RArr (of_nat (if ws \<and> proto v < 3 then 2 * length xs else length xs)) # concat (map (emit_member v ws) xs)"

lemma zrange_generic_ok:
  assumes ok: "g_ok {} g"
  shows "\<exists>g'. zrange_generic D sp allow v cmd g =
      Some (g', case zrange_args D sp allow cmd of
                  Inl e \<Rightarrow> [RErr e]
                | Inr sp \<Rightarrow> zset_case (live v g (cmd ! 1)) [RArr 0] [RErr MSG_WRONGTYPE] (\<lambda>m d. zrange_reply v (withscores sp) (zrange_members sp m))) \<and>
    g_ok {} g' \<and> live v g' = live v g"
proof (cases "zrange_args D sp allow cmd")
  case (Inl e)
  then have "zrange_generic D sp allow v cmd g = Some (g, [RErr e])"
    by (auto simp: zrange_generic_def zrange_args_def split: sum.splits if_splits)
  then show ?thesis using ok Inl by simp
next
  case (Inr sp2)
  obtain g1 r where l: "lookup_entry v (cmd ! 1) T_ZSET False False g = (g1, r)" by fastforce
  have z: "zrange_generic D sp allow v cmd g =
      (case r of LWrongType \<Rightarrow> Some (g1, [RErr MSG_WRONGTYPE]) | LMissing \<Rightarrow> Some (g1, [RArr 0])
       | LOk a \<Rightarrow> map_option (Pair g1) (zrange_emit v (entry_zset g1 a) sp2))"
    using Inr l by (auto simp: zrange_generic_def zrange_args_def split: sum.splits if_splits)
  from ok l show ?thesis
  proof (cases rule: zt.ro_cases)
    case (found a)
    then show ?thesis using Inr z zrange_emit_ok[OF found(3) refl, of v sp2] by (auto simp: zrange_reply_def zrange_members_def)
  qed (use Inr z in auto)
qed

lemma zrange_bounds_flags:
  "zrange_bounds D sp a b = Inr sp2 \<Longrightarrow> by_score sp2 = by_score sp \<and> zrev sp2 = zrev sp \<and> has_limit sp2 = has_limit sp"
  by (auto simp: zrange_bounds_def Let_def split: option.splits if_splits)

text \<open>The interval of a request that is not reversed and has no limit.\<close>

lemma zrange_plain:
  assumes "zset_wf z" "zrange_interval z sp = (lo, hi)" "\<not> zrev sp" "\<not> has_limit sp"
  shows "drop (nat lo) (take (nat hi) (inorder (zroot z))) = zrange_members sp (zset_abs z)"
    "(if lo < hi then hi - lo else 0) = int (length (zrange_members sp (zset_abs z)))"
proof -
  note i = zrange_interval_ok[OF assms(1,2)]
  show e: "drop (nat lo) (take (nat hi) (inorder (zroot z))) = zrange_members sp (zset_abs z)"
    using i(3) assms(3,4) by (simp add: zrange_members_def limited_def zseq_inorder[OF assms(1)])
  have "int (length (drop (nat lo) (take (nat hi) (inorder (zroot z))))) = (if lo < hi then hi - lo else 0)" using i(1,2) by auto
  then show "(if lo < hi then hi - lo else 0) = int (length (zrange_members sp (zset_abs z)))" unfolding e by simp
qed

lemma do_zcount_ok:
  assumes "g_ok {} g" "do_zcount D v cmd g = (g', rs)"
  shows "g_ok {} g' \<and> live v g' = live v g \<and>
    rs = (case zrange_bounds D ((zrange_spec0 D)\<lparr>by_score := True\<rparr>) (cmd ! 2) (cmd ! 3) of
            Inl e \<Rightarrow> [RErr e]
          | Inr sp \<Rightarrow> zset_case (live v g (cmd ! 1)) [RInt 0] [RErr MSG_WRONGTYPE] (\<lambda>m d. [RInt (int (length (zrange_members sp m)))]))"
proof (cases "zrange_bounds D ((zrange_spec0 D)\<lparr>by_score := True\<rparr>) (cmd ! 2) (cmd ! 3)")
  case (Inl e)
  then show ?thesis using assms by (simp add: do_zcount_def)
next
  case (Inr sp)
  have f: "\<not> zrev sp" "\<not> has_limit sp" using zrange_bounds_flags[OF Inr] by (simp_all add: zrange_spec0_def)
  obtain g1 r where l: "lookup_entry v (cmd ! 1) T_ZSET False False g = (g1, r)" by fastforce
  from assms(1) l show ?thesis
  proof (cases rule: zt.ro_cases)
    case (found a)
    obtain lo hi where i: "zrange_interval (entry_zset g1 a) sp = (lo, hi)" by fastforce
    have "rs = [RInt (if lo < hi then hi - lo else 0)]" "g' = g1" using assms(2) Inr l found(1) i by (auto simp: do_zcount_def)
    then show ?thesis using Inr found(4-6) zrange_plain(2)[OF found(3) i f] by simp
  qed (use assms(2) Inr l in \<open>auto simp: do_zcount_def\<close>)
qed

section \<open>Removals in bulk\<close>

lemma zset_deletes_ok:
  "zset_wf z \<Longrightarrow> distinct (map snd xs) \<Longrightarrow> \<forall>p\<in>set xs. zset_abs z (snd p) = Some (fst p) \<Longrightarrow>
   zset_wf (foldl zset_delete z xs) \<and> zset_abs (foldl zset_delete z xs) = zset_abs z |` (- snd ` set xs)"
proof (induction xs arbitrary: z)
  case (Cons p xs)
  obtain s n where p: "p = (s, n)" by fastforce
  have d: "zset_wf (zset_delete z p)" "zset_abs (zset_delete z p) = (zset_abs z)(n := None)"
    using zset_delete_ok[OF Cons(2), of n s] Cons(4) p by simp_all
  have "\<forall>q\<in>set xs. zset_abs (zset_delete z p) (snd q) = Some (fst q)" using Cons(3,4) d(2) p by (auto simp: rev_image_eqI)
  from Cons(1)[OF d(1) _ this] show ?case using Cons(3) d(2) p by (auto simp: restrict_map_def fun_eq_iff)
qed (simp add: restrict_map_def)

lemma zseq_members:
  assumes "zset_wf z" "set xs \<subseteq> set (zseq (zset_abs z))" "distinct xs"
  shows "distinct (map snd xs)" "\<forall>p\<in>set xs. zset_abs z (snd p) = Some (fst p)"
proof -
  show m: "\<forall>p\<in>set xs. zset_abs z (snd p) = Some (fst p)"
    using assms(2) zset_abs_iff[OF zset_wfD(3)[OF assms(1)]] by (auto simp: zseq_inorder[OF assms(1)])
  have "inj_on snd (set xs)" by (rule inj_onI) (use m in \<open>metis option.inject prod.expand\<close>)
  then show "distinct (map snd xs)" using assms(3) by (simp add: distinct_map)
qed

lemma zseq_sorted: "zset_wf z \<Longrightarrow> sorted_wrt (<) (zseq (zset_abs z))"
  using zset_wfD(2) by (simp add: zseq_inorder)

lemma zseq_distinct: "zset_wf z \<Longrightarrow> distinct (zseq (zset_abs z))"
  using zseq_sorted strict_sorted_iff by blast

lemma zremrange_ok:
  assumes ok: "g_ok {} g"
  shows "\<exists>g' rs. zremrange_generic D bs v cmd g = Some (g', rs) \<and> g_ok {} g' \<and> (live v g', rs) =
    (case zrange_bounds D ((zrange_spec0 D)\<lparr>by_score := bs\<rparr>) (cmd ! 2) (cmd ! 3) of
       Inl e \<Rightarrow> (live v g, [RErr e])
     | Inr sp \<Rightarrow>
         zset_case (live v g (cmd ! 1)) (live v g, [RInt 0]) (live v g, [RErr MSG_WRONGTYPE])
           (\<lambda>m d. let xs = zrange_members sp m in
              (if xs = [] then live v g else put_zset (cmd ! 1) (m |` (- snd ` set xs)) d (live v g), [RInt (int (length xs))])))"
proof (cases "zrange_bounds D ((zrange_spec0 D)\<lparr>by_score := bs\<rparr>) (cmd ! 2) (cmd ! 3)")
  case (Inl e)
  then show ?thesis using ok by (simp add: zremrange_generic_def)
next
  case (Inr sp)
  have f: "\<not> zrev sp" "\<not> has_limit sp" using zrange_bounds_flags[OF Inr] by (simp_all add: zrange_spec0_def)
  obtain g1 r where l: "lookup_entry v (cmd ! 1) T_ZSET False False g = (g1, r)" by fastforce
  from ok l show ?thesis
  proof (cases rule: zt.ro_cases)
    case (found a)
    let ?z = "entry_zset g1 a"
    let ?I = "inorder (zroot ?z)" and ?xs = "zrange_members sp (zset_abs ?z)"
    obtain lo hi where i: "zrange_interval ?z sp = (lo, hi)" by fastforce
    note pl = zrange_plain[OF found(3) i f]
    note ii = zrange_interval_ok[OF found(3) i]
    show ?thesis
    proof (cases "hi \<le> lo")
      case True
      then have "?xs = []" using pl(2) by simp
      then show ?thesis using Inr l found True i by (simp add: zremrange_generic_def)
    next
      case False
      then have k: "nat lo < length ?I" "0 \<le> lo" "lo < int (length ?I)" using ii(1,2) by auto
      have "zset_at_rank ?z lo = Some (?I ! nat lo)" using at_rank_ok[OF zset_wfD(1)[OF found(3)], of lo] k by (simp add: zset_at_rank_def)
      moreover have "take (nat (hi - lo)) (drop (nat lo) ?I) = ?xs" using pl(1) ii(1) False by (simp add: drop_take nat_diff_distrib')
      ultimately have w: "zwalk ?z 1 (nat (hi - lo)) (zset_at_rank ?z lo) = Some ?xs" using zwalk_up[OF found(3) k(1), of "nat (hi - lo)"] by simp
      have sub: "set ?xs \<subseteq> set (zseq (zset_abs ?z))" "distinct ?xs"
        unfolding pl(1)[symmetric] using set_drop_subset[of "nat lo" "take (nat hi) ?I"] set_take_subset[of "nat hi" ?I] zseq_distinct[OF found(3)]
        unfolding zseq_inorder[OF found(3)] by auto
      note d = zset_deletes_ok[OF found(3) zseq_members[OF found(3) sub]]
      have ok1: "g_ok {a} g1" by (rule g_ok_mono[OF found(4)]) simp
      have "?xs \<noteq> []" using pl(2) False by auto
      then show ?thesis using Inr l found(1,5,6) False i w zset_tail_ok[OF ok1 found(2), of "foldl zset_delete ?z ?xs"] d
        by (simp add: zremrange_generic_def Let_def)
    qed
  qed (use Inr l in \<open>auto simp: zremrange_generic_def\<close>)
qed

lemma zleftmost_ok: "zleftmost t = (if inorder t = [] then None else Some (hd (inorder t)))"
  by (induction t rule: zleftmost.induct) (auto simp: hd_append)

lemma zpop_loop_ok:
  "zset_wf z \<Longrightarrow> zpop_loop n z = (z', popped) \<Longrightarrow>
   popped = take n (zseq (zset_abs z)) \<and> zset_wf z' \<and> zset_abs z' = zset_abs z |` (- snd ` set popped)"
proof (induction n arbitrary: z popped)
  case (Suc n)
  let ?I = "inorder (zroot z)"
  note w = zset_wfD[OF Suc(2)]
  show ?case
  proof (cases ?I)
    case Nil
    then show ?thesis using Suc(3) zseq_inorder[OF Suc(2)] Suc(2) by (simp add: zleftmost_ok)
  next
    case (Cons x xs)
    obtain s k where x: "x = (s, k)" by fastforce
    have a: "zset_abs z k = Some s" using zset_abs_iff[OF w(3)] Cons x by simp
    note d = zset_delete_ok[OF Suc(2) a]
    obtain ps where l: "zpop_loop n (zset_delete z x) = (z', ps)" "popped = x # ps"
      using Suc(3) Cons by (auto simp: zleftmost_ok split: prod.splits)
    have wd: "zset_wf (zset_delete z x)" using d x by simp
    note ih = Suc(1)[OF wd l(1)]
    have "set (inorder (zroot (zset_delete z x))) = set xs" using d Cons x by (metis add_mset_add_mset_same_iff list.set_map mset.simps(2) mset_eq_setD)
    then have "inorder (zroot (zset_delete z x)) = xs"
      using w(2) zset_wfD(2)[OF wd] Cons by (intro strict_sorted_equal) auto
    then have "zseq (zset_abs (zset_delete z x)) = xs" using zseq_inorder[OF wd] by simp
    then have ps: "ps = take n xs" using ih by simp
    have dd: "zset_abs (zset_delete z x) = (zset_abs z)(k := None)" using d x by simp
    have "zset_abs z' = (zset_abs z)(k := None) |` (- snd ` set ps)" using ih unfolding dd by blast
    then have "zset_abs z' = zset_abs z |` (- snd ` set popped)" using l(2) x by (auto simp: restrict_map_def fun_eq_iff)
    then show ?thesis using ih ps l(2) Cons zseq_inorder[OF Suc(2)] by simp
  qed
qed (auto simp: restrict_map_def)

lemma do_zpopmin_ok:
  assumes "g_ok {} g" "do_zpopmin v cmd g = (g', rs)"
  shows "g_ok {} g' \<and> (live v g', rs) =
    (case (if 3 \<le> length cmd then map_option (max 0) (str2int (cmd ! 2)) else Some 1) of
       None \<Rightarrow> (live v g, [RErr MSG_NOT_INT])
     | Some n \<Rightarrow>
         zset_case (live v g (cmd ! 1)) (live v g, [RArr 0]) (live v g, [RErr MSG_WRONGTYPE])
           (\<lambda>m d. let xs = take (nat n) (zseq m) in
              (if xs = [] then live v g else put_zset (cmd ! 1) (m |` (- snd ` set xs)) d (live v g), zpop_reply v (3 \<le> length cmd) xs)))"
proof -
  let ?n = "if 3 \<le> length cmd then map_option (max 0) (str2int (cmd ! 2)) else Some 1"
  have e: "(if 3 \<le> length cmd then map_option (\<lambda>n. if n < 0 then 0 else n) (str2int (cmd ! 2)) else Some 1) = ?n"
    by (auto simp: max_def intro!: option.map_cong)
  show ?thesis
  proof (cases ?n)
    case None
    then show ?thesis using assms unfolding do_zpopmin_def e by simp
  next
    case (Some n)
    obtain g1 r where l: "lookup_entry v (cmd ! 1) T_ZSET False False g = (g1, r)" by fastforce
    have dz: "(g', rs) = (case r of LWrongType \<Rightarrow> (g1, [RErr MSG_WRONGTYPE]) | LMissing \<Rightarrow> (g1, [RArr 0])
      | LOk a \<Rightarrow> (let (z, popped) = zpop_loop (nat n) (entry_zset g1 a)
                   in (if popped \<noteq> [] then zset_tail v a z g1 else g1, zpop_reply v (3 \<le> length cmd) popped)))"
      using assms(2)[symmetric] l unfolding do_zpopmin_def e Some by (cases r) auto
    from assms(1) l show ?thesis
    proof (cases rule: zt.ro_cases)
      case (found a)
      obtain z xs where p: "zpop_loop (nat n) (entry_zset g1 a) = (z, xs)" by fastforce
      note pp = zpop_loop_ok[OF found(3) p]
      have ok1: "g_ok {a} g1" by (rule g_ok_mono[OF found(4)]) simp
      have "g' = (if xs \<noteq> [] then zset_tail v a z g1 else g1)" "rs = zpop_reply v (3 \<le> length cmd) xs"
        using dz found(1) p by auto
      then show ?thesis using Some found(4-6) pp zset_tail_ok[OF ok1 found(2), of z] by (simp add: Let_def)
    qed (use dz Some in auto)
  qed
qed

section \<open>Properties\<close>

text \<open>Whole scores, read as decimal integers: one way to fill the floating-point parameter.\<close>

definition D_int :: "int dbl_ops" where
  "D_int = \<lparr>strtod = (\<lambda>s. case str2int s of None \<Rightarrow> (Some 0, 0, False) | Some n \<Rightarrow> (Some n, length s, False)),
            dcls = (\<lambda>_. DFinite), dzero = 0, dadd = (\<lambda>x y. Some (x + y))\<rparr>"

definition g_zset :: "int gdata" where
  "g_zset = fst (do_zadd D_int env_start [''zadd'', ''z'', ''2'', ''b'', ''1'', ''a'', ''3'', ''c''] gdata_init)"

lemma D_int_scores [simp]:
  "str2dbl D_int ''1'' = Some 1" "str2dbl D_int ''2'' = Some 2" "str2dbl D_int ''3'' = Some 3"
proof -
  have s: "str2int ''1'' = Some 1" "str2int ''2'' = Some 2" "str2int ''3'' = Some 3"
    by (simp_all add: str2int_def char_eval)
  show "str2dbl D_int ''1'' = Some 1" "str2dbl D_int ''2'' = Some 2" "str2dbl D_int ''3'' = Some 3"
    using s by (simp_all add: str2dbl_def D_int_def c_str_def isspace_def char_eval)
qed

lemma g_zset_ok: "g_ok {} g_zset" "live env_start g_zset = [''z'' \<mapsto> (AZset [''b'' \<mapsto> 2, ''a'' \<mapsto> 1, ''c'' \<mapsto> 3], None)]"
proof -
  let ?cmd = "[''zadd'', ''z'', ''2'', ''b'', ''1'', ''a'', ''3'', ''c'']" and ?g = "gdata_init :: int gdata"
  have z: "do_zadd D_int env_start ?cmd ?g = (g_zset, snd (do_zadd D_int env_start ?cmd ?g))" by (simp add: g_zset_def)
  have f: "fits env_start (length ?cmd) ?g" "length ?cmd < 2 ^ 31" by simp_all
  note s = do_zadd_ok[OF gdata_init_ok f z]
  show "g_ok {} g_zset" using s by simp
  show "live env_start g_zset = [''z'' \<mapsto> (AZset [''b'' \<mapsto> 2, ''a'' \<mapsto> 1, ''c'' \<mapsto> 3], None)]" using s by (simp add: put_zset_def)
qed

lemma zseq_example: "zseq [''b'' \<mapsto> 2, ''a'' \<mapsto> 1, ''c'' \<mapsto> (3 :: int)] = [(1, ''a''), (2, ''b''), (3, ''c'')]"
proof -
  have "{(s, n). [''b'' \<mapsto> 2, ''a'' \<mapsto> 1, ''c'' \<mapsto> (3 :: int)] n = Some s} = set [(1, ''a''), (2, ''b''), (3, ''c'')]"
    by (auto split: if_splits)
  moreover have "sorted_wrt (<) [(1 :: int, ''a''), (2, ''b''), (3, ''c'')]" by (simp add: less_prod_def)
  ultimately show ?thesis unfolding zseq_def
    by (simp only: sorted_list_of_set.idem_if_sorted_distinct strict_sorted_iff)
qed

text \<open>
  C30. \<open>ZADD\<close> and \<open>ZINCRBY\<close> update, and \<open>ZREM\<close> removes from, the finite map of scores under the key as their
  specifications say: all scores are parsed before anything changes, the last score of a repeated member wins, the
  reply of \<open>ZADD\<close> counts the new members, a sum that is not a number changes nothing, and a key whose last member
  is removed is gone. The state stays consistent on every branch.
\<close>

theorem zset_writes_refine:
  assumes "g_ok {} g" and "fits v (length cmd) g" and "4 \<le> length cmd" and "length cmd < 2 ^ 31"
  shows "(case do_zadd D v cmd g of (g', rs) \<Rightarrow> g_ok {} g' \<and> (live v g', rs) =
      (if odd (length cmd) then (live v g, [RErr ''ERR wrong number of arguments for 'zadd command''])
       else if \<not> scores_ok D (drop 2 cmd) then (live v g, [RErr MSG_FLOAT])
       else let ps = kv_pairs (drop 2 cmd);
                put = (\<lambda>m d. (put_zset (cmd ! 1) (put_scores D ps m) d (live v g), [RInt (int (card (snd ` set ps - dom m)))]))
            in zset_case (live v g (cmd ! 1)) (put Map.empty None) (live v g, [RErr MSG_WRONG]) put)) \<and>
    (case do_zincrby D v cmd g of (g', rs) \<Rightarrow> g_ok {} g' \<and> (live v g', rs) =
      (case str2dbl D (cmd ! 2) of
         None \<Rightarrow> (live v g, [RErr MSG_FLOAT])
       | Some x \<Rightarrow>
           (let go = (\<lambda>m d. case (case m (cmd ! 3) of None \<Rightarrow> Some x | Some s \<Rightarrow> dadd D s x) of
                None \<Rightarrow> (live v g, [RErr ''ERR resulting score is not a number (NaN)''])
              | Some s \<Rightarrow> (put_zset (cmd ! 1) (m(cmd ! 3 \<mapsto> s)) d (live v g), [RDbl s]))
            in zset_case (live v g (cmd ! 1)) (go Map.empty None) (live v g, [RErr MSG_WRONGTYPE]) go))) \<and>
    (case do_zrem v cmd g of (g', rs) \<Rightarrow> g_ok {} g' \<and> (live v g', rs) =
      zset_case (live v g (cmd ! 1)) (live v g, [RInt 0]) (live v g, [RErr MSG_WRONG])
        (\<lambda>m d. if cmd ! 2 \<in> dom m then (put_zset (cmd ! 1) (m(cmd ! 2 := None)) d (live v g), [RInt 1]) else (live v g, [RInt 0])))"
proof -
  obtain g1 r1 where a: "do_zadd D v cmd g = (g1, r1)" by fastforce
  obtain g2 r2 where i: "do_zincrby D v cmd g = (g2, r2)" by fastforce
  obtain g3 r3 where r: "do_zrem v cmd g = (g3, r3)" by fastforce
  have f: "fits v 1 g" by (rule fits_mono[OF assms(2)]) (use assms(3) in linarith)
  have l: "\<not> length cmd < 4" using assms(3) by simp
  show ?thesis unfolding a i r prod.case
    using do_zadd_ok[OF assms(1,2,4) a] do_zincrby_ok[OF assms(1) f i] do_zrem_ok[OF assms(1) r] l by (simp add: Let_def)
qed

theorem zset_writes_refine_witness:
  "g_ok {} (gdata_init :: int gdata) \<and> fits env_start 6 (gdata_init :: int gdata) \<and>
   live env_start (fst (do_zadd D_int env_start [''zadd'', ''z'', ''1'', ''a'', ''2'', ''a''] gdata_init)) =
     [''z'' \<mapsto> (AZset [''a'' \<mapsto> 2], None)] \<and>
   snd (do_zadd D_int env_start [''zadd'', ''z'', ''1'', ''a'', ''2'', ''a''] gdata_init) = [RInt 1]"
  using zset_writes_refine[of "gdata_init :: int gdata" env_start "[''zadd'', ''z'', ''1'', ''a'', ''2'', ''a'']" D_int]
  by (simp add: put_zset_def Let_def split_beta)

text \<open>
  C29. The four range commands answer with exactly the members their arguments name. Each of them is
  \<open>zrange_generic\<close> with its own defaults and options; the command always ends, leaves the map of live keys as it
  was and replies with the pairs of \<open>zrange_members\<close> in that order: the pairs within the score bounds or the index
  range of the sorted sequence, reversed on demand, less the \<open>LIMIT\<close> offset and cut to its count. The header
  announces their number, twice that when scores are sent flat to a protocol 2 client.
\<close>

theorem zrange_exact:
  assumes "g_ok {} g"
  shows "\<exists>g'. zrange_generic D sp allow v cmd g =
      Some (g', case zrange_args D sp allow cmd of
                  Inl e \<Rightarrow> [RErr e]
                | Inr sp \<Rightarrow> zset_case (live v g (cmd ! 1)) [RArr 0] [RErr MSG_WRONGTYPE] (\<lambda>m d. zrange_reply v (withscores sp) (zrange_members sp m))) \<and>
    g_ok {} g' \<and> live v g' = live v g"
  by (rule zrange_generic_ok[OF assms])

theorem zrange_exact_witness:
  "g_ok {} g_zset \<and>
   map_option snd (do_zrevrangebyscore D_int env_start [''zrevrangebyscore'', ''z'', ''3'', ''(1'', ''limit'', ''1'', ''1'', ''withscores''] g_zset) =
     Some [RArr 2, RStr ''b'', RDbl 2]"
proof -
  let ?cmd = "[''zrevrangebyscore'', ''z'', ''3'', ''(1'', ''limit'', ''1'', ''1'', ''withscores'']"
  let ?sp = "(zrange_spec0 D_int)\<lparr>by_score := True, zrev := True\<rparr>"
  let ?sp' = "?sp\<lparr>zoffset := 1, zcount := 1, has_limit := True, withscores := True, zlo := 1, lo_excl := True, zhi := 3, hi_excl := False\<rparr>"
  have s: "str2int ''1'' = Some 1" "str2int ''3'' = Some 3" by (simp_all add: str2int_def char_eval)
  have b: "parse_score_bound D_int ''(1'' = Some (1, True)" "parse_score_bound D_int ''3'' = Some (3, False)"
    using s by (simp_all add: parse_score_bound_def D_int_def c_str_def)
  have a: "zrange_args D_int ?sp [ZO_LIMIT, ZO_WITHSCORES] ?cmd = Inr ?sp'"
    using s b by (simp add: zrange_args_def zrange_bounds_def zrange_spec0_def arg_ieq_def char_eval)
  have m: "zrange_members ?sp' [''b'' \<mapsto> 2, ''a'' \<mapsto> 1, ''c'' \<mapsto> 3] = [(2, ''b'')]"
    by (simp add: zrange_members_def zrange_base_def limited_def zseq_example in_bounds_def zrange_spec0_def)
  show ?thesis
    using zrange_exact[OF g_zset_ok(1), of D_int ?sp "[ZO_LIMIT, ZO_WITHSCORES]" env_start ?cmd] g_zset_ok a m
    by (auto simp: do_zrevrangebyscore_def zrange_reply_def emit_member_def env_start_def)
qed

text \<open>
  C31. \<open>ZREMRANGEBYSCORE\<close>, \<open>ZREMRANGEBYRANK\<close> and \<open>ZPOPMIN\<close> remove exactly the members \<open>ZRANGE\<close> with the same bounds
  lists, or the given number of smallest members, and reply with their number or with the removed pairs in
  ascending order. The removals always end, an emptied key is gone, and the state stays consistent.
\<close>

theorem zset_bulk_removals:
  assumes "g_ok {} g"
  shows "(\<exists>g' rs. zremrange_generic D bs v cmd g = Some (g', rs) \<and> g_ok {} g' \<and> (live v g', rs) =
      (case zrange_bounds D ((zrange_spec0 D)\<lparr>by_score := bs\<rparr>) (cmd ! 2) (cmd ! 3) of
         Inl e \<Rightarrow> (live v g, [RErr e])
       | Inr sp \<Rightarrow>
           zset_case (live v g (cmd ! 1)) (live v g, [RInt 0]) (live v g, [RErr MSG_WRONGTYPE])
             (\<lambda>m d. let xs = zrange_members sp m in
                (if xs = [] then live v g else put_zset (cmd ! 1) (m |` (- snd ` set xs)) d (live v g), [RInt (int (length xs))])))) \<and>
    (case do_zpopmin v cmd g of (g', rs) \<Rightarrow> g_ok {} g' \<and> (live v g', rs) =
      (case (if 3 \<le> length cmd then map_option (max 0) (str2int (cmd ! 2)) else Some 1) of
         None \<Rightarrow> (live v g, [RErr MSG_NOT_INT])
       | Some n \<Rightarrow>
           zset_case (live v g (cmd ! 1)) (live v g, [RArr 0]) (live v g, [RErr MSG_WRONGTYPE])
             (\<lambda>m d. let xs = take (nat n) (zseq m) in
                (if xs = [] then live v g else put_zset (cmd ! 1) (m |` (- snd ` set xs)) d (live v g), zpop_reply v (3 \<le> length cmd) xs))))"
proof -
  obtain g1 r1 where p: "do_zpopmin v cmd g = (g1, r1)" by fastforce
  show ?thesis unfolding p prod.case by (intro conjI zremrange_ok[OF assms] do_zpopmin_ok[OF assms p, THEN conjunct1] do_zpopmin_ok[OF assms p, THEN conjunct2])
qed

theorem zset_bulk_removals_witness:
  "g_ok {} g_zset \<and>
   live env_start (fst (do_zpopmin env_start [''zpopmin'', ''z'', ''2''] g_zset)) = [''z'' \<mapsto> (AZset [''c'' \<mapsto> 3], None)] \<and>
   snd (do_zpopmin env_start [''zpopmin'', ''z'', ''2''] g_zset) = [RArr 4, RStr ''a'', RDbl 1, RStr ''b'', RDbl 2]"
proof -
  have s: "str2int ''2'' = Some 2" by (simp add: str2int_def char_eval)
  have r: "[''b'' \<mapsto> 2, ''a'' \<mapsto> 1, ''c'' \<mapsto> 3] |` (- {''a'', ''b''}) = [''c'' \<mapsto> (3 :: int)]" by (auto simp: restrict_map_def fun_eq_iff)
  show ?thesis
    using zset_bulk_removals[OF g_zset_ok(1), of D_int True env_start "[''zpopmin'', ''z'', ''2'']"] g_zset_ok s r
    by (simp add: zseq_example put_zset_def Let_def split_beta zpop_reply_def env_start_def)
qed

end
