(* ===== verification/Cmd_Table.thy ===== *)
theory Cmd_Table
  imports Cmd_String Glob
begin

text \<open>
  The command table of \<open>commands/commands.cpp\<close>: names, arities and flags, the categories, key positions and
  notification classes that \<open>acl_init_categories\<close> adds, the extraction of key arguments, the renamed dispatch map
  and the self-check of the table.
\<close>

unbundle bit_operations_syntax

section \<open>Model\<close>

text \<open>Command categories (\<open>core/state.h\<close>).\<close>

definition CAT_READ :: u64 where "CAT_READ = 1"
definition CAT_WRITE :: u64 where "CAT_WRITE = 2"
definition CAT_KEYSPACE :: u64 where "CAT_KEYSPACE = 4"
definition CAT_ADMIN :: u64 where "CAT_ADMIN = 8"
definition CAT_DANGEROUS :: u64 where "CAT_DANGEROUS = 16"
definition CAT_FAST :: u64 where "CAT_FAST = 32"
definition CAT_SLOW :: u64 where "CAT_SLOW = 64"
definition CAT_CONNECTION :: u64 where "CAT_CONNECTION = 128"
definition CAT_TRANSACTION :: u64 where "CAT_TRANSACTION = 256"
definition CAT_ALL :: u64 where "CAT_ALL = NOT 0"

lemmas cat_defs = CAT_READ_def CAT_WRITE_def CAT_KEYSPACE_def CAT_ADMIN_def CAT_DANGEROUS_def CAT_FAST_def CAT_SLOW_def
  CAT_CONNECTION_def CAT_TRANSACTION_def

definition NOTIFY_GENERIC :: int where "NOTIFY_GENERIC = 4"
definition NOTIFY_STRING :: int where "NOTIFY_STRING = 8"
definition NOTIFY_LIST :: int where "NOTIFY_LIST = 16"
definition NOTIFY_SET :: int where "NOTIFY_SET = 32"
definition NOTIFY_HASH :: int where "NOTIFY_HASH = 64"
definition NOTIFY_ZSET :: int where "NOTIFY_ZSET = 128"

datatype key_spec = KS_NONE | KS_FIRST | KS_ALL_FROM_1 | KS_STRIDE2_FROM_1

datatype resolver = kr_smove | kr_object | kr_memory

record cmd_spec =
  min_args :: int
  max_args :: int
  is_write :: bool
  aof_rewrite :: bool
  aof_self :: bool
  acl_cats :: u64
  key_pos :: key_spec
  key_resolver :: "resolver option"
  notify_class :: int

text \<open>The rows of \<open>k_cmd_table\<close>: name, arity bounds, \<open>is_write\<close>, \<open>aof_rewrite\<close>, \<open>aof_self\<close>.\<close>

definition k_cmd_rows :: "(string \<times> int \<times> int \<times> bool \<times> bool \<times> bool) list" where
  "k_cmd_rows =
   [(''get'', 2, 2, False, False, False), (''set'', 3, - 1, True, False, False),
    (''incr'', 2, 2, True, False, False), (''decr'', 2, 2, True, False, False),
    (''incrby'', 3, 3, True, False, False), (''decrby'', 3, 3, True, False, False),
    (''incrbyfloat'', 3, 3, True, False, False), (''setex'', 4, 4, True, True, False),
    (''psetex'', 4, 4, True, True, False), (''setnx'', 3, 3, True, False, False),
    (''getset'', 3, 3, True, False, False), (''getdel'', 2, 2, True, False, False),
    (''getex'', 2, - 1, True, True, False), (''append'', 3, 3, True, False, False),
    (''strlen'', 2, 2, False, False, False), (''getrange'', 4, 4, False, False, False),
    (''setrange'', 4, 4, True, False, False), (''mget'', 2, - 1, False, False, False),
    (''mset'', 3, - 1, True, False, False), (''msetnx'', 3, - 1, True, False, False),
    (''del'', 2, - 1, True, False, False), (''exists'', 2, - 1, False, False, False),
    (''type'', 2, 2, False, False, False), (''rename'', 3, 3, True, False, False),
    (''renamenx'', 3, 3, True, False, False), (''touch'', 2, - 1, False, False, False),
    (''unlink'', 2, 2, True, False, False), (''keys'', 1, 2, False, False, False),
    (''scan'', 2, - 1, False, False, False), (''randomkey'', 1, 1, False, False, False),
    (''dbsize'', 1, 1, False, False, False), (''flushall'', 1, 1, True, False, False),
    (''flushdb'', 1, 1, True, False, False), (''expire'', 3, 3, True, True, False),
    (''pexpire'', 3, 3, True, True, False), (''expireat'', 3, 3, True, True, False),
    (''pexpireat'', 3, 3, True, False, False), (''ttl'', 2, 2, False, False, False),
    (''pttl'', 2, 2, False, False, False), (''persist'', 2, 2, True, False, False),
    (''zadd'', 4, - 1, True, False, False), (''zrem'', 3, 3, True, False, False),
    (''zscore'', 3, 3, False, False, False), (''zrank'', 3, 3, False, False, False),
    (''zrevrank'', 3, 3, False, False, False), (''zcard'', 2, 2, False, False, False),
    (''zcount'', 4, 4, False, False, False), (''zrange'', 4, - 1, False, False, False),
    (''zrevrange'', 4, 5, False, False, False), (''zrangebyscore'', 4, - 1, False, False, False),
    (''zrevrangebyscore'', 4, - 1, False, False, False), (''zincrby'', 4, 4, True, False, False),
    (''zremrangebyscore'', 4, 4, True, False, False), (''zremrangebyrank'', 4, 4, True, False, False),
    (''zpopmin'', 2, 3, True, False, False), (''lpush'', 3, - 1, True, False, False),
    (''rpush'', 3, - 1, True, False, False), (''lpop'', 2, 2, True, False, False),
    (''rpop'', 2, 2, True, False, False), (''llen'', 2, 2, False, False, False),
    (''lindex'', 3, 3, False, False, False), (''lrange'', 4, 4, False, False, False),
    (''lset'', 4, 4, True, False, False), (''linsert'', 5, 5, True, False, False),
    (''lrem'', 4, 4, True, False, False), (''ltrim'', 4, 4, True, False, False),
    (''hset'', 4, - 1, True, False, False), (''hget'', 3, 3, False, False, False),
    (''hdel'', 3, - 1, True, False, False), (''hexists'', 3, 3, False, False, False),
    (''hlen'', 2, 2, False, False, False), (''hgetall'', 2, 2, False, False, False),
    (''hkeys'', 2, 2, False, False, False), (''hvals'', 2, 2, False, False, False),
    (''hmget'', 3, - 1, False, False, False), (''hsetnx'', 4, 4, True, False, False),
    (''hincrby'', 4, 4, True, False, False), (''hstrlen'', 3, 3, False, False, False),
    (''hscan'', 3, - 1, False, False, False), (''sadd'', 3, - 1, True, False, False),
    (''srem'', 3, - 1, True, False, False), (''sismember'', 3, 3, False, False, False),
    (''smismember'', 3, - 1, False, False, False), (''scard'', 2, 2, False, False, False),
    (''smembers'', 2, 2, False, False, False), (''spop'', 2, 3, True, False, True),
    (''srandmember'', 2, 3, False, False, False), (''sscan'', 3, - 1, False, False, False),
    (''sinter'', 2, - 1, False, False, False), (''sunion'', 2, - 1, False, False, False),
    (''sdiff'', 2, - 1, False, False, False), (''sinterstore'', 3, - 1, True, False, False),
    (''sunionstore'', 3, - 1, True, False, False), (''sdiffstore'', 3, - 1, True, False, False),
    (''smove'', 4, 4, True, False, False), (''info'', 1, - 1, False, False, False),
    (''save'', 1, 1, False, False, False), (''bgsave'', 1, 1, False, False, False),
    (''bgrewriteaof'', 1, 1, False, False, False), (''ping'', 1, 2, False, False, False),
    (''echo'', 2, 2, False, False, False), (''config'', 2, - 1, False, False, False),
    (''memory'', 2, - 1, False, False, False), (''object'', 2, - 1, False, False, False),
    (''acl'', 2, - 1, False, False, False), (''client'', 2, - 1, False, False, False),
    (''subscribe'', 2, - 1, False, False, False), (''unsubscribe'', 1, - 1, False, False, False),
    (''publish'', 3, 3, False, False, False), (''psubscribe'', 2, - 1, False, False, False),
    (''punsubscribe'', 1, - 1, False, False, False), (''multi'', 1, 1, False, False, False),
    (''discard'', 1, 1, False, False, False), (''exec'', 1, 1, False, False, False),
    (''watch'', 2, - 1, False, False, False), (''unwatch'', 1, 1, False, False, False),
    (''replconf'', 1, - 1, False, False, False), (''psync'', 3, 4, False, False, False),
    (''replicaof'', 3, 3, False, False, False), (''slaveof'', 3, 3, False, False, False),
    (''failover'', 1, 7, False, False, False), (''wait'', 3, 3, False, False, False)]"

definition acl_resolvers :: "(string \<times> resolver) list" where
  "acl_resolvers = [(''smove'', kr_smove), (''object'', kr_object), (''memory'', kr_memory)]"

definition acl_keys :: "(string \<times> key_spec) list" where
  "acl_keys =
   [(''ping'', KS_NONE), (''info'', KS_NONE), (''config'', KS_NONE),
    (''dbsize'', KS_NONE), (''randomkey'', KS_NONE), (''flushall'', KS_NONE),
    (''flushdb'', KS_NONE), (''save'', KS_NONE), (''bgsave'', KS_NONE),
    (''bgrewriteaof'', KS_NONE), (''keys'', KS_NONE), (''scan'', KS_NONE),
    (''acl'', KS_NONE), (''del'', KS_ALL_FROM_1), (''unlink'', KS_ALL_FROM_1),
    (''exists'', KS_ALL_FROM_1), (''touch'', KS_ALL_FROM_1), (''mget'', KS_ALL_FROM_1),
    (''rename'', KS_ALL_FROM_1), (''renamenx'', KS_ALL_FROM_1), (''sinter'', KS_ALL_FROM_1),
    (''sunion'', KS_ALL_FROM_1), (''sdiff'', KS_ALL_FROM_1), (''sinterstore'', KS_ALL_FROM_1),
    (''sunionstore'', KS_ALL_FROM_1), (''sdiffstore'', KS_ALL_FROM_1), (''mset'', KS_STRIDE2_FROM_1),
    (''msetnx'', KS_STRIDE2_FROM_1), (''subscribe'', KS_NONE), (''unsubscribe'', KS_NONE),
    (''publish'', KS_NONE), (''psubscribe'', KS_NONE), (''punsubscribe'', KS_NONE),
    (''multi'', KS_NONE), (''discard'', KS_NONE), (''exec'', KS_NONE),
    (''watch'', KS_ALL_FROM_1), (''unwatch'', KS_NONE), (''replconf'', KS_NONE),
    (''psync'', KS_NONE), (''failover'', KS_NONE), (''replicaof'', KS_NONE),
    (''slaveof'', KS_NONE), (''wait'', KS_NONE), (''client'', KS_NONE)]"

definition acl_extra :: "(string \<times> u64) list" where
  "acl_extra =
   [(''acl'', CAT_ADMIN OR CAT_DANGEROUS), (''config'', CAT_ADMIN OR CAT_DANGEROUS),
    (''save'', CAT_ADMIN OR CAT_DANGEROUS), (''bgsave'', CAT_ADMIN OR CAT_DANGEROUS),
    (''bgrewriteaof'', CAT_ADMIN OR CAT_DANGEROUS), (''flushall'', CAT_KEYSPACE OR CAT_DANGEROUS),
    (''flushdb'', CAT_KEYSPACE OR CAT_DANGEROUS), (''keys'', CAT_KEYSPACE OR CAT_DANGEROUS OR CAT_SLOW),
    (''scan'', CAT_KEYSPACE OR CAT_SLOW), (''dbsize'', CAT_KEYSPACE),
    (''unlink'', CAT_KEYSPACE), (''exists'', CAT_KEYSPACE),
    (''touch'', CAT_KEYSPACE), (''rename'', CAT_KEYSPACE),
    (''renamenx'', CAT_KEYSPACE), (''ping'', CAT_CONNECTION),
    (''info'', CAT_ADMIN), (''memory'', CAT_ADMIN),
    (''object'', CAT_ADMIN), (''echo'', CAT_CONNECTION),
    (''subscribe'', CAT_FAST), (''unsubscribe'', CAT_FAST),
    (''publish'', CAT_FAST), (''psubscribe'', CAT_FAST),
    (''punsubscribe'', CAT_FAST), (''multi'', CAT_FAST OR CAT_TRANSACTION),
    (''discard'', CAT_FAST OR CAT_TRANSACTION), (''exec'', CAT_SLOW OR CAT_TRANSACTION),
    (''watch'', CAT_FAST OR CAT_TRANSACTION), (''unwatch'', CAT_FAST OR CAT_TRANSACTION),
    (''replconf'', CAT_ADMIN OR CAT_DANGEROUS), (''psync'', CAT_ADMIN OR CAT_DANGEROUS),
    (''failover'', CAT_ADMIN OR CAT_DANGEROUS), (''replicaof'', CAT_ADMIN OR CAT_DANGEROUS),
    (''slaveof'', CAT_ADMIN OR CAT_DANGEROUS), (''wait'', CAT_SLOW),
    (''client'', CAT_SLOW)]"

definition acl_notify :: "(string \<times> int) list" where
  "acl_notify =
   [(''set'', NOTIFY_STRING), (''setnx'', NOTIFY_STRING), (''setex'', NOTIFY_STRING),
    (''psetex'', NOTIFY_STRING), (''getset'', NOTIFY_STRING), (''append'', NOTIFY_STRING),
    (''setrange'', NOTIFY_STRING), (''incr'', NOTIFY_STRING), (''decr'', NOTIFY_STRING),
    (''incrby'', NOTIFY_STRING), (''decrby'', NOTIFY_STRING), (''incrbyfloat'', NOTIFY_STRING),
    (''mset'', NOTIFY_STRING), (''msetnx'', NOTIFY_STRING), (''del'', NOTIFY_GENERIC),
    (''unlink'', NOTIFY_GENERIC), (''rename'', NOTIFY_GENERIC), (''renamenx'', NOTIFY_GENERIC),
    (''getdel'', NOTIFY_GENERIC), (''getex'', NOTIFY_GENERIC), (''expire'', NOTIFY_GENERIC),
    (''pexpire'', NOTIFY_GENERIC), (''expireat'', NOTIFY_GENERIC), (''pexpireat'', NOTIFY_GENERIC),
    (''persist'', NOTIFY_GENERIC), (''lpush'', NOTIFY_LIST), (''rpush'', NOTIFY_LIST),
    (''lpop'', NOTIFY_LIST), (''rpop'', NOTIFY_LIST), (''lset'', NOTIFY_LIST),
    (''linsert'', NOTIFY_LIST), (''lrem'', NOTIFY_LIST), (''ltrim'', NOTIFY_LIST),
    (''sadd'', NOTIFY_SET), (''srem'', NOTIFY_SET), (''spop'', NOTIFY_SET),
    (''smove'', NOTIFY_SET), (''sinterstore'', NOTIFY_SET), (''sunionstore'', NOTIFY_SET),
    (''sdiffstore'', NOTIFY_SET), (''hset'', NOTIFY_HASH), (''hdel'', NOTIFY_HASH),
    (''hsetnx'', NOTIFY_HASH), (''hincrby'', NOTIFY_HASH), (''zadd'', NOTIFY_ZSET),
    (''zrem'', NOTIFY_ZSET), (''zpopmin'', NOTIFY_ZSET), (''zincrby'', NOTIFY_ZSET),
    (''zremrangebyscore'', NOTIFY_ZSET), (''zremrangebyrank'', NOTIFY_ZSET)]"

definition acl_init_row :: "string \<times> int \<times> int \<times> bool \<times> bool \<times> bool \<Rightarrow> string \<times> cmd_spec" where
  "acl_init_row row =
     (case row of (name, mn, mx, w, rw, self) \<Rightarrow>
        let base = (if w then CAT_WRITE else CAT_READ);
            cats = (case map_of acl_extra name of
                      None \<Rightarrow> base
                    | Some e \<Rightarrow>
                        let c = base OR e
                        in if e AND (CAT_ADMIN OR CAT_DANGEROUS) \<noteq> 0 then c AND NOT (CAT_READ OR CAT_WRITE) else c)
        in (name,
            \<lparr>min_args = mn, max_args = mx, is_write = w, aof_rewrite = rw, aof_self = self, acl_cats = cats,
             key_pos = (case map_of acl_keys name of None \<Rightarrow> KS_FIRST | Some k \<Rightarrow> k),
             key_resolver = map_of acl_resolvers name,
             notify_class = (case map_of acl_notify name of None \<Rightarrow> 0 | Some c \<Rightarrow> c)\<rparr>))"

definition k_cmd_table :: "(string \<times> cmd_spec) list" where
  "k_cmd_table = map acl_init_row k_cmd_rows"

text \<open>The orphan check at the end of \<open>acl_init_categories\<close>: every name of the side tables is a command.\<close>

definition orphan_check :: bool where
  "orphan_check =
     (let known = map fst k_cmd_rows
      in list_all (\<lambda>n. n \<in> set known) (map fst acl_resolvers @ map fst acl_keys @ map fst acl_extra @ map fst acl_notify))"

definition command_is_known :: "string \<Rightarrow> bool" where
  "command_is_known name \<longleftrightarrow> map_of k_cmd_rows name \<noteq> None"

text \<open>
  The number of problems \<open>metadata_selfcheck\<close> counts in the table. The function adds to it what \<open>config_selfcheck\<close> finds in the
  table of configuration directives, which is not modelled.
\<close>

definition metadata_problems :: nat where
  "metadata_problems =
     sum_list (map (\<lambda>(n, s).
        (if acl_cats s = 0 then 1 else 0) +
        (if acl_cats s AND (CAT_ADMIN OR CAT_DANGEROUS) \<noteq> 0 \<and> acl_cats s AND (CAT_READ OR CAT_WRITE) \<noteq> 0 then 1 else 0)) k_cmd_table)"

subsection \<open>Key arguments\<close>

fun every_other :: "'a list \<Rightarrow> 'a list" where
  "every_other [] = []"
| "every_other [x] = [x]"
| "every_other (x # y # xs) = x # every_other xs"

definition run_resolver :: "resolver \<Rightarrow> string list \<Rightarrow> string list" where
  "run_resolver r cmd =
     (case r of
        kr_smove \<Rightarrow> (if 1 < length cmd then [cmd ! 1] else []) @ (if 2 < length cmd then [cmd ! 2] else [])
      | kr_object \<Rightarrow>
          (if 2 < length cmd \<and> (arg_ieq (cmd ! 1) ''encoding'' \<or> arg_ieq (cmd ! 1) ''refcount'' \<or>
                                arg_ieq (cmd ! 1) ''idletime'' \<or> arg_ieq (cmd ! 1) ''freq'') then [cmd ! 2] else [])
      | kr_memory \<Rightarrow> (if 2 < length cmd \<and> arg_ieq (cmd ! 1) ''usage'' then [cmd ! 2] else []))"

definition cmd_collect_keys :: "cmd_spec \<Rightarrow> string list \<Rightarrow> string list" where
  "cmd_collect_keys spec cmd =
     (case key_resolver spec of
        Some r \<Rightarrow> run_resolver r cmd
      | None \<Rightarrow>
          (case key_pos spec of
             KS_NONE \<Rightarrow> []
           | KS_FIRST \<Rightarrow> (if 1 < length cmd then [cmd ! 1] else [])
           | KS_ALL_FROM_1 \<Rightarrow> drop 1 cmd
           | KS_STRIDE2_FROM_1 \<Rightarrow> every_other (drop 1 cmd)))"

subsection \<open>The dispatch map\<close>

text \<open>A typed name leads to the canonical name and its row. \<open>emplace\<close> keeps an entry that is already there.\<close>

type_synonym dispatch = "(string \<times> string \<times> cmd_spec) list"

definition emplace :: "string \<Rightarrow> 'a \<Rightarrow> (string \<times> 'a) list \<Rightarrow> (string \<times> 'a) list" where
  "emplace k v m = (if map_of m k = None then m @ [(k, v)] else m)"

fun dispatch_renames :: "(string \<times> string) list \<Rightarrow> dispatch \<Rightarrow> dispatch" where
  "dispatch_renames [] m = m"
| "dispatch_renames ((old, new) # rs) m =
     (case map_of m old of
        None \<Rightarrow> dispatch_renames rs m
      | Some entry \<Rightarrow>
          (let m = filter (\<lambda>p. fst p \<noteq> old) m
           in dispatch_renames rs (if new \<noteq> [] then emplace new entry m else m)))"

definition dispatch_build :: "(string \<times> string) list \<Rightarrow> dispatch" where
  "dispatch_build renames = dispatch_renames renames (map (\<lambda>(n, s). (n, n, s)) k_cmd_table)"

subsection \<open>Command classes\<close>

definition cmd_can_grow_memory :: "string \<Rightarrow> bool" where
  "cmd_can_grow_memory name \<longleftrightarrow>
     name \<notin> set [''del'', ''unlink'', ''flushall'', ''flushdb'', ''expire'', ''pexpire'', ''expireat'', ''pexpireat'', ''persist'',
       ''getdel'', ''getex'', ''lpop'', ''rpop'', ''lrem'', ''ltrim'', ''spop'', ''srem'', ''hdel'', ''zrem'', ''zpopmin'',
       ''rename'', ''renamenx'', ''zremrangebyscore'', ''zremrangebyrank'']"

definition cmd_ok_in_subscribe :: "string \<Rightarrow> bool" where
  "cmd_ok_in_subscribe canonical \<longleftrightarrow>
     canonical \<in> set [''subscribe'', ''unsubscribe'', ''psubscribe'', ''punsubscribe'', ''ping'', ''quit'', ''reset'']"

definition cmd_no_queue :: "string \<Rightarrow> bool" where
  "cmd_no_queue canonical \<longleftrightarrow> canonical \<in> set [''subscribe'', ''unsubscribe'', ''psubscribe'', ''punsubscribe'']"

section \<open>Theorems\<close>

lemma rows_distinct: "distinct (map fst k_cmd_rows)"
  unfolding k_cmd_rows_def by simp

lemma table_names: "map fst k_cmd_table = map fst k_cmd_rows"
  by (auto simp: k_cmd_table_def acl_init_row_def Let_def split_beta)

definition dispatch_ok :: "dispatch \<Rightarrow> bool" where
  "dispatch_ok m \<longleftrightarrow> distinct (map fst m) \<and> distinct (map (fst \<circ> snd) m) \<and> snd ` set m \<subseteq> set k_cmd_table"

lemma dispatch_renames_ok: "dispatch_ok m \<Longrightarrow> dispatch_ok (dispatch_renames rs m)"
proof (induction rs m rule: dispatch_renames.induct)
  case (2 old new rs m)
  show ?case
  proof (cases "map_of m old")
    case None
    then show ?thesis using 2 by simp
  next
    case (Some e)
    let ?m = "filter (\<lambda>p. fst p \<noteq> old) m"
    have f: "dispatch_ok ?m" using 2(3) by (auto simp: dispatch_ok_def distinct_map_filter)
    have mem: "(old, e) \<in> set m" using Some by (rule map_of_SomeD)
    have "fst e \<notin> (fst \<circ> snd) ` set ?m"
    proof
      assume "fst e \<in> (fst \<circ> snd) ` set ?m"
      then obtain q where q: "q \<in> set m" "fst q \<noteq> old" "fst (snd q) = fst e" by auto
      have "inj_on (fst \<circ> snd) (set m)" using 2(3) by (simp add: dispatch_ok_def distinct_map)
      then have "q = (old, e)" using q(1,3) mem by (auto simp: inj_on_def)
      then show False using q(2) by simp
    qed
    moreover have "e \<in> set k_cmd_table" using 2(3) mem by (force simp: dispatch_ok_def)
    ultimately have "dispatch_ok (emplace new e ?m)" using f
      by (auto simp: emplace_def dispatch_ok_def map_of_eq_None_iff)
    then show ?thesis using 2(1,2) f Some by (auto simp: Let_def)
  qed
qed simp

lemma dispatch_start: "dispatch_ok (map (\<lambda>(n, s). (n, n, s)) k_cmd_table)"
proof -
  have eqs: "map fst (map (\<lambda>(n, s). (n, n, s)) t) = map fst t" "map (fst \<circ> snd) (map (\<lambda>(n, s). (n, n, s)) t) = map fst t"
    "snd ` set (map (\<lambda>(n, s). (n, n, s)) t) = set t" for t :: "(string \<times> cmd_spec) list" by (auto simp: image_image split_beta)
  show ?thesis using rows_distinct unfolding dispatch_ok_def eqs table_names by blast
qed

lemma table_row:
  assumes "(c, spec) \<in> set k_cmd_table"
  obtains b where "b = CAT_READ \<or> b = CAT_WRITE"
    "acl_cats spec = (case map_of acl_extra c of
       None \<Rightarrow> b
     | Some e \<Rightarrow> if e AND (CAT_ADMIN OR CAT_DANGEROUS) \<noteq> 0 then (b OR e) AND NOT (CAT_READ OR CAT_WRITE) else b OR e)"
proof -
  obtain mn mx w rw self where row: "spec = snd (acl_init_row (c, mn, mx, w, rw, self))"
    using assms by (auto simp: k_cmd_table_def acl_init_row_def Let_def)
  show thesis by (rule that[of "if w then CAT_WRITE else CAT_READ"]) (auto simp: row acl_init_row_def Let_def split: option.splits)
qed

lemma and_or_zero: "(b OR e) AND z = 0 \<longleftrightarrow> b AND z = 0 \<and> e AND z = 0" for b e z :: u64
  by (simp add: bit.conj_disj_distrib2 or_eq_0_iff)

lemma row_cats:
  assumes "(c, spec) \<in> set k_cmd_table"
  shows "acl_cats spec AND NOT CAT_DANGEROUS \<noteq> 0"
    and "acl_cats spec AND (CAT_ADMIN OR CAT_DANGEROUS) \<noteq> 0 \<Longrightarrow> acl_cats spec AND (CAT_READ OR CAT_WRITE) = 0"
proof -
  have "\<forall>(n, e) \<in> set acl_extra. e AND (CAT_ADMIN OR CAT_DANGEROUS) \<noteq> 0 \<longrightarrow> e AND (NOT (CAT_READ OR CAT_WRITE) AND NOT CAT_DANGEROUS) \<noteq> 0"
    by (simp add: acl_extra_def cat_defs)
  then have ex: "e AND (NOT (CAT_READ OR CAT_WRITE) AND NOT CAT_DANGEROUS) \<noteq> 0"
    if "map_of acl_extra c = Some e" "e AND (CAT_ADMIN OR CAT_DANGEROUS) \<noteq> 0" for e
    using map_of_SomeD[OF that(1)] that(2) by fastforce
  obtain b where b: "b = CAT_READ \<or> b = CAT_WRITE" and cats: "acl_cats spec = (case map_of acl_extra c of
       None \<Rightarrow> b
     | Some e \<Rightarrow> if e AND (CAT_ADMIN OR CAT_DANGEROUS) \<noteq> 0 then (b OR e) AND NOT (CAT_READ OR CAT_WRITE) else b OR e)"
    by (rule table_row[OF assms])
  have base: "b AND NOT CAT_DANGEROUS \<noteq> 0" "b AND (CAT_ADMIN OR CAT_DANGEROUS) = 0" using b by (auto simp: cat_defs)
  have rw: "(x AND NOT r) AND r = 0" for x r :: u64 by (simp add: and.assoc)
  consider "map_of acl_extra c = None" | e where "map_of acl_extra c = Some e" "e AND (CAT_ADMIN OR CAT_DANGEROUS) = 0"
    | e where "map_of acl_extra c = Some e" "e AND (CAT_ADMIN OR CAT_DANGEROUS) \<noteq> 0" by (cases "map_of acl_extra c") auto
  then have "acl_cats spec AND NOT CAT_DANGEROUS \<noteq> 0 \<and>
      (acl_cats spec AND (CAT_ADMIN OR CAT_DANGEROUS) \<noteq> 0 \<longrightarrow> acl_cats spec AND (CAT_READ OR CAT_WRITE) = 0)"
  proof cases
    case 1
    then show ?thesis using base unfolding cats by (simp only: option.case simp_thms)
  next
    case 2
    then show ?thesis using base unfolding cats by (simp only: option.case if_False simp_thms and_or_zero)
  next
    case 3
    then show ?thesis using ex[OF 3] unfolding cats by (simp only: option.case if_True simp_thms rw) (simp only: and.assoc and_or_zero simp_thms)
  qed
  then show "acl_cats spec AND NOT CAT_DANGEROUS \<noteq> 0"
    "acl_cats spec AND (CAT_ADMIN OR CAT_DANGEROUS) \<noteq> 0 \<Longrightarrow> acl_cats spec AND (CAT_READ OR CAT_WRITE) = 0" by blast+
qed

lemma metadata_zero: "metadata_problems = 0"
  unfolding metadata_problems_def sum_list_eq_0_iff using row_cats by fastforce

lemma no_orphans: "orphan_check"
  unfolding orphan_check_def Let_def acl_resolvers_def acl_keys_def acl_extra_def acl_notify_def k_cmd_rows_def by simp

text \<open>
  C37. The command table and its dispatch map. The side tables that \<open>acl_init_categories\<close> folds in name only commands of the
  table, and the self check of the metadata finds no command without a category and no administrative command that
  carries the read or write category. Whatever \<open>rename-command\<close> directives are given, the dispatch map has one entry
  per typed name, no command is reachable under two names, and each entry leads to a row of the table under its canonical name.
\<close>

theorem dispatch_sound:
  "orphan_check \<and> metadata_problems = 0 \<and> distinct (map fst k_cmd_table) \<and>
   distinct (map fst (dispatch_build rs)) \<and> distinct (map (fst \<circ> snd) (dispatch_build rs)) \<and>
   snd ` set (dispatch_build rs) \<subseteq> set k_cmd_table"
  using dispatch_renames_ok[OF dispatch_start, of rs] no_orphans metadata_zero rows_distinct table_names
  by (simp add: dispatch_build_def dispatch_ok_def)

end
