(* ===== verification/Cmd_Hash.thy ===== *)
theory Cmd_Hash
  imports Entry_Type
begin

text \<open>
  The hash commands of \<open>commands/commands.cpp\<close> over the field table of \<open>Hash_Type\<close>, with the finite map
  from fields to values as their specification.
\<close>

section \<open>Model\<close>

definition entry_hash :: "'s gdata \<Rightarrow> addr \<Rightarrow> hash_node hmap" where
  "entry_hash g a = (case val_at g a of VHash h \<Rightarrow> h | _ \<Rightarrow> hmap_empty)"

definition MSG_HSET_ARGS :: string where
  "MSG_HSET_ARGS = ''ERR wrong number of arguments for '' @ [CHR 0x27] @ ''hset'' @ [CHR 0x27]"

fun hset_loop :: "string list \<Rightarrow> hash_node hmap \<Rightarrow> int \<Rightarrow> hash_node hmap \<times> int" where
  "hset_loop (f # x # rest) h added =
     (let (h, new) = hash_set h f (str_new x) in hset_loop rest h (if new then added + 1 else added))"
| "hset_loop _ h added = (h, added)"

definition do_hset :: "'s handler" where
  "do_hset v cmd g =
     (if odd (length cmd - 2) then (g, [RErr MSG_HSET_ARGS])
      else
        let (g, r) = lookup_entry v (cmd ! 1) T_HASH True False g
        in case r of
             LOk a \<Rightarrow>
               (let (h, added) = hset_loop (drop 2 cmd) (entry_hash g a) 0
                in (wrote 1 (mem_reaccount a (put_val a (VHash h) g)), [RInt added]))
           | _ \<Rightarrow> (g, [RErr MSG_WRONG]))"

definition do_hget :: "'s handler" where
  "do_hget v cmd g =
     (let (g, r) = lookup_entry v (cmd ! 1) T_HASH False False g
      in case r of
           LWrongType \<Rightarrow> (g, [RErr MSG_WRONG])
         | LMissing \<Rightarrow> (g, [RNil])
         | LOk a \<Rightarrow>
             (let (h, hn) = hash_get (entry_hash g a) (cmd ! 2);
                  g = put_val a (VHash h) g
              in case hn of None \<Rightarrow> (g, [RNil]) | Some n \<Rightarrow> (g, [RStr (chars (hvalue n))])))"

fun hdel_loop :: "string list \<Rightarrow> hash_node hmap \<Rightarrow> int \<Rightarrow> hash_node hmap \<times> int" where
  "hdel_loop [] h removed = (h, removed)"
| "hdel_loop (f # fs) h removed =
     (let (h, gone) = hash_del h f in hdel_loop fs h (if gone then removed + 1 else removed))"

definition do_hdel :: "'s handler" where
  "do_hdel v cmd g =
     (let (g, r) = lookup_entry v (cmd ! 1) T_HASH False False g
      in case r of
           LWrongType \<Rightarrow> (g, [RErr MSG_WRONG])
         | LMissing \<Rightarrow> (g, [RInt 0])
         | LOk a \<Rightarrow>
             (let (h, removed) = hdel_loop (drop 2 cmd) (entry_hash g a) 0;
                  g = put_val a (VHash h) g;
                  g = (if hm_size h = 0 then drop_entry v a g else if removed \<noteq> 0 then mem_reaccount a g else g)
              in (if removed \<noteq> 0 then wrote 1 g else g, [RInt removed])))"

definition do_hexists :: "'s handler" where
  "do_hexists v cmd g =
     (let (g, r) = lookup_entry v (cmd ! 1) T_HASH False False g
      in case r of
           LWrongType \<Rightarrow> (g, [RErr MSG_WRONG])
         | LMissing \<Rightarrow> (g, [RInt 0])
         | LOk a \<Rightarrow>
             (let (h, hn) = hash_get (entry_hash g a) (cmd ! 2)
              in (put_val a (VHash h) g, [RInt (if hn \<noteq> None then 1 else 0)])))"

definition do_hlen :: "'s handler" where
  "do_hlen v cmd g =
     (let (g, r) = lookup_entry v (cmd ! 1) T_HASH False False g
      in case r of
           LWrongType \<Rightarrow> (g, [RErr MSG_WRONG])
         | LMissing \<Rightarrow> (g, [RInt 0])
         | LOk a \<Rightarrow> (g, [RInt (int (hm_size (entry_hash g a)))]))"

text \<open>\<open>HGETALL\<close> (mode 0), \<open>HKEYS\<close> (1), \<open>HVALS\<close> (2).\<close>

definition cb_hemit :: "nat \<Rightarrow> hash_node \<Rightarrow> 's reply list" where
  "cb_hemit mode n =
     (if mode = 0 then [RStr (chars (field n)), RStr (chars (hvalue n))]
      else if mode = 1 then [RStr (chars (field n))]
      else [RStr (chars (hvalue n))])"

definition h_collect_reply :: "nat \<Rightarrow> 's handler" where
  "h_collect_reply mode v cmd g =
     (let (g, r) = lookup_entry v (cmd ! 1) T_HASH False False g
      in case r of
           LWrongType \<Rightarrow> (g, [RErr MSG_WRONG])
         | LMissing \<Rightarrow> (g, [if mode = 0 then RMap 0 else RArr 0])
         | LOk a \<Rightarrow>
             (let n = of_nat (hm_size (entry_hash g a))
              in (g, (if mode = 0 then RMap n else RArr n) # concat (map (cb_hemit mode) (sk_nodes (entry_hash g a))))))"

definition do_hgetall :: "'s handler" where
  "do_hgetall = h_collect_reply 0"

definition do_hkeys :: "'s handler" where
  "do_hkeys = h_collect_reply 1"

definition do_hvals :: "'s handler" where
  "do_hvals = h_collect_reply 2"

fun hmget_loop :: "string list \<Rightarrow> hash_node hmap \<Rightarrow> hash_node hmap \<times> 's reply list" where
  "hmget_loop [] h = (h, [])"
| "hmget_loop (f # fs) h =
     (let (h, hn) = hash_get h f;
          (h, rs) = hmget_loop fs h
      in (h, (case hn of None \<Rightarrow> RNil | Some n \<Rightarrow> RStr (chars (hvalue n))) # rs))"

definition do_hmget :: "'s handler" where
  "do_hmget v cmd g =
     (let (g, r) = lookup_entry v (cmd ! 1) T_HASH False False g;
          hd = RArr (of_nat (length cmd - 2))
      in case r of
           LWrongType \<Rightarrow> (g, [RErr MSG_WRONG])
         | LMissing \<Rightarrow> (g, hd # map (\<lambda>_. RNil) (drop 2 cmd))
         | LOk a \<Rightarrow>
             (let (h, rs) = hmget_loop (drop 2 cmd) (entry_hash g a) in (put_val a (VHash h) g, hd # rs)))"

definition do_hsetnx :: "'s handler" where
  "do_hsetnx v cmd g =
     (let (g, r) = lookup_entry v (cmd ! 1) T_HASH True False g
      in case r of
           LOk a \<Rightarrow>
             (let (h, hn) = hash_get (entry_hash g a) (cmd ! 2)
              in if hn \<noteq> None then (put_val a (VHash h) g, [RInt 0])
                 else let (h, _) = hash_set h (cmd ! 2) (str_new (cmd ! 3))
                      in (wrote 1 (mem_reaccount a (put_val a (VHash h) g)), [RInt 1]))
         | _ \<Rightarrow> (g, [RErr MSG_WRONG]))"

definition do_hincrby :: "'s handler" where
  "do_hincrby v cmd g =
     (case str2int (cmd ! 3) of
        None \<Rightarrow> (g, [RErr MSG_NOT_INT])
      | Some incr \<Rightarrow>
          let (g, r) = lookup_entry v (cmd ! 1) T_HASH True False g
          in case r of
               LOk a \<Rightarrow>
                 (let (h, hn) = hash_get (entry_hash g a) (cmd ! 2);
                      g = put_val a (VHash h) g
                  in case (case hn of None \<Rightarrow> Some 0 | Some n \<Rightarrow> str2int (chars (hvalue n))) of
                       None \<Rightarrow> (g, [RErr ''ERR hash value is not an integer''])
                     | Some cur \<Rightarrow>
                         if 0 < incr \<and> INT64_MAX - incr < cur \<or> incr < 0 \<and> cur < INT64_MIN - incr
                         then (g, [RErr ''ERR increment or decrement would overflow''])
                         else
                           let cur = cur + incr;
                               (h, _) = hash_set h (cmd ! 2) (str_new (int_dec cur))
                           in (wrote 1 (mem_reaccount a (put_val a (VHash h) g)), [RInt cur]))
             | _ \<Rightarrow> (g, [RErr MSG_WRONG]))"

definition do_hstrlen :: "'s handler" where
  "do_hstrlen v cmd g =
     (let (g, r) = lookup_entry v (cmd ! 1) T_HASH False False g
      in case r of
           LWrongType \<Rightarrow> (g, [RErr MSG_WRONG])
         | LMissing \<Rightarrow> (g, [RInt 0])
         | LOk a \<Rightarrow>
             (let (h, hn) = hash_get (entry_hash g a) (cmd ! 2)
              in (put_val a (VHash h) g, [RInt (case hn of None \<Rightarrow> 0 | Some n \<Rightarrow> int (length (chars (hvalue n))))])))"

definition cb_hscan :: "string option \<Rightarrow> hash_node list \<Rightarrow> string list option" where
  "cb_hscan = scan_items hn_key (\<lambda>n. [chars (field n), chars (hvalue n)])"

definition do_hscan :: "env \<Rightarrow> string list \<Rightarrow> 's gdata \<Rightarrow> ('s gdata \<times> 's reply list) option" where
  "do_hscan = scan_coll T_HASH entry_hash cb_hscan"

section \<open>The field table\<close>

lemma hash_get_mem: "hash_wf h \<Longrightarrow> hash_get h f = (h', r) \<Longrightarrow> elem_bytes h' = elem_bytes h"
  using sk_lookup_ok[of hn_key h f h' r] by (simp add: hash_wf_def hash_get_def)

lemma hash_finite: "hash_wf h \<Longrightarrow> finite (dom (hash_abs h))"
  using sk.finite_dom[of hn_key h] by (auto simp: hash_wf_def hash_abs_def dom_def)

lemma hash_del_none: "hash_wf h \<Longrightarrow> hash_del h f = (h', False) \<Longrightarrow> elem_bytes h' = elem_bytes h"
  using sk_delete_ok[of hn_key h f] by (auto simp: hash_wf_def hash_del_def split: prod.splits option.splits)

text \<open>Several fields at once, the last occurrence of a field winning.\<close>

definition put_fields :: "(string \<times> string) list \<Rightarrow> (string \<rightharpoonup> string) \<Rightarrow> string \<rightharpoonup> string" where
  "put_fields ps m = fold (\<lambda>(f, x) m. m(f \<mapsto> x)) ps m"

lemma put_fields_simps [simp]: "put_fields [] m = m" "put_fields ((f, x) # ps) m = put_fields ps (m(f \<mapsto> x))"
  by (simp_all add: put_fields_def)

lemma put_fields_dom: "dom (put_fields ps m) = dom m \<union> fst ` set ps"
  by (induction ps arbitrary: m) (auto simp: put_fields_def)

lemma card_new: "finite A \<Longrightarrow> card (insert f A - B) = (if f \<in> B then 0 else 1) + card (A - insert f B)"
proof -
  assume A: "finite A"
  have "insert f A - B = (if f \<in> B then {} else {f}) \<union> (A - insert f B)" by auto
  then show ?thesis using A by (simp add: card_insert_if)
qed

lemma hset_loop_ok:
  "hash_wf h \<Longrightarrow> card (dom (hash_abs h)) + length (kv_pairs as) \<le> 2 ^ 60 \<Longrightarrow> hset_loop as h n = (h', n') \<Longrightarrow>
   hash_wf h' \<and> hash_abs h' = put_fields (kv_pairs as) (hash_abs h) \<and>
   n' = n + int (card (fst ` set (kv_pairs as) - dom (hash_abs h)))"
proof (induction as h n rule: hset_loop.induct)
  case (1 f x rest h n)
  obtain h1 new where s: "hash_set h f (str_new x) = (h1, new)" by fastforce
  have room: "hm_room h" using 1(3) hash_room[OF 1(2)] by simp
  note ok = hash_set_ok[OF 1(2) room s]
  have c: "card (dom (hash_abs h1)) + length (kv_pairs rest) \<le> 2 ^ 60"
    using ok 1(3) hash_finite[OF 1(2)] by (simp add: card_insert_if split: if_splits)
  have w: "hash_wf h1" and e: "hash_abs h1 = (hash_abs h)(f \<mapsto> x)" and nw: "new \<longleftrightarrow> f \<notin> dom (hash_abs h)"
    using ok by (auto simp: domIff)
  have r: "hset_loop rest h1 (if new then n + 1 else n) = (h', n')" using 1(4) s by simp
  have i: "hash_wf h' \<and> hash_abs h' = put_fields (kv_pairs rest) ((hash_abs h)(f \<mapsto> x)) \<and>
      n' = (if new then n + 1 else n) + int (card (fst ` set (kv_pairs rest) - dom ((hash_abs h)(f \<mapsto> x))))"
    using 1(1)[OF s[symmetric] refl w c r] unfolding e[symmetric] .
  have "finite (fst ` set (kv_pairs rest))" by simp
  from card_new[OF this, of f "dom (hash_abs h)"] show ?case
    using i nw by simp
qed (auto simp: put_fields_def)

lemma hdel_loop_ok:
  "hash_wf h \<Longrightarrow> hdel_loop fs h n = (h', n') \<Longrightarrow>
   hash_wf h' \<and> hash_abs h' = hash_abs h |` (- set fs) \<and> n' = n + int (card (set fs \<inter> dom (hash_abs h))) \<and>
   (n' = n \<longrightarrow> elem_bytes h' = elem_bytes h)"
proof (induction fs h n rule: hdel_loop.induct)
  case (2 f fs h n)
  obtain h1 gone where s: "hash_del h f = (h1, gone)" by fastforce
  note ok = hash_del_ok[OF 2(2) s]
  have w: "hash_wf h1" and e: "hash_abs h1 = (hash_abs h)(f := None)" and gn: "gone \<longleftrightarrow> f \<in> dom (hash_abs h)"
    using ok by (auto simp: domIff)
  have r: "hdel_loop fs h1 (if gone then n + 1 else n) = (h', n')" using 2(3) s by simp
  note i = 2(1)[OF s[symmetric] refl w r]
  have "set (f # fs) \<inter> dom (hash_abs h) = (if gone then {f} else {}) \<union> (set fs \<inter> dom (hash_abs h1))"
    unfolding e using gn by auto
  moreover have "f \<notin> set fs \<inter> dom (hash_abs h1)" unfolding e by simp
  moreover have "finite (set fs \<inter> dom (hash_abs h1))" by simp
  ultimately have c: "card (set (f # fs) \<inter> dom (hash_abs h)) = (if gone then 1 else 0) + card (set fs \<inter> dom (hash_abs h1))"
    by simp
  have "hash_abs h1 |` (- set fs) = hash_abs h |` (- set (f # fs))" unfolding e by (auto simp: restrict_map_def)
  moreover have "elem_bytes h' = elem_bytes h" if "n' = n"
  proof -
    have "\<not> gone" using that i c by auto
    then show ?thesis using that i hash_del_none[OF 2(2)] s by simp
  qed
  ultimately show ?case using i c by simp
qed (auto simp: restrict_map_def)

lemma hmget_loop_ok:
  "hash_wf h \<Longrightarrow> hmget_loop fs h = (h', rs) \<Longrightarrow>
   hash_wf h' \<and> hash_abs h' = hash_abs h \<and> elem_bytes h' = elem_bytes h \<and>
   rs = map (\<lambda>f. case hash_abs h f of None \<Rightarrow> RNil | Some x \<Rightarrow> RStr x) fs"
proof (induction fs h arbitrary: rs rule: hmget_loop.induct)
  case (2 f fs h)
  obtain h1 hn rs1 where s: "hash_get h f = (h1, hn)" "hmget_loop fs h1 = (h', rs1)"
    "rs = (case hn of None \<Rightarrow> RNil | Some n \<Rightarrow> RStr (chars (hvalue n))) # rs1"
    using 2(3) by (auto split: prod.splits)
  note ok = hash_get_ok[OF 2(2) s(1)] hash_get_mem[OF 2(2) s(1)]
  have w: "hash_wf h1" using ok by simp
  have "hash_abs h f = map_option (\<lambda>n. chars (hvalue n)) hn" using ok by simp
  then show ?case using 2(1)[OF s(1)[symmetric] refl w s(2)] ok s(3) by (cases hn) simp_all
qed simp

lemma hash_nodes_ok:
  assumes "hash_wf h"
  shows "distinct (map hn_key (sk_nodes h))" "hash_abs h = map_of (map (\<lambda>n. (hn_key n, chars (hvalue n))) (sk_nodes h))"
    "hm_size h = length (sk_nodes h)"
proof -
  have w: "sk_wf hn_key h" "hm_wf h" using assms by (auto simp: hash_wf_def sk_wf_def)
  show d: "distinct (map hn_key (sk_nodes h))" using w(1) by (simp add: sk_wf_def)
  show "hash_abs h = map_of (map (\<lambda>n. (hn_key n, chars (hvalue n))) (sk_nodes h))"
    using map_of_map[of "\<lambda>n. chars (hvalue n)" "map (\<lambda>p. (hn_key p, p)) (sk_nodes h)"]
    by (auto simp: hash_abs_def sk_map_def fun_eq_iff comp_def)
  show "hm_size h = length (sk_nodes h)" using hm_size_ok[OF w(2)] sk_nodes_mset[OF w(2)]
    by (metis sk_payloads_def size_image_mset size_mset)
qed

section \<open>The commands\<close>

interpretation ht: entry_type T_HASH VHash entry_hash hash_wf AHash hash_abs Map.empty
  using hash_empty_ok by unfold_locales (auto simp: type_at_def entry_hash_def empty_val_def split: evalue.splits)

definition hash_case :: "('s avalue \<times> u64 option) option \<Rightarrow> 'b \<Rightarrow> 'b \<Rightarrow> ((string \<rightharpoonup> string) \<Rightarrow> u64 option \<Rightarrow> 'b) \<Rightarrow> 'b" where
  "hash_case x missing wrong f = (case x of None \<Rightarrow> missing | Some (AHash m, d) \<Rightarrow> f m d | Some _ \<Rightarrow> wrong)"

lemma hash_case_simps [simp]:
  "hash_case None x y f = x" "hash_case (Some (AHash m, d)) x y f = f m d" "wrong_type T_HASH z \<Longrightarrow> hash_case z x y f = y"
  by (auto simp: hash_case_def wrong_type_def split: option.splits avalue.splits)

text \<open>Storing a map under a key, an empty one by removing the key.\<close>

definition put_hash :: "string \<Rightarrow> (string \<rightharpoonup> string) \<Rightarrow> u64 option \<Rightarrow> (string \<Rightarrow> ('s avalue \<times> u64 option) option) \<Rightarrow>
    string \<Rightarrow> ('s avalue \<times> u64 option) option" where
  "put_hash k m d M = M(k := if m = Map.empty then None else Some (AHash m, d))"

lemma hash_size_0: "hash_wf h \<Longrightarrow> hm_size h = 0 \<longleftrightarrow> hash_abs h = Map.empty"
  using hash_size_ok[of h] hash_finite[of h] by simp

text \<open>A read of the table: the commands that only look.\<close>

lemma hash_read:
  assumes "g_ok S g" "at v g k a" "val_at g a = VHash (entry_hash g a)" "hash_wf (entry_hash g a)" "hash_get (entry_hash g a) f = (h, hn)"
  shows "g_ok S (put_val a (VHash h) g)" "live v (put_val a (VHash h) g) = live v g" "at v (put_val a (VHash h) g) k a"
    "entry_hash (put_val a (VHash h) g) a = h" "ttl_of (heap (put_val a (VHash h) g)) = ttl_of (heap g)" "hash_wf h"
    "hash_abs h = hash_abs (entry_hash g a)" "map_option (\<lambda>n. chars (hvalue n)) hn = hash_abs (entry_hash g a) f"
proof -
  note r = hash_get_ok[OF assms(4,5)] hash_get_mem[OF assms(4,5)]
  show "hash_wf h" "hash_abs h = hash_abs (entry_hash g a)" "map_option (\<lambda>n. chars (hvalue n)) hn = hash_abs (entry_hash g a) f"
    using r by simp_all
  have m: "val_mem (VHash h) = val_mem (VHash (entry_hash g a) :: 'a evalue)" using r by (simp add: val_mem_def)
  note f = ht.refresh[OF assms(1-3) \<open>hash_wf h\<close> \<open>hash_abs h = hash_abs (entry_hash g a)\<close> m]
  show "g_ok S (put_val a (VHash h) g)" "live v (put_val a (VHash h) g) = live v g" "at v (put_val a (VHash h) g) k a"
    "entry_hash (put_val a (VHash h) g) a = h" "ttl_of (heap (put_val a (VHash h) g)) = ttl_of (heap g)"
    using f by simp_all
qed

lemma do_hset_ok:
  assumes "g_ok {} g" "fits v (length cmd) g" "2 < length cmd" "do_hset v cmd g = (g', rs)"
  defines "ps \<equiv> kv_pairs (drop 2 cmd)"
  shows "g_ok {} g' \<and> (live v g', rs) =
    (if odd (length cmd) then (live v g, [RErr MSG_HSET_ARGS])
     else hash_case (live v g (cmd ! 1))
       (put_hash (cmd ! 1) (put_fields ps Map.empty) None (live v g), [RInt (int (card (fst ` set ps)))])
       (live v g, [RErr MSG_WRONG])
       (\<lambda>m d. (put_hash (cmd ! 1) (put_fields ps m) d (live v g), [RInt (int (card (fst ` set ps - dom m)))])))"
proof (cases "odd (length cmd)")
  case True
  then show ?thesis using assms by (simp add: do_hset_def)
next
  case False
  obtain g1 r where l: "lookup_entry v (cmd ! 1) T_HASH True False g = (g1, r)" by fastforce
  have room: "g_room g" by (rule fits_room[OF assms(2)]) (use assms(3) in linarith)
  have "0 < length ps" "length ps \<le> length cmd" using assms(3) False by (auto simp: ps_def kv_pairs_len elim!: evenE)
  then have ne: "ps \<noteq> []" "length ps \<le> length cmd" by auto
  have nn: "put_fields ps m \<noteq> Map.empty" for m
    using put_fields_dom[of ps m] ne by (cases ps) auto
  have go: "g_ok {} g' \<and> live v g' = (live v g1)(cmd ! 1 \<mapsto> (AHash (put_fields ps (hash_abs (entry_hash g1 a))), ttl_of (heap g1) a)) \<and>
      rs = [RInt (int (card (fst ` set ps - dom (hash_abs (entry_hash g1 a)))))]"
    if "r = LOk a" "at v g1 (cmd ! 1) a" "g_ok {a} g1" "hash_wf (entry_hash g1 a)"
      "card (dom (hash_abs (entry_hash g1 a))) + length ps \<le> 2 ^ 60" for a
  proof -
    obtain h n where h: "hset_loop (drop 2 cmd) (entry_hash g1 a) 0 = (h, n)" by fastforce
    note ok = hset_loop_ok[OF that(4) that(5)[unfolded ps_def] h]
    have w: "hash_wf h" using ok by simp
    have "g' = wrote 1 (mem_reaccount a (put_val a (VHash h) g1))" "rs = [RInt n]"
      using assms(4) False l that(1) h by (simp_all add: do_hset_def)
    then show ?thesis using ht.commit[OF that(3,2) w, of 1] ok unfolding ps_def by simp
  qed
  from assms(1) room l show ?thesis
  proof (cases rule: ht.rw_cases)
    case (fresh a)
    have "card (dom (hash_abs (entry_hash g1 a))) + length ps \<le> 2 ^ 60"
      using fresh(7) ne(2) fits_card[OF assms(2)] by simp
    then show ?thesis using go[OF fresh(1,2,3,4)] fresh False nn by (simp add: put_hash_def)
  next
    case (found a)
    have "card (dom (hash_abs (entry_hash g1 a))) + length ps \<le> 2 ^ 60"
      using fits_live[OF assms(2) found(6)] ne(2) by simp
    then show ?thesis using go[OF found(1,2,3,4)] found False nn by (simp add: put_hash_def)
  qed (use assms(4) l False in \<open>auto simp: do_hset_def\<close>)
qed

text \<open>The read-only commands answer from the map.\<close>

lemma do_hget_ok:
  assumes "g_ok {} g" "do_hget v cmd g = (g', rs)"
  shows "g_ok {} g' \<and> live v g' = live v g \<and>
    rs = hash_case (live v g (cmd ! 1)) [RNil] [RErr MSG_WRONG]
      (\<lambda>m d. [case m (cmd ! 2) of None \<Rightarrow> RNil | Some x \<Rightarrow> RStr x])"
proof -
  obtain g1 r where l: "lookup_entry v (cmd ! 1) T_HASH False False g = (g1, r)" by fastforce
  from assms(1) l show ?thesis
  proof (cases rule: ht.ro_cases)
    case (found a)
    obtain h hn where h: "hash_get (entry_hash g1 a) (cmd ! 2) = (h, hn)" by fastforce
    note rd = hash_read[OF found(4,2,7,3) h]
    show ?thesis using assms(2) l found h rd(1,2,8) by (cases hn) (auto simp: do_hget_def split: option.splits)
  qed (use assms(2) l in \<open>auto simp: do_hget_def\<close>)
qed

lemma do_hexists_ok:
  assumes "g_ok {} g" "do_hexists v cmd g = (g', rs)"
  shows "g_ok {} g' \<and> live v g' = live v g \<and>
    rs = hash_case (live v g (cmd ! 1)) [RInt 0] [RErr MSG_WRONG] (\<lambda>m d. [RInt (if cmd ! 2 \<in> dom m then 1 else 0)])"
proof -
  obtain g1 r where l: "lookup_entry v (cmd ! 1) T_HASH False False g = (g1, r)" by fastforce
  from assms(1) l show ?thesis
  proof (cases rule: ht.ro_cases)
    case (found a)
    obtain h hn where h: "hash_get (entry_hash g1 a) (cmd ! 2) = (h, hn)" by fastforce
    note rd = hash_read[OF found(4,2,7,3) h]
    show ?thesis using assms(2) l found h rd(1,2,8) by (cases hn) (auto simp: do_hexists_def)
  qed (use assms(2) l in \<open>auto simp: do_hexists_def\<close>)
qed

lemma do_hstrlen_ok:
  assumes "g_ok {} g" "do_hstrlen v cmd g = (g', rs)"
  shows "g_ok {} g' \<and> live v g' = live v g \<and>
    rs = hash_case (live v g (cmd ! 1)) [RInt 0] [RErr MSG_WRONG]
      (\<lambda>m d. [RInt (case m (cmd ! 2) of None \<Rightarrow> 0 | Some x \<Rightarrow> int (length x))])"
proof -
  obtain g1 r where l: "lookup_entry v (cmd ! 1) T_HASH False False g = (g1, r)" by fastforce
  from assms(1) l show ?thesis
  proof (cases rule: ht.ro_cases)
    case (found a)
    obtain h hn where h: "hash_get (entry_hash g1 a) (cmd ! 2) = (h, hn)" by fastforce
    note rd = hash_read[OF found(4,2,7,3) h]
    show ?thesis using assms(2) l found h rd(1,2,8) by (cases hn) (auto simp: do_hstrlen_def split: option.splits)
  qed (use assms(2) l in \<open>auto simp: do_hstrlen_def\<close>)
qed

lemma do_hlen_ok:
  assumes "g_ok {} g" "do_hlen v cmd g = (g', rs)"
  shows "g_ok {} g' \<and> live v g' = live v g \<and>
    rs = hash_case (live v g (cmd ! 1)) [RInt 0] [RErr MSG_WRONG] (\<lambda>m d. [RInt (int (card (dom m)))])"
proof -
  obtain g1 r where l: "lookup_entry v (cmd ! 1) T_HASH False False g = (g1, r)" by fastforce
  from assms(1) l show ?thesis
  proof (cases rule: ht.ro_cases)
    case (found a)
    then show ?thesis using assms(2) l hash_size_ok[OF found(3)] by (auto simp: do_hlen_def)
  qed (use assms(2) l in \<open>auto simp: do_hlen_def\<close>)
qed

lemma h_collect_reply_ok:
  assumes "g_ok {} g" "h_collect_reply mode v cmd g = (g', rs)"
  shows "g_ok {} g' \<and> live v g' = live v g \<and>
    hash_case (live v g (cmd ! 1)) (rs = [if mode = 0 then RMap 0 else RArr 0]) (rs = [RErr MSG_WRONG])
      (\<lambda>m d. \<exists>ps. distinct (map fst ps) \<and> m = map_of ps \<and>
         rs = (if mode = 0 then RMap (of_nat (card (dom m))) else RArr (of_nat (card (dom m)))) #
              concat (map (\<lambda>(f, x). if mode = 0 then [RStr f, RStr x] else if mode = 1 then [RStr f] else [RStr x]) ps))"
proof -
  obtain g1 r where l: "lookup_entry v (cmd ! 1) T_HASH False False g = (g1, r)" by fastforce
  from assms(1) l show ?thesis
  proof (cases rule: ht.ro_cases)
    case (found a)
    let ?h = "entry_hash g1 a"
    let ?ps = "map (\<lambda>n. (hn_key n, chars (hvalue n))) (sk_nodes ?h)"
    note n = hash_nodes_ok[OF found(3)]
    have "map fst ?ps = map hn_key (sk_nodes ?h)" by simp
    then have d: "distinct (map fst ?ps)" using n(1) by (simp add: comp_def)
    have "rs = (if mode = 0 then RMap (of_nat (card (dom (hash_abs ?h)))) else RArr (of_nat (card (dom (hash_abs ?h))))) #
        concat (map (\<lambda>(f, x). if mode = 0 then [RStr f, RStr x] else if mode = 1 then [RStr f] else [RStr x]) ?ps)"
      using assms(2) l found(1) hash_size_ok[OF found(3)]
      by (auto simp: h_collect_reply_def Let_def comp_def cb_hemit_def hn_key_def intro!: arg_cong[of _ _ concat])
    with d n(2) have "\<exists>ps. distinct (map fst ps) \<and> hash_abs ?h = map_of ps \<and>
        rs = (if mode = 0 then RMap (of_nat (card (dom (hash_abs ?h)))) else RArr (of_nat (card (dom (hash_abs ?h))))) #
        concat (map (\<lambda>(f, x). if mode = 0 then [RStr f, RStr x] else if mode = 1 then [RStr f] else [RStr x]) ps)" by blast
    moreover have "g' = g1" using assms(2) l found(1) by (simp add: h_collect_reply_def Let_def)
    ultimately show ?thesis using found(4-6) by simp
  qed (use assms(2) l in \<open>auto simp: h_collect_reply_def Let_def\<close>)
qed

lemma do_hmget_ok:
  assumes "g_ok {} g" "do_hmget v cmd g = (g', rs)"
  shows "g_ok {} g' \<and> live v g' = live v g \<and>
    rs = hash_case (live v g (cmd ! 1))
      (RArr (of_nat (length cmd - 2)) # map (\<lambda>_. RNil) (drop 2 cmd)) [RErr MSG_WRONG]
      (\<lambda>m d. RArr (of_nat (length cmd - 2)) # map (\<lambda>f. case m f of None \<Rightarrow> RNil | Some x \<Rightarrow> RStr x) (drop 2 cmd))"
proof -
  obtain g1 r where l: "lookup_entry v (cmd ! 1) T_HASH False False g = (g1, r)" by fastforce
  from assms(1) l show ?thesis
  proof (cases rule: ht.ro_cases)
    case (found a)
    obtain h qs where h: "hmget_loop (drop 2 cmd) (entry_hash g1 a) = (h, qs :: 'a reply list)" by fastforce
    note ok = hmget_loop_ok[OF found(3) h]
    have w: "hash_wf h" "hash_abs h = hash_abs (entry_hash g1 a)" "val_mem (VHash h) = val_mem (VHash (entry_hash g1 a) :: 'a evalue)"
      using ok by (simp_all add: val_mem_def)
    show ?thesis using assms(2) l found h ok ht.refresh(1,2)[OF found(4,2,7) w] by (auto simp: do_hmget_def Let_def)
  qed (use assms(2) l in \<open>auto simp: do_hmget_def Let_def\<close>)
qed

lemma do_hdel_ok:
  assumes "g_ok {} g" "do_hdel v cmd g = (g', rs)"
  shows "g_ok {} g' \<and> (live v g', rs) =
    hash_case (live v g (cmd ! 1)) (live v g, [RInt 0]) (live v g, [RErr MSG_WRONG])
      (\<lambda>m d. (put_hash (cmd ! 1) (m |` (- set (drop 2 cmd))) d (live v g), [RInt (int (card (set (drop 2 cmd) \<inter> dom m)))]))"
proof -
  obtain g1 r where l: "lookup_entry v (cmd ! 1) T_HASH False False g = (g1, r)" by fastforce
  from assms(1) l show ?thesis
  proof (cases rule: ht.ro_cases)
    case (found a)
    have ok1: "g_ok {a} g1" by (rule g_ok_mono[OF found(4)]) simp
    let ?h = "entry_hash g1 a" and ?k = "cmd ! 1"
    obtain h n where h: "hdel_loop (drop 2 cmd) ?h 0 = (h, n)" by fastforce
    note ok = hdel_loop_ok[OF found(3) h]
    have w: "hash_wf h" using ok by simp
    note z = hash_size_0[OF w]
    let ?g = "put_val a (VHash h) g1"
    have rs: "rs = [RInt n]" "g' = (if hm_size h = 0 then if n \<noteq> 0 then wrote 1 (drop_entry v a ?g) else drop_entry v a ?g
        else if n \<noteq> 0 then wrote 1 (mem_reaccount a ?g) else ?g)"
      using assms(2) l found(1) h by (auto simp: do_hdel_def Let_def)
    show ?thesis
    proof (cases "hm_size h = 0 \<or> n \<noteq> 0")
      case True
      then show ?thesis
        using rs ok z found(5,6) ht.discard[OF ok1 found(2) w, of 1] ht.commit[OF ok1 found(2) w, of 1]
        by (auto simp: put_hash_def)
    next
      case False
      have m: "hash_abs h = hash_abs ?h"
      proof -
        have "card (set (drop 2 cmd) \<inter> dom (hash_abs ?h)) = 0" using ok False by simp
        then have "set (drop 2 cmd) \<inter> dom (hash_abs ?h) = {}" by simp
        then show ?thesis using ok by (auto simp: restrict_map_def fun_eq_iff) (metis disjoint_iff domIff)
      qed
      have vm: "val_mem (VHash h) = val_mem (VHash ?h :: 'a evalue)" using ok False by (simp add: val_mem_def)
      have "put_hash ?k (hash_abs ?h) (ttl_of (heap g1) a) (live v g) = live v g"
        using found(6) z m False by (simp add: put_hash_def fun_upd_idem)
      then show ?thesis
        using rs ok m False found(5,6) ht.refresh(1,2)[OF found(4,2,7) w m vm] by simp
    qed
  qed (use assms(2) l in \<open>auto simp: do_hdel_def\<close>)
qed

lemma do_hsetnx_ok:
  assumes "g_ok {} g" "fits v 1 g" "do_hsetnx v cmd g = (g', rs)"
  shows "g_ok {} g' \<and> (live v g', rs) =
    hash_case (live v g (cmd ! 1))
      (put_hash (cmd ! 1) [cmd ! 2 \<mapsto> cmd ! 3] None (live v g), [RInt 1]) (live v g, [RErr MSG_WRONG])
      (\<lambda>m d. if cmd ! 2 \<in> dom m then (live v g, [RInt 0])
             else (put_hash (cmd ! 1) (m(cmd ! 2 \<mapsto> cmd ! 3)) d (live v g), [RInt 1]))"
proof -
  let ?k = "cmd ! 1" and ?f = "cmd ! 2"
  obtain g1 r where l: "lookup_entry v ?k T_HASH True False g = (g1, r)" by fastforce
  have room: "g_room g" by (rule fits_room[OF assms(2)]) simp
  have new: "g_ok {} g' \<and> live v g' = (live v g1)(?k \<mapsto> (AHash ((hash_abs (entry_hash g1 a))(?f \<mapsto> cmd ! 3)), ttl_of (heap g1) a)) \<and> rs = [RInt 1]"
    if "r = LOk a" "at v g1 ?k a" "g_ok {a} g1" "hash_wf (entry_hash g1 a)" "hash_abs (entry_hash g1 a) ?f = None"
      "card (dom (hash_abs (entry_hash g1 a))) < 2 ^ 60" for a
  proof -
    obtain h hn where h: "hash_get (entry_hash g1 a) ?f = (h, hn)" by fastforce
    note gt = hash_get_ok[OF that(4) h]
    have w: "hash_wf h" "hm_room h" "hn = None" using gt that hash_room[OF that(4)] by auto
    obtain h2 b where s: "hash_set h ?f (str_new (cmd ! 3)) = (h2, b)" by fastforce
    note st = hash_set_ok[OF w(1,2) s]
    have "g' = wrote 1 (mem_reaccount a (put_val a (VHash h2) g1))" "rs = [RInt 1]"
      using assms(3) l that(1) h s w(3) by (simp_all add: do_hsetnx_def)
    then show ?thesis using ht.commit[OF that(3,2), of h2 1] st gt by simp
  qed
  from assms(1) room l show ?thesis
  proof (cases rule: ht.rw_cases)
    case (fresh a)
    then show ?thesis using new[OF fresh(1-4)] by (simp add: put_hash_def)
  next
    case (found a)
    let ?m = "hash_abs (entry_hash g1 a)"
    show ?thesis
    proof (cases "?f \<in> dom ?m")
      case True
      obtain h hn where h: "hash_get (entry_hash g1 a) ?f = (h, hn)" by fastforce
      have ok1: "g_ok {} g1" "live v g1 = live v g" using lookup_found[OF assms(1) room l[unfolded found(1)] found(6)] by simp_all
      note rd = hash_read[OF ok1(1) found(2,5,4) h]
      have "hn \<noteq> None" using rd(8) True by auto
      then have "g' = put_val a (VHash h) g1" "rs = [RInt 0]" using assms(3) l found(1) h by (simp_all add: do_hsetnx_def)
      then show ?thesis using rd(1,2) ok1(2) found(6) True by simp
    next
      case False
      have "card (dom ?m) < 2 ^ 60" using fits_live[OF assms(2) found(6)] by simp
      then show ?thesis using new[OF found(1-4)] found(6,7) False by (simp add: put_hash_def domIff)
    qed
  qed (use assms(3) l in \<open>auto simp: do_hsetnx_def\<close>)
qed

lemma do_hincrby_ok:
  assumes "g_ok {} g" "fits v 1 g" "do_hincrby v cmd g = (g', rs)"
  shows "g_ok {} g' \<and> (live v g', rs) =
    (case str2int (cmd ! 3) of
       None \<Rightarrow> (live v g, [RErr MSG_NOT_INT])
     | Some n \<Rightarrow>
         (let go = (\<lambda>m d. case (case m (cmd ! 2) of None \<Rightarrow> Some 0 | Some x \<Rightarrow> str2int x) of
              None \<Rightarrow> (live v g, [RErr ''ERR hash value is not an integer''])
            | Some c \<Rightarrow>
                if in_i64 (c + n)
                then (put_hash (cmd ! 1) (m(cmd ! 2 \<mapsto> int_dec (c + n))) d (live v g), [RInt (c + n)])
                else (live v g, [RErr ''ERR increment or decrement would overflow'']))
          in hash_case (live v g (cmd ! 1)) (go Map.empty None) (live v g, [RErr MSG_WRONG]) go))"
proof (cases "str2int (cmd ! 3)")
  case None
  then show ?thesis using assms by (simp add: do_hincrby_def)
next
  case (Some n)
  let ?k = "cmd ! 1" and ?f = "cmd ! 2"
  have ni: "in_i64 n" by (rule str2int_range[OF Some])
  obtain g1 r where l: "lookup_entry v ?k T_HASH True False g = (g1, r)" by fastforce
  have room: "g_room g" by (rule fits_room[OF assms(2)]) simp
  have set: "g_ok {} g' \<and> live v g' = (live v g1)(?k \<mapsto> (AHash (m(?f \<mapsto> int_dec (c + n))), ttl_of (heap g1) a)) \<and> rs = [RInt (c + n)]"
    if a: "r = LOk a" "at v g1 ?k a" "g_ok {a} g1" "hash_wf (entry_hash g1 a)" "val_at g1 a = VHash (entry_hash g1 a)"
      and m: "m = hash_abs (entry_hash g1 a)" "(case m ?f of None \<Rightarrow> Some 0 | Some x \<Rightarrow> str2int x) = Some c" "in_i64 (c + n)"
      "card (dom m) < 2 ^ 60" for a m c
  proof -
    obtain h hn where h: "hash_get (entry_hash g1 a) ?f = (h, hn)" by fastforce
    note rd = hash_read[OF a(3,2,5,4) h]
    have c: "(case hn of None \<Rightarrow> Some 0 | Some n \<Rightarrow> str2int (chars (hvalue n))) = Some c" using m(1,2) rd(8)[symmetric] by (cases hn) auto
    have rm: "hm_room h" using hash_get_ok[OF a(4) h] hash_room[OF a(4)] m by simp
    obtain h2 b where s: "hash_set h ?f (str_new (int_dec (c + n))) = (h2, b)" by fastforce
    note st = hash_set_ok[OF rd(6) rm s]
    let ?g = "put_val a (VHash h) g1"
    have no: "\<not> (0 < n \<and> INT64_MAX - n < c \<or> n < 0 \<and> c < INT64_MIN - n)" using m(3) by (auto simp: in_i64_def)
    have "g' = wrote 1 (mem_reaccount a (put_val a (VHash h2) ?g))" "rs = [RInt (c + n)]"
      using assms(3) l a(1) h c s no Some by (auto simp: do_hincrby_def Let_def)
    then show ?thesis using ht.commit[OF rd(1,3), of h2 1] st rd(2,5,7) m(1) by simp
  qed
  from assms(1) room l show ?thesis
  proof (cases rule: ht.rw_cases)
    case (fresh a)
    have "in_i64 (0 + n)" using ni by simp
    then show ?thesis using set[OF fresh(1-5) fresh(7)[symmetric], of 0] fresh(6-9) ni Some by (simp add: put_hash_def Let_def)
  next
    case (found a)
    let ?m = "hash_abs (entry_hash g1 a)"
    have c: "card (dom ?m) < 2 ^ 60" using fits_live[OF assms(2) found(6)] by simp
    have ok1: "g_ok {} g1" "live v g1 = live v g" using lookup_found[OF assms(1) room l[unfolded found(1)] found(6)] by simp_all
    obtain h hn where h: "hash_get (entry_hash g1 a) ?f = (h, hn)" by fastforce
    note rd = hash_read[OF ok1(1) found(2,5,4) h]
    let ?c = "case ?m ?f of None \<Rightarrow> Some 0 | Some x \<Rightarrow> str2int x"
    have hc: "(case hn of None \<Rightarrow> Some 0 | Some n \<Rightarrow> str2int (chars (hvalue n))) = ?c" using rd(8) by (cases hn) (auto simp flip: rd(8))
    show ?thesis
    proof (cases ?c)
      case None
      then have "g' = put_val a (VHash h) g1" "rs = [RErr ''ERR hash value is not an integer'']"
        using assms(3) l found(1) h hc Some by (simp_all add: do_hincrby_def)
      then show ?thesis using rd(1,2) ok1(2) found(6) Some None by (simp add: Let_def)
    next
      case c': (Some c)
      have ci: "in_i64 c" using c' str2int_range by (auto split: option.splits simp: in_i64_def INT64_MIN_def INT64_MAX_def)
      show ?thesis
      proof (cases "in_i64 (c + n)")
        case True
        show ?thesis using set[OF found(1-5) refl c' True c] found(6,7) Some c' True by (simp add: put_hash_def Let_def)
      next
        case False
        then have "0 < n \<and> INT64_MAX - n < c \<or> n < 0 \<and> c < INT64_MIN - n" using ci ni by (auto simp: in_i64_def)
        then have "g' = put_val a (VHash h) g1" "rs = [RErr ''ERR increment or decrement would overflow'']"
          using assms(3) l found(1) h hc Some c' by (auto simp: do_hincrby_def Let_def)
        then show ?thesis using rd(1,2) ok1(2) found(6) Some c' False by (simp add: Let_def)
      qed
    qed
  qed (use assms(3) l Some in \<open>auto simp: do_hincrby_def Let_def\<close>)
qed

lemma scan_coll_ok:
  assumes "g_ok {} g" "scan_coll t table cb v cmd g = Some (g', rs)"
  shows "g_ok {} g' \<and> live v g' = live v g"
proof -
  obtain g1 r where l: "lookup_entry v (cmd ! 1) t False False g = (g1, r)" by fastforce
  have "g' = g1" using assms(2) l by (auto simp: scan_coll_def split: if_splits option.splits sum.splits lookup.splits prod.splits)
  then show ?thesis using lookup_ro_ok(1,2)[OF assms(1) l] by simp
qed

section \<open>Hashes: what the commands guarantee\<close>

text \<open>
  C25. \<open>HSET\<close> and \<open>HDEL\<close> act on the map of live keys as finite-map updates: the later of two values for one field
  wins, the replies count the fields that were new and the ones that were there, the deadline stays, a hash that
  loses its last field takes its key with it, and other types are refused without a change.
\<close>

theorem hash_writes_refine:
  assumes "g_ok {} g" and "fits v (length cmd) g" and "2 < length cmd"
  shows "(case do_hset v cmd g of (g', rs) \<Rightarrow> g_ok {} g' \<and> (live v g', rs) =
      (if odd (length cmd) then (live v g, [RErr MSG_HSET_ARGS])
       else let ps = kv_pairs (drop 2 cmd);
                put = (\<lambda>m d. (put_hash (cmd ! 1) (put_fields ps m) d (live v g), [RInt (int (card (fst ` set ps - dom m)))]))
            in hash_case (live v g (cmd ! 1)) (put Map.empty None) (live v g, [RErr MSG_WRONG]) put)) \<and>
    (case do_hdel v cmd g of (g', rs) \<Rightarrow> g_ok {} g' \<and> (live v g', rs) =
       hash_case (live v g (cmd ! 1)) (live v g, [RInt 0]) (live v g, [RErr MSG_WRONG])
         (\<lambda>m d. (put_hash (cmd ! 1) (m |` (- set (drop 2 cmd))) d (live v g),
                 [RInt (int (card (set (drop 2 cmd) \<inter> dom m)))])))"
proof (intro conjI)
  obtain g1 r1 where s: "do_hset v cmd g = (g1, r1)" by fastforce
  show "case do_hset v cmd g of (g', rs) \<Rightarrow> g_ok {} g' \<and> (live v g', rs) =
      (if odd (length cmd) then (live v g, [RErr MSG_HSET_ARGS])
       else let ps = kv_pairs (drop 2 cmd);
                put = (\<lambda>m d. (put_hash (cmd ! 1) (put_fields ps m) d (live v g), [RInt (int (card (fst ` set ps - dom m)))]))
            in hash_case (live v g (cmd ! 1)) (put Map.empty None) (live v g, [RErr MSG_WRONG]) put)"
    using do_hset_ok[OF assms s] s by (simp add: Let_def)
  obtain g2 r2 where d: "do_hdel v cmd g = (g2, r2)" by fastforce
  show "case do_hdel v cmd g of (g', rs) \<Rightarrow> g_ok {} g' \<and> (live v g', rs) =
       hash_case (live v g (cmd ! 1)) (live v g, [RInt 0]) (live v g, [RErr MSG_WRONG])
         (\<lambda>m d. (put_hash (cmd ! 1) (m |` (- set (drop 2 cmd))) d (live v g),
                 [RInt (int (card (set (drop 2 cmd) \<inter> dom m)))]))"
    using do_hdel_ok[OF assms(1) d] d by simp
qed

theorem hash_writes_refine_witness:
  "g_ok {} (gdata_init :: nat gdata) \<and> fits env_start 6 (gdata_init :: nat gdata) \<and>
   live env_start (fst (do_hset env_start [''hset'', ''h'', ''f'', ''1'', ''f'', ''2''] (gdata_init :: nat gdata))) =
     [''h'' \<mapsto> (AHash [''f'' \<mapsto> ''2''], None)] \<and>
   snd (do_hset env_start [''hset'', ''h'', ''f'', ''1'', ''f'', ''2''] (gdata_init :: nat gdata)) = [RInt 1]"
  using hash_writes_refine[of "gdata_init :: nat gdata" env_start "[''hset'', ''h'', ''f'', ''1'', ''f'', ''2'']"]
  by (auto simp: put_hash_def Let_def split_beta)

lemma put_fields_map_of: "put_fields ps m = m ++ map_of (rev ps)"
  by (induction ps arbitrary: m) (auto simp: put_fields_def map_add_def fun_eq_iff split: option.splits)

lemma map_of_mset: "distinct (map fst ps) \<Longrightarrow> distinct (map fst qs) \<Longrightarrow> map_of ps = map_of qs \<Longrightarrow> mset ps = mset qs"
proof -
  assume d: "distinct (map fst ps)" "distinct (map fst qs)" and e: "map_of ps = map_of qs"
  have "x \<in> set ps \<longleftrightarrow> x \<in> set qs" for x
    using map_of_eq_Some_iff[OF d(1), of "fst x" "snd x"] map_of_eq_Some_iff[OF d(2), of "fst x" "snd x"] e by simp
  then show ?thesis using d by (simp add: set_eq_iff_mset_eq_distinct[symmetric] distinct_map set_eq_iff)
qed

lemma map_of_rev_distinct: "distinct (map fst ps) \<Longrightarrow> map_of (rev ps) = map_of ps"
  by (rule map_eqI_Some) (simp add: map_of_eq_Some_iff flip: rev_map)

text \<open>
  C26. What \<open>HSET\<close> stores, \<open>HGETALL\<close> returns: after a missing key is given a list of fields without repetition, the
  reply is a map header with their number, followed by exactly these pairs, each once, in some order.
\<close>

theorem hset_hgetall_roundtrip:
  assumes "g_ok {} g" and "fits v (length as + 2) g" and "as \<noteq> []" and "even (length as)"
    and "distinct (map fst (kv_pairs as))" and "live v g k = None"
  shows "let (g1, r1) = do_hset v (c1 # k # as) g; (g2, r2) = do_hgetall v [c2, k] g1
         in g_ok {} g2 \<and> live v g2 = live v g1 \<and> r1 = [RInt (int (length (kv_pairs as)))] \<and>
            (\<exists>ps. mset ps = mset (kv_pairs as) \<and>
               r2 = RMap (of_nat (length ps)) # concat (map (\<lambda>(f, x). [RStr f, RStr x]) ps))"
proof -
  let ?cmd = "c1 # k # as" and ?ps = "kv_pairs as"
  obtain g1 r1 where s: "do_hset v ?cmd g = (g1, r1)" by fastforce
  obtain g2 r2 where h: "do_hgetall v [c2, k] g1 = (g2, r2)" by fastforce
  have f: "fits v (length ?cmd) g" "2 < length ?cmd" using assms(2,3) by simp_all
  have m: "put_fields ?ps Map.empty = map_of ?ps" unfolding put_fields_map_of using assms(5) by (simp add: map_of_rev_distinct)
  have ne: "?ps \<noteq> []" using assms(3,4) by (cases as rule: kv_pairs.cases) auto
  have "card (fst ` set ?ps) = length ?ps" using assms(5) by (metis distinct_card length_map set_map)
  then have a: "g_ok {} g1" "live v g1 k = Some (AHash (map_of ?ps), None)" "r1 = [RInt (int (length ?ps))]"
    using do_hset_ok[OF assms(1) f s] assms(4,6) m ne by (auto simp: put_hash_def)
  obtain ps where p: "distinct (map fst ps)" "map_of ?ps = map_of ps"
    "r2 = RMap (of_nat (card (dom (map_of ?ps)))) # concat (map (\<lambda>(f, x). [RStr f, RStr x]) ps)"
    "g_ok {} g2" "live v g2 = live v g1"
    using h_collect_reply_ok[OF a(1) h[unfolded do_hgetall_def]] a(2) by auto
  have ms: "mset ps = mset ?ps" using map_of_mset[OF p(1) assms(5)] p(2) by simp
  have "card (dom (map_of ?ps)) = length ps"
    using ms assms(5) by (metis distinct_card dom_map_of_conv_image_fst length_map list.set_map mset_eq_length)
  then show ?thesis using a(3) p(3-5) ms s h by (auto simp: Let_def)
qed

theorem hset_hgetall_roundtrip_witness:
  "g_ok {} (gdata_init :: nat gdata) \<and> fits env_start 6 (gdata_init :: nat gdata) \<and> distinct (map fst (kv_pairs [''f'', ''1'', ''g'', ''2''])) \<and>
   (let (g1, r1) = do_hset env_start [''hset'', ''h'', ''f'', ''1'', ''g'', ''2''] (gdata_init :: nat gdata);
        (g2, r2) = do_hgetall env_start [''hgetall'', ''h''] g1
    in r1 = [RInt 2] \<and>
       (\<exists>ps. mset ps = mset [(''f'', ''1''), (''g'', ''2'')] \<and>
          r2 = RMap (of_nat (length ps)) # concat (map (\<lambda>(f, x). [RStr f, RStr x]) ps)))"
  using hset_hgetall_roundtrip[of "gdata_init :: nat gdata" env_start "[''f'', ''1'', ''g'', ''2'']" "''h''" "''hset''" "''hgetall''"]
  by (auto simp: Let_def split_beta)

end
