(* ===== verification/Cmd_Set.thy ===== *)
theory Cmd_Set
  imports Cmd_Hash
begin

text \<open>
  The set commands of \<open>commands/commands.cpp\<close> over the member table of \<open>Set_Type\<close>, with sets of strings as
  their specification. A set node is identified with its member string: members are distinct, so comparing
  payloads is comparing addresses.
\<close>

section \<open>Model\<close>

definition entry_set :: "'s gdata \<Rightarrow> addr \<Rightarrow> set_node hmap" where
  "entry_set g a = (case val_at g a of VSet h \<Rightarrow> h | _ \<Rightarrow> hmap_empty)"

text \<open>\<open>cb_collect_members\<close> over a whole table.\<close>

definition collect_members :: "set_node hmap \<Rightarrow> string list" where
  "collect_members h = map sn_key (sk_nodes h)"

definition lookup_set_ro :: "env \<Rightarrow> string \<Rightarrow> 's gdata \<Rightarrow> 's gdata \<times> lookup" where
  "lookup_set_ro v k g =
     (let (g, n) = find_live v k g
      in case n of
           None \<Rightarrow> (g, LMissing)
         | Some a \<Rightarrow> (g, if type_at g a \<noteq> T_SET then LWrongType else LOk a))"

definition new_set_entry :: "string \<Rightarrow> 's gdata \<Rightarrow> 's gdata \<times> addr" where
  "new_set_entry k g =
     (let (a, g) = entry_new T_SET g;
          g = put_ent a (\<lambda>e. e\<lparr>ekey := str_assign (ekey e) k\<rparr>) g
      in (db_insert a g, a))"

definition set_make_dest :: "env \<Rightarrow> string \<Rightarrow> 's gdata \<Rightarrow> 's gdata \<times> addr" where
  "set_make_dest v k g =
     (let (g, node) = db_lookup k g;
          g = (case node of None \<Rightarrow> g | Some old \<Rightarrow> drop_entry v old g)
      in new_set_entry k g)"

subsection \<open>Algebra\<close>

text \<open>The sets of the named keys in order, and whether one of them was missing; \<open>None\<close> on a wrong type.\<close>

fun lookup_sets :: "env \<Rightarrow> string list \<Rightarrow> addr list \<Rightarrow> bool \<Rightarrow> 's gdata \<Rightarrow> 's gdata \<times> (addr list \<times> bool) option" where
  "lookup_sets v [] sets any_empty g = (g, Some (sets, any_empty))"
| "lookup_sets v (k # ks) sets any_empty g =
     (let (g, r) = lookup_set_ro v k g
      in case r of
           LWrongType \<Rightarrow> (g, None)
         | LMissing \<Rightarrow> lookup_sets v ks sets True g
         | LOk a \<Rightarrow> lookup_sets v ks (sets @ [a]) any_empty g)"

text \<open>Membership of \<open>m\<close> in all, and in one, of the sets; each test moves the rehashing of its table.\<close>

fun in_all :: "string \<Rightarrow> addr list \<Rightarrow> 's gdata \<Rightarrow> 's gdata \<times> bool" where
  "in_all m [] g = (g, True)"
| "in_all m (a # as) g =
     (let (h, b) = set_is_member (entry_set g a) m;
          g = put_val a (VSet h) g
      in if b then in_all m as g else (g, False))"

fun in_any :: "string \<Rightarrow> addr list \<Rightarrow> 's gdata \<Rightarrow> 's gdata \<times> bool" where
  "in_any m [] g = (g, False)"
| "in_any m (a # as) g =
     (let (h, b) = set_is_member (entry_set g a) m;
          g = put_val a (VSet h) g
      in if b then (g, True) else in_any m as g)"

fun pick :: "(string \<Rightarrow> 's gdata \<Rightarrow> 's gdata \<times> bool) \<Rightarrow> string list \<Rightarrow> 's gdata \<Rightarrow> 's gdata \<times> string list" where
  "pick test [] g = (g, [])"
| "pick test (m # ms) g =
     (let (g, b) = test m g;
          (g, r) = pick test ms g
      in (g, if b then m # r else r))"

definition smallest :: "(nat \<Rightarrow> nat) \<Rightarrow> nat \<Rightarrow> nat" where
  "smallest sz n = foldl (\<lambda>s i. if sz i < sz s then i else s) 0 [1..<n]"

definition sinter_impl :: "env \<Rightarrow> string list \<Rightarrow> 's gdata \<Rightarrow> 's gdata \<times> string list option" where
  "sinter_impl v keys g =
     (let (g, r) = lookup_sets v keys [] False g
      in case r of
           None \<Rightarrow> (g, None)
         | Some (sets, any_empty) \<Rightarrow>
             if any_empty then (g, Some [])
             else
               let i = smallest (\<lambda>i. hm_size (entry_set g (sets ! i))) (length sets);
                   candidates = collect_members (entry_set g (sets ! i));
                   (g, result) = pick (\<lambda>m. in_all m (take i sets @ drop (Suc i) sets)) candidates g
               in (g, Some result))"

fun sunion_loop :: "env \<Rightarrow> string list \<Rightarrow> string list \<Rightarrow> 's gdata \<Rightarrow> 's gdata \<times> string list option" where
  "sunion_loop v [] result g = (g, Some result)"
| "sunion_loop v (k # ks) result g =
     (let (g, r) = lookup_set_ro v k g
      in case r of
           LWrongType \<Rightarrow> (g, None)
         | LMissing \<Rightarrow> sunion_loop v ks result g
         | LOk a \<Rightarrow> sunion_loop v ks (result @ collect_members (entry_set g a)) g)"

definition sunion_impl :: "env \<Rightarrow> string list \<Rightarrow> 's gdata \<Rightarrow> 's gdata \<times> string list option" where
  "sunion_impl v keys g =
     (let (g, r) = sunion_loop v keys [] g in (g, map_option (\<lambda>result. remdups_adj (sort result)) r))"

definition sdiff_impl :: "env \<Rightarrow> string list \<Rightarrow> 's gdata \<Rightarrow> 's gdata \<times> string list option" where
  "sdiff_impl v keys g =
     (let (g, base) = lookup_set_ro v (hd keys) g
      in if base = LWrongType then (g, None)
         else
           let (g, r) = lookup_sets v (tl keys) [] False g
           in case r of
                None \<Rightarrow> (g, None)
              | Some (others, _) \<Rightarrow>
                  (case base of
                     LOk a \<Rightarrow>
                       (let (g, result) =
                          pick (\<lambda>m g. let (g, found) = in_any m others g in (g, \<not> found)) (collect_members (entry_set g a)) g
                        in (g, Some result))
                   | _ \<Rightarrow> (g, Some [])))"

definition set_reply :: "'s gdata \<times> string list option \<Rightarrow> 's gdata \<times> 's reply list" where
  "set_reply = (\<lambda>(g, r). case r of
     None \<Rightarrow> (g, [RErr MSG_WRONG]) | Some result \<Rightarrow> (g, RSet (of_nat (length result)) # map RStr result))"

definition do_sinter :: "'s handler" where
  "do_sinter v cmd g = set_reply (sinter_impl v (drop 1 cmd) g)"

definition do_sunion :: "'s handler" where
  "do_sunion v cmd g = set_reply (sunion_impl v (drop 1 cmd) g)"

definition do_sdiff :: "'s handler" where
  "do_sdiff v cmd g = set_reply (sdiff_impl v (drop 1 cmd) g)"

text \<open>
  The members are stored as fresh strings. After \<open>std::unique\<close> in \<open>sunion_impl\<close> a short member may sit in a larger buffer
  that was moved into it, so the capacity counted for it can be larger than here; no statement depends on that number.
\<close>

definition set_store_result :: "env \<Rightarrow> string \<Rightarrow> string list \<Rightarrow> 's gdata \<Rightarrow> 's gdata \<times> 's reply list" where
  "set_store_result v dkey result g =
     (if result = [] then
        let (g, node) = db_lookup dkey g
        in case node of
             None \<Rightarrow> (g, [RInt 0])
           | Some old \<Rightarrow> (wrote 1 (drop_entry v old g), [RInt 0])
      else
        let (g, dest) = set_make_dest v dkey g;
            (h, _) = set_add_all result (entry_set g dest, 0)
        in (wrote 1 (mem_reaccount dest (put_val dest (VSet h) g)), [RInt (int (hm_size h))]))"

definition store_or_err :: "env \<Rightarrow> string \<Rightarrow> 's gdata \<times> string list option \<Rightarrow> 's gdata \<times> 's reply list" where
  "store_or_err v dkey = (\<lambda>(g, r). case r of
     None \<Rightarrow> (g, [RErr MSG_WRONG]) | Some result \<Rightarrow> set_store_result v dkey result g)"

definition do_sinterstore :: "'s handler" where
  "do_sinterstore v cmd g = store_or_err v (cmd ! 1) (sinter_impl v (drop 2 cmd) g)"

definition do_sunionstore :: "'s handler" where
  "do_sunionstore v cmd g = store_or_err v (cmd ! 1) (sunion_impl v (drop 2 cmd) g)"

definition do_sdiffstore :: "'s handler" where
  "do_sdiffstore v cmd g = store_or_err v (cmd ! 1) (sdiff_impl v (drop 2 cmd) g)"

subsection \<open>Single sets\<close>

definition do_sadd :: "'s handler" where
  "do_sadd v cmd g =
     (let (g, r) = lookup_entry v (cmd ! 1) T_SET True False g
      in case r of
           LOk a \<Rightarrow>
             (let (h, added) = set_add_all (drop 2 cmd) (entry_set g a, 0);
                  g = put_val a (VSet h) g
              in (if 0 < added then wrote 1 (mem_reaccount a g) else g, [RInt (int added)]))
         | _ \<Rightarrow> (g, [RErr MSG_WRONG]))"

fun srem_loop :: "string list \<Rightarrow> set_node hmap \<Rightarrow> int \<Rightarrow> set_node hmap \<times> int" where
  "srem_loop [] h removed = (h, removed)"
| "srem_loop (m # ms) h removed =
     (let (h, gone) = set_remove h m in srem_loop ms h (if gone then removed + 1 else removed))"

definition do_srem :: "'s handler" where
  "do_srem v cmd g =
     (let (g, r) = lookup_entry v (cmd ! 1) T_SET False False g
      in case r of
           LWrongType \<Rightarrow> (g, [RErr MSG_WRONG])
         | LMissing \<Rightarrow> (g, [RInt 0])
         | LOk a \<Rightarrow>
             (let (h, removed) = srem_loop (drop 2 cmd) (entry_set g a) 0;
                  g = put_val a (VSet h) g;
                  g = (if hm_size h = 0 then drop_entry v a g else if removed \<noteq> 0 then mem_reaccount a g else g)
              in (if removed \<noteq> 0 then wrote 1 g else g, [RInt removed])))"

definition do_sismember :: "'s handler" where
  "do_sismember v cmd g =
     (let (g, r) = lookup_entry v (cmd ! 1) T_SET False False g
      in case r of
           LWrongType \<Rightarrow> (g, [RErr MSG_WRONG])
         | LMissing \<Rightarrow> (g, [RInt 0])
         | LOk a \<Rightarrow>
             (let (h, b) = set_is_member (entry_set g a) (cmd ! 2)
              in (put_val a (VSet h) g, [RInt (if b then 1 else 0)])))"

fun smis_loop :: "string list \<Rightarrow> set_node hmap \<Rightarrow> set_node hmap \<times> 's reply list" where
  "smis_loop [] h = (h, [])"
| "smis_loop (m # ms) h =
     (let (h, b) = set_is_member h m;
          (h, rs) = smis_loop ms h
      in (h, RInt (if b then 1 else 0) # rs))"

definition do_smismember :: "'s handler" where
  "do_smismember v cmd g =
     (let (g, r) = lookup_entry v (cmd ! 1) T_SET False False g;
          hd = RArr (of_nat (length cmd - 2))
      in case r of
           LWrongType \<Rightarrow> (g, [RErr MSG_WRONG])
         | LMissing \<Rightarrow> (g, hd # map (\<lambda>_. RInt 0) (drop 2 cmd))
         | LOk a \<Rightarrow>
             (let (h, rs) = smis_loop (drop 2 cmd) (entry_set g a) in (put_val a (VSet h) g, hd # rs)))"

definition do_scard :: "'s handler" where
  "do_scard v cmd g =
     (let (g, r) = lookup_entry v (cmd ! 1) T_SET False False g
      in case r of
           LWrongType \<Rightarrow> (g, [RErr MSG_WRONG])
         | LMissing \<Rightarrow> (g, [RInt 0])
         | LOk a \<Rightarrow> (g, [RInt (int (hm_size (entry_set g a)))]))"

definition do_smembers :: "'s handler" where
  "do_smembers v cmd g =
     (let (g, r) = lookup_entry v (cmd ! 1) T_SET False False g
      in case r of
           LWrongType \<Rightarrow> (g, [RErr MSG_WRONG])
         | LMissing \<Rightarrow> (g, [RSet 0])
         | LOk a \<Rightarrow> (g, RSet (of_nat (hm_size (entry_set g a))) # map RStr (collect_members (entry_set g a))))"

definition cb_sscan :: "string option \<Rightarrow> set_node list \<Rightarrow> string list option" where
  "cb_sscan = scan_items sn_key (\<lambda>n. [sn_key n])"

definition do_sscan :: "env \<Rightarrow> string list \<Rightarrow> 's gdata \<Rightarrow> ('s gdata \<times> 's reply list) option" where
  "do_sscan = scan_coll T_SET entry_set cb_sscan"

subsection \<open>Random members\<close>

text \<open>\<open>hm_random\<close> and \<open>hm_delete\<close> of the node it returned; \<open>None\<close> only on an empty table.\<close>

definition take_random :: "env \<Rightarrow> set_node hmap \<Rightarrow> 's gdata \<Rightarrow> (set_node hmap \<times> set_node hnode \<times> 's gdata) option" where
  "take_random v h g =
     (let (n, g) = random_node v h g
      in map_option (\<lambda>n. (fst (hm_delete h (hcode n) (\<lambda>p. p = pay n)), n, g)) n)"

fun spop_loop :: "env \<Rightarrow> nat \<Rightarrow> set_node hmap \<Rightarrow> 's gdata \<Rightarrow> (set_node hmap \<times> string list \<times> 's gdata) option" where
  "spop_loop v 0 h g = Some (h, [], g)"
| "spop_loop v (Suc n) h g =
     (case take_random v h g of
        None \<Rightarrow> None
      | Some (h, sn, g) \<Rightarrow>
          map_option (\<lambda>(h, ms, g). (h, sn_key (pay sn) # ms, g))
            (spop_loop v n (h\<lparr>elem_bytes := elem_bytes h - set_node_bytes (pay sn)\<rparr>) g))"

text \<open>The end of \<open>SPOP\<close>: the removal of the popped members is propagated as \<open>SREM\<close>, and an emptied set dropped.\<close>

definition spop_tail :: "env \<Rightarrow> addr \<Rightarrow> string list \<Rightarrow> set_node hmap \<Rightarrow> 's gdata \<Rightarrow> 's gdata" where
  "spop_tail v a ms h g =
     (let g = emit (E_Feed (''srem'' # key_at g a # ms)) g;
          g = put_val a (VSet h) g
      in wrote 1 (if hm_size h = 0 then drop_entry v a g else mem_reaccount a g))"

definition do_spop :: "env \<Rightarrow> string list \<Rightarrow> 's gdata \<Rightarrow> ('s gdata \<times> 's reply list) option" where
  "do_spop v cmd g =
     (let (g, r) = lookup_entry v (cmd ! 1) T_SET False False g;
          none = (if 3 \<le> length cmd then RSet 0 else RNil)
      in case r of
           LWrongType \<Rightarrow> Some (g, [RErr MSG_WRONG])
         | LMissing \<Rightarrow> Some (g, [none])
         | LOk a \<Rightarrow>
             (let h = entry_set g a
              in if hm_size h = 0 then Some (g, [none])
                 else if length cmd = 2 then
                   map_option (\<lambda>(h, ms, g). (spop_tail v a ms h g, map RStr ms)) (spop_loop v 1 h g)
                 else case str2int (cmd ! 2) of
                   None \<Rightarrow> Some (g, [RErr MSG_NOT_INT])
                 | Some cnt \<Rightarrow>
                     if cnt < 0 then Some (g, [RErr ''ERR value is out of range, must be positive''])
                     else if cnt = 0 then Some (g, [RSet 0])
                     else
                       let n = min (nat cnt) (hm_size h)
                       in map_option (\<lambda>(h, ms, g). (spop_tail v a ms h g, RSet (of_nat n) # map RStr ms)) (spop_loop v n h g)))"

definition k_max_args :: int where
  "k_max_args = 65536"

text \<open>\<open>SRANDMEMBER\<close>: distinct members are taken out and put back, repeated ones drawn.\<close>

fun draw_out :: "env \<Rightarrow> nat \<Rightarrow> set_node hmap \<Rightarrow> 's gdata \<Rightarrow> (set_node hmap \<times> set_node hnode list \<times> 's gdata) option" where
  "draw_out v 0 h g = Some (h, [], g)"
| "draw_out v (Suc n) h g =
     (case take_random v h g of
        None \<Rightarrow> None
      | Some (h, sn, g) \<Rightarrow> map_option (\<lambda>(h, ns, g). (h, sn # ns, g)) (draw_out v n h g))"

fun draw_with :: "env \<Rightarrow> nat \<Rightarrow> set_node hmap \<Rightarrow> 's gdata \<Rightarrow> (string list \<times> 's gdata) option" where
  "draw_with v 0 h g = Some ([], g)"
| "draw_with v (Suc n) h g =
     (let (x, g) = random_node v h g
      in case x of
           None \<Rightarrow> None
         | Some sn \<Rightarrow> map_option (\<lambda>(ms, g). (sn_key (pay sn) # ms, g)) (draw_with v n h g))"

definition do_srandmember :: "env \<Rightarrow> string list \<Rightarrow> 's gdata \<Rightarrow> ('s gdata \<times> 's reply list) option" where
  "do_srandmember v cmd g =
     (let (g, r) = lookup_entry v (cmd ! 1) T_SET False False g;
          none = (if 3 \<le> length cmd then RArr 0 else RNil)
      in case r of
           LWrongType \<Rightarrow> Some (g, [RErr MSG_WRONG])
         | LMissing \<Rightarrow> Some (g, [none])
         | LOk a \<Rightarrow>
             (let h = entry_set g a
              in if hm_size h = 0 then Some (g, [none])
                 else if length cmd = 2 then map_option (\<lambda>(ms, g). (g, map RStr ms)) (draw_with v 1 h g)
                 else case str2int (cmd ! 2) of
                   None \<Rightarrow> Some (g, [RErr MSG_NOT_INT])
                 | Some cnt \<Rightarrow>
                     if cnt = 0 then Some (g, [RArr 0])
                     else if 0 < cnt then
                       let n = min (nat cnt) (hm_size h)
                       in map_option (\<lambda>(h, ns, g).
                            (put_val a (VSet (foldl hm_insert h ns)) g, RArr (of_nat n) # map (\<lambda>sn. RStr (sn_key (pay sn))) ns))
                            (draw_out v n h g)
                     else if cnt = INT64_MIN \<or> k_max_args < - cnt then Some (g, [RErr ''ERR count is out of range''])
                     else map_option (\<lambda>(ms, g). (g, RArr (of_nat (nat (- cnt))) # map RStr ms)) (draw_with v (nat (- cnt)) h g)))"

subsection \<open>Moving a member\<close>

definition do_smove :: "'s handler" where
  "do_smove v cmd g =
     (let (g, r) = lookup_entry v (cmd ! 1) T_SET False False g
      in case r of
           LWrongType \<Rightarrow> (g, [RErr MSG_WRONG])
         | LMissing \<Rightarrow> (g, [RInt 0])
         | LOk s \<Rightarrow>
             (let (g, d) = lookup_set_ro v (cmd ! 2) g
              in if d = LWrongType then (g, [RErr MSG_WRONG])
                 else
                   let (h, b) = set_is_member (entry_set g s) (cmd ! 3);
                       g = put_val s (VSet h) g
                   in if \<not> b then (g, [RInt 0])
                      else if cmd ! 1 = cmd ! 2 then (g, [RInt 1])
                      else
                        let (h, _) = set_remove h (cmd ! 3);
                            g = put_val s (VSet h) g;
                            g = (if hm_size h = 0 then drop_entry v s g else mem_reaccount s g);
                            (g, t) = (case d of LOk a \<Rightarrow> (g, a) | _ \<Rightarrow> new_set_entry (cmd ! 2) g);
                            (h, _) = set_add (entry_set g t) (str_new (cmd ! 3))
                        in (wrote 1 (mem_reaccount t (put_val t (VSet h) g)), [RInt 1])))"

section \<open>The member table\<close>

lemma set_is_member_mem: "set_wf h \<Longrightarrow> set_is_member h m = (h', r) \<Longrightarrow> elem_bytes h' = elem_bytes h"
  using sk_lookup_ok[of sn_key h m] by (auto simp: set_wf_def set_is_member_def split: prod.splits)

lemma set_remove_none: "set_wf h \<Longrightarrow> set_remove h m = (h', False) \<Longrightarrow> elem_bytes h' = elem_bytes h"
  using sk_delete_ok[of sn_key h m] by (auto simp: set_wf_def set_remove_def split: prod.splits option.splits)

lemma set_add_none: "set_wf h \<Longrightarrow> set_add h m = (h', False) \<Longrightarrow> elem_bytes h' = elem_bytes h"
  using sk_lookup_ok[of sn_key h "chars m"] by (auto simp: set_wf_def set_add_def Let_def split: prod.splits option.splits)

lemma set_add_all_none:
  "set_wf h \<Longrightarrow> card (set_abs h) + length ms \<le> 2 ^ 60 \<Longrightarrow> set_add_all ms (h, n) = (h', n') \<Longrightarrow> n' = n \<Longrightarrow> elem_bytes h' = elem_bytes h"
proof (induction ms arbitrary: h n)
  case (Cons m ms)
  obtain h1 new where s: "set_add h (str_new m) = (h1, new)" by fastforce
  have room: "hm_room h" using Cons(3) set_room[OF Cons(2)] by simp
  note ok = set_add_ok[OF Cons(2) room s]
  have run: "set_add_all ms (h1, if new then Suc n else n) = (h', n')" using Cons(4) s by (simp add: set_add_all_def)
  have c: "card (set_abs h1) + length ms \<le> 2 ^ 60"
    using ok Cons(3) set_finite[OF Cons(2)] by (simp add: card_insert_if split: if_splits)
  have w: "set_wf h1" using ok by simp
  have "(if new then Suc n else n) \<le> n'" using set_add_all_ok[OF w c run] by simp
  then have "\<not> new" using Cons(5) by (auto split: if_splits)
  then show ?case using Cons(1)[OF w c] run s Cons(5) set_add_none[OF Cons(2)] by simp
qed (simp add: set_add_all_def)

lemma srem_loop_ok:
  "set_wf h \<Longrightarrow> srem_loop ms h n = (h', n') \<Longrightarrow>
   set_wf h' \<and> set_abs h' = set_abs h - set ms \<and> n' = n + int (card (set ms \<inter> set_abs h)) \<and>
   (n' = n \<longrightarrow> elem_bytes h' = elem_bytes h)"
proof (induction ms h n rule: srem_loop.induct)
  case (2 m ms h n)
  obtain h1 gone where s: "set_remove h m = (h1, gone)" by fastforce
  note ok = set_remove_ok[OF 2(2) s]
  have w: "set_wf h1" and e: "set_abs h1 = set_abs h - {m}" and gn: "gone \<longleftrightarrow> m \<in> set_abs h" using ok by auto
  have r: "srem_loop ms h1 (if gone then n + 1 else n) = (h', n')" using 2(3) s by simp
  note i = 2(1)[OF s[symmetric] refl w r]
  have "set (m # ms) \<inter> set_abs h = (if gone then {m} else {}) \<union> (set ms \<inter> set_abs h1)" unfolding e using gn by auto
  moreover have "m \<notin> set ms \<inter> set_abs h1" unfolding e by simp
  ultimately have c: "card (set (m # ms) \<inter> set_abs h) = (if gone then 1 else 0) + card (set ms \<inter> set_abs h1)" by simp
  have "elem_bytes h' = elem_bytes h" if "n' = n"
  proof -
    have "\<not> gone" using that i c by auto
    then show ?thesis using that i set_remove_none[OF 2(2)] s by simp
  qed
  then show ?case using i c e by auto
qed auto

lemma smis_loop_ok:
  "set_wf h \<Longrightarrow> smis_loop ms h = (h', rs) \<Longrightarrow>
   set_wf h' \<and> set_abs h' = set_abs h \<and> elem_bytes h' = elem_bytes h \<and>
   rs = map (\<lambda>m. RInt (if m \<in> set_abs h then 1 else 0)) ms"
proof (induction ms h arbitrary: rs rule: smis_loop.induct)
  case (2 m ms h)
  obtain h1 b rs1 where s: "set_is_member h m = (h1, b)" "smis_loop ms h1 = (h', rs1)" "rs = RInt (if b then 1 else 0) # rs1"
    using 2(3) by (auto split: prod.splits)
  note ok = set_is_member_ok[OF 2(2) s(1)] set_is_member_mem[OF 2(2) s(1)]
  have w: "set_wf h1" using ok by simp
  then show ?case using 2(1)[OF s(1)[symmetric] refl w s(2)] ok s(3) by simp
qed simp

lemma set_nodes_ok:
  assumes "set_wf h"
  shows "distinct (collect_members h)" "set (collect_members h) = set_abs h" "length (collect_members h) = hm_size h"
proof -
  have w: "sk_wf sn_key h" "hm_wf h" using assms by (auto simp: set_wf_def sk_wf_def)
  show "distinct (collect_members h)" using w(1) by (simp add: sk_wf_def collect_members_def)
  show "set (collect_members h) = set_abs h"
    by (auto simp: collect_members_def set_abs_def sk_map_def dom_map_of_conv_image_fst image_image)
  show "length (collect_members h) = hm_size h" using hm_size_ok[OF w(2)] sk_nodes_mset[OF w(2)]
    by (metis collect_members_def length_map sk_payloads_def size_image_mset size_mset)
qed

section \<open>Single sets\<close>

interpretation st: entry_type T_SET VSet entry_set set_wf ASet set_abs "{}"
  using set_empty_ok by unfold_locales (auto simp: type_at_def entry_set_def empty_val_def split: evalue.splits)

definition set_case :: "('s avalue \<times> u64 option) option \<Rightarrow> 'b \<Rightarrow> 'b \<Rightarrow> (string set \<Rightarrow> u64 option \<Rightarrow> 'b) \<Rightarrow> 'b" where
  "set_case x missing wrong f = (case x of None \<Rightarrow> missing | Some (ASet m, d) \<Rightarrow> f m d | Some _ \<Rightarrow> wrong)"

lemma set_case_simps [simp]:
  "set_case None x y f = x" "set_case (Some (ASet m, d)) x y f = f m d" "wrong_type T_SET z \<Longrightarrow> set_case z x y f = y"
  by (auto simp: set_case_def wrong_type_def split: option.splits avalue.splits)

text \<open>Storing a set under a key, an empty one by removing the key.\<close>

definition put_set :: "string \<Rightarrow> string set \<Rightarrow> u64 option \<Rightarrow> (string \<Rightarrow> ('s avalue \<times> u64 option) option) \<Rightarrow>
    string \<Rightarrow> ('s avalue \<times> u64 option) option" where
  "put_set k m d M = M(k := if m = {} then None else Some (ASet m, d))"

lemma set_size_0: "set_wf h \<Longrightarrow> hm_size h = 0 \<longleftrightarrow> set_abs h = {}"
  using set_size_ok[of h] set_finite[of h] by simp

lemma set_read:
  assumes "g_ok S g" "at v g k a" "val_at g a = VSet (entry_set g a)" "set_wf (entry_set g a)" "set_is_member (entry_set g a) m = (h, b)"
  shows "g_ok S (put_val a (VSet h) g)" "live v (put_val a (VSet h) g) = live v g" "at v (put_val a (VSet h) g) k a"
    "entry_set (put_val a (VSet h) g) a = h" "ttl_of (heap (put_val a (VSet h) g)) = ttl_of (heap g)" "set_wf h"
    "set_abs h = set_abs (entry_set g a)" "b \<longleftrightarrow> m \<in> set_abs (entry_set g a)" "val_at (put_val a (VSet h) g) a = VSet h"
    "dom (ents (put_val a (VSet h) g)) = dom (ents g)"
proof -
  note r = set_is_member_ok[OF assms(4,5)] set_is_member_mem[OF assms(4,5)]
  show "set_wf h" "set_abs h = set_abs (entry_set g a)" "b \<longleftrightarrow> m \<in> set_abs (entry_set g a)" using r by simp_all
  have m: "val_mem (VSet h) = val_mem (VSet (entry_set g a) :: 'a evalue)" using r by (simp add: val_mem_def)
  note f = st.refresh[OF assms(1-3) \<open>set_wf h\<close> \<open>set_abs h = set_abs (entry_set g a)\<close> m]
  show "g_ok S (put_val a (VSet h) g)" "live v (put_val a (VSet h) g) = live v g" "at v (put_val a (VSet h) g) k a"
    "entry_set (put_val a (VSet h) g) a = h" "ttl_of (heap (put_val a (VSet h) g)) = ttl_of (heap g)"
    "val_at (put_val a (VSet h) g) a = VSet h" "dom (ents (put_val a (VSet h) g)) = dom (ents g)"
    using f by simp_all
qed

lemma do_sadd_ok:
  assumes "g_ok {} g" "fits v (length cmd) g" "2 < length cmd" "do_sadd v cmd g = (g', rs)"
  shows "g_ok {} g' \<and> (live v g', rs) =
    set_case (live v g (cmd ! 1))
      (put_set (cmd ! 1) (set (drop 2 cmd)) None (live v g), [RInt (int (card (set (drop 2 cmd))))])
      (live v g, [RErr MSG_WRONG])
      (\<lambda>m d. (put_set (cmd ! 1) (m \<union> set (drop 2 cmd)) d (live v g), [RInt (int (card (set (drop 2 cmd) - m)))]))"
proof -
  let ?k = "cmd ! 1" and ?ms = "drop 2 cmd"
  obtain g1 r where l: "lookup_entry v ?k T_SET True False g = (g1, r)" by fastforce
  have room: "g_room g" by (rule fits_room[OF assms(2)]) (use assms(3) in linarith)
  have ne: "?ms \<noteq> []" using assms(3) by simp
  have go: "g_ok {} g' \<and> live v g' = (live v g1)(?k \<mapsto> (ASet (set_abs (entry_set g1 a) \<union> set ?ms), ttl_of (heap g1) a)) \<and>
      rs = [RInt (int (card (set ?ms - set_abs (entry_set g1 a))))]"
    if a: "r = LOk a" "at v g1 ?k a" "g_ok {a} g1" "set_wf (entry_set g1 a)" and c: "card (set_abs (entry_set g1 a)) + length ?ms \<le> 2 ^ 60"
      and n: "set ?ms - set_abs (entry_set g1 a) \<noteq> {}" for a
  proof -
    obtain h n where h: "set_add_all ?ms (entry_set g1 a, 0) = (h, n)" by fastforce
    note ok = set_add_all_ok[OF a(4) c h]
    have w: "set_wf h" using ok by simp
    have "n \<noteq> 0" using ok n by simp
    then have "g' = wrote 1 (mem_reaccount a (put_val a (VSet h) g1))" "rs = [RInt (int n)]"
      using assms(4) l a(1) h by (simp_all add: do_sadd_def)
    then show ?thesis using st.commit[OF a(3,2) w, of 1] ok by simp
  qed
  from assms(1) room l show ?thesis
  proof (cases rule: st.rw_cases)
    case (fresh a)
    have c: "card (set_abs (entry_set g1 a)) + length ?ms \<le> 2 ^ 60" using fresh(7) fits_card[OF assms(2)] by simp
    show ?thesis using go[OF fresh(1,2,3,4) c] fresh(6-9) ne by (simp add: put_set_def)
  next
    case (found a)
    have c: "card (set_abs (entry_set g1 a)) + length ?ms \<le> 2 ^ 60" using fits_live[OF assms(2) found(6)] by simp
    show ?thesis
    proof (cases "set ?ms \<subseteq> set_abs (entry_set g1 a)")
      case True
      have ok1: "g_ok {} g1" "live v g1 = live v g" using lookup_found[OF assms(1) room l[unfolded found(1)] found(6)] by simp_all
      obtain h n where h: "set_add_all ?ms (entry_set g1 a, 0) = (h, n)" by fastforce
      note ok = set_add_all_ok[OF found(4) c h]
      have "set ?ms - set_abs (entry_set g1 a) = {}" using True by auto
      then have n: "n = 0" using ok by simp
      have w: "set_wf h" "set_abs h = set_abs (entry_set g1 a)" "val_mem (VSet h) = val_mem (VSet (entry_set g1 a) :: 'a evalue)"
        using ok True set_add_all_none[OF found(4) c h n] by (auto simp: val_mem_def)
      have "g' = put_val a (VSet h) g1" "rs = [RInt 0]" using assms(4) l found(1) h n by (simp_all add: do_sadd_def)
      moreover have "put_set ?k (set_abs (entry_set g1 a) \<union> set ?ms) (ttl_of (heap g1) a) (live v g) = live v g"
        using True found(6) ne by (auto simp: put_set_def fun_upd_idem Un_absorb2)
      ultimately show ?thesis using st.refresh(1,2)[OF ok1(1) found(2,5) w] ok1(2) found(6) \<open>set ?ms - _ = {}\<close> by simp
    next
      case False
      then show ?thesis using go[OF found(1,2,3,4) c] found(6,7) ne by (auto simp: put_set_def)
    qed
  qed (use assms(4) l in \<open>auto simp: do_sadd_def\<close>)
qed

lemma do_srem_ok:
  assumes "g_ok {} g" "do_srem v cmd g = (g', rs)"
  shows "g_ok {} g' \<and> (live v g', rs) =
    set_case (live v g (cmd ! 1)) (live v g, [RInt 0]) (live v g, [RErr MSG_WRONG])
      (\<lambda>m d. (put_set (cmd ! 1) (m - set (drop 2 cmd)) d (live v g), [RInt (int (card (set (drop 2 cmd) \<inter> m)))]))"
proof -
  obtain g1 r where l: "lookup_entry v (cmd ! 1) T_SET False False g = (g1, r)" by fastforce
  from assms(1) l show ?thesis
  proof (cases rule: st.ro_cases)
    case (found a)
    have ok1: "g_ok {a} g1" by (rule g_ok_mono[OF found(4)]) simp
    let ?h = "entry_set g1 a" and ?k = "cmd ! 1"
    obtain h n where h: "srem_loop (drop 2 cmd) ?h 0 = (h, n)" by fastforce
    note ok = srem_loop_ok[OF found(3) h]
    have w: "set_wf h" using ok by simp
    note z = set_size_0[OF w]
    let ?g = "put_val a (VSet h) g1"
    have rs: "rs = [RInt n]" "g' = (if hm_size h = 0 then if n \<noteq> 0 then wrote 1 (drop_entry v a ?g) else drop_entry v a ?g
        else if n \<noteq> 0 then wrote 1 (mem_reaccount a ?g) else ?g)"
      using assms(2) l found(1) h by (auto simp: do_srem_def Let_def)
    show ?thesis
    proof (cases "hm_size h = 0 \<or> n \<noteq> 0")
      case True
      then show ?thesis
        using rs ok z found(5,6) st.discard[OF ok1 found(2) w, of 1] st.commit[OF ok1 found(2) w, of 1]
        by (auto simp: put_set_def)
    next
      case False
      have "set (drop 2 cmd) \<inter> set_abs ?h = {}" using ok False by simp
      then have m: "set_abs h = set_abs ?h" using ok by auto
      have vm: "val_mem (VSet h) = val_mem (VSet ?h :: 'a evalue)" using ok False by (simp add: val_mem_def)
      have "put_set ?k (set_abs ?h) (ttl_of (heap g1) a) (live v g) = live v g"
        using found(6) z m False by (simp add: put_set_def fun_upd_idem)
      then show ?thesis
        using rs ok m False found(5,6) st.refresh(1,2)[OF found(4,2,7) w m vm] by simp
    qed
  qed (use assms(2) l in \<open>auto simp: do_srem_def\<close>)
qed

lemma do_sismember_ok:
  assumes "g_ok {} g" "do_sismember v cmd g = (g', rs)"
  shows "g_ok {} g' \<and> live v g' = live v g \<and>
    rs = set_case (live v g (cmd ! 1)) [RInt 0] [RErr MSG_WRONG] (\<lambda>m d. [RInt (if cmd ! 2 \<in> m then 1 else 0)])"
proof -
  obtain g1 r where l: "lookup_entry v (cmd ! 1) T_SET False False g = (g1, r)" by fastforce
  from assms(1) l show ?thesis
  proof (cases rule: st.ro_cases)
    case (found a)
    obtain h b where h: "set_is_member (entry_set g1 a) (cmd ! 2) = (h, b)" by fastforce
    show ?thesis using assms(2) l found h set_read(1,2,8)[OF found(4,2,7,3) h] by (auto simp: do_sismember_def)
  qed (use assms(2) l in \<open>auto simp: do_sismember_def\<close>)
qed

lemma do_smismember_ok:
  assumes "g_ok {} g" "do_smismember v cmd g = (g', rs)"
  shows "g_ok {} g' \<and> live v g' = live v g \<and>
    rs = set_case (live v g (cmd ! 1))
      (RArr (of_nat (length cmd - 2)) # map (\<lambda>_. RInt 0) (drop 2 cmd)) [RErr MSG_WRONG]
      (\<lambda>s d. RArr (of_nat (length cmd - 2)) # map (\<lambda>m. RInt (if m \<in> s then 1 else 0)) (drop 2 cmd))"
proof -
  obtain g1 r where l: "lookup_entry v (cmd ! 1) T_SET False False g = (g1, r)" by fastforce
  from assms(1) l show ?thesis
  proof (cases rule: st.ro_cases)
    case (found a)
    obtain h qs where h: "smis_loop (drop 2 cmd) (entry_set g1 a) = (h, qs :: 'a reply list)" by fastforce
    note ok = smis_loop_ok[OF found(3) h]
    have w: "set_wf h" "set_abs h = set_abs (entry_set g1 a)" "val_mem (VSet h) = val_mem (VSet (entry_set g1 a) :: 'a evalue)"
      using ok by (simp_all add: val_mem_def)
    show ?thesis using assms(2) l found h ok st.refresh(1,2)[OF found(4,2,7) w] by (auto simp: do_smismember_def Let_def)
  qed (use assms(2) l in \<open>auto simp: do_smismember_def Let_def\<close>)
qed

lemma do_scard_ok:
  assumes "g_ok {} g" "do_scard v cmd g = (g', rs)"
  shows "g_ok {} g' \<and> live v g' = live v g \<and>
    rs = set_case (live v g (cmd ! 1)) [RInt 0] [RErr MSG_WRONG] (\<lambda>m d. [RInt (int (card m))])"
proof -
  obtain g1 r where l: "lookup_entry v (cmd ! 1) T_SET False False g = (g1, r)" by fastforce
  from assms(1) l show ?thesis
  proof (cases rule: st.ro_cases)
    case (found a)
    then show ?thesis using assms(2) l set_size_ok[OF found(3)] by (auto simp: do_scard_def)
  qed (use assms(2) l in \<open>auto simp: do_scard_def\<close>)
qed

lemma do_smembers_ok:
  assumes "g_ok {} g" "do_smembers v cmd g = (g', rs)"
  shows "g_ok {} g' \<and> live v g' = live v g \<and>
    set_case (live v g (cmd ! 1)) (rs = [RSet 0]) (rs = [RErr MSG_WRONG])
      (\<lambda>m d. \<exists>ms. distinct ms \<and> set ms = m \<and> rs = RSet (of_nat (length ms)) # map RStr ms)"
proof -
  obtain g1 r where l: "lookup_entry v (cmd ! 1) T_SET False False g = (g1, r)" by fastforce
  from assms(1) l show ?thesis
  proof (cases rule: st.ro_cases)
    case (found a)
    note n = set_nodes_ok[OF found(3)]
    have "rs = RSet (of_nat (length (collect_members (entry_set g1 a)))) # map RStr (collect_members (entry_set g1 a))" "g' = g1"
      using assms(2) l found(1) n(3) by (auto simp: do_smembers_def)
    then show ?thesis using found(4-6) n(1,2) by auto
  qed (use assms(2) l in \<open>auto simp: do_smembers_def\<close>)
qed

section \<open>Algebra\<close>

text \<open>A step that is not visible: the same keys with the same values, at the same addresses.\<close>

definition calm :: "env \<Rightarrow> 's::linorder gdata \<Rightarrow> 's gdata \<Rightarrow> bool" where
  "calm v g g' \<longleftrightarrow> g_ok {} g' \<and> live v g' = live v g \<and> (\<forall>k a. at v g k a \<longrightarrow> at v g' k a) \<and>
     card (dom (ents g')) \<le> card (dom (ents g))"

lemma calm_refl: "g_ok {} g \<Longrightarrow> calm v g g"
  by (simp add: calm_def)

lemma calm_trans: "calm v g g' \<Longrightarrow> calm v g' g'' \<Longrightarrow> calm v g g''"
  by (auto simp: calm_def)

lemma at_put_val: "g_ok S g \<Longrightarrow> at v g k a \<Longrightarrow> val_wf w \<Longrightarrow> at v (put_val a w g) = at v g"
proof -
  assume ok: "g_ok S g" and a: "at v g k a" and w: "val_wf w"
  have ix: "index g k = Some a" using a by (simp add: at_def)
  note p = put_ent_ok[where f = "\<lambda>e. e\<lparr>eval := w\<rparr>", OF ok ix]
  show ?thesis by (auto simp: at_def fun_eq_iff put_val_def p(3,4) w)
qed

lemma at_set:
  assumes "g_ok S g" "at v g k a" "live v g k = Some (ASet s, d)"
  shows "val_at g a = VSet (entry_set g a)" "set_wf (entry_set g a)" "set_abs (entry_set g a) = s" "ttl_of (heap g) a = d"
    "type_at g a = T_SET"
proof -
  have l: "aval (val_at g a) = ASet s" "ttl_of (heap g) a = d" using at_live[OF assms(2)] assms(3) by auto
  then show v: "val_at g a = VSet (entry_set g a)" "ttl_of (heap g) a = d" by (cases "val_at g a"; simp add: entry_set_def)+
  show "set_wf (entry_set g a)" using at_val_wf[OF assms(1,2)] v(1) by (metis val_wf.simps(6))
  show "set_abs (entry_set g a) = s" using l(1) v(1) by (metis aval.simps(6) avalue.inject(5))
  show "type_at g a = T_SET" using v(1) by (metis type_at_def vtype.simps(6))
qed

lemma lookup_set_ro_ok:
  assumes ok: "g_ok {} g" and l: "lookup_set_ro v k g = (g', r)"
  shows "calm v g g'" "r = LWrongType \<longleftrightarrow> wrong_type T_SET (live v g k)" "r = LMissing \<longleftrightarrow> live v g k = None"
    "r = LOk a \<Longrightarrow> at v g' k a" "r = LMissing \<Longrightarrow> index g' k = None"
proof -
  obtain n where f: "find_live v k g = (g', n)" and r: "r = (case n of None \<Rightarrow> LMissing | Some a \<Rightarrow> if type_at g' a \<noteq> T_SET then LWrongType else LOk a)"
    using l by (auto simp: lookup_set_ro_def split: prod.splits option.splits)
  note ff = find_live_ok[OF ok f]
  have c: "card (dom (ents g')) \<le> card (dom (ents g))" by (rule card_mono[OF g_okD(8)[OF ok] ff(5)])
  show "calm v g g'" using ff c find_live_at[OF ok f] by (simp add: calm_def)
  have ty: "type_at g' a = atype (aval (val_at g' a))" for a by (simp add: type_at_def)
  show "r = LWrongType \<longleftrightarrow> wrong_type T_SET (live v g k)" "r = LMissing \<longleftrightarrow> live v g k = None"
    "r = LOk a \<Longrightarrow> at v g' k a" "r = LMissing \<Longrightarrow> index g' k = None"
    using r ff at_live[of v g' k] ty by (auto simp: wrong_type_def split: option.splits if_splits)
qed

text \<open>The addresses hold these sets.\<close>

definition sets_at :: "env \<Rightarrow> 's gdata \<Rightarrow> addr list \<Rightarrow> string set list \<Rightarrow> bool" where
  "sets_at v g as ss \<longleftrightarrow> list_all2 (\<lambda>a s. \<exists>k d. at v g k a \<and> live v g k = Some (ASet s, d)) as ss"

definition the_set :: "('s avalue \<times> u64 option) option \<Rightarrow> string set" where
  "the_set x = set_case x {} {} (\<lambda>s d. s)"

lemma the_set_simps [simp]: "the_set None = {}" "the_set (Some (ASet s, d)) = s"
  by (simp_all add: the_set_def)

lemma the_set_ex: "x \<in> the_set y \<Longrightarrow> \<exists>a b. y = Some (a, b)"
  by (cases y) auto

lemma sets_at_calm: "calm v g g' \<Longrightarrow> sets_at v g as ss \<Longrightarrow> sets_at v g' as ss"
  unfolding sets_at_def calm_def by (erule list_all2_mono) metis

lemma not_wrong_set: "\<not> wrong_type T_SET x \<Longrightarrow> x = None \<or> (\<exists>s d. x = Some (ASet s, d))"
  by (cases x) (auto simp: wrong_type_def elim: atype.elims)

lemma lookup_sets_ok:
  "g_ok {} g \<Longrightarrow> sets_at v g as ss \<Longrightarrow> lookup_sets v ks as e g = (g', r) \<Longrightarrow>
   calm v g g' \<and>
   (if \<exists>k \<in> set ks. wrong_type T_SET (live v g k) then r = None
    else \<exists>bs. r = Some (bs, e \<or> (\<exists>k \<in> set ks. live v g k = None)) \<and>
           sets_at v g' bs (ss @ map (\<lambda>k. the_set (live v g k)) (filter (\<lambda>k. live v g k \<noteq> None) ks)))"
proof (induction ks arbitrary: as ss e g)
  case (Cons k ks)
  obtain g1 q where l: "lookup_set_ro v k g = (g1, q)" by fastforce
  note ll = lookup_set_ro_ok[OF Cons(2) l]
  have ok1: "g_ok {} g1" and lv: "live v g1 = live v g" using ll(1) by (auto simp: calm_def)
  note s1 = sets_at_calm[OF ll(1) Cons(3)]
  show ?case
  proof (cases q)
    case LMissing
    then have "lookup_sets v ks as True g1 = (g', r)" using Cons(4) l by simp
    from Cons(1)[OF ok1 s1 this] show ?thesis
      using calm_trans[OF ll(1)] LMissing ll(2,3) unfolding lv by auto
  next
    case LWrongType
    then show ?thesis using Cons(4) l ll by auto
  next
    case (LOk a)
    then have nw: "\<not> wrong_type T_SET (live v g k)" "live v g k \<noteq> None" using ll(2,3) by auto
    then obtain s d where sd: "live v g k = Some (ASet s, d)" using not_wrong_set[OF nw(1)] nw(2) by blast
    have "at v g1 k a" by (rule ll(4)[OF LOk])
    then have s2: "sets_at v g1 (as @ [a]) (ss @ [s])" using s1 sd lv unfolding sets_at_def by (auto intro!: list_all2_appendI)
    have "lookup_sets v ks (as @ [a]) e g1 = (g', r)" using Cons(4) l LOk by simp
    from Cons(1)[OF ok1 s2 this] show ?thesis
      using calm_trans[OF ll(1)] nw sd unfolding lv by auto
  qed
qed (auto simp: calm_refl)

lemma member_calm:
  assumes "g_ok {} g" "at v g k a" "live v g k = Some (ASet s, d)" "set_is_member (entry_set g a) m = (h, b)"
  shows "calm v g (put_val a (VSet h) g)" "b \<longleftrightarrow> m \<in> s"
proof -
  note t = at_set[OF assms(1-3)]
  note r = set_read[OF assms(1,2) t(1,2) assms(4)]
  have "val_wf (VSet h)" using r(6) by simp
  from at_put_val[OF assms(1,2) this] show "calm v g (put_val a (VSet h) g)" using r by (simp add: calm_def)
  show "b \<longleftrightarrow> m \<in> s" using r(8) t(3) by simp
qed

lemma in_all_ok:
  "g_ok {} g \<Longrightarrow> sets_at v g as ss \<Longrightarrow> in_all m as g = (g', b) \<Longrightarrow> calm v g g' \<and> b = (\<forall>s \<in> set ss. m \<in> s)"
proof (induction m as g arbitrary: ss rule: in_all.induct)
  case (2 m a as g)
  obtain s ss' where ss: "ss = s # ss'" "sets_at v g as ss'" and "\<exists>k d. at v g k a \<and> live v g k = Some (ASet s, d)"
    using 2(3) by (auto simp: sets_at_def list_all2_Cons1)
  then obtain k d where a: "at v g k a" "live v g k = Some (ASet s, d)" by blast
  obtain h c where h: "set_is_member (entry_set g a) m = (h, c)" by fastforce
  note mc = member_calm[OF 2(2) a h]
  show ?case
  proof (cases c)
    case True
    have ok1: "g_ok {} (put_val a (VSet h) g)" using mc(1) by (simp add: calm_def)
    have "in_all m as (put_val a (VSet h) g) = (g', b)" using 2(4) h True by simp
    from 2(1)[OF h[symmetric] refl refl True ok1 sets_at_calm[OF mc(1) ss(2)] this] show ?thesis
      using calm_trans[OF mc(1)] mc(2) True ss(1) by simp
  next
    case False
    then show ?thesis using 2(4) h mc ss(1) by auto
  qed
qed (auto simp: sets_at_def calm_refl)

lemma in_any_ok:
  "g_ok {} g \<Longrightarrow> sets_at v g as ss \<Longrightarrow> in_any m as g = (g', b) \<Longrightarrow> calm v g g' \<and> b = (\<exists>s \<in> set ss. m \<in> s)"
proof (induction m as g arbitrary: ss rule: in_any.induct)
  case (2 m a as g)
  obtain s ss' where ss: "ss = s # ss'" "sets_at v g as ss'" and "\<exists>k d. at v g k a \<and> live v g k = Some (ASet s, d)"
    using 2(3) by (auto simp: sets_at_def list_all2_Cons1)
  then obtain k d where a: "at v g k a" "live v g k = Some (ASet s, d)" by blast
  obtain h c where h: "set_is_member (entry_set g a) m = (h, c)" by fastforce
  note mc = member_calm[OF 2(2) a h]
  show ?case
  proof (cases c)
    case False
    have ok1: "g_ok {} (put_val a (VSet h) g)" using mc(1) by (simp add: calm_def)
    have "in_any m as (put_val a (VSet h) g) = (g', b)" using 2(4) h False by simp
    from 2(1)[OF h[symmetric] refl refl False ok1 sets_at_calm[OF mc(1) ss(2)] this] show ?thesis
      using calm_trans[OF mc(1)] mc(2) False ss(1) by simp
  next
    case True
    then show ?thesis using 2(4) h mc ss(1) by auto
  qed
qed (auto simp: sets_at_def calm_refl)

lemma pick_ok:
  assumes "\<And>m h h' b. calm v g h \<Longrightarrow> test m h = (h', b) \<Longrightarrow> calm v h h' \<and> b = P m"
  shows "calm v g h \<Longrightarrow> pick test ms h = (g', r) \<Longrightarrow> calm v g g' \<and> r = filter P ms"
proof (induction ms arbitrary: h r)
  case (Cons m ms)
  obtain h1 b r1 where s: "test m h = (h1, b)" "pick test ms h1 = (g', r1)" "r = (if b then m # r1 else r1)"
    using Cons(3) by (auto split: prod.splits)
  have t: "calm v h h1 \<and> b = P m" by (rule assms[OF Cons(2) s(1)])
  show ?case using Cons(1)[OF calm_trans[OF Cons(2)] s(2)] t s(3) by auto
qed simp

lemma smallest_lt: "0 < n \<Longrightarrow> smallest sz n < n"
proof -
  assume n: "0 < n"
  have "s < n \<Longrightarrow> set is \<subseteq> {..<n} \<Longrightarrow> foldl (\<lambda>s i. if sz i < sz s then i else s) s is < n" for s "is"
    by (induction "is" arbitrary: s) auto
  from this[of 0 "[1..<n]"] show ?thesis using n by (simp add: smallest_def subset_eq)
qed

lemma nth_rest: "i < length ss \<Longrightarrow> set ss = insert (ss ! i) (set (take i ss @ drop (Suc i) ss))"
  using id_take_nth_drop[of i ss] by (metis Un_insert_right list.simps(15) set_append)

text \<open>The three operations return the elements of the intersection, union and difference, each once.\<close>

lemma sinter_impl_ok:
  assumes "g_ok {} g" "keys \<noteq> []" "sinter_impl v keys g = (g', r)"
  shows "calm v g g' \<and>
    (if \<exists>k \<in> set keys. wrong_type T_SET (live v g k) then r = None
     else \<exists>ms. r = Some ms \<and> distinct ms \<and> set ms = (\<Inter>k \<in> set keys. the_set (live v g k)))"
proof -
  obtain g1 q where l: "lookup_sets v keys [] False g = (g1, q)" by fastforce
  have "sets_at v g [] []" by (simp add: sets_at_def)
  note ll = lookup_sets_ok[OF assms(1) this l]
  show ?thesis
  proof (cases "\<exists>k \<in> set keys. wrong_type T_SET (live v g k)")
    case True
    then show ?thesis using assms(3) l ll by (auto simp: sinter_impl_def)
  next
    case nw: False
    then obtain as where q: "q = Some (as, \<exists>k \<in> set keys. live v g k = None)"
      and at: "sets_at v g1 as (map (\<lambda>k. the_set (live v g k)) (filter (\<lambda>k. live v g k \<noteq> None) keys))" using ll by auto
    show ?thesis
    proof (cases "\<exists>k \<in> set keys. live v g k = None")
      case True
      then have "(\<Inter>k \<in> set keys. the_set (live v g k)) = {}" by auto
      then show ?thesis using assms(3) l ll nw q True by (auto simp: sinter_impl_def)
    next
      case all: False
      then have "filter (\<lambda>k. live v g k \<noteq> None) keys = keys" by (auto intro: filter_True)
      then have at: "sets_at v g1 as (map (\<lambda>k. the_set (live v g k)) keys)" using at by simp
      let ?ss = "map (\<lambda>k. the_set (live v g k)) keys"
      have len: "length as = length ?ss" using at by (auto simp: sets_at_def dest: list_all2_lengthD)
      define i where "i = smallest (\<lambda>i. hm_size (entry_set g1 (as ! i))) (length as)"
      have i: "i < length ?ss" using smallest_lt[of "length as"] len assms(2) by (simp add: i_def)
      let ?ms = "collect_members (entry_set g1 (as ! i))"
      have ok1: "g_ok {} g1" using ll by (simp add: calm_def)
      have "\<exists>k d. at v g1 k (as ! i) \<and> live v g1 k = Some (ASet (?ss ! i), d)"
        using at i len unfolding sets_at_def by (auto simp: list_all2_conv_all_nth)
      then have w: "set_wf (entry_set g1 (as ! i))" "set_abs (entry_set g1 (as ! i)) = ?ss ! i" using at_set(2,3)[OF ok1] by blast+
      note n = set_nodes_ok[OF w(1)]
      let ?rest = "take i ?ss @ drop (Suc i) ?ss"
      have ra: "sets_at v g1 (take i as @ drop (Suc i) as) ?rest"
        using at unfolding sets_at_def by (intro list_all2_appendI list_all2_takeI list_all2_dropI)
      obtain g2 ms where p: "pick (\<lambda>m. in_all m (take i as @ drop (Suc i) as)) ?ms g1 = (g2, ms)" by fastforce
      have t: "calm v h h' \<and> b = (\<forall>s \<in> set ?rest. m \<in> s)"
        if "calm v g1 h" "in_all m (take i as @ drop (Suc i) as) h = (h', b)" for m h h' b
        using in_all_ok[OF _ sets_at_calm[OF that(1) ra] that(2)] that(1) by (simp add: calm_def)
      from pick_ok[where test = "\<lambda>m. in_all m (take i as @ drop (Suc i) as)", OF t calm_refl[OF ok1] p]
      have c: "calm v g1 g2" "ms = filter (\<lambda>m. \<forall>s \<in> set ?rest. m \<in> s) ?ms" by auto
      have "set ms = \<Inter> (set ?ss)" unfolding c(2) using n(2) w(2) nth_rest[OF i] by auto
      moreover have "distinct ms" unfolding c(2) using n(1) by simp
      moreover have "(g', r) = (g2, Some ms)" using assms(3) l q all p by (simp add: sinter_impl_def Let_def i_def)
      ultimately show ?thesis using nw calm_trans[of v g g1 g2] c(1) ll by auto
    qed
  qed
qed

lemma distinct_sorted_unique: "sorted xs \<Longrightarrow> distinct (remdups_adj xs)"
  by (induction xs rule: remdups_adj.induct) (auto simp: order.antisym)

lemma sunion_loop_ok:
  "g_ok {} g \<Longrightarrow> sunion_loop v ks acc g = (g', r) \<Longrightarrow>
   calm v g g' \<and>
   (if \<exists>k \<in> set ks. wrong_type T_SET (live v g k) then r = None
    else \<exists>ms. r = Some ms \<and> set ms = set acc \<union> (\<Union>k \<in> set ks. the_set (live v g k)))"
proof (induction ks arbitrary: acc g)
  case (Cons k ks)
  obtain g1 q where l: "lookup_set_ro v k g = (g1, q)" by fastforce
  note ll = lookup_set_ro_ok[OF Cons(2) l]
  have ok1: "g_ok {} g1" and lv: "live v g1 = live v g" using ll(1) by (auto simp: calm_def)
  show ?case
  proof (cases q)
    case LMissing
    then have "sunion_loop v ks acc g1 = (g', r)" using Cons(3) l by simp
    from Cons(1)[OF ok1 this] show ?thesis using calm_trans[OF ll(1)] LMissing ll(2,3) unfolding lv by auto
  next
    case LWrongType
    then show ?thesis using Cons(3) l ll by auto
  next
    case (LOk a)
    then have nw: "\<not> wrong_type T_SET (live v g k)" "live v g k \<noteq> None" using ll(2,3) by auto
    then obtain s d where sd: "live v g k = Some (ASet s, d)" using not_wrong_set[OF nw(1)] by auto
    note t = at_set[OF ok1 ll(4)[OF LOk], unfolded lv, OF sd]
    have "sunion_loop v ks (acc @ collect_members (entry_set g1 a)) g1 = (g', r)" using Cons(3) l LOk by simp
    from Cons(1)[OF ok1 this] show ?thesis
      using calm_trans[OF ll(1)] nw sd set_nodes_ok(2)[OF t(2)] t(3) unfolding lv by auto
  qed
qed (auto simp: calm_refl)

lemma sunion_impl_ok:
  assumes "g_ok {} g" "sunion_impl v keys g = (g', r)"
  shows "calm v g g' \<and>
    (if \<exists>k \<in> set keys. wrong_type T_SET (live v g k) then r = None
     else \<exists>ms. r = Some ms \<and> distinct ms \<and> sorted ms \<and> set ms = (\<Union>k \<in> set keys. the_set (live v g k)))"
proof -
  obtain q where l: "sunion_loop v keys [] g = (g', q)" and r: "r = map_option (\<lambda>result. remdups_adj (sort result)) q"
    using assms(2) by (auto simp: sunion_impl_def split: prod.splits)
  have "distinct (remdups_adj (sort xs))" "sorted (remdups_adj (sort xs))" for xs :: "string list"
    by (simp_all add: distinct_sorted_unique sorted_remdups_adj)
  then show ?thesis using sunion_loop_ok[OF assms(1) l] r by (auto split: if_splits)
qed

lemma sdiff_impl_ok:
  assumes "g_ok {} g" "keys \<noteq> []" "sdiff_impl v keys g = (g', r)"
  shows "calm v g g' \<and>
    (if \<exists>k \<in> set keys. wrong_type T_SET (live v g k) then r = None
     else \<exists>ms. r = Some ms \<and> distinct ms \<and> set ms = the_set (live v g (hd keys)) - (\<Union>k \<in> set (tl keys). the_set (live v g k)))"
proof -
  have ks: "set keys = insert (hd keys) (set (tl keys))" using assms(2) by (cases keys) auto
  obtain g1 b where l: "lookup_set_ro v (hd keys) g = (g1, b)" by fastforce
  note ll = lookup_set_ro_ok[OF assms(1) l]
  have ok1: "g_ok {} g1" and lv: "live v g1 = live v g" using ll(1) by (auto simp: calm_def)
  show ?thesis
  proof (cases "b = LWrongType")
    case True
    then show ?thesis using assms(3) l ll(1,2) ks by (auto simp: sdiff_impl_def)
  next
    case nb: False
    obtain g2 q where o: "lookup_sets v (tl keys) [] False g1 = (g2, q)" by fastforce
    have "sets_at v g1 [] []" by (simp add: sets_at_def)
    note oo = lookup_sets_ok[OF ok1 this o, unfolded lv]
    have c2: "calm v g g2" using calm_trans[OF ll(1)] oo by blast
    show ?thesis
    proof (cases "\<exists>k \<in> set (tl keys). wrong_type T_SET (live v g k)")
      case True
      then show ?thesis using assms(3) l nb o oo c2 ks by (auto simp: sdiff_impl_def)
    next
      case nw: False
      let ?os = "map (\<lambda>k. the_set (live v g k)) (filter (\<lambda>k. live v g k \<noteq> None) (tl keys))"
      obtain as e where q: "q = Some (as, e)" and at: "sets_at v g2 as ?os" using nw oo by auto
      have un: "(\<Union>k \<in> set (tl keys). the_set (live v g k)) = \<Union> (set ?os)"
        by auto (metis the_set_ex)
      have nn: "\<not> (\<exists>k \<in> set keys. wrong_type T_SET (live v g k))" using nw nb ll(2) ks by simp
      show ?thesis
      proof (cases b)
        case LMissing
        then show ?thesis using assms(3) l o q c2 ll(3) nn by (auto simp: sdiff_impl_def)
      next
        case (LOk a)
        then have nwk: "\<not> wrong_type T_SET (live v g (hd keys))" "live v g (hd keys) \<noteq> None" using ll(2,3) by auto
        then obtain s d where sd: "live v g (hd keys) = Some (ASet s, d)" using not_wrong_set[OF nwk(1)] by auto
        have ok2: "g_ok {} g2" "live v g2 = live v g" "at v g2 (hd keys) a"
          using c2 oo ll(4)[OF LOk] by (auto simp: calm_def)
        note t = at_set[OF ok2(1,3), unfolded ok2(2), OF sd]
        let ?test = "\<lambda>m g. let (g, found) = in_any m as g in (g, \<not> found)"
        obtain g3 ms where p: "pick ?test (collect_members (entry_set g2 a)) g2 = (g3, ms)" by fastforce
        have tt: "calm v h h' \<and> c = (\<not> (\<exists>s \<in> set ?os. m \<in> s))" if cl: "calm v g2 h" and te: "?test m h = (h', c)" for m h h' c
        proof -
          obtain f where f: "in_any m as h = (h', f)" "c = (\<not> f)" using te by (auto split: prod.splits)
          show ?thesis using in_any_ok[OF _ sets_at_calm[OF cl at] f(1)] cl f(2) by (simp add: calm_def)
        qed
        from pick_ok[where test = ?test, OF tt calm_refl[OF ok2(1)] p]
        have c: "calm v g2 g3" "ms = filter (\<lambda>m. \<not> (\<exists>s \<in> set ?os. m \<in> s)) (collect_members (entry_set g2 a))" by auto
        have "set ms = s - \<Union> (set ?os)" "distinct ms" unfolding c(2) using set_nodes_ok[OF t(2)] t(3) by auto
        moreover have "(g', r) = (g3, Some ms)" using assms(3) l o q LOk p by (simp add: sdiff_impl_def)
        ultimately show ?thesis using nn sd un calm_trans[OF c2 c(1)] by auto
      qed (use nb in simp)
    qed
  qed
qed

lemma new_set_entry_ok:
  assumes ok: "g_ok S g" and k: "index g k = None" and room: "g_room g" and r: "new_set_entry k g = (g', a)"
  shows "g_ok (insert a S) g'" "at v g' k a" "val_at g' a = VSet (entry_set g' a)" "set_wf (entry_set g' a)" "set_abs (entry_set g' a) = {}"
    "live v g' = (live v g)(k \<mapsto> (ASet {}, None))" "ttl_of (heap g') a = None" "dom (ents g') = insert a (dom (ents g))"
proof -
  let ?e = "\<lparr>ekey = str_assign str_empty k, emem = 0, elru = 0, eval = VSet hmap_empty\<rparr> :: 'a entry"
  have a: "a = next_addr g" using r by (auto simp: new_set_entry_def entry_new_def Let_def)
  have e: "ents g' = (ents g)(a \<mapsto> ?e)" "next_addr g' = a + 1" "heap g' = heap g" "used_memory g' = used_memory g + emem ?e"
    "db g' = sk_insert (key_at g') (db g) a"
    using r by (auto simp: new_set_entry_def entry_new_def put_ent_def db_insert_def empty_val_def Let_def)
  have kk: "chars (ekey ?e) = k" "val_wf (eval ?e)" using set_empty_ok by simp_all
  note n = new_entry_ok[OF ok k room a e(1) kk e(2,3,4,5)]
  show "g_ok (insert a S) g'" "at v g' k a" "dom (ents g') = insert a (dom (ents g))" using n by auto
  show es: "val_at g' a = VSet (entry_set g' a)" using n(4) by (simp add: entry_set_def)
  then have "entry_set g' a = hmap_empty" using n(4) by simp
  then show "set_wf (entry_set g' a)" "set_abs (entry_set g' a) = {}" using set_empty_ok by simp_all
  show l: "live v g' = (live v g)(k \<mapsto> (ASet {}, None))" using n(6)[of v] set_empty_ok by simp
  show "ttl_of (heap g') a = None" using at_live[OF n(3), of v] l by simp
qed

lemma set_make_dest_ok:
  assumes ok: "g_ok {} g" and room: "card (dom (ents g)) < 2 ^ 60" and r: "set_make_dest v k g = (g', a)"
  shows "g_ok {a} g'" "at v g' k a" "val_at g' a = VSet (entry_set g' a)" "set_wf (entry_set g' a)" "set_abs (entry_set g' a) = {}"
    "live v g' = (live v g)(k \<mapsto> (ASet {}, None))" "ttl_of (heap g') a = None"
proof -
  obtain g1 n where l: "db_lookup k g = (g1, n)" by fastforce
  note ll = db_lookup_ok[OF ok l]
  define g2 where "g2 = (case n of None \<Rightarrow> g1 | Some old \<Rightarrow> drop_entry v old g1)"
  have m: "new_set_entry k g2 = (g', a)" using r l by (simp add: set_make_dest_def g2_def)
  have s: "g_ok {} g2 \<and> index g2 k = None \<and> (live v g2)(k := x) = (live v g)(k := x) \<and> g_room g2" for x
  proof (cases n)
    case None
    then show ?thesis using ll room by (simp add: g2_def g_room_def)
  next
    case (Some old)
    then have i: "index g1 k = Some old" using ll(2,3) by simp
    note d = drop_entry_ok[OF ll(1) i, where v = v]
    have "card (dom (ents g1) - {old}) \<le> card (dom (ents g1))" by (rule card_Diff1_le)
    then show ?thesis using Some d(1,2,4) d(3) ll(4) room ll(6) by (simp add: g2_def g_room_def)
  qed
  have s': "g_ok {} g2" "index g2 k = None" "g_room g2" using s by auto
  note w = new_set_entry_ok[OF s' m]
  show "g_ok {a} g'" "at v g' k a" "val_at g' a = VSet (entry_set g' a)" "set_wf (entry_set g' a)" "set_abs (entry_set g' a) = {}"
    "live v g' = (live v g)(k \<mapsto> (ASet {}, None))" "ttl_of (heap g') a = None"
    using w s by simp_all
qed

lemma set_store_result_ok:
  assumes ok: "g_ok {} g" and room: "card (dom (ents g)) < 2 ^ 60" and len: "length ms \<le> 2 ^ 60"
    and r: "set_store_result v k ms g = (g', rs)"
  shows "g_ok {} g' \<and> live v g' = put_set k (set ms) None (live v g) \<and> rs = [RInt (int (card (set ms)))]"
proof (cases "ms = []")
  case True
  obtain g1 n where l: "db_lookup k g = (g1, n)" by fastforce
  note ll = db_lookup_ok[OF ok l]
  show ?thesis
  proof (cases n)
    case None
    then have "live v g k = None" using ll(2) by (simp add: live_def)
    then show ?thesis using r True l None ll(1,4) by (simp add: set_store_result_def put_set_def fun_upd_idem)
  next
    case (Some old)
    then have i: "index g1 k = Some old" using ll(2,3) by simp
    note d = drop_entry_ok[OF ll(1) i, where v = v]
    show ?thesis using r True l Some d(1,2) ll(4)[of v] by (auto simp: set_store_result_def put_set_def)
  qed
next
  case False
  obtain g1 a where m: "set_make_dest v k g = (g1, a)" by fastforce
  note mm = set_make_dest_ok[OF ok room m]
  obtain h n where h: "set_add_all ms (entry_set g1 a, 0) = (h, n)" by fastforce
  have c: "card (set_abs (entry_set g1 a)) + length ms \<le> 2 ^ 60" using mm(5) len by simp
  note s = set_add_all_ok[OF mm(4) c h]
  have w: "set_wf h" using s by simp
  have "g' = wrote 1 (mem_reaccount a (put_val a (VSet h) g1))" "rs = [RInt (int (hm_size h))]"
    using r False m h by (simp_all add: set_store_result_def)
  then show ?thesis using st.commit[OF mm(1,2) w, of 1] s mm(5,6,7) set_size_ok[OF w] False by (simp add: put_set_def)
qed

text \<open>What the six algebra commands compute, on the abstract key space.\<close>

definition inter_spec :: "string list \<Rightarrow> (string \<Rightarrow> ('s avalue \<times> u64 option) option) \<Rightarrow> string set" where
  "inter_spec ks m = (\<Inter>k \<in> set ks. the_set (m k))"

definition union_spec :: "string list \<Rightarrow> (string \<Rightarrow> ('s avalue \<times> u64 option) option) \<Rightarrow> string set" where
  "union_spec ks m = (\<Union>k \<in> set ks. the_set (m k))"

definition diff_spec :: "string list \<Rightarrow> (string \<Rightarrow> ('s avalue \<times> u64 option) option) \<Rightarrow> string set" where
  "diff_spec ks m = the_set (m (hd ks)) - (\<Union>k \<in> set (tl ks). the_set (m k))"

lemma store_or_err_ok:
  assumes c: "calm v g g1 \<and> (if bad then r = None else \<exists>ms. r = Some ms \<and> distinct ms \<and> set ms = S)"
    and room: "card (dom (ents g)) < 2 ^ 60" and sz: "card S \<le> 2 ^ 60" and r: "store_or_err v k (g1, r) = (g', rs)"
  shows "g_ok {} g' \<and> (live v g', rs) = (if bad then (live v g, [RErr MSG_WRONG]) else (put_set k S None (live v g), [RInt (int (card S))]))"
proof (cases bad)
  case True
  then show ?thesis using c r by (simp add: store_or_err_def calm_def)
next
  case False
  then obtain ms where m: "r = Some ms" "distinct ms" "set ms = S" using c by auto
  have l: "length ms \<le> 2 ^ 60" using m sz distinct_card by metis
  have ok: "g_ok {} g1" "live v g1 = live v g" "card (dom (ents g1)) < 2 ^ 60" using c room by (auto simp: calm_def)
  have "set_store_result v k ms g1 = (g', rs)" using r m by (simp add: store_or_err_def)
  from set_store_result_ok[OF ok(1,3) l this] show ?thesis using False ok(2) m(3) by simp
qed

lemma set_reply_ok:
  assumes c: "calm v g g1 \<and> (if bad then r = None else \<exists>ms. r = Some ms \<and> distinct ms \<and> set ms = S)"
    and r: "set_reply (g1, r) = (g', rs)"
  shows "g_ok {} g' \<and> live v g' = live v g \<and>
    (if bad then rs = [RErr MSG_WRONG] else \<exists>ms. distinct ms \<and> set ms = S \<and> rs = RSet (of_nat (card S)) # map RStr ms)"
  using assms by (auto simp: set_reply_def calm_def distinct_card split: if_splits)

section \<open>Random members\<close>

text \<open>A draw below \<open>n\<close> is below \<open>n\<close>.\<close>

definition draws_ok :: "env \<Rightarrow> bool" where
  "draws_ok v \<longleftrightarrow> (\<forall>k n. 0 < n \<longrightarrow> rnd v k n < n)"

lemma core_draws [simp]: "core (g\<lparr>draws := x\<rparr>) = core g"
  by (simp add: core_def)

lemma random_node_some:
  assumes "hm_wf h" "hm_size h \<noteq> 0" "draws_ok v"
  obtains n where "random_node v h g = (Some n, g\<lparr>draws := draws g + 3\<rparr>)" "n \<in># hm_mset h"
proof -
  have "hm_mset h \<noteq> {#}" using assms(2) hm_size_ok[OF assms(1)] by auto
  moreover have "\<And>i n. 0 < n \<Longrightarrow> rnd v i n < n" using assms(3) by (simp add: draws_ok_def)
  ultimately obtain n where "hm_random h (rnd v (draws g)) (rnd v (draws g + 1)) (rnd v (draws g + 2)) = Some n" "n \<in># hm_mset h"
    using hm_random_ok[OF assms(1)] by blast
  then show ?thesis using that by (simp add: random_node_def)
qed

lemma take_random_ok:
  assumes w: "sk_wf sn_key h" and s: "hm_size h \<noteq> 0" and d: "draws_ok v"
  obtains h' n where "take_random v h g = Some (h', n, g\<lparr>draws := draws g + 3\<rparr>)" "sk_wf sn_key h'"
    "hm_mset h = add_mset n (hm_mset h')" "elem_bytes h' = elem_bytes h" "hcode n = str_hash (sn_key (pay n))"
    "hm_size h = Suc (hm_size h')"
proof -
  have wf: "hm_wf h" using w by (simp add: sk_wf_def)
  obtain n where n: "random_node v h g = (Some n, g\<lparr>draws := draws g + 3\<rparr>)" "n \<in># hm_mset h"
    by (rule random_node_some[OF wf s d])
  obtain h' r where r: "hm_delete h (hcode n) (\<lambda>p. p = pay n) = (h', r)" by fastforce
  note dd = hm_delete_ok[OF wf r]
  obtain x where x: "r = Some x" using dd n(2) by (cases r) auto
  then have "x = n" using dd by (cases x, cases n) auto
  then have ms: "hm_mset h = add_mset n (hm_mset h')" "hm_wf h'" "elem_bytes h' = elem_bytes h" using dd x by auto
  have hc: "hcode n = str_hash (sn_key (pay n))" using w n(2) by (auto simp: sk_wf_def)
  have pl: "sk_payloads h = add_mset (pay n) (sk_payloads h')" using ms(1) by (simp add: sk_payloads_def)
  have c: "count (image_mset sn_key (sk_payloads h')) j \<le> count (image_mset sn_key (sk_payloads h)) j" for j unfolding pl by simp
  have "sk_wf sn_key h'" unfolding sk_wf_iff[OF ms(2)] using w[unfolded sk_wf_iff[OF wf]] c ms le_trans[OF c] by auto
  moreover have "hm_size h = Suc (hm_size h')" using hm_size_ok[OF wf] hm_size_ok[OF ms(2)] ms(1) by simp
  ultimately show ?thesis using that[of h' n] n(1) r ms hc by (simp add: take_random_def)
qed

lemma set_take:
  assumes "set_wf h" "sk_wf sn_key h'" "hm_mset h = add_mset n (hm_mset h')" "elem_bytes h' = elem_bytes h"
  shows "set_wf (h'\<lparr>elem_bytes := elem_bytes h' - set_node_bytes (pay n)\<rparr>)" "sn_key (pay n) \<in> set_abs h"
    "set_abs h' = set_abs h - {sn_key (pay n)}"
proof -
  have pl: "sk_payloads h = add_mset (pay n) (sk_payloads h')" using assms(3) by (simp add: sk_payloads_def)
  have w: "sk_wf sn_key h" using assms(1) by (simp add: set_wf_def)
  show "set_wf (h'\<lparr>elem_bytes := elem_bytes h' - set_node_bytes (pay n)\<rparr>)"
    using assms(1,2,4) pl by (simp add: set_wf_def)
  have e: "set_abs x = sn_key ` set_mset (sk_payloads x)" if "sk_wf sn_key x" for x
    using sk.dom_amap[OF that] by (simp add: set_abs_def)
  show "sn_key (pay n) \<in> set_abs h" unfolding e[OF w] pl by simp
  have "sn_key (pay n) \<notin> sn_key ` set_mset (sk_payloads h')"
  proof
    assume "sn_key (pay n) \<in> sn_key ` set_mset (sk_payloads h')"
    then have a: "0 < count (image_mset sn_key (sk_payloads h')) (sn_key (pay n))" by (metis count_greater_zero_iff set_image_mset)
    have "hm_wf h" using w by (simp add: sk_wf_def)
    then have b: "count (image_mset sn_key (sk_payloads h)) (sn_key (pay n)) \<le> 1" using w sk_wf_iff by blast
    have "count (image_mset sn_key (sk_payloads h)) (sn_key (pay n)) = Suc (count (image_mset sn_key (sk_payloads h')) (sn_key (pay n)))"
      unfolding pl by simp
    then show False using a b by linarith
  qed
  then show "set_abs h' = set_abs h - {sn_key (pay n)}" unfolding e[OF w] e[OF assms(2)] pl by auto
qed

lemma spop_loop_ok:
  "set_wf h \<Longrightarrow> draws_ok v \<Longrightarrow> n \<le> hm_size h \<Longrightarrow>
   \<exists>h' ms g'. spop_loop v n h g = Some (h', ms, g') \<and> set_wf h' \<and> distinct ms \<and> length ms = n \<and> set ms \<subseteq> set_abs h \<and>
     set_abs h' = set_abs h - set ms \<and> core g' = core g \<and> events g' = events g"
proof (induction v n h g rule: spop_loop.induct)
  case (2 v n h g)
  have w: "sk_wf sn_key h" and s: "hm_size h \<noteq> 0" using 2(2,4) by (auto simp: set_wf_def)
  obtain h1 x where t: "take_random v h g = Some (h1, x, g\<lparr>draws := draws g + 3\<rparr>)" "sk_wf sn_key h1"
    "hm_mset h = add_mset x (hm_mset h1)" "elem_bytes h1 = elem_bytes h" "hcode x = str_hash (sn_key (pay x))"
    "hm_size h = Suc (hm_size h1)"
    by (rule take_random_ok[OF w s 2(3)])
  let ?h = "h1\<lparr>elem_bytes := elem_bytes h1 - set_node_bytes (pay x)\<rparr>" and ?g = "g\<lparr>draws := draws g + 3\<rparr>"
  note st = set_take[OF 2(2) t(2,3,4)]
  have sz: "n \<le> hm_size ?h" using t(6) 2(4) by (simp add: hm_size_def)
  have ab: "set_abs ?h = set_abs h - {sn_key (pay x)}" using st(3) by (simp add: set_abs_def)
  obtain h' ms g' where i: "spop_loop v n ?h ?g = Some (h', ms, g')" "set_wf h'" "distinct ms" "length ms = n"
    "set ms \<subseteq> set_abs ?h" "set_abs h' = set_abs ?h - set ms" "core g' = core ?g" "events g' = events ?g"
    using 2(1)[OF t(1) refl refl st(1) 2(3) sz] by auto
  show ?case using t(1) i ab st(2) by auto
qed auto

text \<open>\<open>SPOP\<close>: the number of members asked for, distinct, leaves the set; exactly their removal is propagated.\<close>

lemma spop_tail_ok:
  assumes "g_ok {} g" "at v g k a" "val_at g a = VSet (entry_set g a)" "set_wf h" "core g1 = core g" "events g1 = events g"
  shows "g_ok {} (spop_tail v a ms h g1)" "live v (spop_tail v a ms h g1) = put_set k (set_abs h) (ttl_of (heap g) a) (live v g)"
proof -
  let ?g = "emit (E_Feed (''srem'' # key_at g1 a # ms)) g1"
  have c: "core ?g = core g" using assms(5) by simp
  have ok: "g_ok {a} ?g" "at v ?g k a" "live v ?g = live v g" "heap ?g = heap g"
    using core_same[OF c] core_g_ok[OF c] assms(1,2) g_ok_mono[OF assms(1), of "{a}"] by auto
  show "g_ok {} (spop_tail v a ms h g1)" "live v (spop_tail v a ms h g1) = put_set k (set_abs h) (ttl_of (heap g) a) (live v g)"
    using st.discard[OF ok(1,2) assms(4), of 1] st.commit[OF ok(1,2) assms(4), of 1] ok(3,4) set_size_0[OF assms(4)]
    by (simp_all add: spop_tail_def Let_def put_set_def)
qed

lemma events_simps [simp]:
  "events (put_val a w g) = events g" "events (mem_reaccount a g) = events g" "events (wrote n g) = events g"
  "events (drop_entry v a g) = events g" "events (emit e g) = e # events g"
  by (simp_all add: put_val_def put_ent_def mem_reaccount_def wrote_def drop_entry_def entry_del_def entry_del_sync_def set_ttl_def
      db_unlink_def emit_def Let_def)

lemma do_spop_ok:
  assumes "g_ok {} g" "draws_ok v"
  shows "\<exists>g' rs. do_spop v cmd g = Some (g', rs) \<and> g_ok {} g' \<and>
    (let none = (if 3 \<le> length cmd then RSet 0 else RNil);
         same = (\<lambda>r. live v g' = live v g \<and> rs = [r]);
         popped = (\<lambda>s d n. \<exists>ms. distinct ms \<and> set ms \<subseteq> s \<and> length ms = n \<and>
            live v g' = put_set (cmd ! 1) (s - set ms) d (live v g) \<and> hd (events g') = E_Feed (''srem'' # cmd ! 1 # ms) \<and>
            rs = (if length cmd = 2 then [] else [RSet (of_nat n)]) @ map RStr ms)
     in set_case (live v g (cmd ! 1)) (same none) (same (RErr MSG_WRONG))
          (\<lambda>s d. if s = {} then same none
                 else if length cmd = 2 then popped s d 1
                 else case str2int (cmd ! 2) of
                   None \<Rightarrow> same (RErr MSG_NOT_INT)
                 | Some n \<Rightarrow> if n < 0 then same (RErr ''ERR value is out of range, must be positive'')
                             else if n = 0 then same (RSet 0)
                             else popped s d (min (nat n) (card s))))"
proof -
  let ?k = "cmd ! 1"
  obtain g1 r where l: "lookup_entry v ?k T_SET False False g = (g1, r)" by fastforce
  from assms(1) l show ?thesis
  proof (cases rule: st.ro_cases)
    case (found a)
    let ?h = "entry_set g1 a" and ?d = "ttl_of (heap g1) a"
    note z = set_size_0[OF found(3)]
    have ka: "key_at g1 a = ?k" using at_addr[OF found(4,2)] by simp
    have pop: "\<exists>h ms g2. spop_loop v n ?h g1 = Some (h, ms, g2) \<and> distinct ms \<and> set ms \<subseteq> set_abs ?h \<and> length ms = n \<and>
        g_ok {} (spop_tail v a ms h g2) \<and> live v (spop_tail v a ms h g2) = put_set ?k (set_abs ?h - set ms) ?d (live v g) \<and>
        hd (events (spop_tail v a ms h g2)) = E_Feed (''srem'' # ?k # ms)" if n: "n \<le> hm_size ?h" for n
    proof -
      obtain h ms g2 where p: "spop_loop v n ?h g1 = Some (h, ms, g2)" "set_wf h" "distinct ms" "length ms = n" "set ms \<subseteq> set_abs ?h"
        "set_abs h = set_abs ?h - set ms" "core g2 = core g1" "events g2 = events g1"
        using spop_loop_ok[OF found(3) assms(2) n] by blast
      note t = spop_tail_ok[OF found(4,2,7) p(2,7,8), of ms]
      have "key_at g2 a = ?k" using core_same(5)[OF p(7)] ka by simp
      then have "hd (events (spop_tail v a ms h g2)) = E_Feed (''srem'' # ?k # ms)" by (simp add: spop_tail_def Let_def)
      then show ?thesis using p t found(5) by auto
    qed
    show ?thesis
    proof (cases "set_abs ?h = {}")
      case True
      then show ?thesis using l found z by (auto simp: do_spop_def Let_def)
    next
      case False
      then have nz: "hm_size ?h \<noteq> 0" using z by simp
      show ?thesis
      proof (cases "length cmd = 2")
        case True
        have "1 \<le> hm_size ?h" using nz by simp
        from pop[OF this] show ?thesis using l found(1,5,6) False nz True by (auto simp: do_spop_def Let_def)
      next
        case l2: False
        show ?thesis
        proof (cases "str2int (cmd ! 2)")
          case None
          then show ?thesis using l found(1,4,5,6) False nz l2 by (auto simp: do_spop_def Let_def)
        next
          case (Some n)
          show ?thesis
          proof (cases "n \<le> 0")
            case True
            then show ?thesis using l found(1,4,5,6) False nz l2 Some by (auto simp: do_spop_def Let_def)
          next
            case n: False
            have "min (nat n) (hm_size ?h) \<le> hm_size ?h" by simp
            from pop[OF this] show ?thesis
              using l found(1,5,6) False nz l2 Some n set_size_ok[OF found(3)] by (auto simp: do_spop_def Let_def)
          qed
        qed
      qed
    qed
  qed (use l in \<open>auto simp: do_spop_def Let_def\<close>)
qed

lemma draw_out_ok:
  "sk_wf sn_key h \<Longrightarrow> draws_ok v \<Longrightarrow> n \<le> hm_size h \<Longrightarrow>
   \<exists>h' ns g'. draw_out v n h g = Some (h', ns, g') \<and> sk_wf sn_key h' \<and> hm_mset h = mset ns + hm_mset h' \<and> length ns = n \<and>
     elem_bytes h' = elem_bytes h \<and> core g' = core g"
proof (induction v n h g rule: draw_out.induct)
  case (2 v n h g)
  have s: "hm_size h \<noteq> 0" using 2(4) by auto
  obtain h1 x where t: "take_random v h g = Some (h1, x, g\<lparr>draws := draws g + 3\<rparr>)" "sk_wf sn_key h1"
    "hm_mset h = add_mset x (hm_mset h1)" "elem_bytes h1 = elem_bytes h" "hcode x = str_hash (sn_key (pay x))"
    "hm_size h = Suc (hm_size h1)"
    by (rule take_random_ok[OF 2(2) s 2(3)])
  have sz: "n \<le> hm_size h1" using t(6) 2(4) by simp
  show ?case using 2(1)[OF t(1) refl refl t(2) 2(3) sz] t by fastforce
qed auto

lemma put_back_ok:
  "hm_wf h \<Longrightarrow> size (hm_mset h) + length ns \<le> 2 ^ 60 \<Longrightarrow>
   hm_wf (foldl hm_insert h ns) \<and> hm_mset (foldl hm_insert h ns) = hm_mset h + mset ns \<and> elem_bytes (foldl hm_insert h ns) = elem_bytes h"
proof (induction ns arbitrary: h)
  case (Cons n ns)
  have "hm_room h" using Cons(3) by (simp add: hm_room_def)
  note i = hm_insert_ok[OF Cons(2) this, of n]
  then show ?case using Cons(1)[of "hm_insert h n"] Cons(3) by simp
qed simp

text \<open>Members taken out and put back leave the same set.\<close>

lemma put_back_set:
  assumes "set_wf h" "sk_wf sn_key h'" "hm_mset h = mset ns + hm_mset h'" "elem_bytes h' = elem_bytes h" "hm_size h \<le> 2 ^ 60"
  shows "set_wf (foldl hm_insert h' ns)" "set_abs (foldl hm_insert h' ns) = set_abs h"
    "elem_bytes (foldl hm_insert h' ns) = elem_bytes h" "distinct (map (\<lambda>n. sn_key (pay n)) ns)"
    "(\<lambda>n. sn_key (pay n)) ` set ns \<subseteq> set_abs h"
proof -
  let ?r = "foldl hm_insert h' ns"
  have wf: "hm_wf h" "hm_wf h'" "sk_wf sn_key h" using assms(1,2) by (auto simp: set_wf_def sk_wf_def)
  have "size (hm_mset h') + length ns \<le> 2 ^ 60" using hm_size_ok[OF wf(1)] assms(3,5) by simp
  note r = put_back_ok[OF wf(2) this]
  have ms: "hm_mset ?r = hm_mset h" "hm_wf ?r" "elem_bytes ?r = elem_bytes h" using r assms(3,4) by (simp_all add: add.commute)
  then have pl: "sk_payloads ?r = sk_payloads h" by (simp add: sk_payloads_def)
  have sw: "sk_wf sn_key ?r" unfolding sk_wf_iff[OF ms(2)] pl using wf(3)[unfolded sk_wf_iff[OF wf(1)]] ms by simp
  show "set_wf ?r" using sw assms(1) pl ms(3) by (simp add: set_wf_def)
  show "set_abs ?r = set_abs h" using sk_map_cong[OF wf(3) sw pl] by (simp add: set_abs_def)
  show "elem_bytes ?r = elem_bytes h" by (rule ms(3))
  have c: "count (mset (map (\<lambda>n. sn_key (pay n)) ns)) k \<le> 1" for k
  proof -
    have "image_mset sn_key (sk_payloads h) = mset (map (\<lambda>n. sn_key (pay n)) ns) + image_mset sn_key (sk_payloads h')"
      by (simp add: sk_payloads_def assms(3) multiset.map_comp comp_def)
    then have "count (mset (map (\<lambda>n. sn_key (pay n)) ns)) k \<le> count (image_mset sn_key (sk_payloads h)) k" by simp
    also have "\<dots> \<le> 1" using wf(3)[unfolded sk_wf_iff[OF wf(1)]] by blast
    finally show ?thesis .
  qed
  show "distinct (map (\<lambda>n. sn_key (pay n)) ns)"
    unfolding distinct_count_atmost_1 using c by (metis count_mset_0_iff le_less less_one)
  have "set_abs h = sn_key ` set_mset (sk_payloads h)" using sk.dom_amap[OF wf(3)] by (simp add: set_abs_def)
  then show "(\<lambda>n. sn_key (pay n)) ` set ns \<subseteq> set_abs h" using assms(3) by (auto simp: sk_payloads_def)
qed

lemma draw_with_ok:
  "set_wf h \<Longrightarrow> draws_ok v \<Longrightarrow> hm_size h \<noteq> 0 \<Longrightarrow>
   \<exists>ms g'. draw_with v n h g = Some (ms, g') \<and> length ms = n \<and> set ms \<subseteq> set_abs h \<and> core g' = core g"
proof (induction v n h g rule: draw_with.induct)
  case (2 v n h g)
  have w: "sk_wf sn_key h" "hm_wf h" using 2(2) by (auto simp: set_wf_def sk_wf_def)
  obtain x where x: "random_node v h g = (Some x, g\<lparr>draws := draws g + 3\<rparr>)" "x \<in># hm_mset h"
    by (rule random_node_some[OF w(2) 2(4,3)])
  have "set_abs h = sn_key ` set_mset (sk_payloads h)" using sk.dom_amap[OF w(1)] by (simp add: set_abs_def)
  then have "sn_key (pay x) \<in> set_abs h" using x(2) by (auto simp: sk_payloads_def)
  then show ?case using 2(1)[OF x(1)[symmetric] refl refl 2(2-4)] x(1) by auto
qed auto

lemma do_srandmember_ok:
  assumes "g_ok {} g" "draws_ok v" "fits v 0 g"
  shows "\<exists>g' rs. do_srandmember v cmd g = Some (g', rs) \<and> g_ok {} g' \<and> live v g' = live v g \<and>
    (let none = (if 3 \<le> length cmd then RArr 0 else RNil)
     in set_case (live v g (cmd ! 1)) (rs = [none]) (rs = [RErr MSG_WRONG])
          (\<lambda>s d. if s = {} then rs = [none]
                 else if length cmd = 2 then \<exists>m \<in> s. rs = [RStr m]
                 else case str2int (cmd ! 2) of
                   None \<Rightarrow> rs = [RErr MSG_NOT_INT]
                 | Some n \<Rightarrow>
                     if n = 0 then rs = [RArr 0]
                     else if n = INT64_MIN \<or> n < - k_max_args then rs = [RErr ''ERR count is out of range'']
                     else \<exists>ms. set ms \<subseteq> s \<and> (0 < n \<longrightarrow> distinct ms) \<and> length ms = (if 0 < n then min (nat n) (card s) else nat (- n)) \<and>
                       rs = RArr (of_nat (length ms)) # map RStr ms))"
proof -
  let ?k = "cmd ! 1"
  obtain g1 r where l: "lookup_entry v ?k T_SET False False g = (g1, r)" by fastforce
  from assms(1) l show ?thesis
  proof (cases rule: st.ro_cases)
    case (found a)
    let ?h = "entry_set g1 a"
    note z = set_size_0[OF found(3)]
    have big: "hm_size ?h \<le> 2 ^ 60" using fits_live[OF assms(3) found(6)] set_size_ok[OF found(3)] by simp
    have co: "g_ok {} g2" "live v g2 = live v g" if "core g2 = core g1" for g2
      using core_same(9)[OF that, of v] core_g_ok[OF that, of "{}"] found(4,5) by simp_all
    show ?thesis
    proof (cases "set_abs ?h = {}")
      case True
      then show ?thesis using l found z by (auto simp: do_srandmember_def Let_def)
    next
      case ne: False
      then have nz: "hm_size ?h \<noteq> 0" using z by simp
      show ?thesis
      proof (cases "length cmd = 2")
        case True
        obtain ms g2 where d: "draw_with v 1 ?h g1 = Some (ms, g2)" "length ms = 1" "set ms \<subseteq> set_abs ?h" "core g2 = core g1"
          using draw_with_ok[OF found(3) assms(2) nz] by blast
        obtain m where "ms = [m]" using d(2) by (cases ms) auto
        then have "do_srandmember v cmd g = Some (g2, [RStr m])" "m \<in> set_abs ?h"
          using l found(1) ne nz True d by (simp_all add: do_srandmember_def Let_def)
        then show ?thesis using co[OF d(4)] found(6) ne True by (auto simp: Let_def)
      next
        case l2: False
        show ?thesis
        proof (cases "str2int (cmd ! 2)")
          case None
          then show ?thesis using l found(1,4,5,6) ne nz l2 by (auto simp: do_srandmember_def Let_def)
        next
          case (Some n)
          consider "n = 0" | "0 < n" | "n < 0" "n = INT64_MIN \<or> n < - k_max_args" | "n < 0" "\<not> (n = INT64_MIN \<or> n < - k_max_args)" by linarith
          then show ?thesis
          proof cases
            case 1
            then show ?thesis using l found(1,4,5,6) ne nz l2 Some by (auto simp: do_srandmember_def Let_def)
          next
            case 2
            let ?n = "min (nat n) (hm_size ?h)"
            have w: "sk_wf sn_key ?h" using found(3) by (simp add: set_wf_def)
            obtain h ns g2 where d: "draw_out v ?n ?h g1 = Some (h, ns, g2)" "sk_wf sn_key h" "hm_mset ?h = mset ns + hm_mset h"
              "length ns = ?n" "elem_bytes h = elem_bytes ?h" "core g2 = core g1"
              using draw_out_ok[OF w assms(2), of ?n g1] by auto
            note b = put_back_set[OF found(3) d(2,3,5) big]
            let ?ms = "map (\<lambda>n. sn_key (pay n)) ns"
            have c: "at v g2 ?k a" "val_at g2 a = VSet (entry_set g2 a)" "entry_set g2 a = ?h"
              using core_same[OF d(6)] found(2,7) by (simp_all add: entry_set_def)
            have vm: "val_mem (VSet (foldl hm_insert h ns)) = val_mem (VSet (entry_set g2 a) :: 'a evalue)" using b(3) c(3) by (simp add: val_mem_def)
            note rf = st.refresh(1,2)[OF co(1)[OF d(6)] c(1,2) b(1) b(2)[folded c(3)] vm]
            have "do_srandmember v cmd g = Some (put_val a (VSet (foldl hm_insert h ns)) g2, RArr (of_nat ?n) # map RStr ?ms)"
              using l found(1) ne nz l2 Some 2 d(1) by (simp add: do_srandmember_def Let_def)
            moreover have "n \<noteq> INT64_MIN" "\<not> n < - k_max_args" using 2 by (auto simp: INT64_MIN_def k_max_args_def)
            moreover have "set ?ms \<subseteq> set_abs ?h" using b(5) by simp
            ultimately show ?thesis
              using rf co(2)[OF d(6)] found(6) ne l2 Some 2 b(4) d(4) set_size_ok[OF found(3)] by (auto simp: Let_def intro!: exI[of _ ?ms])
          next
            case 3
            then show ?thesis using l found(1,4,5,6) ne nz l2 Some by (auto simp: do_srandmember_def Let_def k_max_args_def)
          next
            case 4
            obtain ms g2 where d: "draw_with v (nat (- n)) ?h g1 = Some (ms, g2)" "length ms = nat (- n)" "set ms \<subseteq> set_abs ?h" "core g2 = core g1"
              using draw_with_ok[OF found(3) assms(2) nz] by blast
            have "do_srandmember v cmd g = Some (g2, RArr (of_nat (nat (- n))) # map RStr ms)"
              using l found(1) ne nz l2 Some 4 d(1) by (simp add: do_srandmember_def Let_def)
            then show ?thesis using co[OF d(4)] found(6) ne l2 Some 4 d(2,3) by (auto simp: Let_def intro!: exI[of _ ms])
          qed
        qed
      qed
    qed
  qed (use l in \<open>auto simp: do_srandmember_def Let_def\<close>)
qed

section \<open>Moving a member\<close>

lemma index_put_val: "g_ok S g \<Longrightarrow> at v g k a \<Longrightarrow> val_wf w \<Longrightarrow> index (put_val a w g) = index g"
proof -
  assume ok: "g_ok S g" and a: "at v g k a" and w: "val_wf w"
  have ix: "index g k = Some a" using a by (simp add: at_def)
  show ?thesis unfolding put_val_def by (rule put_ent_ok(3)[OF ok ix]) (simp_all add: w)
qed

text \<open>The source after the removal.\<close>

lemma smove_source:
  assumes ok: "g_ok {s} g" and s: "at v g k s" and w: "set_wf h"
  defines "g' \<equiv> if hm_size h = 0 then drop_entry v s (put_val s (VSet h) g) else mem_reaccount s (put_val s (VSet h) g)"
  shows "g_ok {} g'" "live v g' = put_set k (set_abs h) (ttl_of (heap g) s) (live v g)" "j \<noteq> k \<Longrightarrow> index g' j = index g j"
    "card (dom (ents g')) \<le> card (dom (ents g))"
proof -
  let ?g = "put_val s (VSet h) g"
  have vw: "val_wf (VSet h)" using w by simp
  note p = put_val_ok[OF ok s vw]
  have ok': "g_ok {s} ?g" using p(1) by simp
  have i: "index ?g k = Some s" using p(2) by (simp add: at_def)
  note d = drop_entry_ok[OF ok' i, where v = v]
  have ad: "s \<in> dom (ents ?g)" using at_addr[OF ok' p(2)] by simp
  note m = mem_reaccount_ok[OF ok' ad]
  show "g_ok {} g'" "live v g' = put_set k (set_abs h) (ttl_of (heap g) s) (live v g)"
    using st.discard[OF ok s w, of 0] st.commit[OF ok s w, of 0] set_size_0[OF w] by (simp_all add: g'_def put_set_def)
  show "index g' j = index g j" if "j \<noteq> k" using that d(4) m(4) index_put_val[OF ok s vw] by (simp add: g'_def)
  have "card (dom (ents ?g) - {s}) \<le> card (dom (ents ?g))" by (rule card_Diff1_le)
  then show "card (dom (ents g')) \<le> card (dom (ents g))" using d(3) p(6) by (simp add: g'_def)
qed

lemma do_smove_ok:
  assumes "g_ok {} g" "fits v 1 g" "do_smove v cmd g = (g', rs)"
  defines "src \<equiv> cmd ! 1" and "dst \<equiv> cmd ! 2" and "m \<equiv> cmd ! 3"
  shows "g_ok {} g' \<and> (live v g', rs) =
    set_case (live v g src) (live v g, [RInt 0]) (live v g, [RErr MSG_WRONG])
      (\<lambda>s d. if wrong_type T_SET (live v g dst) then (live v g, [RErr MSG_WRONG])
             else if m \<notin> s then (live v g, [RInt 0])
             else if src = dst then (live v g, [RInt 1])
             else (put_set dst (insert m (the_set (live v g dst))) (cur_dl (live v g dst)) (put_set src (s - {m}) d (live v g)), [RInt 1]))"
proof -
  obtain g1 r where l: "lookup_entry v src T_SET False False g = (g1, r)" by fastforce
  from assms(1) l show ?thesis
  proof (cases rule: st.ro_cases)
    case (found s)
    let ?s = "set_abs (entry_set g1 s)" and ?d = "ttl_of (heap g1) s"
    obtain g2 q where q: "lookup_set_ro v dst g1 = (g2, q)" by fastforce
    note qq = lookup_set_ro_ok[OF found(4) q]
    have ok2: "g_ok {} g2" "live v g2 = live v g" "at v g2 src s" "card (dom (ents g2)) \<le> card (dom (ents g))"
      using qq(1) found(2,5,8) by (auto simp: calm_def)
    note t = at_set[OF ok2(1,3), unfolded ok2(2), OF found(6)]
    obtain h b where h: "set_is_member (entry_set g2 s) m = (h, b)" by fastforce
    note rd = set_read[OF ok2(1,3) t(1,2) h]
    let ?g3 = "put_val s (VSet h) g2"
    show ?thesis
    proof (cases "wrong_type T_SET (live v g dst) \<or> m \<notin> ?s \<or> src = dst")
      case True
      have "b \<longleftrightarrow> m \<in> ?s" using rd(8) t(3) by simp
      then show ?thesis using assms(3) l found(1,5,6) q qq(2) h rd(1,2) ok2 True
        by (auto simp: do_smove_def src_def dst_def m_def)
    next
      case False
      then have nw: "\<not> wrong_type T_SET (live v g dst)" and ms: "m \<in> ?s" and sd: "src \<noteq> dst" by auto
      have bt: b using rd(8) t(3) ms by simp
      obtain h2 c where h2: "set_remove h m = (h2, c)" by fastforce
      note rm = set_remove_ok[OF rd(6) h2]
      have w2: "set_wf h2" "set_abs h2 = ?s - {m}" using rm rd(7) t(3) by auto
      have ok3: "g_ok {s} ?g3" by (rule g_ok_mono[OF rd(1)]) simp
      note sr = smove_source[OF ok3 rd(3) w2(1)]
      let ?g4 = "if hm_size h2 = 0 then drop_entry v s (put_val s (VSet h2) ?g3) else mem_reaccount s (put_val s (VSet h2) ?g3)"
      have lv4: "live v ?g4 = put_set src (?s - {m}) ?d (live v g)" using sr(2) rd(2,5) ok2(2) w2(2) t(4) by simp
      have ix: "index ?g4 dst = index g2 dst" using sr(3)[of dst] sd index_put_val[OF ok2(1,3), of "VSet h"] rd(6) by simp
      have cd4: "card (dom (ents ?g4)) < 2 ^ 60" using sr(4) rd(10) ok2(4) fits_card[OF assms(2)] by simp
      have fin: "g_ok {} g' \<and> live v g' = (live v g5)(dst \<mapsto> (ASet (insert m (set_abs (entry_set g5 a))), ttl_of (heap g5) a)) \<and> rs = [RInt 1]"
        if e: "(case q of LOk a \<Rightarrow> (?g4, a) | _ \<Rightarrow> new_set_entry dst ?g4) = (g5, a)"
          and a: "g_ok {a} g5" "at v g5 dst a" "set_wf (entry_set g5 a)" "card (set_abs (entry_set g5 a)) < 2 ^ 60" for g5 a
      proof -
        obtain h5 n where s5: "set_add (entry_set g5 a) (str_new m) = (h5, n)" by fastforce
        have "hm_room (entry_set g5 a)" using set_room[OF a(3)] a(4) by simp
        note s = set_add_ok[OF a(3) this s5]
        have w5: "set_wf h5" using s by simp
        have "g' = wrote 1 (mem_reaccount a (put_val a (VSet h5) g5))" "rs = [RInt 1]"
          using assms(3) l found(1,5) q qq(2) nw h bt h2 sd e s5 unfolding src_def dst_def m_def
          by (simp_all add: do_smove_def Let_def)
        then show ?thesis using st.commit[OF a(1,2) w5, of 1] s by simp
      qed
      show ?thesis
      proof (cases "live v g dst")
        case None
        then have "q = LMissing" using qq(3) found(5) by simp
        then have i: "index ?g4 dst = None" using ix qq(5) by simp
        obtain g5 a where e: "new_set_entry dst ?g4 = (g5, a)" by fastforce
        have rm: "g_room ?g4" unfolding g_room_def by (rule cd4)
        note n = new_set_entry_ok[OF sr(1) i rm e]
        have e': "(case q of LOk a \<Rightarrow> (?g4, a) | _ \<Rightarrow> new_set_entry dst ?g4) = (g5, a)" using \<open>q = LMissing\<close> e by simp
        show ?thesis
          using fin[OF e' n(1,2,4)] n(5) n(6)[of v] n(7) lv4 None found(6) nw ms sd by (simp add: put_set_def[of dst])
      next
        case (Some x)
        then obtain t d where sd2: "live v g dst = Some (ASet t, d)" using not_wrong_set[OF nw] by auto
        have "q \<noteq> LMissing" "q \<noteq> LWrongType" using qq(2,3) found(5) nw Some by auto
        then obtain a where qa: "q = LOk a" by (cases q) auto
        have l4: "live v ?g4 dst = Some (ASet t, d)" using lv4 sd sd2 by (simp add: put_set_def)
        have "at v g2 dst a" by (rule qq(4)[OF qa])
        then have "index ?g4 dst = Some a" using ix by (simp add: at_def)
        then have a4: "at v ?g4 dst a" using l4 by (auto simp: at_def live_def split: if_splits)
        note t4 = at_set[OF sr(1) a4 l4]
        have ok4: "g_ok {a} ?g4" by (rule g_ok_mono[OF sr(1)]) simp
        have "card t < 2 ^ 60" using fits_live[OF assms(2) sd2] by simp
        then have c4: "card (set_abs (entry_set ?g4 a)) < 2 ^ 60" using t4(3) by simp
        have e': "(case q of LOk a \<Rightarrow> (?g4, a) | _ \<Rightarrow> new_set_entry dst ?g4) = (?g4, a)" using qa by simp
        show ?thesis
          using fin[OF e' ok4 a4 t4(2) c4] lv4 t4(3,4) sd2 found(6) nw ms sd by (simp add: put_set_def[of dst])
      qed
    qed
  qed (use assms(3) l in \<open>auto simp: do_smove_def src_def\<close>)
qed

section \<open>Sets: what the commands guarantee\<close>

lemma set_stores_ok:
  assumes "g_ok {} g" and "fits v 1 g" and "2 < length cmd" and "card (union_spec (drop 2 cmd) (live v g)) \<le> 2 ^ 60"
  shows "\<forall>(f, S) \<in> {(do_sinterstore, inter_spec), (do_sunionstore, union_spec), (do_sdiffstore, diff_spec)}.
    case f v cmd g of (g', rs) \<Rightarrow> g_ok {} g' \<and> (live v g', rs) =
      (if \<exists>k \<in> set (drop 2 cmd). wrong_type T_SET (live v g k) then (live v g, [RErr MSG_WRONG])
       else (put_set (cmd ! 1) (S (drop 2 cmd) (live v g)) None (live v g), [RInt (int (card (S (drop 2 cmd) (live v g))))]))"
proof -
  let ?ks = "drop 2 cmd" and ?m = "live v g"
  have ne: "?ks \<noteq> []" using assms(3) by simp
  have room: "card (dom (ents g)) < 2 ^ 60" using fits_card[OF assms(2)] by simp
  have hd: "hd ?ks \<in> set ?ks" using ne by (rule hd_in_set)
  have small: "card S \<le> 2 ^ 60" if nw: "\<not> wrong_type T_SET (?m (hd ?ks))" and S: "S \<subseteq> the_set (?m (hd ?ks))" for S
  proof (cases "?m (hd ?ks)")
    case (Some x)
    then obtain s d where sd: "?m (hd ?ks) = Some (ASet s, d)" using not_wrong_set[OF nw] by auto
    obtain a where a: "at v g (hd ?ks) a" using live_at[OF sd] by blast
    note t = at_set[OF assms(1) a sd]
    have "finite s" using set_finite[OF t(2)] t(3) by simp
    then have "card S \<le> card s" using S sd by (auto intro: card_mono)
    then show ?thesis using fits_live[OF assms(2) sd] by simp
  qed (use S in simp)
  have i: "inter_spec ?ks ?m \<subseteq> the_set (?m (hd ?ks))" using hd by (auto simp: inter_spec_def)
  have d: "diff_spec ?ks ?m \<subseteq> the_set (?m (hd ?ks))" by (auto simp: diff_spec_def)
  obtain g1 r1 where e1: "sinter_impl v ?ks g = (g1, r1)" by fastforce
  obtain g2 r2 where e2: "sunion_impl v ?ks g = (g2, r2)" by fastforce
  obtain g3 r3 where e3: "sdiff_impl v ?ks g = (g3, r3)" by fastforce
  let ?bad = "\<exists>k \<in> set ?ks. wrong_type T_SET (?m k)"
  have go: "case store_or_err v (cmd ! 1) (g1, r) of (g', rs) \<Rightarrow> g_ok {} g' \<and> (live v g', rs) =
      (if ?bad then (?m, [RErr MSG_WRONG]) else (put_set (cmd ! 1) S None ?m, [RInt (int (card S))]))"
    if c: "calm v g g1 \<and> (if ?bad then r = None else \<exists>ms. r = Some ms \<and> distinct ms \<and> set ms = S)" and s: "?bad \<or> card S \<le> 2 ^ 60" for g1 r S
  proof -
    obtain g' rs where q: "store_or_err v (cmd ! 1) (g1, r) = (g', rs)" by fastforce
    show ?thesis
    proof (cases ?bad)
      case True
      then show ?thesis using c by (simp add: store_or_err_def calm_def)
    next
      case False
      then have "card S \<le> 2 ^ 60" using s by blast
      from store_or_err_ok[OF c room this q] show ?thesis using q by simp
    qed
  qed
  have "?bad \<or> card (inter_spec ?ks ?m) \<le> 2 ^ 60" "?bad \<or> card (diff_spec ?ks ?m) \<le> 2 ^ 60" using small[OF _ i] small[OF _ d] hd by blast+
  then show ?thesis
    using go[of g1 r1 "inter_spec ?ks ?m"] go[of g2 r2 "union_spec ?ks ?m"] go[of g3 r3 "diff_spec ?ks ?m"] assms(4)
      sinter_impl_ok[OF assms(1) ne e1] sunion_impl_ok[OF assms(1) e2] sdiff_impl_ok[OF assms(1) ne e3] e1 e2 e3
    by (auto simp: do_sinterstore_def do_sunionstore_def do_sdiffstore_def inter_spec_def union_spec_def diff_spec_def split: if_splits)
qed

text \<open>
  C27. \<open>SINTERSTORE\<close>, \<open>SUNIONSTORE\<close> and \<open>SDIFFSTORE\<close> store the intersection, union and difference of the sets
  their keys held before the command, also when the destination is one of the sources, without a deadline and
  whatever the destination was; the reply is the size, an empty result removes the destination, and a source
  of another type leaves everything as it was.
\<close>

theorem set_stores_exact:
  assumes "g_ok {} g" and "fits v 1 g" and "2 < length cmd" and "card (union_spec (drop 2 cmd) (live v g)) \<le> 2 ^ 60"
  shows "\<forall>(f, S) \<in> {(do_sinterstore, inter_spec), (do_sunionstore, union_spec), (do_sdiffstore, diff_spec)}.
    case f v cmd g of (g', rs) \<Rightarrow> g_ok {} g' \<and> (live v g', rs) =
      (if \<exists>k \<in> set (drop 2 cmd). wrong_type T_SET (live v g k) then (live v g, [RErr MSG_WRONG])
       else (put_set (cmd ! 1) (S (drop 2 cmd) (live v g)) None (live v g), [RInt (int (card (S (drop 2 cmd) (live v g))))]))"
  using set_stores_ok[OF assms] .

definition g_set :: "'s gdata" where
  "g_set = fst (do_sadd env_start [''sadd'', ''a'', ''x'', ''y''] gdata_init)"

lemma g_set_ok: "g_ok {} (g_set :: ('s :: linorder) gdata)"
  "live env_start (g_set :: 's gdata) = [''a'' \<mapsto> (ASet {''x'', ''y''}, None)]" "n < 2 ^ 32 \<Longrightarrow> fits env_start n (g_set :: 's gdata)"
proof -
  let ?cmd = "[''sadd'', ''a'', ''x'', ''y'']" and ?g = "gdata_init :: 's gdata"
  have r: "do_sadd env_start ?cmd ?g = (g_set, snd (do_sadd env_start ?cmd ?g))" by (simp add: g_set_def)
  have f: "fits env_start (length ?cmd) ?g" by simp
  note s = do_sadd_ok[OF gdata_init_ok f _ r]
  show "g_ok {} (g_set :: 's gdata)" using s by simp
  show l: "live env_start (g_set :: 's gdata) = [''a'' \<mapsto> (ASet {''x'', ''y''}, None)]"
    using s by (simp add: put_set_def)
  obtain g1 q where lk: "lookup_entry env_start ''a'' T_SET True False ?g = (g1, q)" by fastforce
  have rm: "g_room ?g" by (rule fits_room[OF f]) simp
  have "card (dom (ents g1)) \<le> 1" using lookup_rw_ok(5)[OF gdata_init_ok rm lk] by (simp add: gdata_init_def)
  moreover have "dom (ents (g_set :: 's gdata)) = dom (ents g1)"
    using lk by (cases q) (simp_all add: g_set_def do_sadd_def Let_def split_beta)
  ultimately show "fits env_start n (g_set :: 's gdata)" if "n < 2 ^ 32" using that
    by (auto simp: fits_def l card_insert_if split: if_splits)
qed

theorem set_stores_exact_witness:
  "g_ok {} (g_set :: nat gdata) \<and> fits env_start 1 (g_set :: nat gdata) \<and>
   card (union_spec [''a'', ''b''] (live env_start (g_set :: nat gdata))) \<le> 2 ^ 60 \<and>
   live env_start (fst (do_sdiffstore env_start [''sdiffstore'', ''a'', ''a'', ''b''] (g_set :: nat gdata))) =
     [''a'' \<mapsto> (ASet {''x'', ''y''}, None)] \<and>
   live env_start (fst (do_sinterstore env_start [''sinterstore'', ''a'', ''a'', ''b''] (g_set :: nat gdata))) = Map.empty"
proof -
  let ?ks = "[''a'', ''b'']" and ?m = "live env_start (g_set :: nat gdata)"
  note l = g_set_ok(2)[where 's = nat]
  have u: "union_spec ?ks ?m = {''x'', ''y''}" "inter_spec ?ks ?m = {}" "diff_spec ?ks ?m = {''x'', ''y''}"
    unfolding union_spec_def inter_spec_def diff_spec_def l by auto
  have f: "fits env_start 1 (g_set :: nat gdata)" by (rule g_set_ok(3)) simp
  have w: "\<not> (\<exists>k \<in> set ?ks. wrong_type T_SET (?m k))" by (simp add: l wrong_type_def)
  have c: "card (union_spec ?ks ?m) \<le> 2 ^ 60" unfolding u by simp
  note s = set_stores_exact[OF g_set_ok(1) f, of "[x, ''a'', ''a'', ''b'']" for x]
  have "live env_start (fst (do_sdiffstore env_start [''sdiffstore'', ''a'', ''a'', ''b''] (g_set :: nat gdata))) =
      put_set ''a'' (diff_spec ?ks ?m) None ?m"
    using s[of "''sdiffstore''"] c w by (auto simp: split_beta)
  moreover have "live env_start (fst (do_sinterstore env_start [''sinterstore'', ''a'', ''a'', ''b''] (g_set :: nat gdata))) =
      put_set ''a'' (inter_spec ?ks ?m) None ?m"
    using s[of "''sinterstore''"] c w by (auto simp: split_beta)
  ultimately show ?thesis using f c g_set_ok(1)[where 's = nat] unfolding u by (auto simp: put_set_def l)
qed

text \<open>
  C28. \<open>SPOP\<close> is random on the server that runs it and must not be on the others: with a positive count it removes that many
  distinct members, or all when there are fewer, returns exactly them, and propagates one \<open>SREM\<close> with them; that \<open>SREM\<close> run on
  the state before leads to the same keys and values as the \<open>SPOP\<close>.
\<close>

theorem spop_propagates_srem:
  assumes "g_ok {} g" and "draws_ok v" and "live v g k = Some (ASet s, d)" and "s \<noteq> {}" and "str2int c = Some n" and "0 < n"
  shows "\<exists>g' ms. do_spop v [name, k, c] g = Some (g', RSet (of_nat (length ms)) # map RStr ms) \<and>
    distinct ms \<and> set ms \<subseteq> s \<and> length ms = min (nat n) (card s) \<and> g_ok {} g' \<and>
    hd (events g') = E_Feed (''srem'' # k # ms) \<and>
    live v g' = live v (fst (do_srem v (''srem'' # k # ms) g)) \<and>
    snd (do_srem v (''srem'' # k # ms) g) = [RInt (int (length ms))]"
proof -
  obtain g' rs where p: "do_spop v [name, k, c] g = Some (g', rs)" "g_ok {} g'"
    and q: "\<exists>ms. distinct ms \<and> set ms \<subseteq> s \<and> length ms = min (nat n) (card s) \<and>
      live v g' = put_set k (s - set ms) d (live v g) \<and> hd (events g') = E_Feed (''srem'' # k # ms) \<and>
      rs = RSet (of_nat (min (nat n) (card s))) # map RStr ms"
    using do_spop_ok[OF assms(1,2), of "[name, k, c]"] assms(3-6) by (auto simp: Let_def)
  then obtain ms where m: "distinct ms" "set ms \<subseteq> s" "length ms = min (nat n) (card s)"
      "live v g' = put_set k (s - set ms) d (live v g)" "hd (events g') = E_Feed (''srem'' # k # ms)"
      "rs = RSet (of_nat (length ms)) # map RStr ms" by auto
  obtain g2 r2 where r: "do_srem v (''srem'' # k # ms) g = (g2, r2)" by fastforce
  have "set ms \<inter> s = set ms" using m(2) by auto
  then show ?thesis
    using p m r do_srem_ok[OF assms(1) r] assms(3) distinct_card[OF m(1)] by (auto intro!: exI[of _ ms])
qed

theorem spop_propagates_srem_witness:
  "g_ok {} (g_set :: nat gdata) \<and> draws_ok env_start \<and>
   (\<exists>g' ms. do_spop env_start [''spop'', ''a'', ''5''] (g_set :: nat gdata) = Some (g', RSet (of_nat (length ms)) # map RStr ms) \<and>
     length ms = 2 \<and> set ms \<subseteq> {''x'', ''y''} \<and> hd (events g') = E_Feed (''srem'' # ''a'' # ms))"
proof -
  have d: "draws_ok env_start" by (simp add: draws_ok_def env_start_def)
  have p: "str2int ''5'' = Some 5" by (simp add: str2int_def char_eval)
  have l: "live env_start (g_set :: nat gdata) ''a'' = Some (ASet {''x'', ''y''}, None)" using g_set_ok(2)[where 's = nat] by simp
  from spop_propagates_srem[OF g_set_ok(1) d l _ p, of "''spop''"] show ?thesis using d g_set_ok(1)[where 's = nat] by auto
qed

end
