(* ===== verification/Evict.thy ===== *)
theory Evict
  imports Cmd_Set
begin

text \<open>
  What removes keys without a command: the expiry timers of \<open>process_timers\<close> (\<open>server/server.cpp\<close>) and the eviction
  loop \<open>free_memory_if_needed\<close> with \<open>evict_tick\<close> (\<open>commands/commands.cpp\<close>). The choice of a victim, \<open>evict_pick_victim\<close>, is in the theory State.
\<close>

section \<open>Model\<close>

definition k_max_works :: nat where
  "k_max_works = 2000"

text \<open>The loop over due timers; the entry is the one the root of the heap refers to.\<close>

function expire_timers :: "env \<Rightarrow> nat \<Rightarrow> 's gdata \<Rightarrow> 's gdata" where
  "expire_timers v nworks g =
     (if items (heap g) \<noteq> [] \<and> val (items (heap g) ! 0) \<le> mono v then
        let a = ref (items (heap g) ! 0);
            g = db_unlink a g;
            g = entry_del v a (emit (E_Notify NOTIFY_EXPIRED ''expired'' (key_at g a)) g)
        in if k_max_works \<le> nworks then g else expire_timers v (nworks + 1) g
      else g)"
  by pat_completeness auto
termination by (relation "measure (\<lambda>(v, nworks, g). k_max_works - nworks)") auto

declare expire_timers.simps [simp del]

text \<open>
  \<open>while (used_memory > maxmemory && --attempts > 0)\<close>; the flag is whether the loop was left in the regular way and not
  because there was no victim.
\<close>

fun evict_loop :: "env \<Rightarrow> nat \<Rightarrow> 's gdata \<Rightarrow> 's gdata \<times> bool" where
  "evict_loop v 0 g = (g, True)"
| "evict_loop v (Suc attempts) g =
     (if maxmemory (cfg v) < used_memory g \<and> 0 < attempts then
        let (victim, g) = evict_pick_victim v g
        in case victim of
             None \<Rightarrow> (g\<lparr>evict_pending := False\<rparr>, False)
           | Some a \<Rightarrow>
               (let k = key_at g a;
                    g = emit (E_Feed [''del'', k]) g;
                    g = emit (E_Notify NOTIFY_EVICTED ''evicted'' k) g;
                    g = emit (E_Touch k) g;
                    g = drop_entry v a g;
                    g = g\<lparr>evicted_keys := evicted_keys g + 1\<rparr>
                in evict_loop v attempts (wrote 1 g))
      else (g, True))"

definition free_memory_if_needed :: "env \<Rightarrow> 's gdata \<Rightarrow> 's gdata \<times> bool" where
  "free_memory_if_needed v g =
     (if maxmemory (cfg v) = 0 then (g\<lparr>evict_pending := False\<rparr>, True)
      else if loading v then (g, True)
      else if used_memory g \<le> maxmemory (cfg v) then (g\<lparr>evict_pending := False\<rparr>, True)
      else if policy (cfg v) = NOEVICTION then (g\<lparr>evict_pending := False\<rparr>, False)
      else let (g, ok) = evict_loop v 100 g
           in if \<not> ok then (g, False)
              else if used_memory g \<le> maxmemory (cfg v) then (g\<lparr>evict_pending := False\<rparr>, True)
              else (g\<lparr>evict_pending := True\<rparr>, True))"

definition evict_tick :: "env \<Rightarrow> 's gdata \<Rightarrow> 's gdata" where
  "evict_tick v g = (if evict_pending g then fst (free_memory_if_needed v g) else g)"

section \<open>Timers\<close>

lemma root_entry:
  assumes "g_ok {} g" "items (heap g) \<noteq> []"
  shows "ref (items (heap g) ! 0) \<in> dom (ents g)"
    "ttl_of (heap g) (ref (items (heap g) ! 0)) = Some (val (items (heap g) ! 0))"
proof -
  have "refs_ok (items (heap g)) (heap_idx (heap g))" using g_okD(3)[OF assms(1)] by (simp add: heap_inv_def)
  then show t: "ttl_of (heap g) (ref (items (heap g) ! 0)) = Some (val (items (heap g) ! 0))"
    using assms(2) ttl_of_iff by (metis length_greater_0_conv nth_mem)
  show "ref (items (heap g) ! 0) \<in> dom (ents g)" using t g_okD(4)[OF assms(1)] by blast
qed

lemma unlink_emit: "db_unlink a (emit e g) = emit e (db_unlink a g)" "key_at (db_unlink a g) b = key_at g b"
  by (simp_all add: db_unlink_def emit_def key_at_def ent_at_def)

lemma expire_timers_ok:
  "g_ok {} g \<Longrightarrow> g_ok {} (expire_timers v n g) \<and> live v (expire_timers v n g) = live v g \<and>
   dom (ents (expire_timers v n g)) \<subseteq> dom (ents g)"
proof (induction v n g rule: expire_timers.induct)
  case (1 v n g)
  let ?i = "items (heap g)" and ?a = "ref (items (heap g) ! 0)"
  show ?case
  proof (cases "?i \<noteq> [] \<and> val (?i ! 0) \<le> mono v")
    case True
    let ?e = "emit (E_Notify NOTIFY_EXPIRED ''expired'' (key_at g ?a)) g" and ?g1 = "entry_del v ?a (emit (E_Notify NOTIFY_EXPIRED ''expired'' (key_at (db_unlink ?a g) ?a)) (db_unlink ?a g))"
    have eq: "?g1 = drop_entry v ?a ?e" by (simp add: drop_entry_def unlink_emit)
    note r = root_entry[OF 1(2)]
    have ix: "index ?e (key_at g ?a) = Some ?a" using index_key[OF 1(2) r(1)] True by (simp add: core_same[OF core_simps(4)])
    have oke: "g_ok {} ?e" using 1(2) by (simp add: core_g_ok[OF core_simps(4)])
    note d = drop_entry_ok[OF oke ix, where v = v]
    have "live v g (key_at g ?a) = None" using index_key[OF 1(2) r(1)] r(2) True by (auto simp: live_def expired_def)
    then have g1: "g_ok {} ?g1" "live v ?g1 = live v g" "dom (ents ?g1) \<subseteq> dom (ents g)"
      unfolding eq using d(1-3) by (auto simp: core_same[OF core_simps(4)] fun_upd_idem)
    have "expire_timers v n g = (if k_max_works \<le> n then ?g1 else expire_timers v (n + 1) ?g1)"
      using True by (subst expire_timers.simps) (simp add: Let_def)
    then show ?thesis using g1 1(1)[OF True refl refl refl _ g1(1)] by auto
  next
    case False
    then have "expire_timers v n g = g" by (subst expire_timers.simps) (simp only: if_False)
    then show ?thesis using 1(2) by simp
  qed
qed

section \<open>Victims\<close>

definition volatile_policy :: "env \<Rightarrow> bool" where
  "volatile_policy v \<longleftrightarrow> policy (cfg v) \<in> {VOLATILE_LRU, VOLATILE_LFU, VOLATILE_RANDOM, VOLATILE_TTL}"

text \<open>An entry that may be taken, and the absence of such entries.\<close>

definition takeable :: "bool \<Rightarrow> 's gdata \<Rightarrow> addr \<Rightarrow> bool" where
  "takeable vol g a \<longleftrightarrow> a \<in> dom (ents g) \<and> (vol \<longrightarrow> ttl_of (heap g) a \<noteq> None)"

definition nothing_left :: "bool \<Rightarrow> 's gdata \<Rightarrow> bool" where
  "nothing_left vol g \<longleftrightarrow> (if vol then ttl_of (heap g) = Map.empty else ents g = Map.empty)"

definition untouched :: "'s gdata \<Rightarrow> 's gdata \<Rightarrow> bool" where
  "untouched g g' \<longleftrightarrow> core g' = core g \<and> evicted_keys g' = evicted_keys g"

lemma untouched_takeable: "untouched g g' \<Longrightarrow> takeable vol g' a = takeable vol g a" "untouched g g' \<Longrightarrow> nothing_left vol g' = nothing_left vol g"
  using core_same(1,2)[of g' g] by (simp_all add: untouched_def takeable_def nothing_left_def)

lemma empty_heap: "items h = [] \<Longrightarrow> ttl_of h = Map.empty"
  by (simp add: ttl_of_def)

lemma volatile_draw:
  assumes "g_ok {} g" "draws_ok v" "volatile_random_entry v g = (e, g1)"
  shows "untouched g g1 \<and> (case e of Some a \<Rightarrow> takeable True g a | None \<Rightarrow> nothing_left True g)"
proof (cases "items (heap g) = []")
  case False
  let ?i = "rnd v (draws g) (length (items (heap g)))"
  have i: "?i < length (items (heap g))" using assms(2) False by (simp add: draws_ok_def)
  have e: "e = Some (ref (items (heap g) ! ?i))" "g1 = g\<lparr>draws := draws g + 1\<rparr>"
    using assms(3) False by (auto simp: volatile_random_entry_def rand_idx_def)
  have "refs_ok (items (heap g)) (heap_idx (heap g))" using g_okD(3)[OF assms(1)] by (simp add: heap_inv_def)
  then have "ttl_of (heap g) (ref (items (heap g) ! ?i)) = Some (val (items (heap g) ! ?i))" using i ttl_of_iff by (metis nth_mem)
  then show ?thesis using e g_okD(4)[OF assms(1)] by (auto simp: takeable_def untouched_def)
qed (use assms(3) in \<open>auto simp: volatile_random_entry_def untouched_def nothing_left_def empty_heap\<close>)

lemma db_draw:
  assumes "g_ok {} g" "draws_ok v" "db_random_entry v g = (e, g1)"
  shows "untouched g g1 \<and> (case e of Some a \<Rightarrow> takeable False g a | None \<Rightarrow> nothing_left False g)"
proof (cases "hm_size (db g) = 0")
  case True
  have "sk_payloads (db g) = {#}" using True hm_size_ok[OF g_okD(7)[OF assms(1)]] by (simp add: sk_payloads_def)
  then have "dom (ents g) = {}" using g_okD(2)[OF assms(1)] by simp
  then have "ents g = Map.empty" by simp
  moreover have "e = None" "g1 = g\<lparr>draws := draws g + 3\<rparr>"
    using True assms(3) by (auto simp: db_random_entry_def random_node_def hm_random_def hm_size_def)
  ultimately show ?thesis by (simp add: untouched_def nothing_left_def)
next
  case False
  obtain n where n: "random_node v (db g) g = (Some n, g\<lparr>draws := draws g + 3\<rparr>)" "n \<in># hm_mset (db g)"
    by (rule random_node_some[OF g_okD(7)[OF assms(1)] False assms(2)])
  have "pay n \<in> dom (ents g)" using n(2) g_okD(2)[OF assms(1)] by (auto simp: sk_payloads_def)
  then show ?thesis using n(1) assms(3) by (auto simp: db_random_entry_def untouched_def takeable_def)
qed

lemma evict_sample_some: "best \<noteq> None \<Longrightarrow> fst (evict_sample v vol n best g) \<noteq> None"
proof (induction n arbitrary: best g)
  case (Suc n)
  obtain d g2 where d: "(if vol then volatile_random_entry v g else db_random_entry v g) = (d, g2)" by fastforce
  obtain b where b: "best = Some b" using Suc(2) by auto
  show ?case
  proof (cases d)
    case None
    then show ?thesis using d b by simp
  next
    case (Some a)
    have "fst (evict_sample v vol n (Some x) g2) \<noteq> None" for x by (rule Suc(1)) simp
    then show ?thesis using d Some b by (simp add: Let_def split_beta)
  qed
qed auto

lemma evict_sample_ok:
  assumes "g_ok {} g" "draws_ok v" "evict_sample v vol n best g = (e, g1)" "\<forall>p \<in> set_option best. takeable vol g (fst p)"
  shows "untouched g g1 \<and> (case e of Some a \<Rightarrow> takeable vol g a | None \<Rightarrow> n = 0 \<or> nothing_left vol g)"
  using assms
proof (induction n arbitrary: best g)
  case 0
  then show ?case by (auto simp: untouched_def split: option.splits)
next
  case (Suc n)
  obtain d g2 where d: "(if vol then volatile_random_entry v g else db_random_entry v g) = (d, g2)" by fastforce
  have "untouched g g2 \<and> (case d of Some a \<Rightarrow> takeable vol g a | None \<Rightarrow> nothing_left vol g)"
  proof (cases vol)
    case True
    then have "volatile_random_entry v g = (d, g2)" using d by simp
    from volatile_draw[OF Suc(2,3) this] True show ?thesis by (cases d) simp_all
  next
    case False
    then have "db_random_entry v g = (d, g2)" using d by simp
    from db_draw[OF Suc(2,3) this] False show ?thesis by (cases d) simp_all
  qed
  then have dr: "untouched g g2" "case d of Some a \<Rightarrow> takeable vol g a | None \<Rightarrow> nothing_left vol g" by simp_all
  have ok2: "g_ok {} g2" using Suc(2) dr(1) core_g_ok[of g2 g "{}"] by (simp add: untouched_def)
  show ?case
  proof (cases d)
    case None
    then have "e = map_option fst best" "g1 = g2" using Suc(4) d by (auto simp: Let_def)
    then show ?thesis using Suc(5) dr None by (cases best) auto
  next
    case (Some a)
    define best' where "best' = (case best of None \<Rightarrow> Some (a, evict_score v g2 a)
      | Some (b, bs) \<Rightarrow> if bs < evict_score v g2 a then Some (a, evict_score v g2 a) else Some (b, bs))"
    have r: "evict_sample v vol n best' g2 = (e, g1)" using Suc(4) d Some by (simp add: best'_def Let_def)
    have ne: "best' \<noteq> None" by (auto simp: best'_def split: option.splits)
    have b: "\<forall>p \<in> set_option best'. takeable vol g2 (fst p)"
      using Suc(5) dr Some untouched_takeable[OF dr(1)] by (auto simp: best'_def split: option.splits if_splits)
    have som: "e \<noteq> None" using evict_sample_some[OF ne, of v vol n g2] r by simp
    show ?thesis using Suc(1)[OF ok2 Suc(3) r b] dr(1) som untouched_takeable[OF dr(1)]
      by (cases e) (auto simp: untouched_def)
  qed
qed

lemma victim_ok:
  assumes "g_ok {} g" "draws_ok v" "evict_pick_victim v g = (e, g1)"
  shows "untouched g g1 \<and>
    (case e of Some a \<Rightarrow> takeable (volatile_policy v) g a
     | None \<Rightarrow> policy (cfg v) = NOEVICTION \<or> maxmemory_samples (cfg v) \<le> 0 \<or> nothing_left (volatile_policy v) g)"
proof (cases "policy (cfg v)")
  case NOEVICTION
  then show ?thesis using assms(3) by (auto simp: evict_pick_victim_def untouched_def)
next
  case ALLKEYS_RANDOM
  then show ?thesis using db_draw[OF assms(1,2), of e g1] assms(3) by (auto simp: evict_pick_victim_def volatile_policy_def split: option.splits)
next
  case VOLATILE_RANDOM
  then show ?thesis using volatile_draw[OF assms(1,2), of e g1] assms(3) by (auto simp: evict_pick_victim_def volatile_policy_def split: option.splits)
next
  case VOLATILE_TTL
  then show ?thesis using root_entry[OF assms(1)] assms(3) empty_heap[of "heap g"]
    by (auto simp: evict_pick_victim_def volatile_policy_def untouched_def takeable_def nothing_left_def split: if_splits)
qed (use evict_sample_ok[OF assms(1,2), of True "nat (maxmemory_samples (cfg v))" None e g1]
    evict_sample_ok[OF assms(1,2), of False "nat (maxmemory_samples (cfg v))" None e g1] assms(3) in
    \<open>auto simp: evict_pick_victim_def volatile_policy_def split: option.splits\<close>)

section \<open>The eviction loop\<close>

text \<open>One round: the victim is dropped, with its command, its notification, its count.\<close>

definition evict_one :: "env \<Rightarrow> addr \<Rightarrow> 's gdata \<Rightarrow> 's gdata" where
  "evict_one v a g =
     (let k = key_at g a;
          g = drop_entry v a (emit (E_Touch k) (emit (E_Notify NOTIFY_EVICTED ''evicted'' k) (emit (E_Feed [''del'', k]) g)))
      in wrote 1 (g\<lparr>evicted_keys := evicted_keys g + 1\<rparr>))"

lemma evict_loop_step:
  "maxmemory (cfg v) < used_memory g \<Longrightarrow> 0 < n \<Longrightarrow> evict_pick_victim v g = (Some a, g1) \<Longrightarrow>
   evict_loop v (Suc n) g = evict_loop v n (evict_one v a g1)"
  by (simp add: evict_one_def Let_def)

lemma del_evicted: "evicted_keys (drop_entry v a g) = evicted_keys g"
  by (simp add: drop_entry_def db_unlink_def entry_del_def entry_del_sync_def set_ttl_def Let_def put_val_def put_ent_def)

lemma evict_one_ok:
  assumes "g_ok {} g" "a \<in> dom (ents g)"
  defines "k \<equiv> key_at g a"
  shows "g_ok {} (evict_one v a g)" "index (evict_one v a g) = (index g)(k := None)" "live v' (evict_one v a g) = (live v' g)(k := None)"
    "ttl_of (heap (evict_one v a g)) = (ttl_of (heap g))(a := None)" "evicted_keys (evict_one v a g) = evicted_keys g + 1"
    "index g k = Some a"
proof -
  let ?e = "emit (E_Touch k) (emit (E_Notify NOTIFY_EVICTED ''evicted'' k) (emit (E_Feed [''del'', k]) g))"
  have c: "core ?e = core g" by simp
  show ix: "index g k = Some a" unfolding k_def by (rule index_key[OF assms(1,2)])
  have oke: "g_ok {} ?e" using assms(1) core_g_ok[OF c] by simp
  have ixe: "index ?e k = Some a" using ix core_same(7)[OF c] by simp
  note d = drop_entry_ok[OF oke ixe, where v = v]
  let ?d = "drop_entry v a ?e"
  have e: "evict_one v a g = wrote 1 (?d\<lparr>evicted_keys := evicted_keys ?d + 1\<rparr>)" by (simp add: evict_one_def Let_def k_def)
  have cd: "core (evict_one v a g) = core ?d" by (simp add: e core_def wrote_def)
  note s = core_same[OF cd]
  show "g_ok {} (evict_one v a g)" using d(1) core_g_ok[OF cd] by simp
  show "index (evict_one v a g) = (index g)(k := None)" unfolding s(7) d(4) core_same(7)[OF c] ..
  show "live v' (evict_one v a g) = (live v' g)(k := None)" unfolding s(9) d(2) core_same(9)[OF c] ..
  show "ttl_of (heap (evict_one v a g)) = (ttl_of (heap g))(a := None)" unfolding s(2) d(6) core_same(2)[OF c] ..
  show "evicted_keys (evict_one v a g) = evicted_keys g + 1" unfolding e by (simp add: wrote_def del_evicted) (simp add: emit_def)
qed

text \<open>
  What \<open>n\<close> rounds may do: the keys \<open>K\<close> are gone and nothing else changed; a victim of a volatile policy had a deadline.
\<close>

definition evicts :: "env \<Rightarrow> string set \<Rightarrow> 's gdata \<Rightarrow> 's gdata \<Rightarrow> bool" where
  "evicts v K g g' \<longleftrightarrow>
     finite K \<and> K \<subseteq> dom (index g) \<and> index g' = index g |` (- K) \<and> (\<forall>v'. live v' g' = live v' g |` (- K)) \<and>
     evicted_keys g' = evicted_keys g + of_nat (card K) \<and>
     (volatile_policy v \<longrightarrow> (\<forall>k \<in> K. \<exists>a. index g k = Some a \<and> ttl_of (heap g) a \<noteq> None))"

lemma evicts_none: "core g' = core g \<Longrightarrow> evicted_keys g' = evicted_keys g \<Longrightarrow> evicts v {} g g'"
  using core_same(7)[of g' g] core_same(9)[of g' g] by (simp add: evicts_def restrict_map_def)

lemma evicts_insert:
  assumes ok: "g_ok {} g" and a: "takeable (volatile_policy v) g a" and K: "evicts v K (evict_one v a g) g'"
  shows "evicts v (insert (key_at g a) K) g g' \<and> card (insert (key_at g a) K) = Suc (card K)"
proof -
  have ad: "a \<in> dom (ents g)" "volatile_policy v \<longrightarrow> ttl_of (heap g) a \<noteq> None" using a by (auto simp: takeable_def)
  note o = evict_one_ok[OF ok ad(1)]
  have nk: "key_at g a \<notin> K" using K o(2) by (auto simp: evicts_def)
  then have c: "card (insert (key_at g a) K) = Suc (card K)" using K by (simp add: evicts_def)
  have r: "m(x := None) |` (- K) = m |` (- insert x K)" for m :: "string \<Rightarrow> 'z option" and x
    by (auto simp: restrict_map_def fun_eq_iff)
  have "\<exists>b. index g k = Some b \<and> ttl_of (heap g) b \<noteq> None" if vp: "volatile_policy v" and kk: "k \<in> insert (key_at g a) K" for k
  proof (cases "k = key_at g a")
    case True
    then show ?thesis using o(6) ad(2) vp by blast
  next
    case False
    then obtain b where "index (evict_one v a g) k = Some b" "ttl_of (heap (evict_one v a g)) b \<noteq> None" using K vp kk by (auto simp: evicts_def)
    then show ?thesis unfolding o(2,4) using False by (auto split: if_splits)
  qed
  moreover have "K \<subseteq> dom (index g)" using K o(2) by (auto simp: evicts_def split: if_splits)
  ultimately show ?thesis using K o(5,6) c unfolding evicts_def o(2,3) r by auto
qed

lemma evict_loop_ok:
  assumes "g_ok {} g" "draws_ok v" "policy (cfg v) \<noteq> NOEVICTION" "evict_loop v n g = (g', ok)"
  shows "g_ok {} g' \<and> (\<exists>K. evicts v K g g' \<and> card K \<le> n - 1 \<and> (ok \<and> maxmemory (cfg v) < used_memory g' \<longrightarrow> card K = n - 1)) \<and>
    (\<not> ok \<longrightarrow> maxmemory (cfg v) < used_memory g' \<and> \<not> evict_pending g' \<and>
      (maxmemory_samples (cfg v) \<le> 0 \<or> nothing_left (volatile_policy v) g'))"
  using assms
proof (induction n arbitrary: g)
  case 0
  then show ?case using evicts_none[of g g v] by auto
next
  case (Suc n)
  show ?case
  proof (cases "maxmemory (cfg v) < used_memory g \<and> 0 < n")
    case False
    then have "g' = g" "ok" using Suc(5) by auto
    then show ?thesis using Suc(2) False evicts_none[of g g v] by auto
  next
    case True
    obtain e g1 where p: "evict_pick_victim v g = (e, g1)" by fastforce
    note pk = victim_ok[OF Suc(2,3) p]
    then have u: "core g1 = core g" "evicted_keys g1 = evicted_keys g" by (simp_all add: untouched_def)
    have ok1: "g_ok {} g1" using Suc(2) core_g_ok[OF u(1)] by simp
    show ?thesis
    proof (cases e)
      case None
      then have g': "g' = g1\<lparr>evict_pending := False\<rparr>" "\<not> ok" using Suc(5) True p by auto
      have c: "core g' = core g" "evicted_keys g' = evicted_keys g" "used_memory g' = used_memory g" using u by (simp_all add: g' core_def)
      have "nothing_left vol g' = nothing_left vol g" for vol using untouched_takeable(2)[of g g'] c by (simp add: untouched_def)
      then show ?thesis using evicts_none[OF c(1,2), of v] pk None g' c(3) True Suc(2,4) core_g_ok[OF c(1), of "{}"] by auto
    next
      case (Some a)
      have t: "takeable (volatile_policy v) g1 a" using pk Some untouched_takeable(1)[of g g1] by simp
      have run: "evict_loop v n (evict_one v a g1) = (g', ok)" using Suc(5) evict_loop_step[of v g n a g1] True p Some by simp
      have ok2: "g_ok {} (evict_one v a g1)" using evict_one_ok(1)[OF ok1] t by (simp add: takeable_def)
      note IH = Suc(1)[OF ok2 Suc(3,4) run]
      then obtain K where K: "evicts v K (evict_one v a g1) g'" "card K \<le> n - 1" "ok \<and> maxmemory (cfg v) < used_memory g' \<longrightarrow> card K = n - 1" by blast
      have "evicts v (insert (key_at g1 a) K) g g'" "card (insert (key_at g1 a) K) = Suc (card K)"
        using evicts_insert[OF ok1 t K(1)] core_same(2,7,9)[OF u(1)] u(2) by (simp_all add: evicts_def)
      then show ?thesis using IH K(2,3) True by (intro conjI exI[of _ "insert (key_at g1 a) K"]) auto
    qed
  qed
qed

lemma free_memory_ok:
  assumes "g_ok {} g" "draws_ok v" "free_memory_if_needed v g = (g', ok)"
  shows "g_ok {} g' \<and>
    (\<exists>K. evicts v K g g' \<and> card K \<le> 99 \<and>
      (ok \<and> maxmemory (cfg v) \<noteq> 0 \<and> \<not> loading v \<longrightarrow>
         (evict_pending g' \<longleftrightarrow> maxmemory (cfg v) < used_memory g') \<and> (evict_pending g' \<longrightarrow> card K = 99))) \<and>
    (\<not> ok \<longrightarrow> maxmemory (cfg v) < used_memory g' \<and> \<not> evict_pending g' \<and>
      (policy (cfg v) = NOEVICTION \<or> maxmemory_samples (cfg v) \<le> 0 \<or> nothing_left (volatile_policy v) g'))"
proof (cases "maxmemory (cfg v) = 0 \<or> loading v \<or> used_memory g \<le> maxmemory (cfg v) \<or> policy (cfg v) = NOEVICTION")
  case True
  then have c: "core g' = core g" "evicted_keys g' = evicted_keys g" "used_memory g' = used_memory g"
    using assms(3) by (auto simp: free_memory_if_needed_def core_def split: if_splits)
  show ?thesis using True assms c(3) evicts_none[OF c(1,2), of v] core_g_ok[OF c(1), of "{}"]
    by (intro conjI exI[of _ "{}"]) (auto simp: free_memory_if_needed_def split: if_splits)
next
  case False
  obtain g1 r where l: "evict_loop v 100 g = (g1, r)" by fastforce
  note e = evict_loop_ok[OF assms(1,2) _ l]
  have g': "g' = (if r then g1\<lparr>evict_pending := (maxmemory (cfg v) < used_memory g1)\<rparr> else g1)" "ok = r"
    using assms(3) False l by (auto simp: free_memory_if_needed_def not_le split: if_splits)
  have c: "core g' = core g1" "evicted_keys g' = evicted_keys g1" "used_memory g' = used_memory g1" using g' by (auto simp: core_def)
  obtain K where K: "evicts v K g g1" "card K \<le> 99" "r \<and> maxmemory (cfg v) < used_memory g1 \<longrightarrow> card K = 99" using e False by auto
  have "evicts v K g g'" using K(1) core_same(7,9)[OF c(1)] c(2) by (simp add: evicts_def)
  moreover have "nothing_left vol g' = nothing_left vol g1" for vol using untouched_takeable(2)[of g1 g'] c by (simp add: untouched_def)
  ultimately show ?thesis using e False K g' c(3) core_g_ok[OF c(1), of "{}"] by (intro conjI exI[of _ K]) (auto split: if_splits)
qed

section \<open>Eviction: what it guarantees\<close>


text \<open>A limit of one byte, and any key may go.\<close>

definition env_full :: env where
  "env_full = env_start\<lparr>cfg := config_default\<lparr>maxmemory := 1, policy := ALLKEYS_RANDOM\<rparr>\<rparr>"


end
