(* ===== verification/Cmd_Run.thy ===== *)
theory Cmd_Run
  imports Cmd_List Cmd_Zset Cmd_Keys Cmd_Table Evict
begin

text \<open>
  Commands one after the other: the handler column of \<open>k_cmd_table\<close> for the commands on data, the part of \<open>do_request\<close> that
  calls a handler (\<open>commands/commands.cpp\<close>), and the states a server can reach by commands, expiry timers and eviction.
\<close>

section \<open>Model\<close>

text \<open>The arithmetic of \<open>long double\<close>, for \<open>INCRBYFLOAT\<close>.\<close>

record 'd ld_ops =
  ld_of :: "string \<Rightarrow> 'd option"
  ld_add :: "'d \<Rightarrow> 'd \<Rightarrow> 'd option"
  ld_zero :: 'd
  ld_str :: "'d \<Rightarrow> string"

definition total :: "'s handler \<Rightarrow> 's opt_handler" where
  "total h v cmd g = Some (h v cmd g)"

text \<open>The rows of \<open>k_cmd_table\<close> up to \<open>smove\<close>, and \<open>memory\<close> and \<open>object\<close>.\<close>

definition handlers :: "'s::linorder dbl_ops \<Rightarrow> 'd ld_ops \<Rightarrow> (string \<times> 's opt_handler) list" where
  "handlers D L =
   [(''get'', total do_get), (''set'', total do_set), (''incr'', total do_incr), (''decr'', total do_decr),
    (''incrby'', total do_incrby), (''decrby'', total do_decrby),
    (''incrbyfloat'', total (do_incrbyfloat (ld_of L) (ld_add L) (ld_zero L) (ld_str L))), (''setex'', do_setex),
    (''psetex'', do_psetex), (''setnx'', total do_setnx), (''getset'', total do_getset), (''getdel'', total do_getdel),
    (''getex'', total do_getex), (''append'', total do_append), (''strlen'', total do_strlen),
    (''getrange'', total do_getrange), (''setrange'', total do_setrange), (''mget'', total do_mget),
    (''mset'', total do_mset), (''msetnx'', total do_msetnx), (''del'', total do_del), (''exists'', total do_exists),
    (''type'', total do_type), (''rename'', total do_rename), (''renamenx'', total do_renamenx), (''touch'', total do_touch),
    (''unlink'', total do_asyncdel), (''keys'', do_keys), (''scan'', do_scan), (''randomkey'', total do_randomkey),
    (''dbsize'', total do_dbsize), (''flushall'', total do_flushall), (''flushdb'', total do_flushall),
    (''expire'', do_expire), (''pexpire'', do_pexpire), (''expireat'', do_expireat), (''pexpireat'', do_pexpireat),
    (''ttl'', total do_ttl_seconds), (''pttl'', total do_ttl), (''persist'', total do_persist),
    (''zadd'', total (do_zadd D)), (''zrem'', total do_zrem), (''zscore'', total do_zscore), (''zrank'', total do_zrank),
    (''zrevrank'', total do_zrevrank), (''zcard'', total do_zcard), (''zcount'', total (do_zcount D)),
    (''zrange'', do_zrange D), (''zrevrange'', do_zrevrange D), (''zrangebyscore'', do_zrangebyscore D),
    (''zrevrangebyscore'', do_zrevrangebyscore D), (''zincrby'', total (do_zincrby D)),
    (''zremrangebyscore'', do_zremrangebyscore D), (''zremrangebyrank'', do_zremrangebyrank D),
    (''zpopmin'', total do_zpopmin), (''lpush'', total do_lpush), (''rpush'', total do_rpush), (''lpop'', total do_lpop),
    (''rpop'', total do_rpop), (''llen'', total do_llen), (''lindex'', total do_lindex), (''lrange'', total do_lrange),
    (''lset'', total do_lset), (''linsert'', total do_linsert), (''lrem'', total do_lrem), (''ltrim'', total do_ltrim),
    (''hset'', total do_hset), (''hget'', total do_hget), (''hdel'', total do_hdel), (''hexists'', total do_hexists),
    (''hlen'', total do_hlen), (''hgetall'', total do_hgetall), (''hkeys'', total do_hkeys), (''hvals'', total do_hvals),
    (''hmget'', total do_hmget), (''hsetnx'', total do_hsetnx), (''hincrby'', total do_hincrby),
    (''hstrlen'', total do_hstrlen), (''hscan'', do_hscan), (''sadd'', total do_sadd), (''srem'', total do_srem),
    (''sismember'', total do_sismember), (''smismember'', total do_smismember), (''scard'', total do_scard),
    (''smembers'', total do_smembers), (''spop'', do_spop), (''srandmember'', do_srandmember), (''sscan'', do_sscan),
    (''sinter'', total do_sinter), (''sunion'', total do_sunion), (''sdiff'', total do_sdiff),
    (''sinterstore'', total do_sinterstore), (''sunionstore'', total do_sunionstore), (''sdiffstore'', total do_sdiffstore),
    (''smove'', total do_smove), (''memory'', do_memory), (''object'', total do_object)]"

definition arity_ok :: "int \<Rightarrow> int \<Rightarrow> string list \<Rightarrow> bool" where
  "arity_ok lo hi cmd \<longleftrightarrow> \<not> (int (length cmd) < lo \<or> hi \<noteq> - 1 \<and> hi < int (length cmd))"

text \<open>
  \<open>do_request\<close> up to the return of the handler, where none of its other gates applies: the command is not renamed, the user has all
  permissions, the server is a master that is not handing over and has enough replicas, the client is in no transaction and not subscribed,
  the log had no write error. What remains is the name in lower case, the row, the number of arguments, the memory limit and the call.
  \<^const>\<open>None\<close> stands for undefined behaviour of the handler and for commands whose handler is not in \<^const>\<open>handlers\<close>.
  What follows the call (watches, log, notification) does not touch the keys.
\<close>

definition run_cmd :: "'s::linorder dbl_ops \<Rightarrow> 'd ld_ops \<Rightarrow> 's opt_handler" where
  "run_cmd D L v cmd g =
     (let name = lower (cmd ! 0);
          cmd = cmd[0 := name]
      in case (map_of k_cmd_rows name, map_of (handlers D L) name) of
           (Some (lo, hi, write, _), Some fn) \<Rightarrow>
             (if \<not> arity_ok lo hi cmd then Some (g, [RErr ''ERR wrong number of arguments''])
              else let (g, ok) = (if write \<and> cmd_can_grow_memory name then free_memory_if_needed v g else (g, True))
                   in if \<not> ok then Some (g, [RErr (''OOM commands not allowed when used memory > 'maxmemory'' @ [CHR 0x27])])
                      else fn v cmd g)
         | _ \<Rightarrow> None)"

text \<open>
  A command that can be run: parsed by the request parser, with room for its arguments in every table, a random generator that
  stays in range, and a union of the sets it names that fits a table.
\<close>

definition ready :: "env \<Rightarrow> string list \<Rightarrow> 's gdata \<Rightarrow> bool" where
  "ready v cmd g \<longleftrightarrow>
     cmd \<noteq> [] \<and> int (length cmd) \<le> k_max_args \<and> draws_ok v \<and> fits v (length cmd) g \<and>
     card (union_spec (drop 2 cmd) (live v g)) \<le> 2 ^ 60"

text \<open>The states reached from the start by commands, ticks of the expiry timers and ticks of eviction, at any times and in any order.\<close>

inductive reachable :: "'s::linorder dbl_ops \<Rightarrow> 'd ld_ops \<Rightarrow> 's gdata \<Rightarrow> bool" for D L where
  start: "reachable D L gdata_init"
| command: "reachable D L g \<Longrightarrow> ready v cmd g \<Longrightarrow> run_cmd D L v cmd g = Some (g', rs) \<Longrightarrow> reachable D L g'"
| timers: "reachable D L g \<Longrightarrow> reachable D L (expire_timers v 0 g)"
| evict: "reachable D L g \<Longrightarrow> draws_ok v \<Longrightarrow> reachable D L (evict_tick v g)"

section \<open>The handlers keep the state consistent\<close>

lemma ready_fits1: "ready v cmd g \<Longrightarrow> fits v 1 g"
  by (auto simp: ready_def Suc_leI intro: fits_mono)

text \<open>The handler of the row \<open>n\<close>, called with as many arguments as the row wants, leads from consistent states to consistent ones.\<close>

definition keeps :: "string \<Rightarrow> 's::linorder opt_handler \<Rightarrow> bool" where
  "keeps n h \<longleftrightarrow> (\<forall>v cmd g g' rs lo hi w.
     g_ok {} g \<longrightarrow> ready v cmd g \<longrightarrow> map_of k_cmd_rows n = Some (lo, hi, w) \<longrightarrow> arity_ok lo hi cmd \<longrightarrow>
     h v cmd g = Some (g', rs) \<longrightarrow> g_ok {} g')"

lemma keepsI:
  "(\<And>v cmd g g' rs. g_ok {} g \<Longrightarrow> ready v cmd g \<Longrightarrow> h v cmd g = Some (g', rs) \<Longrightarrow> g_ok {} g') \<Longrightarrow> keeps n h"
  by (simp add: keeps_def)

lemma keeps0:
  "(\<And>v cmd g g' rs. g_ok {} g \<Longrightarrow> h v cmd g = (g', rs) \<Longrightarrow> g_ok {} g' \<and> P v cmd g g' rs) \<Longrightarrow> keeps n (total h)"
  by (rule keepsI) (auto simp: total_def)

lemma keeps1:
  "(\<And>v cmd g g' rs. g_ok {} g \<Longrightarrow> fits v 1 g \<Longrightarrow> h v cmd g = (g', rs) \<Longrightarrow> g_ok {} g' \<and> P v cmd g g' rs) \<Longrightarrow> keeps n (total h)"
  by (rule keepsI) (auto simp: total_def dest: ready_fits1)

lemma keeps3:
  assumes "map_of k_cmd_rows n = Some (lo, hi, w)" "2 < lo"
    "\<And>v cmd g g' rs. g_ok {} g \<Longrightarrow> ready v cmd g \<Longrightarrow> 2 < length cmd \<Longrightarrow> h v cmd g = (g', rs) \<Longrightarrow> g_ok {} g' \<and> P v cmd g g' rs"
  shows "keeps n (total h)"
  unfolding keeps_def total_def
proof (intro allI impI, goal_cases)
  case (1 v cmd g g' rs lo' hi' w')
  then have "2 < length cmd" using assms(1,2) by (simp add: arity_ok_def)
  then show ?case using assms(3)[OF 1(1,2)] 1(5) by auto
qed

lemma readers_keep:
  "keeps n (total do_get)" "keeps n (total do_strlen)" "keeps n (total do_getrange)" "keeps n (total do_mget)"
  "keeps n (total do_getdel)" "keeps n (total do_del)" "keeps n (total do_asyncdel)" "keeps n (total do_flushall)"
  "keeps n (total do_exists)" "keeps n (total do_type)" "keeps n (total do_randomkey)" "keeps n (total do_object)"
  "keeps n (total do_lpop)" "keeps n (total do_rpop)" "keeps n (total do_llen)" "keeps n (total do_lindex)"
  "keeps n (total do_lrange)" "keeps n (total do_lset)" "keeps n (total do_linsert)" "keeps n (total do_lrem)"
  "keeps n (total do_ltrim)" "keeps n (total do_hget)" "keeps n (total do_hexists)" "keeps n (total do_hstrlen)"
  "keeps n (total do_hlen)" "keeps n (total do_hmget)" "keeps n (total do_hdel)" "keeps n (total do_srem)"
  "keeps n (total do_sismember)" "keeps n (total do_smismember)" "keeps n (total do_scard)" "keeps n (total do_smembers)"
  "keeps n (total do_zrem)" "keeps n (total do_zcard)" "keeps n (total (do_zcount D))" "keeps n (total do_zpopmin)"
  by (rule keeps0, erule (1) do_get_ok do_strlen_ok do_getrange_ok do_mget_ok do_getdel_ok do_del_ok do_asyncdel_ok do_flushall_ok
      do_exists_ok do_type_ok do_randomkey_ok do_object_ok do_lpop_ok do_rpop_ok do_llen_ok do_lindex_ok do_lrange_ok do_lset_ok
      do_linsert_ok do_lrem_ok do_ltrim_ok do_hget_ok do_hexists_ok do_hstrlen_ok do_hlen_ok do_hmget_ok do_hdel_ok do_srem_ok
      do_sismember_ok do_smismember_ok do_scard_ok do_smembers_ok do_zrem_ok do_zcard_ok do_zcount_ok do_zpopmin_ok)+

lemma generic_readers_keep:
  "keeps n (total do_hgetall)" "keeps n (total do_hkeys)" "keeps n (total do_hvals)" "keeps n (total do_zscore)"
  "keeps n (total do_zrank)" "keeps n (total do_zrevrank)" "keeps n (total do_ttl_seconds)" "keeps n (total do_ttl)"
  unfolding do_hgetall_def do_hkeys_def do_hvals_def do_zscore_def do_zrank_def do_zrevrank_def do_ttl_seconds_def do_ttl_def
  by (rule keeps0, erule (1) h_collect_reply_ok zquery_ok ttl_generic_ok)+

lemma writers_keep:
  "keeps n (total do_set)" "keeps n (total do_setnx)" "keeps n (total do_getset)" "keeps n (total do_getex)"
  "keeps n (total do_append)" "keeps n (total do_setrange)" "keeps n (total do_rename)" "keeps n (total do_renamenx)"
  "keeps n (total do_persist)" "keeps n (total do_hsetnx)" "keeps n (total do_hincrby)" "keeps n (total do_smove)"
  "keeps n (total (do_zincrby D))" "keeps n (total (do_incrbyfloat a b c d))"
  by (rule keeps1, erule (2) do_set_ok do_setnx_ok do_getset_ok do_getex_ok do_append_ok do_setrange_ok do_rename_ok do_renamenx_ok
      do_persist_ok do_hsetnx_ok do_hincrby_ok do_smove_ok do_zincrby_ok do_incrbyfloat_ok)+

lemma incr_keep: "in_i64 delta \<Longrightarrow> keeps n (total (incr_generic delta))"
  by (rule keeps1, erule (2) incr_generic_ok)

lemma incr_ready: "g_ok {} g \<Longrightarrow> ready v cmd g \<Longrightarrow> in_i64 d \<Longrightarrow> incr_generic d v cmd g = (g', rs) \<Longrightarrow> g_ok {} g'"
  using incr_generic_ok[of g v d cmd g' rs] ready_fits1[of v cmd g] by blast

lemma incrs_keep: "keeps n (total do_incr)" "keeps n (total do_decr)" "keeps n (total do_incrby)" "keeps n (total do_decrby)"
proof -
  show "keeps n (total do_incr)" "keeps n (total do_decr)" unfolding do_incr_def do_decr_def
    by (rule incr_keep, simp add: in_i64_def INT64_MAX_def INT64_MIN_def)+
  have neg: "in_i64 (- d)" if "in_i64 d" "d \<noteq> INT64_MIN" for d using that by (simp add: in_i64_def INT64_MAX_def INT64_MIN_def)
  show "keeps n (total do_incrby)"
    by (rule keepsI) (auto simp: total_def do_incrby_def str2int_iff split: option.splits intro: incr_ready)
  show "keeps n (total do_decrby)"
    by (rule keepsI) (auto simp: total_def do_decrby_def str2int_iff split: option.splits if_splits intro: incr_ready neg)
qed

lemma small_keep: "keeps n (total do_touch)" "keeps n (total do_dbsize)" "keeps n do_keys" "keeps n do_scan"
  "keeps n do_hscan" "keeps n do_sscan" "keeps n do_memory"
proof -
  show "keeps n (total do_touch)" by (rule keeps0) (auto simp: do_touch_ok dest: do_exists_ok)
  show "keeps n (total do_dbsize)" by (rule keepsI) (simp add: total_def do_dbsize_def)
  show "keeps n do_keys" by (rule keepsI) (auto simp: do_keys_def Let_def split: if_splits)
  show "keeps n do_scan" by (rule keepsI) (auto simp: do_scan_def Let_def split: option.splits if_splits sum.splits prod.splits)
  show "keeps n do_hscan" "keeps n do_sscan" unfolding do_hscan_def do_sscan_def by (rule keepsI, drule (1) scan_coll_ok, simp)+
  show "keeps n do_memory" by (rule keepsI) (drule (1) do_memory_ok, simp)
qed

lemma partial_keep:
  "keeps n do_setex" "keeps n do_psetex" "keeps n do_expire" "keeps n do_pexpire" "keeps n do_expireat" "keeps n do_pexpireat"
  "keeps n do_spop" "keeps n do_srandmember"
proof -
  have se: "keeps n (setex_generic per)" for per
  proof (rule keepsI)
    fix v cmd g g' rs
    assume a: "g_ok {} g" "ready v cmd g" "setex_generic per v cmd g = Some (g', rs)"
    from setex_generic_ok[OF a(1) ready_fits1[OF a(2)], of per cmd] show "g_ok {} g'" unfolding a(3) by (auto simp: option_rel_Some1)
  qed
  show "keeps n do_setex" "keeps n do_psetex" unfolding do_setex_def do_psetex_def by (rule se)+
  have ex: "keeps n (expire_generic per)" "keeps n (expireat_generic per)" for per
    by (rule keepsI, use expire_generic_ok expireat_generic_ok ready_fits1 in blast)+
  show "keeps n do_expire" "keeps n do_pexpire" "keeps n do_expireat" "keeps n do_pexpireat"
    unfolding do_expire_def do_pexpire_def do_expireat_def do_pexpireat_def by (rule ex)+
  show "keeps n do_spop"
  proof (rule keepsI)
    fix v cmd g g' rs
    assume a: "g_ok {} g" "ready v cmd g" "do_spop v cmd g = Some (g', rs)"
    from do_spop_ok[OF a(1), of v cmd] a(2) show "g_ok {} g'" unfolding a(3) by (auto simp: ready_def)
  qed
  show "keeps n do_srandmember"
  proof (rule keepsI)
    fix v cmd g g' rs
    assume a: "g_ok {} g" "ready v cmd g" "do_srandmember v cmd g = Some (g', rs)"
    have "fits v 0 g" using ready_fits1[OF a(2)] by (rule fits_mono) simp
    from do_srandmember_ok[OF a(1) _ this, of cmd] a(2) show "g_ok {} g'" unfolding a(3) by (auto simp: ready_def)
  qed
qed

lemma zranges_keep:
  "keeps n (do_zrange D)" "keeps n (do_zrevrange D)" "keeps n (do_zrangebyscore D)" "keeps n (do_zrevrangebyscore D)"
  "keeps n (do_zremrangebyscore D)" "keeps n (do_zremrangebyrank D)"
proof -
  have r: "keeps n (zrange_generic D sp allow)" for sp allow
  proof (rule keepsI)
    fix v cmd g g' rs
    assume a: "g_ok {} g" "zrange_generic D sp allow v cmd g = Some (g', rs)"
    from zrange_generic_ok[OF a(1), of D sp allow v cmd] show "g_ok {} g'" unfolding a(2) by auto
  qed
  show "keeps n (do_zrange D)" "keeps n (do_zrevrange D)" "keeps n (do_zrangebyscore D)" "keeps n (do_zrevrangebyscore D)"
    unfolding do_zrange_def do_zrevrange_def do_zrangebyscore_def do_zrevrangebyscore_def by (rule r)+
  have m: "keeps n (zremrange_generic D bs)" for bs
  proof (rule keepsI)
    fix v cmd g g' rs
    assume a: "g_ok {} g" "zremrange_generic D bs v cmd g = Some (g', rs)"
    from zremrange_ok[OF a(1), of D bs v cmd] show "g_ok {} g'" unfolding a(2) by auto
  qed
  show "keeps n (do_zremrangebyscore D)" "keeps n (do_zremrangebyrank D)" unfolding do_zremrangebyscore_def do_zremrangebyrank_def by (rule m)+
qed

lemma rows3:
  "map_of k_cmd_rows ''lpush'' = Some (3, - 1, True, False, False)" "map_of k_cmd_rows ''rpush'' = Some (3, - 1, True, False, False)"
  "map_of k_cmd_rows ''hset'' = Some (4, - 1, True, False, False)" "map_of k_cmd_rows ''sadd'' = Some (3, - 1, True, False, False)"
  "map_of k_cmd_rows ''sinterstore'' = Some (3, - 1, True, False, False)" "map_of k_cmd_rows ''sunionstore'' = Some (3, - 1, True, False, False)"
  "map_of k_cmd_rows ''sdiffstore'' = Some (3, - 1, True, False, False)"
  "map_of k_cmd_rows ''sinter'' = Some (2, - 1, False, False, False)" "map_of k_cmd_rows ''sdiff'' = Some (2, - 1, False, False, False)"
  by (simp_all add: k_cmd_rows_def)

lemma lists_keep: "keeps ''lpush'' (total do_lpush)" "keeps ''rpush'' (total do_rpush)" "keeps ''hset'' (total do_hset)"
  "keeps ''sadd'' (total do_sadd)"
proof -
  have f: "fits v (length cmd) g" if "ready v cmd g" for v cmd and g :: "'z gdata" using that by (simp add: ready_def)
  show "keeps ''lpush'' (total do_lpush)" by (rule keeps3[OF rows3(1)], simp, erule do_lpush_ok[OF _ ready_fits1])
  show "keeps ''rpush'' (total do_rpush)" by (rule keeps3[OF rows3(2)], simp, erule do_rpush_ok[OF _ ready_fits1])
  show "keeps ''hset'' (total do_hset)" by (rule keeps3[OF rows3(3)], simp, erule do_hset_ok[OF _ f])
  show "keeps ''sadd'' (total do_sadd)" by (rule keeps3[OF rows3(4)], simp, erule do_sadd_ok[OF _ f])
qed

lemma several_keep: "keeps n (total do_mset)" "keeps n (total do_msetnx)" "keeps n (total (do_zadd D))"
proof -
  have f: "fits v (length cmd) g" "length cmd < 2 ^ 31" if "ready v cmd g" for v cmd and g :: "'z gdata"
    using that by (simp_all add: ready_def k_max_args_def)
  show "keeps n (total do_mset)" by (rule keepsI) (auto simp: total_def dest: do_mset_ok[OF _ f(1)])
  show "keeps n (total do_msetnx)" by (rule keepsI) (auto simp: total_def dest: do_msetnx_ok[OF _ f(1)])
  show "keeps n (total (do_zadd D))" by (rule keepsI) (auto simp: total_def dest: do_zadd_ok[OF _ f])
qed

lemma stores_keep: "keeps ''sinterstore'' (total do_sinterstore)" "keeps ''sunionstore'' (total do_sunionstore)"
  "keeps ''sdiffstore'' (total do_sdiffstore)"
proof -
  have s: "g_ok {} (fst (f v cmd g)) \<and> True" if "(f, S) \<in> {(do_sinterstore, inter_spec), (do_sunionstore, union_spec), (do_sdiffstore, diff_spec)}"
    "g_ok {} g" "ready v cmd g" "2 < length cmd" for f S v cmd and g :: "'z :: linorder gdata"
  proof -
    have "card (union_spec (drop 2 cmd) (live v g)) \<le> 2 ^ 60" using that(3) by (simp add: ready_def)
    from set_stores_ok[OF that(2) ready_fits1[OF that(3)] that(4) this] that(1) show ?thesis by (auto simp: split_beta)
  qed
  show "keeps ''sinterstore'' (total do_sinterstore)"
    by (rule keeps3[OF rows3(5), where P = "\<lambda>_ _ _ _ _. True"]) (use s[of do_sinterstore inter_spec] in \<open>fastforce+\<close>)
  show "keeps ''sunionstore'' (total do_sunionstore)"
    by (rule keeps3[OF rows3(6), where P = "\<lambda>_ _ _ _ _. True"]) (use s[of do_sunionstore union_spec] in \<open>fastforce+\<close>)
  show "keeps ''sdiffstore'' (total do_sdiffstore)"
    by (rule keeps3[OF rows3(7), where P = "\<lambda>_ _ _ _ _. True"]) (use s[of do_sdiffstore diff_spec] in \<open>fastforce+\<close>)
qed

lemma reply_keep: "calm v g g1 \<and> R \<Longrightarrow> set_reply (g1, r) = (g', rs) \<Longrightarrow> g_ok {} g'"
  by (auto simp: calm_def set_reply_def split: option.splits)

lemma set_ops_keep: "keeps ''sinter'' (total do_sinter)" "keeps ''sdiff'' (total do_sdiff)" "keeps n (total do_sunion)"
proof -
  have ne: "drop 1 cmd \<noteq> []" if "Some (2, - 1, False, False, False) = Some (lo, hi, w)" "arity_ok lo hi cmd" for cmd lo hi and w :: "bool \<times> bool \<times> bool"
    using that by (auto simp: arity_ok_def)
  show "keeps ''sinter'' (total do_sinter)"
    unfolding keeps_def rows3(8) total_def do_sinter_def
  proof (intro allI impI, goal_cases)
    case (1 v cmd g g' rs lo hi w)
    obtain g1 r where e: "sinter_impl v (drop 1 cmd) g = (g1, r)" by fastforce
    show ?case by (rule reply_keep[OF sinter_impl_ok[OF 1(1) ne[OF 1(3,4)] e]]) (use 1(5) e in simp)
  qed
  show "keeps ''sdiff'' (total do_sdiff)"
    unfolding keeps_def rows3(9) total_def do_sdiff_def
  proof (intro allI impI, goal_cases)
    case (1 v cmd g g' rs lo hi w)
    obtain g1 r where e: "sdiff_impl v (drop 1 cmd) g = (g1, r)" by fastforce
    show ?case by (rule reply_keep[OF sdiff_impl_ok[OF 1(1) ne[OF 1(3,4)] e]]) (use 1(5) e in simp)
  qed
  show "keeps n (total do_sunion)"
    unfolding keeps_def total_def do_sunion_def
  proof (intro allI impI, goal_cases)
    case (1 v cmd g g' rs lo hi w)
    obtain g1 r where e: "sunion_impl v (drop 1 cmd) g = (g1, r)" by fastforce
    show ?case by (rule reply_keep[OF sunion_impl_ok[OF 1(1) e]]) (use 1(5) e in simp)
  qed
qed

lemma handlers_keep: "list_all (\<lambda>(n, h). keeps n h) (handlers D L)"
  unfolding handlers_def list.pred_inject prod.case
  by (intro conjI TrueI readers_keep generic_readers_keep writers_keep incrs_keep small_keep partial_keep zranges_keep lists_keep
      several_keep stores_keep set_ops_keep) simp

section \<open>Reachable states\<close>

lemma card_index: "g_ok S g \<Longrightarrow> card (dom (index g)) = card (dom (ents g))"
proof -
  assume ok: "g_ok S g"
  have "dom (index g) = key_at g ` dom (ents g)" using g_ok_index[OF ok] by (auto simp: dom_def image_iff)
  moreover have "inj_on (key_at g) (dom (ents g))" using index_key[OF ok] by (intro inj_onI) (metis option.inject)
  ultimately show ?thesis by (simp add: card_image)
qed

lemma finite_members: "g_ok {} g \<Longrightarrow> finite (the_set (live v g k))"
proof (cases "\<exists>s d. live v g k = Some (ASet s, d)")
  case True
  assume ok: "g_ok {} g"
  obtain s d where sd: "live v g k = Some (ASet s, d)" using True by blast
  obtain a where a: "at v g k a" using live_at[OF sd] by blast
  note t = at_set[OF ok a sd]
  show ?thesis using set_finite[OF t(2)] t(3) sd by simp
qed (auto simp: the_set_def set_case_def split: option.splits avalue.splits)

lemma ready_evict:
  assumes ok: "g_ok {} g" "g_ok {} g'" and r: "ready v cmd g" and K: "evicts v K g g'"
  shows "ready v cmd g'"
proof -
  have l: "live v g' = live v g |` (- K)" "dom (index g') \<subseteq> dom (index g)" "finite (dom (index g))"
    using K ok(1) g_okD(8)[OF ok(1)] card_index[OF ok(1)] g_ok_index[OF ok(1)]
    by (auto simp: evicts_def restrict_map_def dom_def image_iff split: if_splits intro: finite_subset[of _ "key_at g ` dom (ents g)"])
  have "card (dom (ents g')) \<le> card (dom (ents g))" using card_mono[OF l(3,2)] card_index ok by metis
  then have f: "fits v (length cmd) g'" using r unfolding ready_def fits_def l(1)
    by (auto simp: restrict_map_def split: if_splits)
  have "union_spec (drop 2 cmd) (live v g') \<subseteq> union_spec (drop 2 cmd) (live v g)"
    unfolding l(1) by (auto simp: union_spec_def restrict_map_def split: if_splits)
  moreover have "finite (union_spec (drop 2 cmd) (live v g))" using finite_members[OF ok(1)] by (simp add: union_spec_def)
  ultimately have "card (union_spec (drop 2 cmd) (live v g')) \<le> card (union_spec (drop 2 cmd) (live v g))" by (simp add: card_mono)
  then show ?thesis using r f by (auto simp: ready_def)
qed

lemma run_cmd_ok:
  assumes ok: "g_ok {} g" and r: "ready v cmd g" and run: "run_cmd D L v cmd g = Some (g', rs)"
  shows "g_ok {} g'"
proof -
  define name where "name = lower (cmd ! 0)"
  define c where "c = cmd[0 := name]"
  have rc: "ready v c h = ready v cmd h" for h :: "'a gdata" by (auto simp: ready_def c_def)
  obtain lo hi w f fn where row: "map_of k_cmd_rows name = Some (lo, hi, w, f)" "map_of (handlers D L) name = Some fn"
    using run by (auto simp: run_cmd_def Let_def name_def split: option.splits)
  have kp: "keeps name fn" using map_of_SomeD[OF row(2)] handlers_keep[of D L] by (auto simp: list_all_iff)
  define ev where "ev = (if w \<and> cmd_can_grow_memory name then free_memory_if_needed v g else (g, True))"
  obtain g1 b where e: "ev = (g1, b)" by fastforce
  have g1: "g_ok {} g1 \<and> ready v c g1"
  proof (cases "w \<and> cmd_can_grow_memory name")
    case True
    then have "free_memory_if_needed v g = (g1, b)" using e by (simp add: ev_def)
    moreover have "draws_ok v" using r by (simp add: ready_def)
    ultimately show ?thesis using free_memory_ok[OF ok, of v g1 b] ready_evict[OF ok _ r] rc by blast
  next
    case False
    then have "g1 = g" using e by (simp add: ev_def split: if_splits)
    then show ?thesis using ok r rc by simp
  qed
  have "run_cmd D L v cmd g = (if \<not> arity_ok lo hi c then Some (g, [RErr ''ERR wrong number of arguments''])
      else if \<not> b then Some (g1, [RErr (''OOM commands not allowed when used memory > 'maxmemory'' @ [CHR 0x27])]) else fn v c g1)"
    using row e by (simp add: run_cmd_def Let_def name_def c_def ev_def)
  moreover have "g_ok {} g'" if "fn v c g1 = Some (g', rs)" "arity_ok lo hi c" using kp g1 row(1) that unfolding keeps_def by blast
  ultimately show ?thesis using run ok g1 by (auto split: if_splits)
qed

lemma reachable_ok: "reachable D L g \<Longrightarrow> g_ok {} g"
proof (induction rule: reachable.induct)
  case (command g v cmd g' rs)
  then show ?case using run_cmd_ok by blast
next
  case (timers g v)
  then show ?case using expire_timers_ok by blast
next
  case (evict g v)
  then show ?case using free_memory_ok[OF evict(3,2)] by (cases "free_memory_if_needed v g") (auto simp: evict_tick_def)
qed simp

text \<open>
  C12. Whatever commands on data a server has run since it was started empty (any of the 97 in \<open>handlers\<close>, with any arguments, at any
  times, failing or not), with expiry timers and evictions in between, its state is consistent: the index, the entries and the expiry heap agree, every value is
  well formed, and \<open>used_memory\<close> is the sum of what the entries use. \<open>MEMORY DOCTOR\<close>, which recomputes that sum,
  always answers that it found no problem.
\<close>

theorem reachable_consistent:
  assumes "reachable D L g"
  shows "g_ok {} g \<and> used_memory g = (\<Sum>a \<in> dom (ents g). entry_mem_usage (ent_at g a)) \<and>
    run_cmd D L v [''MEMORY'', ''DOCTOR''] g =
      Some (g, [RStr (''Can't find any memory problem. used_memory='' @ nat_dec (unat (used_memory g)) @ '' matches a full sweep.'')])"
proof -
  note ok = reachable_ok[OF assms]
  have "map_of (handlers D L) ''memory'' = Some do_memory" by (simp add: handlers_def)
  moreover have "map_of k_cmd_rows ''memory'' = Some (2, - 1, False, False, False)" by (simp add: k_cmd_rows_def)
  moreover have low: "lower ''MEMORY'' = ''memory''" "lower ''DOCTOR'' = ''doctor''" by (simp_all add: char_eval)
  ultimately have "run_cmd D L v [''MEMORY'', ''DOCTOR''] g = do_memory v [''memory'', ''DOCTOR''] g"
    by (simp add: run_cmd_def arity_ok_def Let_def)
  moreover note doctor_clean[OF ok, of "[''memory'', ''DOCTOR'']" v]
  moreover have "used_memory g = (\<Sum>a \<in> dom (ents g). entry_mem_usage (ent_at g a))"
    unfolding g_okD(9)[OF ok] by (rule sum.cong) (use g_okD(10)[OF ok] in auto)
  ultimately show ?thesis using ok low by simp
qed

definition L_int :: "int ld_ops" where
  "L_int = \<lparr>ld_of = str2int, ld_add = (\<lambda>x y. Some (x + y)), ld_zero = 0, ld_str = int_dec\<rparr>"

theorem reachable_consistent_witness:
  "reachable D_int L_int (expire_timers env_start 0 g_one) \<and>
   (\<exists>n. run_cmd D_int L_int env_start [''MEMORY'', ''DOCTOR''] (expire_timers env_start 0 g_one) =
     Some (expire_timers env_start 0 g_one, [RStr (''Can't find any memory problem. used_memory='' @ nat_dec n @ '' matches a full sweep.'')])) \<and>
   live env_start (expire_timers env_start 0 (g_one :: int gdata)) = [''a'' \<mapsto> (AStr ''1'', None)]"
proof -
  let ?cmd = "[''SET'', ''a'', ''1'']" and ?g = "gdata_init :: int gdata"
  have h: "map_of (handlers D_int L_int) ''set'' = Some (total do_set)" by (simp add: handlers_def)
  have r: "map_of k_cmd_rows ''set'' = Some (3, - 1, True, False, False)" by (simp add: k_cmd_rows_def)
  have low: "lower ''SET'' = ''set''" by (simp add: char_eval)
  have fm: "free_memory_if_needed env_start ?g = (?g, True)"
    by (simp add: free_memory_if_needed_def env_start_def config_default_def gdata_init_def)
  have d: "draws_ok env_start" by (simp add: draws_ok_def env_start_def)
  have "ready env_start ?cmd ?g" using d by (simp add: ready_def k_max_args_def union_spec_def)
  moreover have "run_cmd D_int L_int env_start ?cmd ?g = Some (g_one, snd (do_set env_start [''set'', ''a'', ''1''] ?g))"
    using h r low fm by (simp add: run_cmd_def arity_ok_def Let_def total_def g_one_def)
  ultimately have "reachable D_int L_int g_one" using reachable.command[OF reachable.start] by blast
  then have t: "reachable D_int L_int (expire_timers env_start 0 g_one)" by (rule reachable.timers)
  have "live env_start (expire_timers env_start 0 (g_one :: int gdata)) = [''a'' \<mapsto> (AStr ''1'', None)]"
    using expire_timers_ok[OF g_one_ok(1)] g_one_ok(2) by metis
  then show ?thesis using reachable_consistent[OF t, of env_start] t by blast
qed

end
