(* ===== verification/Aof.thy ===== *)
theory Aof
  imports Resp
begin

text \<open>
  The append-only log (\<open>persistence/aof.h\<close>, \<open>persistence/aof.cpp\<close>): the encoding of commands, the snapshot a rewritten
  log starts with (\<open>rdb_build_aof_preamble\<close> of \<open>persistence/rdb.cpp\<close>), \<open>aof_load\<close> and \<open>aof_check\<close> with the loop that splits a
  log into commands and stops at a damaged tail, and the recovery of a log cut off by a crash. Executing the
  commands and loading the snapshot belong to other parts of the server; they are the arguments \<open>exec\<close> and \<open>rdb\<close>.
\<close>

section \<open>Model\<close>

definition aof_encode :: "string \<Rightarrow> string list \<Rightarrow> string" where
  "aof_encode dst args =
     dst @ ''*'' @ nat_dec (length args) @ CRLF @
     concat (map (\<lambda>a. ''$'' @ nat_dec (length a) @ CRLF @ a @ CRLF) args)"

datatype log_end = L_Complete | L_Truncated | L_Malformed

text \<open>
  The loop over the commands of a log: \<open>good\<close> counts the bytes of complete commands, \<open>st\<close> is what executing
  them has done so far.
\<close>

function aof_loop :: "(string list \<Rightarrow> 'st \<Rightarrow> 'st) \<Rightarrow> string \<Rightarrow> nat \<Rightarrow> 'st \<Rightarrow> nat \<times> 'st \<times> log_end" where
  "aof_loop run buf good st =
     (if buf = [] then (good, st, L_Complete)
      else let (consumed, cmd) = parse_resp_request buf
           in if consumed = 0 then (good, st, L_Truncated)
              else if consumed < 0 then (good, st, L_Malformed)
              else aof_loop run (drop (nat consumed) buf) (good + nat consumed) (run cmd st))"
  by pat_completeness auto
termination by (relation "measure (\<lambda>(run, buf, good, st). length buf)") auto

declare aof_loop.simps [simp del]

text \<open>A log rewritten in the background starts with a snapshot: a mark, its length in 8 little-endian bytes, the image.\<close>

definition AOF_MARK :: string where
  "AOF_MARK = ''MYAOFRDB''"

definition u64_le :: "nat \<Rightarrow> string" where
  "u64_le n = map (\<lambda>i. char_of (n div 256 ^ i mod 256)) [0..<8]"

definition le_u64 :: "string \<Rightarrow> nat" where
  "le_u64 bs = foldr (\<lambda>c n. byte_of c + 256 * n) (take 8 bs) 0"

definition aof_preamble :: "string \<Rightarrow> string" where
  "aof_preamble img = AOF_MARK @ u64_le (length img) @ img"

text \<open>The image and the offset of the first command; \<^const>\<open>None\<close> when the image is cut off.\<close>

definition aof_split :: "string \<Rightarrow> (string option \<times> nat) option" where
  "aof_split raw =
     (if 16 \<le> length raw \<and> take 8 raw = AOF_MARK then
        let rdb_len = le_u64 (drop 8 raw)
        in if length raw - 16 < rdb_len then None
           else Some (Some (take rdb_len (drop 16 raw)), 16 + rdb_len)
      else Some (None, 0))"

text \<open>
  One replayed command. \<open>exec\<close> gives the state after \<open>do_request\<close> and the bytes of the reply. An error reply
  counts, unless it is the one of a \<open>RENAME\<close> whose source expired; \<open>do_request\<close> has put the name in lower case by then.
\<close>

definition replay_error :: "string list \<Rightarrow> string \<Rightarrow> bool" where
  "replay_error cmd sink \<longleftrightarrow>
     sink \<noteq> [] \<and> hd sink = CHR ''-'' \<and>
     \<not> (cmd \<noteq> [] \<and> (lower (hd cmd) = ''rename'' \<or> lower (hd cmd) = ''renamenx'') \<and>
        16 \<le> length sink \<and> take 16 sink = ''-ERR no such key'')"

definition replay :: "(string list \<Rightarrow> 'st \<Rightarrow> 'st \<times> string) \<Rightarrow> string list \<Rightarrow> 'st \<times> nat \<Rightarrow> 'st \<times> nat" where
  "replay exec cmd s =
     (let (st, errors) = s; (st, sink) = exec cmd st
      in (st, if replay_error cmd sink then errors + 1 else errors))"

text \<open>
  \<open>aof_load\<close>: the verdict, the file afterwards and the state. \<^const>\<open>None\<close> is a file that cannot be opened; a file is always read in full.
  \<open>rdb\<close> is \<open>rdb_load_buffer\<close>, which may leave a part of the keys behind when it fails; \<open>settle\<close> is what follows the loop:
  removing the connection and resetting the count of unsaved writes. \<open>trunc\<close> is whether \<open>truncate\<close> succeeds.
\<close>

definition aof_load :: "(string \<Rightarrow> 'st \<Rightarrow> 'st \<times> bool) \<Rightarrow> (string list \<Rightarrow> 'st \<Rightarrow> 'st \<times> string) \<Rightarrow> ('st \<Rightarrow> 'st) \<Rightarrow> bool \<Rightarrow>
    string option \<Rightarrow> 'st \<Rightarrow> bool \<times> string option \<times> 'st" where
  "aof_load rdb exec settle trunc file st =
     (case file of
        None \<Rightarrow> (False, file, st)
      | Some raw \<Rightarrow>
          if raw = [] then (True, file, st)
          else case aof_split raw of
                 None \<Rightarrow> (False, file, st)
               | Some (img, resp_offset) \<Rightarrow>
                   let (st, ok) = (case img of None \<Rightarrow> (st, True) | Some data \<Rightarrow> rdb data st)
                   in if \<not> ok then (False, file, st)
                      else let (good_offset, (st, errors), e) = aof_loop (replay exec) (drop resp_offset raw) 0 (st, 0);
                               good_total = resp_offset + good_offset
                           in (errors = 0, if good_total < length raw \<and> trunc then Some (take good_total raw) else file, settle st))"

text \<open>
  \<open>aof_check\<close>: the verdict and the file afterwards. \<open>trunc\<close> is whether \<open>truncate\<close> succeeds.
\<close>

definition aof_check :: "bool \<Rightarrow> bool \<Rightarrow> string \<Rightarrow> bool \<times> string" where
  "aof_check trunc fx raw =
     (if raw = [] then (True, raw)
      else let (good_offset, n, e) = aof_loop (\<lambda>cmd n. n + 1) raw 0 (0 :: nat)
           in if e = L_Complete then (True, raw)
              else if \<not> fx then (False, raw)
              else if trunc then (True, take good_offset raw)
              else (False, raw))"

section \<open>Recovery\<close>

text \<open>What the log may contain: the limits of the request parser.\<close>

definition frame_ok :: "string list \<Rightarrow> bool" where
  "frame_ok cmd \<longleftrightarrow>
     cmd \<noteq> [] \<and> length cmd \<le> k_max_args \<and> (\<forall>s \<in> set cmd. length s \<le> k_max_msg) \<and> length (send_cmd cmd) < 2147483648"

definition aof_log :: "string list list \<Rightarrow> string" where
  "aof_log cmds = foldl aof_encode [] cmds"

lemma aof_encode_send: "aof_encode dst args = dst @ send_cmd args"
  by (simp add: aof_encode_def send_cmd_def send_bulk_def[abs_def])

lemma aof_log_send: "aof_log cmds = concat (map send_cmd cmds)"
proof -
  have "foldl aof_encode acc cmds = acc @ concat (map send_cmd cmds)" for acc
    by (induction cmds arbitrary: acc) (simp_all add: aof_encode_send)
  then show ?thesis by (simp add: aof_log_def)
qed

lemma send_cmd_ne: "0 < length (send_cmd cmd)"
  by (simp add: send_cmd_def)

lemma aof_loop_step:
  assumes "frame_ok cmd"
  shows "aof_loop run (send_cmd cmd @ rest) good st = aof_loop run rest (good + length (send_cmd cmd)) (run cmd st)"
proof -
  have "parse_resp_request (send_cmd cmd @ rest) = (int (length (send_cmd cmd)), cmd)"
    using parse_send[of cmd rest] assms by (simp add: frame_ok_def i32_id)
  moreover have "send_cmd cmd @ rest \<noteq> []" using send_cmd_ne[of cmd] by auto
  ultimately show ?thesis using send_cmd_ne[of cmd] by (subst aof_loop.simps) simp
qed

lemma aof_loop_all:
  "\<forall>cmd \<in> set cmds. frame_ok cmd \<Longrightarrow>
   aof_loop run (aof_log cmds @ rest) good st = aof_loop run rest (good + length (aof_log cmds)) (fold run cmds st)"
  unfolding aof_log_send by (induction cmds arbitrary: good st) (simp_all add: aof_loop_step add.assoc)

text \<open>A log cut at any byte: whole commands, then a proper prefix of the next.\<close>

lemma log_cut:
  assumes "n \<le> length (aof_log cmds)"
  obtains k p q where "k \<le> length cmds" "take n (aof_log cmds) = aof_log (take k cmds) @ p"
    "p = [] \<and> n = length (aof_log (take k cmds)) \<or> k < length cmds \<and> send_cmd (cmds ! k) = p @ q \<and> p \<noteq> [] \<and> q \<noteq> []"
  using assms
proof (induction cmds arbitrary: n thesis)
  case Nil
  then show ?case by (simp add: aof_log_send)
next
  case (Cons c cmds)
  show ?case
  proof (cases "n < length (send_cmd c)")
    case True
    show ?thesis
      by (rule Cons(2)[of 0 "take n (send_cmd c)" "drop n (send_cmd c)"]) (use True in \<open>auto simp: aof_log_send\<close>)
  next
    case False
    then have "n - length (send_cmd c) \<le> length (aof_log cmds)" using Cons(3) by (simp add: aof_log_send)
    from Cons(1)[OF _ this] obtain k p q where k: "k \<le> length cmds" "take (n - length (send_cmd c)) (aof_log cmds) = aof_log (take k cmds) @ p"
      "p = [] \<and> n - length (send_cmd c) = length (aof_log (take k cmds)) \<or> k < length cmds \<and> send_cmd (cmds ! k) = p @ q \<and> p \<noteq> [] \<and> q \<noteq> []" .
    show ?thesis
      by (rule Cons(2)[of "Suc k" p q]) (use k False in \<open>auto simp: aof_log_send\<close>)
  qed
qed

lemma aof_loop_cut:
  assumes ok: "\<forall>cmd \<in> set cmds. frame_ok cmd" and n: "n \<le> length (aof_log cmds)"
  obtains k where "k \<le> length cmds" "length (aof_log (take k cmds)) \<le> n"
    "k < length cmds \<longrightarrow> n < length (aof_log (take (Suc k) cmds))"
    "aof_loop run (take n (aof_log cmds)) 0 st =
       (length (aof_log (take k cmds)), fold run (take k cmds) st, if n = length (aof_log (take k cmds)) then L_Complete else L_Truncated)"
proof -
  obtain k p q where k: "k \<le> length cmds" "take n (aof_log cmds) = aof_log (take k cmds) @ p"
    and pq: "p = [] \<and> n = length (aof_log (take k cmds)) \<or> k < length cmds \<and> send_cmd (cmds ! k) = p @ q \<and> p \<noteq> [] \<and> q \<noteq> []"
    using log_cut[OF n] .
  have ln: "n = length (aof_log (take k cmds)) + length p" using arg_cong[OF k(2), of length] n by simp
  have okk: "\<forall>cmd \<in> set (take k cmds). frame_ok cmd" using ok by (meson in_set_takeD)
  note lp = aof_loop_all[OF okk, of run p 0 st]
  have suc: "length (aof_log (take (Suc k) cmds)) = length (aof_log (take k cmds)) + length (send_cmd (cmds ! k))" if "k < length cmds"
    using that by (simp add: aof_log_send take_Suc_conv_app_nth)
  have rest: "aof_loop run p g s = (g, s, if p = [] then L_Complete else L_Truncated)" for g s
  proof (cases "p = []")
    case True
    then show ?thesis by (simp add: aof_loop.simps)
  next
    case False
    then have c: "k < length cmds" "send_cmd (cmds ! k) = p @ q" "q \<noteq> []" using pq by auto
    then have "frame_ok (cmds ! k)" using ok by simp
    then have "fst (parse_resp_request p) = 0" using parse_prefix[of "cmds ! k" p q] c by (simp add: frame_ok_def)
    then show ?thesis using False by (subst aof_loop.simps) (simp add: split_beta)
  qed
  show thesis
  proof (rule that[of k])
    show "k < length cmds \<longrightarrow> n < length (aof_log (take (Suc k) cmds))" using suc pq ln send_cmd_ne[of "cmds ! k"] by auto
    show "aof_loop run (take n (aof_log cmds)) 0 st =
       (length (aof_log (take k cmds)), fold run (take k cmds) st, if n = length (aof_log (take k cmds)) then L_Complete else L_Truncated)"
      using lp k(2) rest ln by simp
  qed (use k ln in auto)
qed

text \<open>
  C32. A log that a crash cut off after any number of bytes is recovered exactly. Replaying the remaining bytes
  executes the longest prefix of the logged commands that is completely there, in order, and nothing else; the loop
  ends in \<open>L_Complete\<close> when the cut fell between two commands and in \<open>L_Truncated\<close> otherwise, and the count of good
  bytes, to which the file is then trimmed, is the size of that prefix. A second replay of the trimmed file executes
  the same commands and finds it complete.
\<close>

theorem aof_crash_recovery:
  assumes "\<forall>cmd \<in> set cmds. frame_ok cmd" and "n \<le> length (aof_log cmds)"
  shows "\<exists>k \<le> length cmds. let done = take k cmds; good = length (aof_log done) in
    good \<le> n \<and> (k < length cmds \<longrightarrow> n < length (aof_log (take (Suc k) cmds))) \<and>
    aof_loop run (take n (aof_log cmds)) 0 st = (good, fold run done st, if n = good then L_Complete else L_Truncated) \<and>
    aof_loop run (take good (take n (aof_log cmds))) 0 st = (good, fold run done st, L_Complete)"
proof -
  obtain k where k: "k \<le> length cmds" "length (aof_log (take k cmds)) \<le> n"
    "k < length cmds \<longrightarrow> n < length (aof_log (take (Suc k) cmds))"
    "aof_loop run (take n (aof_log cmds)) 0 st =
       (length (aof_log (take k cmds)), fold run (take k cmds) st, if n = length (aof_log (take k cmds)) then L_Complete else L_Truncated)"
    using aof_loop_cut[OF assms] .
  have okk: "\<forall>cmd \<in> set (take k cmds). frame_ok cmd" using assms(1) by (meson in_set_takeD)
  have "aof_log cmds = aof_log (take k cmds) @ aof_log (drop k cmds)"
    unfolding aof_log_send by (metis append_take_drop_id concat_append map_append)
  then have "take (length (aof_log (take k cmds))) (take n (aof_log cmds)) = aof_log (take k cmds)" using k(2) by simp
  moreover have "aof_loop run (aof_log (take k cmds)) 0 st = (length (aof_log (take k cmds)), fold run (take k cmds) st, L_Complete)"
    using aof_loop_all[OF okk, of run "[]" 0 st] by (simp add: aof_loop.simps)
  ultimately show ?thesis using k by (intro exI[of _ k]) (simp add: Let_def)
qed

theorem aof_crash_recovery_witness:
  "aof_loop (\<lambda>cmd st. st @ [cmd]) (take 40 (aof_log [[''set'', ''a'', ''1''], [''del'', ''a'']])) 0 [] =
     (27, [[''set'', ''a'', ''1'']], L_Truncated)"
proof -
  let ?cmds = "[[''set'', ''a'', ''1''], [''del'', ''a'']]"
  have l: "length (send_cmd [''set'', ''a'', ''1'']) = 27" "length (send_cmd [''del'', ''a'']) = 20"
    by (simp_all add: send_cmd_def send_bulk_def nat_dec.simps)
  have f: "\<forall>cmd \<in> set ?cmds. frame_ok cmd" "40 \<le> length (aof_log ?cmds)"
    using l by (simp_all add: frame_ok_def k_max_args_def k_max_msg_def aof_log_send)
  obtain k where k: "k \<le> length ?cmds" and kk: "let done = take k ?cmds; good = length (aof_log done) in
    good \<le> 40 \<and> (k < length ?cmds \<longrightarrow> 40 < length (aof_log (take (Suc k) ?cmds))) \<and>
    aof_loop (\<lambda>cmd st. st @ [cmd]) (take 40 (aof_log ?cmds)) 0 [] = (good, fold (\<lambda>cmd st. st @ [cmd]) done [], if 40 = good then L_Complete else L_Truncated) \<and>
    aof_loop (\<lambda>cmd st. st @ [cmd]) (take good (take 40 (aof_log ?cmds))) 0 [] = (good, fold (\<lambda>cmd st. st @ [cmd]) done [], L_Complete)"
    using aof_crash_recovery[OF f, of "\<lambda>cmd st. st @ [cmd]" "[]"] by blast
  have "k = 0 \<or> k = 1 \<or> k = 2" using k by auto
  then have "k = 1" using kk l unfolding Let_def by (auto simp: aof_log_send)
  then show ?thesis using kk l unfolding Let_def by (simp add: aof_log_send)
qed

section \<open>Rewritten logs\<close>

lemma le_bytes: "foldr (\<lambda>c n. byte_of c + 256 * n) (map (\<lambda>i. char_of (n div 256 ^ i mod 256)) [k..<k + m]) 0 = n div 256 ^ k mod 256 ^ m"
proof (induction m arbitrary: k)
  case (Suc m)
  have "[k..<k + Suc m] = k # [Suc k..<Suc k + m]" by (simp add: upt_conv_Cons)
  moreover have "n div 256 ^ Suc k = n div 256 ^ k div 256" by (metis div_mult2_eq power_Suc2)
  moreover have "byte_of (char_of (a :: nat)) = a mod 256" for a by (simp add: byte_of_def)
  ultimately show ?case using Suc[of "Suc k"] mod_mult2_eq[of "n div 256 ^ k" 256 "256 ^ m"] by simp
qed simp

lemma le_u64_le:
  assumes "n < 2 ^ 64"
  shows "le_u64 (u64_le n @ r) = n"
  using le_bytes[of n 0 8] assms by (simp add: le_u64_def u64_le_def)

lemma preamble_split:
  assumes "length img < 2 ^ 64"
  shows "aof_split (aof_preamble img @ tail) = Some (Some img, length (aof_preamble img))"
proof -
  let ?raw = "aof_preamble img @ tail"
  have l: "length AOF_MARK = 8" "length (u64_le (length img)) = 8" by (simp_all add: AOF_MARK_def u64_le_def)
  have "take 8 ?raw = AOF_MARK" "drop 8 ?raw = u64_le (length img) @ img @ tail" "drop 16 ?raw = img @ tail"
    using l by (simp_all add: aof_preamble_def)
  then show ?thesis using l le_u64_le[OF assms] by (simp add: aof_split_def aof_preamble_def)
qed

lemma inline_no_lf:
  assumes "raw \<noteq> []" "hd raw \<noteq> CHR ''*''" "LF \<notin> set (take (Suc k_max_inline) raw)"
  shows "fst (parse_resp_request raw) \<le> 0"
proof -
  obtain c r where r: "raw = c # r" "c \<noteq> CHR ''*''" using assms(1,2) by (cases raw) auto
  define w where "w = takeWhile (\<lambda>c. c \<noteq> LF) (drop (Suc k_max_inline) raw)"
  have tw: "takeWhile (\<lambda>c. c \<noteq> LF) raw = take (Suc k_max_inline) raw @ w"
    using assms(3) takeWhile_append2[of "take (Suc k_max_inline) raw" "\<lambda>c. c \<noteq> LF" "drop (Suc k_max_inline) raw"] by (auto simp: w_def)
  have "length w \<le> length raw - Suc k_max_inline" using length_takeWhile_le[of _ "drop (Suc k_max_inline) raw"] by (simp add: w_def)
  then have "k_max_inline < length (takeWhile (\<lambda>c. c \<noteq> LF) raw) \<or> length (takeWhile (\<lambda>c. c \<noteq> LF) raw) = length raw"
    unfolding tw length_append length_take by linarith
  then show ?thesis using r by (auto simp: parse_resp_request_def parse_inline_def Let_def)
qed

text \<open>
  C33. A log rewritten in the background, and what the two readers make of it. \<open>aof_load\<close> takes the snapshot mark, the image and
  the commands logged after it: when the image loads and no replayed command fails, it reports success, leaves the file as it
  is, and the state is that of the image followed by the commands. \<open>aof_check\<close> does not know the mark. When no
  line feed is among the first 65537 bytes (as in the file of a small snapshot that happens to hold no such byte and has no command after
  it yet), it finds the file damaged at offset 0, and with \<open>--fix\<close> it cuts the whole file away and reports success; the next
  \<open>aof_load\<close> then starts from nothing.
\<close>

theorem aof_check_destroys_preamble:
  assumes frames: "\<forall>cmd \<in> set cmds. frame_ok cmd" and len: "length img < 2 ^ 64"
    and img: "rdb img st = (st1, True)" and run: "fold (replay exec) cmds (st1, 0) = (st2, 0)"
    and no_lf: "LF \<notin> set (take (Suc k_max_inline) (aof_preamble img @ aof_log cmds))"
  shows "let raw = aof_preamble img @ aof_log cmds in
    aof_load rdb exec settle trunc (Some raw) st = (True, Some raw, settle st2) \<and>
    aof_check trunc False raw = (False, raw) \<and> aof_check True True raw = (True, []) \<and>
    aof_load rdb exec settle trunc (Some (snd (aof_check True True raw))) st = (True, Some [], st)"
proof -
  define raw where "raw = aof_preamble img @ aof_log cmds"
  have ne: "aof_preamble img \<noteq> []" by (simp add: aof_preamble_def AOF_MARK_def)
  have raw: "raw \<noteq> []" "hd raw \<noteq> CHR ''*''" by (simp_all add: raw_def aof_preamble_def AOF_MARK_def)
  have "aof_loop (replay exec) (aof_log cmds) 0 (st1, 0) = (length (aof_log cmds), (st2, 0), L_Complete)"
    using aof_loop_all[OF frames, of "replay exec" "[]" 0 "(st1, 0)"] run by (simp add: aof_loop.simps)
  then have load: "aof_load rdb exec settle trunc (Some raw) st = (True, Some raw, settle st2)"
    using ne preamble_split[OF len, of "aof_log cmds"] img by (simp add: aof_load_def raw_def Let_def)
  have "fst (parse_resp_request raw) \<le> 0" using inline_no_lf[OF raw] no_lf by (simp add: raw_def)
  then have "\<exists>e. aof_loop (\<lambda>cmd n. n + 1) raw 0 (0 :: nat) = (0, 0, e) \<and> e \<noteq> L_Complete"
    using raw(1) by (subst aof_loop.simps) (auto simp: split_beta)
  then have "aof_check trunc False raw = (False, raw)" "aof_check True True raw = (True, [])" using raw(1) by (auto simp: aof_check_def)
  then show ?thesis using load by (simp add: raw_def[symmetric] aof_load_def)
qed

text \<open>The image \<open>rdb_serialize\<close> builds for an empty key space.\<close>

definition empty_image :: string where
  "empty_image = ''MYRED'' @ [CHR 0x03, NUL, NUL, NUL, NUL, NUL, NUL, NUL, NUL, CHR 0xFF, CHR 0x72, CHR 0x42, CHR 0xC9, CHR 0x09]"

theorem aof_check_destroys_preamble_witness:
  "let raw = aof_preamble empty_image; rdb = (\<lambda>data st. (st, data = empty_image)); exec = (\<lambda>cmd st. (st @ [cmd], ''+OK'')) in
   aof_load rdb exec id True (Some raw) [] = (True, Some raw, []) \<and> aof_check True True raw = (True, [])"
proof -
  have l: "length empty_image = 19" by (simp add: empty_image_def)
  have "set (aof_preamble empty_image) = set AOF_MARK \<union> set (u64_le 19) \<union> set empty_image" by (simp add: aof_preamble_def l Un_assoc)
  moreover have "LF \<notin> set AOF_MARK" "LF \<notin> set empty_image" by (simp_all add: AOF_MARK_def empty_image_def)
  moreover have "u64_le 19 = [CHR 0x13, NUL, NUL, NUL, NUL, NUL, NUL, NUL]" by (simp add: u64_le_def upt_rec char_of_def bit_0)
  then have "LF \<notin> set (u64_le 19)" by simp
  ultimately have "LF \<notin> set (take (Suc k_max_inline) (aof_preamble empty_image @ aof_log []))"
    by (auto simp: aof_log_def dest: in_set_takeD)
  then show ?thesis
    using aof_check_destroys_preamble[of "[]" empty_image "\<lambda>data st. (st, data = empty_image)" "[]" "[]"
        "\<lambda>cmd st. (st @ [cmd], ''+OK'')" "[]" id True]
    by (simp add: aof_log_def l Let_def)
qed

end
