(* ===== verification/Sha.thy ===== *)
theory Sha
  imports Prelude
begin

text \<open>
  The hash function of \<open>auth/sha256.h\<close>: the compression of one block, the streaming driver \<open>sha256_hex\<close> with its
  padding, and the constant-time comparison. The specification is the definition of SHA-256 on the padded message.
\<close>

unbundle bit_operations_syntax

section \<open>Model\<close>

definition rotate_right :: "u32 \<Rightarrow> nat \<Rightarrow> u32" where
  "rotate_right value bits = drop_bit bits value OR push_bit (32 - bits) value"

text \<open>
  The 64 entries of \<open>round_constants\<close>. The source lists them as literals \<open>fixed by the spec\<close>: entry \<open>i\<close> is the first 32
  bits of the fractional part of the cube root of the prime number \<open>i\<close>, which is the form they are given in here. The root is
  found bit by bit; conversion to a 32-bit word drops its integral part. A number below 312 is prime when no
  prime up to 17 other than itself divides it.
\<close>

definition round_primes :: "nat list" where
  "round_primes = filter (\<lambda>p. list_all (\<lambda>d. d dvd p \<longrightarrow> d = p) [2, 3, 5, 7, 11, 13, 17]) [2..<312]"

fun cube_root :: "nat \<Rightarrow> nat \<Rightarrow> nat \<Rightarrow> nat" where
  "cube_root 0 n r = r"
| "cube_root (Suc k) n r = cube_root k n (if (r + 2 ^ k) ^ 3 \<le> n then r + 2 ^ k else r)"

definition root_word :: "nat \<Rightarrow> u32" where
  "root_word p = of_nat (cube_root 35 (p * 2 ^ 96) 0)"

definition round_constants :: "u32 list" where
  "round_constants = map root_word round_primes"

text \<open>The message schedule: sixteen big-endian words of the block, then 48 steps of the recurrence.\<close>

definition load_word :: "u8 list \<Rightarrow> nat \<Rightarrow> u32" where
  "load_word block p =
     push_bit 24 (ucast (block ! p)) OR push_bit 16 (ucast (block ! (p + 1))) OR
     push_bit 8 (ucast (block ! (p + 2))) OR ucast (block ! (p + 3))"

definition schedule_step :: "nat \<Rightarrow> u32 list \<Rightarrow> u32 list" where
  "schedule_step i schedule =
     (let sigma0 = rotate_right (schedule ! (i - 15)) 7 XOR rotate_right (schedule ! (i - 15)) 18 XOR drop_bit 3 (schedule ! (i - 15));
          sigma1 = rotate_right (schedule ! (i - 2)) 17 XOR rotate_right (schedule ! (i - 2)) 19 XOR drop_bit 10 (schedule ! (i - 2))
      in schedule @ [schedule ! (i - 16) + sigma0 + schedule ! (i - 7) + sigma1])"

definition schedule_of :: "u8 list \<Rightarrow> u32 list" where
  "schedule_of block = fold schedule_step [16..<64] (map (\<lambda>i. load_word block (4 * i)) [0..<16])"

record sha_state =
  ra :: u32
  rb :: u32
  rc :: u32
  rd :: u32
  re :: u32
  rf :: u32
  rg :: u32
  rh :: u32

definition sha_round :: "u32 list \<Rightarrow> nat \<Rightarrow> sha_state \<Rightarrow> sha_state" where
  "sha_round schedule i s =
     (let big_sigma1 = rotate_right (re s) 6 XOR rotate_right (re s) 11 XOR rotate_right (re s) 25;
          chosen = (re s AND rf s) XOR (NOT (re s) AND rg s);
          temp1 = rh s + big_sigma1 + chosen + round_constants ! i + schedule ! i;
          big_sigma0 = rotate_right (ra s) 2 XOR rotate_right (ra s) 13 XOR rotate_right (ra s) 22;
          majority = (ra s AND rb s) XOR (ra s AND rc s) XOR (rb s AND rc s);
          temp2 = big_sigma0 + majority
      in \<lparr>ra = temp1 + temp2, rb = ra s, rc = rb s, rd = rc s, re = rd s + temp1, rf = re s, rg = rf s, rh = rg s\<rparr>)"

definition sha_transform :: "sha_state \<Rightarrow> u8 list \<Rightarrow> sha_state" where
  "sha_transform st block =
     (let schedule = schedule_of block;
          r = fold (sha_round schedule) [0..<64] st
      in \<lparr>ra = ra st + ra r, rb = rb st + rb r, rc = rc st + rc r, rd = rd st + rd r,
          re = re st + re r, rf = rf st + rf r, rg = rg st + rg r, rh = rh st + rh r\<rparr>)"

definition sha_init :: sha_state where
  "sha_init = \<lparr>ra = 0x6a09e667, rb = 0xbb67ae85, rc = 0x3c6ef372, rd = 0xa54ff53a,
               re = 0x510e527f, rf = 0x9b05688c, rg = 0x1f83d9ab, rh = 0x5be0cd19\<rparr>"

text \<open>
  The loop over the message: the state, the bytes gathered in \<open>data[0..len)\<close> and the bits of the blocks already
  compressed.
\<close>

fun sha_feed :: "u8 list \<Rightarrow> sha_state \<times> u8 list \<times> u64 \<Rightarrow> sha_state \<times> u8 list \<times> u64" where
  "sha_feed [] s = s"
| "sha_feed (ch # msg) (st, data, bitlen) =
     (let data = data @ [ch]
      in if length data = 64 then sha_feed msg (sha_transform st data, [], bitlen + 512)
         else sha_feed msg (st, data, bitlen))"

definition be_u64 :: "u64 \<Rightarrow> u8 list" where
  "be_u64 w = map (\<lambda>k. ucast (drop_bit (8 * (7 - k)) w)) [0..<8]"

definition sha_digest :: "u8 list \<Rightarrow> sha_state" where
  "sha_digest msg =
     (let (st, data, bitlen) = sha_feed msg (sha_init, [], 0);
          len = length data;
          data = data @ [0x80];
          (st, data) =
            (if len < 56 then (st, data @ replicate (56 - length data) 0)
             else (sha_transform st (data @ replicate (64 - length data) 0), replicate 56 0));
          bitlen = bitlen + of_nat len * 8
      in sha_transform st (data @ be_u64 bitlen))"

definition hx :: "u8 \<Rightarrow> char" where
  "hx n = ''0123456789abcdef'' ! unat n"

definition hex_word :: "u32 \<Rightarrow> string" where
  "hex_word w = concat (map (\<lambda>k. let byte = (ucast (drop_bit (8 * k) w) :: u8) in [hx (drop_bit 4 byte), hx (byte AND 0xf)]) [3, 2, 1, 0])"

definition str_bytes :: "string \<Rightarrow> u8 list" where
  "str_bytes s = map (\<lambda>c. of_nat (byte_of c)) s"

definition sha256_hex :: "string \<Rightarrow> string" where
  "sha256_hex msg =
     (let st = sha_digest (str_bytes msg)
      in concat (map hex_word [ra st, rb st, rc st, rd st, re st, rf st, rg st, rh st]))"

text \<open>The comparison touches every byte; \<open>diff\<close> collects the differences.\<close>

definition ct_equal :: "string \<Rightarrow> string \<Rightarrow> bool" where
  "ct_equal a b =
     (if length a \<noteq> length b then False
      else foldl (\<lambda>diff i. diff OR (of_nat (byte_of (a ! i)) XOR of_nat (byte_of (b ! i)))) (0 :: u8) [0..<length a] = 0)"

section \<open>Streaming and padding\<close>

text \<open>The padded message of the standard, cut into blocks.\<close>

definition sha_pad :: "u8 list \<Rightarrow> u8 list" where
  "sha_pad msg = msg @ 0x80 # replicate ((119 - length msg mod 64) mod 64) 0 @ be_u64 (of_nat (8 * length msg))"

fun blocks :: "nat \<Rightarrow> 'a list \<Rightarrow> 'a list list" where
  "blocks 0 xs = []"
| "blocks (Suc n) xs = take 64 xs # blocks n (drop 64 xs)"

definition sha_spec :: "u8 list \<Rightarrow> sha_state" where
  "sha_spec msg = foldl sha_transform sha_init (blocks (length (sha_pad msg) div 64) (sha_pad msg))"

subsection \<open>The round constants\<close>

text \<open>The bitwise search finds the integer cube root, once the root is known to fit in the bits tried.\<close>

lemma cube_root_bounds:
  "r ^ 3 \<le> n \<Longrightarrow> n < (r + 2 ^ k) ^ 3 \<Longrightarrow> cube_root k n r ^ 3 \<le> n \<and> n < Suc (cube_root k n r) ^ 3"
proof (induction k arbitrary: r)
  case (Suc k)
  then show ?case by (cases "(r + 2 ^ k) ^ 3 \<le> n") (auto simp: add.assoc mult_2)
qed simp

lemma root_word_floor:
  assumes "p < 512"
  shows "cube_root 35 (p * 2 ^ 96) 0 ^ 3 \<le> p * 2 ^ 96 \<and> p * 2 ^ 96 < Suc (cube_root 35 (p * 2 ^ 96) 0) ^ 3"
  using assms by (intro cube_root_bounds) simp_all

lemma cube_root_numeral:
  "cube_root (numeral k) n r =
     cube_root (pred_numeral k) n (if (r + 2 ^ pred_numeral k) ^ 3 \<le> n then r + 2 ^ pred_numeral k else r)"
  by (simp add: numeral_eq_Suc)

lemma root_word_numeral: "root_word (numeral p) = of_nat (cube_root 35 (numeral p * 2 ^ 96) 0)"
  by (simp add: root_word_def)

text \<open>Number, sum and sum weighted by position of the entries are those of the literals in the source.\<close>

lemma round_constants_sums:
  "foldl (\<lambda>(n, s, w) k. (n + 1, s + unat k, w + n * unat k)) (1, 0, 0) round_constants = (65, 131333953365, 4276501653382)"
  unfolding round_constants_def round_primes_def by (simp add: root_word_numeral cube_root_numeral)

subsection \<open>Blocks\<close>

lemma be_u64_len [simp]: "length (be_u64 w) = 8"
  by (simp add: be_u64_def)

lemma blocks_append: "length xs = 64 * n \<Longrightarrow> blocks (n + m) (xs @ ys) = blocks n xs @ blocks m ys"
proof (induction n arbitrary: xs)
  case (Suc n)
  have l: "64 \<le> length xs" "length (drop 64 xs) = 64 * n" using Suc(2) by simp_all
  then have "drop 64 (xs @ ys) = drop 64 xs @ ys" "take 64 (xs @ ys) = take 64 xs" by simp_all
  then show ?case using Suc(1)[OF l(2)] by simp
qed simp

lemma sha_feed_ok:
  "length data < 64 \<Longrightarrow> sha_feed msg (st, data, b) =
     (let all = data @ msg; n = length all div 64
      in (foldl sha_transform st (blocks n (take (64 * n) all)), drop (64 * n) all, b + of_nat (512 * n)))"
proof (induction msg arbitrary: st data b)
  case Nil
  then show ?case by simp
next
  case (Cons c msg)
  show ?case
  proof (cases "length (data @ [c]) = 64")
    case True
    let ?n = "length msg div 64"
    define X where "X = data @ [c]"
    have x: "data @ c # msg = X @ msg" "length X = 64" using True by (simp_all add: X_def)
    have l: "length (X @ msg) div 64 = Suc ?n" using x(2) by simp
    have t: "take (64 * Suc ?n) (X @ msg) = X @ take (64 * ?n) msg" "drop (64 * Suc ?n) (X @ msg) = drop (64 * ?n) msg"
      using x(2) by simp_all
    have b: "blocks (Suc ?n) (X @ Z) = X # blocks ?n Z" for Z using x(2) by simp
    have w: "b + 512 + of_nat (512 * ?n) = (b + of_nat (512 * Suc ?n) :: u64)" by (simp add: algebra_simps)
    have "sha_feed (c # msg) (st, data, b) = sha_feed msg (sha_transform st X, [], b + 512)" using True by (simp add: X_def)
    also have "\<dots> = (foldl sha_transform (sha_transform st X) (blocks ?n (take (64 * ?n) msg)), drop (64 * ?n) msg, b + 512 + of_nat (512 * ?n))"
      using Cons(1)[of "[]" "sha_transform st X" "b + 512"] unfolding Let_def by simp
    finally show ?thesis unfolding Let_def x(1) l t b w by (simp only: foldl.simps)
  next
    case False
    then have "length (data @ [c]) < 64" using Cons(2) by simp
    from Cons(1)[OF this, of st b] show ?thesis using False by (simp add: Let_def)
  qed
qed

lemma bits_len: "of_nat (512 * n) + of_nat (length (d :: u8 list)) * 8 = (of_nat (8 * (64 * n + length d)) :: u64)"
  by simp

lemma sha_pad_len: "length (sha_pad msg) mod 64 = 0"
proof -
  define r where "r = length msg mod 64"
  have r: "r < 64" by (simp add: r_def)
  have "r + (9 + (119 - r) mod 64) = 64 \<or> r + (9 + (119 - r) mod 64) = 128"
  proof (cases "r < 56")
    case True
    then have e: "119 - r = 55 - r + 64" by simp
    have "(55 - r) mod 64 = 55 - r" by (rule mod_less) simp
    then have "(119 - r) mod 64 = 55 - r" unfolding e mod_add_self2 .
    then show ?thesis using True by linarith
  next
    case False
    then have "(119 - r) mod 64 = 119 - r" by (intro mod_less) simp
    then show ?thesis using r False by linarith
  qed
  then have "(r + (9 + (119 - r) mod 64)) mod 64 = 0" by (elim disjE) (simp_all only: mod_self, simp)
  then have "(length msg + (9 + (119 - r) mod 64)) mod 64 = 0" unfolding r_def by (simp only: mod_add_left_eq)
  then show ?thesis by (simp add: sha_pad_def r_def add.commute)
qed

lemma sha_digest_cases:
  assumes "sha_feed msg (sha_init, [], 0) = (st, d, b)" "length d < 64"
  shows "sha_digest msg =
    (if length d < 56 then sha_transform st (d @ 0x80 # replicate (55 - length d) 0 @ be_u64 (b + of_nat (length d) * 8))
     else sha_transform (sha_transform st (d @ 0x80 # replicate (63 - length d) 0)) (replicate 56 0 @ be_u64 (b + of_nat (length d) * 8)))"
  using assms by (simp add: sha_digest_def Let_def)

lemma sha_digest_spec: "sha_digest msg = sha_spec msg"
proof -
  define n where "n = length msg div 64"
  define t where "t = take (64 * n) msg"
  define d where "d = drop (64 * n) msg"
  define B where "B = (of_nat (8 * length msg) :: u64)"
  have msg: "msg = t @ d" by (simp add: t_def d_def)
  have lt: "length t = 64 * n" and ld: "length d = length msg mod 64" "length d < 64"
    by (simp_all add: t_def d_def n_def minus_mult_div_eq_mod)
  let ?st = "foldl sha_transform sha_init (blocks n t)"
  have f: "sha_feed msg (sha_init, [], 0) = (?st, d, of_nat (512 * n))"
    using sha_feed_ok[of "[]" msg sha_init 0] by (simp add: Let_def t_def d_def n_def)
  have "length msg = 64 * n + length d" using lt msg by simp
  then have bl: "of_nat (512 * n) + of_nat (length d) * 8 = B" unfolding B_def using bits_len[of n d] by simp
  let ?tail = "d @ 0x80 # replicate ((119 - length d) mod 64) 0 @ be_u64 B"
  have pad: "sha_pad msg = t @ ?tail" unfolding sha_pad_def ld(1)[symmetric] B_def[symmetric] by (simp add: msg)
  have spec: "sha_spec msg = foldl sha_transform ?st (blocks m ?tail)" if "length ?tail = 64 * m" for m
    using lt that blocks_append[OF lt, of m ?tail] unfolding sha_spec_def pad by simp
  note dig = sha_digest_cases[OF f ld(2), unfolded bl]
  show ?thesis
  proof (cases "length d < 56")
    case True
    then have m: "(119 - length d) mod 64 = 55 - length d" by (simp add: mod_if)
    have l: "length ?tail = 64 * 1" using True m by simp
    then have "blocks 1 ?tail = [?tail]" by simp
    then show ?thesis using spec[OF l] dig True m by simp
  next
    case False
    then have m: "(119 - length d) mod 64 = (63 - length d) + 56" using ld(2) by simp
    have l: "length ?tail = 64 * 2" using False ld(2) m by simp
    let ?one = "d @ 0x80 # replicate (63 - length d) 0"
    have tail: "?tail = ?one @ replicate 56 0 @ be_u64 B" unfolding m by (simp only: replicate_add append.assoc append_Cons)
    have two: "blocks 2 (X @ Y) = [X, Y]" if "length X = 64" "length Y = 64" for X Y :: "u8 list"
      using that by (simp add: numeral_2_eq_2)
    have "blocks 2 ?tail = [?one, replicate 56 0 @ be_u64 B]" unfolding tail by (rule two) (use False ld(2) in simp_all)
    then show ?thesis using spec[OF l] dig False by simp
  qed
qed

lemma hx_digit: "unat n < 16 \<Longrightarrow> hx n \<in> set ''0123456789abcdef''"
  unfolding hx_def by (rule nth_mem) simp

lemma hex_word_ok: "length (hex_word w) = 8" "set (hex_word w) \<subseteq> set ''0123456789abcdef''"
proof -
  show "length (hex_word w) = 8" by (simp add: hex_word_def Let_def)
  have h: "hx (drop_bit 4 b) \<in> set ''0123456789abcdef''" "hx (b AND 0xf) \<in> set ''0123456789abcdef''" for b :: u8
  proof -
    have "unat b < 256" using unsigned_less[of b, where 'a = nat] by simp
    then have "unat (drop_bit 4 b) < 16" by (simp add: drop_bit_eq_div unat_div)
    then show "hx (drop_bit 4 b) \<in> set ''0123456789abcdef''" by (rule hx_digit)
    have "b AND 0xf = take_bit 4 b" by (simp add: take_bit_eq_mask mask_eq_exp_minus_1)
    then have "unat (b AND 0xf) = unat b mod 16" by (simp add: take_bit_eq_mod unat_mod)
    then show "hx (b AND 0xf) \<in> set ''0123456789abcdef''" by (intro hx_digit) simp
  qed
  show "set (hex_word w) \<subseteq> set ''0123456789abcdef''" using h unfolding hex_word_def Let_def by auto
qed

lemma u8_or_zero: "x OR y = 0 \<longleftrightarrow> x = 0 \<and> y = (0 :: u8)"
  by (auto simp: bit_eq_iff bit_or_iff)

lemma or_fold_zero: "foldl (\<lambda>d i. d OR f i) (x :: u8) js = 0 \<longleftrightarrow> x = 0 \<and> (\<forall>i \<in> set js. f i = 0)"
  by (induction js arbitrary: x) (simp_all add: u8_or_zero conj_assoc)

lemma u8_xor_zero: "x XOR y = 0 \<longleftrightarrow> x = (y :: u8)"
  by (auto simp: bit_eq_iff bit_xor_iff)

lemma byte_word_inj: "(of_nat (byte_of c) :: u8) = of_nat (byte_of d) \<longleftrightarrow> c = d"
proof -
  have "byte_of c < 256" "byte_of d < 256" by (simp_all add: byte_of_def)
  then have "(of_nat (byte_of c) :: u8) = of_nat (byte_of d) \<longleftrightarrow> byte_of c = byte_of d"
    by (simp add: word_of_nat_eq_iff take_bit_eq_mod)
  then show ?thesis by (simp add: byte_of_def)
qed

lemma ct_equal_eq: "ct_equal a b \<longleftrightarrow> a = b"
proof (cases "length a = length b")
  case True
  then have "ct_equal a b \<longleftrightarrow> (\<forall>i < length a. a ! i = b ! i)"
    unfolding ct_equal_def or_fold_zero u8_xor_zero byte_word_inj by auto
  then show ?thesis using True by (simp only: list_eq_iff_nth_eq simp_thms)
next
  case False
  then show ?thesis by (auto simp: ct_equal_def)
qed

text \<open>
  C34. \<open>sha256_hex\<close> computes SHA-256 of every byte string: the streaming loop, which compresses full blocks as they
  fill up and pads the rest into one or two final blocks, gives the same state as compressing the blocks of the
  padded message in order, where the padding is a one bit, zeros up to 56 modulo 64, and the bit length in eight
  big-endian bytes. The result is 64 lowercase hexadecimal digits, and \<open>ct_equal\<close>, which never stops early, is
  equality.
\<close>

theorem sha256_hex_spec:
  "sha256_hex msg = (let st = sha_spec (str_bytes msg) in concat (map hex_word [ra st, rb st, rc st, rd st, re st, rf st, rg st, rh st])) \<and>
   length (sha_pad (str_bytes msg)) mod 64 = 0 \<and>
   length (sha256_hex msg) = 64 \<and> set (sha256_hex msg) \<subseteq> set ''0123456789abcdef'' \<and>
   (ct_equal (sha256_hex msg) s \<longleftrightarrow> sha256_hex msg = s)"
proof (intro conjI)
  show "sha256_hex msg = (let st = sha_spec (str_bytes msg) in concat (map hex_word [ra st, rb st, rc st, rd st, re st, rf st, rg st, rh st]))"
    by (simp add: sha256_hex_def sha_digest_spec)
  show "length (sha_pad (str_bytes msg)) mod 64 = 0" by (rule sha_pad_len)
  show "length (sha256_hex msg) = 64" "set (sha256_hex msg) \<subseteq> set ''0123456789abcdef''"
    using hex_word_ok by (simp_all add: sha256_hex_def Let_def)
  show "ct_equal (sha256_hex msg) s \<longleftrightarrow> sha256_hex msg = s" by (rule ct_equal_eq)
qed

end
