(* ===== verification/Config_Parse.thy ===== *)
theory Config_Parse
  imports Num_Parse Resp
begin

text \<open>
  The parsers of \<open>core/state.cpp\<close> for the values and lines of the configuration file: strict integers, memory sizes,
  notification flags, address ranges and the line tokenizer, and the writer of \<open>CONFIG REWRITE\<close>. The C library
  functions they use are modelled as far as they are used: \<open>strtol\<close>, \<open>strtoull\<close> and \<open>inet_pton\<close> for IPv4.
\<close>

unbundle bit_operations_syntax

section \<open>Model\<close>

text \<open>\<open>strtol\<close> in base 10: the value, the number of bytes consumed and whether \<open>errno\<close> is \<open>ERANGE\<close>.\<close>

definition strtol :: "string \<Rightarrow> int \<times> nat \<times> bool" where
  "strtol s =
     (let ws = length (takeWhile isspace s);
          s1 = drop ws s;
          sg = (if s1 \<noteq> [] \<and> (hd s1 = CHR ''-'' \<or> hd s1 = CHR ''+'') then 1 else 0);
          neg = (s1 \<noteq> [] \<and> hd s1 = CHR ''-'');
          ds = takeWhile isdigit (drop sg s1);
          v = (if neg then - int (dec_val 0 ds) else int (dec_val 0 ds))
      in if ds = [] then (0, 0, False)
         else if v < INT64_MIN then (INT64_MIN, ws + sg + length ds, True)
         else if INT64_MAX < v then (INT64_MAX, ws + sg + length ds, True)
         else (v, ws + sg + length ds, False))"

definition parse_int_strict :: "string \<Rightarrow> int option" where
  "parse_int_strict str =
     (let s = c_str str
      in if s = [] then None
         else let (v, endp, erange) = strtol s
              in if erange \<or> endp = 0 \<or> endp \<noteq> length s then None else Some v)"

definition parse_bool_strict :: "string \<Rightarrow> bool option" where
  "parse_bool_strict s = (if s = ''yes'' then Some True else if s = ''no'' then Some False else None)"

text \<open>The value \<open>strtoull\<close> gives for a string that starts with a digit; it stays at the maximum on overflow.\<close>

definition strtoull :: "string \<Rightarrow> nat" where
  "strtoull s = min (2 ^ 64 - 1) (dec_val 0 (takeWhile isdigit s))"

definition parse_memory_size :: "string \<Rightarrow> u64 option" where
  "parse_memory_size s =
     (let digits = takeWhile isdigit s;
          i = length digits
      in if i = 0 then None
         else let num = strtoull s;
                  u = lower (drop i s);
                  mult = (if u = '''' \<or> u = ''b'' then Some (1 :: nat)
                          else if u = ''k'' then Some 1000
                          else if u = ''kb'' then Some 1024
                          else if u = ''m'' then Some (1000 * 1000)
                          else if u = ''mb'' then Some (1024 * 1024)
                          else if u = ''g'' then Some (1000 * 1000 * 1000)
                          else if u = ''gb'' then Some (1024 * 1024 * 1024)
                          else None)
              in case mult of
                   None \<Rightarrow> None
                 | Some k \<Rightarrow> if (2 ^ 64 - 1) div k < num then None else Some (of_nat (num * k)))"

subsection \<open>Notification flags\<close>

definition notify_table :: "(char \<times> nat) list" where
  "notify_table = [(CHR ''g'', 4), (CHR ''$'', 8), (CHR ''l'', 16), (CHR ''s'', 32), (CHR ''h'', 64), (CHR ''z'', 128), (CHR ''x'', 256), (CHR ''e'', 512)]"

definition NOTIFY_ALL :: nat where
  "NOTIFY_ALL = 4 OR 8 OR 16 OR 32 OR 64 OR 128 OR 256 OR 512"

definition notify_bit :: "char \<Rightarrow> nat option" where
  "notify_bit c =
     (if c = CHR ''K'' then Some 1 else if c = CHR ''E'' then Some 2
      else if c = CHR ''A'' then Some NOTIFY_ALL
      else map_of notify_table c)"

fun parse_notify_loop :: "string \<Rightarrow> nat \<Rightarrow> nat option" where
  "parse_notify_loop [] f = Some f"
| "parse_notify_loop (c # s) f = (case notify_bit c of None \<Rightarrow> None | Some b \<Rightarrow> parse_notify_loop s (f OR b))"

definition parse_notify_flags :: "string \<Rightarrow> nat option" where
  "parse_notify_flags s = parse_notify_loop s 0"

definition notify_flags_string :: "nat \<Rightarrow> string" where
  "notify_flags_string f =
     (if f AND NOTIFY_ALL = NOTIFY_ALL then ''A''
      else concat (map (\<lambda>(c, b). if f AND b \<noteq> 0 then [c] else []) notify_table)) @
     (if f AND 1 \<noteq> 0 then ''K'' else []) @ (if f AND 2 \<noteq> 0 then ''E'' else [])"

subsection \<open>Address ranges\<close>

text \<open>The loop of \<open>inet_pton\<close>: the octets so far, the last one still growing while \<open>saw\<close> holds.\<close>

fun pton_loop :: "string \<Rightarrow> nat list \<Rightarrow> bool \<Rightarrow> nat list option" where
  "pton_loop [] os saw = (if length os = 4 \<and> saw then Some os else None)"
| "pton_loop (c # s) os saw =
     (if isdigit c then
        if saw then
          (let n = last os * 10 + digit_val c
           in if last os = 0 \<or> 255 < n then None else pton_loop s (butlast os @ [n]) True)
        else if length os = 4 then None else pton_loop s (os @ [digit_val c]) True
      else if c = CHR ''.'' \<and> saw \<and> length os < 4 then pton_loop s os False
      else None)"

definition inet_pton4 :: "string \<Rightarrow> u32 option" where
  "inet_pton4 s = map_option (foldl (\<lambda>a b. a * 256 + of_nat b) 0) (pton_loop s [] False)"

definition cidr_mask :: "nat \<Rightarrow> u32" where
  "cidr_mask bits = (if bits = 0 then 0 else push_bit (32 - bits) 0xFFFFFFFF)"

definition parse_cidr :: "string \<Rightarrow> (u32 \<times> u32) option" where
  "parse_cidr s =
     (let ip = takeWhile (\<lambda>c. c \<noteq> CHR ''/'') s;
          bits = (if length ip = length s then Some 32
                  else let b = c_str (drop (length ip + 1) s);
                           (parsed, endp, _) = strtol b
                       in if endp = 0 \<or> endp \<noteq> length b then None
                          else if parsed < 0 \<or> 32 < parsed then None
                          else Some (nat parsed))
      in case bits of
           None \<Rightarrow> None
         | Some n \<Rightarrow> map_option (\<lambda>a. (a AND cidr_mask n, cidr_mask n)) (inet_pton4 (c_str ip)))"

definition ip_is_loopback :: "u32 \<Rightarrow> bool" where
  "ip_is_loopback peer = (peer AND 0xFF000000 = 0x7F000000)"

fun allow_loop :: "u32 \<Rightarrow> (u32 \<times> u32) list \<Rightarrow> bool" where
  "allow_loop peer [] = False"
| "allow_loop peer ((net, msk) # es) = (if peer AND msk = net then True else allow_loop peer es)"

definition ip_allowed :: "(u32 \<times> u32) list \<Rightarrow> u32 \<Rightarrow> bool" where
  "ip_allowed allowlist peer =
     (if ip_is_loopback peer then True else if allowlist = [] then True else allow_loop peer allowlist)"

subsection \<open>Lines\<close>

text \<open>A quoted token, up to its closing quote: the token and the rest of the line.\<close>

fun quoted :: "string \<Rightarrow> string \<times> string" where
  "quoted [] = ([], [])"
| "quoted [c] = (if c = CHR 0x22 then ([], []) else ([c], []))"
| "quoted (c # d # s) =
     (if c = CHR 0x22 then ([], d # s)
      else if c = CHR 0x5C then (let (tok, r) = quoted s in (d # tok, r))
      else let (tok, r) = quoted (d # s) in (c # tok, r))"

lemma quoted_shorter: "length (snd (quoted s)) \<le> length s"
  by (induction s rule: quoted.induct) (auto split: prod.splits)

function tokens :: "string \<Rightarrow> string list" where
  "tokens line =
     (case dropWhile isspace line of
        [] \<Rightarrow> []
      | c # s \<Rightarrow>
          if c = CHR ''#'' then []
          else if c = CHR 0x22 then (let (tok, r) = quoted s in tok # tokens r)
          else (c # takeWhile (\<lambda>x. \<not> isspace x) s) # tokens (dropWhile (\<lambda>x. \<not> isspace x) s))"
  by pat_completeness auto
termination
proof (relation "measure length", goal_cases)
  case (2 line c s p tok r)
  have "length (c # s) \<le> length line" unfolding 2(1)[symmetric] by (rule length_dropWhile_le)
  moreover have "length r \<le> length s" using quoted_shorter[of s] 2(4,5) by (metis snd_conv)
  ultimately show ?case by simp
next
  case (3 line c s)
  have "length (c # s) \<le> length line" unfolding 3(1)[symmetric] by (rule length_dropWhile_le)
  then show ?case using length_dropWhile_le[of "\<lambda>x. \<not> isspace x" s] by simp
qed simp

declare tokens.simps [simp del]

definition config_tokenize :: "string \<Rightarrow> string list" where
  "config_tokenize line = tokens (c_str line)"

text \<open>The chunks \<open>fgets\<close> with a buffer of 1024 bytes gives: up to a line feed, at most 1023 bytes.\<close>

definition fgets_len :: "string \<Rightarrow> nat" where
  "fgets_len s = min 1023 (Suc (length (takeWhile (\<lambda>c. c \<noteq> LF) s)))"

function fgets_lines :: "string \<Rightarrow> string list" where
  "fgets_lines s = (if s = [] then [] else take (fgets_len s) s # fgets_lines (drop (fgets_len s) s))"
  by pat_completeness auto
termination by (relation "measure length") (auto simp: fgets_len_def)

declare fgets_lines.simps [simp del]

definition cfg_printable :: "string \<Rightarrow> bool" where
  "cfg_printable v \<longleftrightarrow> list_all (\<lambda>c. \<not> (byte_of c < 32 \<or> byte_of c = 127)) v"

fun esc_quotes :: "string \<Rightarrow> string" where
  "esc_quotes [] = []"
| "esc_quotes (c # s) = (if c = CHR 0x22 \<or> c = CHR 0x5C then [CHR 0x5C, c] else [c]) @ esc_quotes s"

definition needs_quote :: "string \<Rightarrow> bool" where
  "needs_quote v \<longleftrightarrow> v = [] \<or> list_ex (\<lambda>c. isspace c \<or> c = CHR 0x22 \<or> c = CHR 0x5C \<or> c = CHR ''#'') v"

text \<open>The line \<open>config_write_scalar\<close> prints for a value that is not masked.\<close>

definition config_scalar_line :: "string \<Rightarrow> string \<Rightarrow> string" where
  "config_scalar_line name v =
     c_str name @ '' '' @ (if needs_quote v then [CHR 0x22] @ c_str (esc_quotes v) @ [CHR 0x22] else c_str v) @ [LF]"

section \<open>Lines\<close>

lemma c_str_id: "NUL \<notin> set s \<Longrightarrow> c_str s = s"
  unfolding c_str_def by (auto simp: takeWhile_eq_all_conv)

lemma esc_set: "set (esc_quotes v) \<subseteq> insert (CHR 0x5C) (set v)"
  by (induction v) auto

lemma quoted_esc: "quoted (esc_quotes v @ CHR 0x22 # rest) = (v, rest)"
proof (induction v)
  case Nil
  then show ?case by (cases rest) auto
next
  case (Cons c v)
  obtain d s where d: "esc_quotes v @ CHR 0x22 # rest = d # s" by (cases "esc_quotes v") auto
  show ?case
  proof (cases "c = CHR 0x22 \<or> c = CHR 0x5C")
    case True
    then show ?thesis using Cons by auto
  next
    case False
    then show ?thesis using Cons d by (auto simp: Let_def)
  qed
qed

lemma tokens_word:
  assumes "w \<noteq> []" "list_all (\<lambda>c. \<not> isspace c) w" "hd w \<noteq> CHR ''#''" "hd w \<noteq> CHR 0x22" "rest = [] \<or> isspace (hd rest)"
  shows "tokens (w @ rest) = w # tokens rest"
proof -
  obtain c w' where w: "w = c # w'" using assms(1) by (cases w) auto
  have n: "\<forall>x \<in> set w'. \<not> isspace x" "\<not> isspace c" using assms(2) w by (auto simp: list_all_iff)
  have t: "takeWhile (\<lambda>x. \<not> isspace x) (w' @ rest) = w'" "dropWhile (\<lambda>x. \<not> isspace x) (w' @ rest) = rest"
    using n(1) assms(5) by (cases rest; auto)+
  show ?thesis using assms(3,4) n(2) t unfolding w by (subst tokens.simps) simp
qed

lemma tokens_space: "isspace c \<Longrightarrow> tokens (c # rest) = tokens rest"
  by (subst (1 2) tokens.simps) simp

lemma tokens_quoted: "tokens (CHR 0x22 # esc_quotes v @ CHR 0x22 # rest) = v # tokens rest"
proof -
  have "\<not> isspace (CHR 0x22)" by (simp add: isspace_def byte_of_def)
  then show ?thesis by (subst tokens.simps) (simp add: quoted_esc)
qed

lemma tokens_Nil [simp]: "tokens [] = []"
  by (subst tokens.simps) simp

lemma space_chars: "isspace (CHR '' '')" "isspace LF"
  by (simp_all add: isspace_def byte_of_def)

text \<open>What a directive name is, and what a value may contain.\<close>

definition plain_word :: "string \<Rightarrow> bool" where
  "plain_word w \<longleftrightarrow> w \<noteq> [] \<and> list_all (\<lambda>c. \<not> isspace c \<and> c \<noteq> NUL) w \<and> hd w \<noteq> CHR ''#'' \<and> hd w \<noteq> CHR 0x22"

lemma printable_chars: "cfg_printable v \<Longrightarrow> NUL \<notin> set v \<and> LF \<notin> set v"
  by (auto simp: cfg_printable_def list_all_iff byte_of_def)

lemma config_line_ok:
  assumes "plain_word name" "cfg_printable v"
  shows "config_tokenize (config_scalar_line name v) = [name, v]"
    "\<exists>l. config_scalar_line name v = l @ [LF] \<and> LF \<notin> set l"
proof -
  have nm: "NUL \<notin> set name" "list_all (\<lambda>c. \<not> isspace c) name" "name \<noteq> []" "hd name \<noteq> CHR ''#''" "hd name \<noteq> CHR 0x22"
    using assms(1) by (auto simp: plain_word_def list_all_iff)
  have nl: "LF \<notin> set name" using nm(2) space_chars(2) by (auto simp: list_all_iff)
  have v: "NUL \<notin> set v" "LF \<notin> set v" using printable_chars[OF assms(2)] by auto
  have e: "NUL \<notin> set (esc_quotes v)" "LF \<notin> set (esc_quotes v)" using esc_set[of v] v by auto
  let ?val = "if needs_quote v then CHR 0x22 # esc_quotes v @ [CHR 0x22] else v"
  have line: "config_scalar_line name v = (name @ CHR '' '' # ?val) @ [LF]"
    using nm(1) v(1) e(1) by (simp add: config_scalar_line_def c_str_id)
  then show "\<exists>l. config_scalar_line name v = l @ [LF] \<and> LF \<notin> set l" using nl v(2) e(2) by (intro exI[of _ "name @ CHR '' '' # ?val"]) auto
  have "NUL \<notin> set (config_scalar_line name v)" unfolding line using nm(1) v(1) e(1) by auto
  then have "config_tokenize (config_scalar_line name v) = tokens (name @ CHR '' '' # ?val @ [LF])"
    by (simp add: config_tokenize_def c_str_id line)
  also have "\<dots> = name # tokens (?val @ [LF])" using tokens_word[OF nm(3,2,4,5)] tokens_space[OF space_chars(1)] space_chars(1) by simp
  also have "tokens (?val @ [LF]) = [v]"
  proof (cases "needs_quote v")
    case True
    then show ?thesis using tokens_quoted[of v "[LF]"] tokens_space[OF space_chars(2), of "[]"] by simp
  next
    case False
    then have "v \<noteq> []" "list_all (\<lambda>c. \<not> isspace c) v" "hd v \<noteq> CHR ''#''" "hd v \<noteq> CHR 0x22"
      by (auto simp: needs_quote_def list_ex_iff list_all_iff)
    from tokens_word[OF this, of "[LF]"] show ?thesis using False tokens_space[OF space_chars(2), of "[]"] space_chars(2) by simp
  qed
  finally show "config_tokenize (config_scalar_line name v) = [name, v]" by simp
qed

lemma fgets_line:
  assumes "LF \<notin> set l" "length l < 1023"
  shows "fgets_lines ((l @ [LF]) @ rest) = (l @ [LF]) # fgets_lines rest"
proof -
  have "takeWhile (\<lambda>c. c \<noteq> LF) (l @ LF # rest) = l" using assms(1) by (induction l) auto
  then have "fgets_len ((l @ [LF]) @ rest) = Suc (length l)" using assms(2) by (simp add: fgets_len_def)
  then show ?thesis by (subst fgets_lines.simps) simp
qed

lemma fgets_config:
  "\<forall>(n, v) \<in> set ps. plain_word n \<and> cfg_printable v \<and> length (config_scalar_line n v) \<le> 1023 \<Longrightarrow>
   map config_tokenize (fgets_lines (concat (map (\<lambda>(n, v). config_scalar_line n v) ps))) = map (\<lambda>(n, v). [n, v]) ps"
proof (induction ps)
  case Nil
  then show ?case by (simp add: fgets_lines.simps)
next
  case (Cons p ps)
  obtain n v where p: "p = (n, v)" by fastforce
  have ok: "plain_word n" "cfg_printable v" "length (config_scalar_line n v) \<le> 1023" using Cons(2) p by auto
  obtain l where l: "config_scalar_line n v = l @ [LF]" "LF \<notin> set l" using config_line_ok(2)[OF ok(1,2)] by blast
  have "length l < 1023" using ok(3) l(1) by simp
  note f = fgets_line[OF l(2) this, of "concat (map (\<lambda>(n, v). config_scalar_line n v) ps)"]
  have "config_tokenize (l @ [LF]) = [n, v]" using config_line_ok(1)[OF ok(1,2)] l(1) by simp
  moreover have "map config_tokenize (fgets_lines (concat (map (\<lambda>(n, v). config_scalar_line n v) ps))) = map (\<lambda>(n, v). [n, v]) ps"
    using Cons by simp
  ultimately show ?case using f p l(1) by simp
qed

section \<open>Values\<close>

lemma notify_step:
  assumes "notify_bit c = Some (2 ^ k)"
  shows "parse_notify_loop ((if f AND 2 ^ k \<noteq> 0 then [c] else []) @ s) acc = parse_notify_loop s (acc OR (f AND 2 ^ k))"
proof -
  have "f AND 2 ^ k = (if bit f k then 2 ^ k else 0)" by (rule bit_eqI) (auto simp: bit_and_iff bit_exp_iff)
  then show ?thesis using assms by simp
qed

lemma notify_bits:
  "notify_bit CHR ''g'' = Some (2 ^ 2)" "notify_bit CHR ''$'' = Some (2 ^ 3)" "notify_bit CHR ''l'' = Some (2 ^ 4)"
  "notify_bit CHR ''s'' = Some (2 ^ 5)" "notify_bit CHR ''h'' = Some (2 ^ 6)" "notify_bit CHR ''z'' = Some (2 ^ 7)"
  "notify_bit CHR ''x'' = Some (2 ^ 8)" "notify_bit CHR ''e'' = Some (2 ^ 9)" "notify_bit CHR ''K'' = Some (2 ^ 0)"
  "notify_bit CHR ''E'' = Some (2 ^ 1)"
  by (simp_all add: notify_bit_def notify_table_def)

lemmas notify_steps = notify_bits[THEN notify_step, simplified]

lemma notify_all_bits: "bit NOTIFY_ALL i \<longleftrightarrow> 2 \<le> i \<and> i < 10"
proof -
  have e: "NOTIFY_ALL = push_bit 2 (mask 8)" by (simp add: NOTIFY_ALL_def push_bit_eq_mult mask_eq_exp_minus_1)
  show ?thesis unfolding e bit_push_bit_iff bit_mask_iff by auto
qed

lemma notify_roundtrip:
  assumes "f < 1024"
  shows "parse_notify_flags (notify_flags_string f) = Some f"
proof -
  have t: "take_bit 10 f = f" using assms by (simp add: take_bit_nat_eq_self_iff)
  have b: "bit f i \<Longrightarrow> i < 10" for i using t by (metis bit_take_bit_iff)
  have split: "f = (f AND NOTIFY_ALL) OR (f AND 1) OR (f AND 2)"
  proof (rule bit_eqI)
    fix i
    have "bit f i \<Longrightarrow> i = 0 \<or> i = 1 \<or> 2 \<le> i \<and> i < 10" using b by force
    moreover have "bit (1 :: nat) i \<longleftrightarrow> i = 0" "bit (2 :: nat) i \<longleftrightarrow> i = 1" using bit_exp_iff[of 1 i, where 'a = nat] bit_exp_iff[of 0 i, where 'a = nat] by simp_all
    ultimately show "bit f i \<longleftrightarrow> bit ((f AND NOTIFY_ALL) OR (f AND 1) OR (f AND 2)) i"
      by (auto simp: bit_or_iff bit_and_iff notify_all_bits bit_0)
  qed
  have tail: "parse_notify_loop ((if f AND 1 \<noteq> 0 then ''K'' else []) @ (if f AND 2 \<noteq> 0 then ''E'' else [])) acc =
      Some (acc OR (f AND 1) OR (f AND 2))" for acc
    using notify_steps(9)[of f "if f AND 2 \<noteq> 0 then ''E'' else []" acc] notify_steps(10)[of f "[]" "acc OR (f AND 1)"] by (simp add: or.assoc)
  have parts: "(f AND 4) OR (f AND 8) OR (f AND 16) OR (f AND 32) OR (f AND 64) OR (f AND 128) OR (f AND 256) OR (f AND 512) = f AND NOTIFY_ALL"
    unfolding NOTIFY_ALL_def by (rule bit_eqI) (simp only: bit_or_iff bit_and_iff, blast)
  have "parse_notify_flags (notify_flags_string f) = Some ((f AND NOTIFY_ALL) OR (f AND 1) OR (f AND 2))"
  proof (cases "f AND NOTIFY_ALL = NOTIFY_ALL")
    case True
    then show ?thesis using tail[of NOTIFY_ALL] by (simp add: parse_notify_flags_def notify_flags_string_def notify_bit_def or.assoc)
  next
    case False
    then have "parse_notify_flags (notify_flags_string f) =
        parse_notify_loop ((if f AND 1 \<noteq> 0 then ''K'' else []) @ (if f AND 2 \<noteq> 0 then ''E'' else []))
          (f AND NOTIFY_ALL)"
      unfolding parse_notify_flags_def notify_flags_string_def notify_table_def parts[symmetric]
      by (simp add: notify_steps or.assoc del: parse_notify_loop.simps)
    then show ?thesis unfolding tail by (simp add: or.assoc)
  qed
  then show ?thesis using split by simp
qed

lemma allow_loop_iff: "allow_loop peer es \<longleftrightarrow> (\<exists>(net, msk) \<in> set es. peer AND msk = net)"
  by (induction es) auto

text \<open>Two addresses agree under the mask iff their leading bits do.\<close>

lemma cidr_mask_bit: "n \<le> 32 \<Longrightarrow> bit (cidr_mask n) i \<longleftrightarrow> 32 - n \<le> i \<and> i < 32"
proof -
  have m: "(0xFFFFFFFF :: u32) = - 1" by simp
  show "n \<le> 32 \<Longrightarrow> ?thesis" unfolding cidr_mask_def m by (cases "n = 0") (auto simp: bit_not_iff bit_mask_iff)
qed

lemma len32: "LENGTH(32) = 32"
  by simp

lemma cidr_match:
  assumes "n \<le> 32"
  shows "peer AND cidr_mask n = a AND cidr_mask n \<longleftrightarrow> drop_bit (32 - n) peer = drop_bit (32 - n) a"
proof -
  have "peer AND cidr_mask n = a AND cidr_mask n \<longleftrightarrow> (\<forall>i. 32 - n \<le> i \<and> i < 32 \<longrightarrow> bit peer i = bit a i)"
    using cidr_mask_bit[OF assms] by (auto simp: bit_eq_iff bit_and_iff)
  also have "\<dots> \<longleftrightarrow> drop_bit (32 - n) peer = drop_bit (32 - n) a"
  proof
    assume "\<forall>i. 32 - n \<le> i \<and> i < 32 \<longrightarrow> bit peer i = bit a i"
    then show "drop_bit (32 - n) peer = drop_bit (32 - n) a"
      by (intro bit_eqI) (simp add: bit_drop_bit_eq, metis bit_imp_le_length le_add1 len32)
  next
    assume e: "drop_bit (32 - n) peer = drop_bit (32 - n) a"
    have "bit peer (32 - n + j) = bit a (32 - n + j)" for j using arg_cong[OF e, of "\<lambda>w. bit w j"] by (simp add: bit_drop_bit_eq)
    then show "\<forall>i. 32 - n \<le> i \<and> i < 32 \<longrightarrow> bit peer i = bit a i" by (metis le_add_diff_inverse)
  qed
  finally show ?thesis .
qed

section \<open>Theorems\<close>

text \<open>
  C35. \<open>CONFIG REWRITE\<close> and the next start agree. A file made of scalar directives, each with a plain name, a
  printable value (quotes, backslashes, blanks and the empty value included) and a line of at most 1023 bytes, is read back
  by the \<open>fgets\<close> loop and the tokenizer as exactly those names and values, one directive to a line; and the text that
  \<open>notify-keyspace-events\<close> is written with parses to the same flags.
\<close>

theorem config_rewrite_roundtrip:
  assumes "\<forall>(n, v) \<in> set ps. plain_word n \<and> cfg_printable v \<and> length (config_scalar_line n v) \<le> 1023" and "f < 1024"
  shows "map config_tokenize (fgets_lines (concat (map (\<lambda>(n, v). config_scalar_line n v) ps))) = map (\<lambda>(n, v). [n, v]) ps \<and>
         parse_notify_flags (notify_flags_string f) = Some f"
  using fgets_config[OF assms(1)] notify_roundtrip[OF assms(2)] by simp

theorem config_rewrite_roundtrip_witness:
  "map config_tokenize (fgets_lines (concat (map (\<lambda>(n, v). config_scalar_line n v)
     [(''dir'', [CHR ''a'', CHR 0x22, CHR '' '', CHR 0x5C]), (''requirepass'', '''')]))) =
   [[''dir'', [CHR ''a'', CHR 0x22, CHR '' '', CHR 0x5C]], [''requirepass'', '''']] \<and>
   parse_notify_flags (notify_flags_string 771) = Some 771"
proof -
  have "\<forall>(n, v) \<in> set [(''dir'', [CHR ''a'', CHR 0x22, CHR '' '', CHR 0x5C]), (''requirepass'', '''')].
      plain_word n \<and> cfg_printable v \<and> length (config_scalar_line n v) \<le> 1023"
    by (simp add: plain_word_def cfg_printable_def isspace_def byte_of_def config_scalar_line_def needs_quote_def c_str_def)
  from config_rewrite_roundtrip[OF this, of 771] show ?thesis by simp
qed

definition cidr_text :: "nat \<times> nat \<times> nat \<times> nat \<times> nat \<Rightarrow> string" where
  "cidr_text r = (case r of (a, b, c, d, n) \<Rightarrow>
     nat_dec a @ ''.'' @ nat_dec b @ ''.'' @ nat_dec c @ ''.'' @ nat_dec d @ ''/'' @ nat_dec n)"

definition cidr_addr :: "nat \<times> nat \<times> nat \<times> nat \<times> nat \<Rightarrow> u32" where
  "cidr_addr r = (case r of (a, b, c, d, n) \<Rightarrow> of_nat (((a * 256 + b) * 256 + c) * 256 + d))"

lemma digit_char_ok: "d < 10 \<Longrightarrow> isdigit (digit_char d) \<and> digit_val (digit_char d) = d"
  by (simp add: isdigit_def digit_val_def digit_char_def byte_of_def)

lemma pton_octet:
  assumes "n < 256" "length os < 4"
  shows "pton_loop (nat_dec n @ rest) os False = pton_loop rest (os @ [n]) True"
proof -
  consider "n < 10" | "10 \<le> n" "n < 100" | "100 \<le> n" by linarith
  then show ?thesis
  proof cases
    case 1
    then show ?thesis using assms digit_char_ok[of n] by (simp add: nat_dec.simps[of n])
  next
    case 2
    then have "n div 10 < 10" "n div 10 \<noteq> 0" by simp_all
    then show ?thesis using 2 assms digit_char_ok[of "n div 10"] digit_char_ok[of "n mod 10"]
      by (simp add: nat_dec.simps[of n] nat_dec.simps[of "n div 10"] Let_def)
  next
    case 3
    have q: "\<not> n div 10 < 10" "n div 10 div 10 < 10" "n div 10 div 10 \<noteq> 0" "\<not> n < 10" using 3 assms(1) by simp_all
    have v: "n div 10 div 10 * 10 + n div 10 mod 10 = n div 10" "n div 10 * 10 + n mod 10 = n" by simp_all
    have b: "\<not> 255 < n div 10" "\<not> 255 < n" "n div 10 \<noteq> 0" using assms(1) 3 by simp_all
    show ?thesis using q(1,2,4) assms(2) digit_char_ok[OF q(2)] digit_char_ok[of "n div 10 mod 10"] digit_char_ok[of "n mod 10"] q(3) b
      by (simp add: nat_dec.simps[of n] nat_dec.simps[of "n div 10"] nat_dec.simps[of "n div 10 div 10"] Let_def v del: div_mult2_eq)
  qed
qed

lemma pton_dot: "length os < 4 \<Longrightarrow> pton_loop (CHR ''.'' # s) os True = pton_loop s os False"
  by (simp add: isdigit_def byte_of_def)

lemma strtol_dec:
  assumes "n \<le> 32"
  shows "strtol (nat_dec n) = (int n, length (nat_dec n), False)"
proof -
  have d: "\<forall>c \<in> set (nat_dec n). isdigit c" by (auto dest: nat_dec_digits)
  obtain c cs where c: "nat_dec n = c # cs" by (cases "nat_dec n") auto
  have "\<not> isspace c" "c \<noteq> CHR ''-''" "c \<noteq> CHR ''+''" using d c by (auto simp: isspace_def isdigit_def byte_of_def)
  moreover have "takeWhile isdigit (nat_dec n) = nat_dec n" using d by (simp add: takeWhile_eq_all_conv)
  ultimately show ?thesis using assms dec_val_nat_dec[of n] c by (simp add: strtol_def Let_def INT64_MIN_def INT64_MAX_def)
qed

lemma parse_cidr_text:
  assumes "a < 256" "b < 256" "c < 256" "d < 256" "n \<le> 32"
  shows "parse_cidr (cidr_text (a, b, c, d, n)) = Some (cidr_addr (a, b, c, d, n) AND cidr_mask n, cidr_mask n)"
proof -
  define ip where "ip = nat_dec a @ ''.'' @ nat_dec b @ ''.'' @ nat_dec c @ ''.'' @ nat_dec d"
  have dig: "isdigit x \<Longrightarrow> x \<noteq> CHR ''/'' \<and> x \<noteq> NUL" for x by (auto simp: isdigit_def byte_of_def)
  have cs: "\<forall>x \<in> set ip. x \<noteq> CHR ''/'' \<and> x \<noteq> NUL" using dig by (auto simp: ip_def dest!: nat_dec_digits)
  have txt_eq: "cidr_text (a, b, c, d, n) = ip @ CHR ''/'' # nat_dec n" by (simp add: cidr_text_def ip_def)
  have tw: "takeWhile (\<lambda>c. c \<noteq> CHR ''/'') (ip @ CHR ''/'' # nat_dec n) = ip" using cs by (simp add: takeWhile_append2)
  have z: "c_str ip = ip" "c_str (nat_dec n) = nat_dec n" using cs dig by (auto intro!: c_str_id dest: nat_dec_digits)
  have "pton_loop ip [] False = Some [a, b, c, d]"
    using assms by (simp add: ip_def pton_octet pton_dot del: pton_loop.simps) (simp add: pton_octet[where rest = "[]", simplified])
  then have "inet_pton4 ip = Some (cidr_addr (a, b, c, d, n))" by (simp add: inet_pton4_def cidr_addr_def)
  then show ?thesis unfolding parse_cidr_def txt_eq tw using assms(5) by (simp add: z strtol_dec Let_def)
qed

text \<open>
  C36. The client address list admits exactly the addresses its rules describe. For rules written as four decimal octets
  and a prefix length, every rule parses, and a peer is let in iff it is in 127.0.0.0/8, or there is no rule, or for
  some rule the leading bits of the peer, as many as the prefix says, are those of the rule's address. A prefix of 0 admits
  every peer and one of 32 only the address itself.
\<close>

theorem allowlist_exact:
  assumes "\<forall>(a, b, c, d, n) \<in> set rules. a < 256 \<and> b < 256 \<and> c < 256 \<and> d < 256 \<and> n \<le> 32"
  shows "\<exists>entries. map parse_cidr (map cidr_text rules) = map Some entries \<and>
    (ip_allowed entries peer \<longleftrightarrow>
       drop_bit 24 peer = 127 \<or> rules = [] \<or>
       (\<exists>(a, b, c, d, n) \<in> set rules. drop_bit (32 - n) peer = drop_bit (32 - n) (cidr_addr (a, b, c, d, n))))"
proof -
  define entry where "entry = (\<lambda>r. case r of (a, b, c, d, n) \<Rightarrow> (cidr_addr (a, b, c, d, n) AND cidr_mask n, cidr_mask n))"
  have "\<forall>r \<in> set rules. parse_cidr (cidr_text r) = Some (entry r)" using assms parse_cidr_text by (fastforce simp: entry_def)
  then have "map parse_cidr (map cidr_text rules) = map Some (map entry rules)" by simp
  moreover have "ip_is_loopback peer \<longleftrightarrow> drop_bit 24 peer = 127"
  proof -
    have "0xFF000000 = cidr_mask 8" "0x7F000000 = (0x7F000000 :: u32) AND cidr_mask 8" "drop_bit 24 (0x7F000000 :: u32) = 127"
      by (simp_all add: cidr_mask_def)
    then show ?thesis unfolding ip_is_loopback_def using cidr_match[of 8 peer "0x7F000000"] by simp
  qed
  moreover have "allow_loop peer (map entry rules) \<longleftrightarrow>
      (\<exists>(a, b, c, d, n) \<in> set rules. drop_bit (32 - n) peer = drop_bit (32 - n) (cidr_addr (a, b, c, d, n)))"
  proof -
    have "peer AND snd (entry r) = fst (entry r) \<longleftrightarrow> (case r of (a, b, c, d, n) \<Rightarrow> drop_bit (32 - n) peer = drop_bit (32 - n) (cidr_addr (a, b, c, d, n)))"
      if "r \<in> set rules" for r
    proof -
      obtain a b c d n where r: "r = (a, b, c, d, n)" by (cases r)
      then have "n \<le> 32" using assms that by auto
      from cidr_match[OF this] show ?thesis by (simp add: r entry_def)
    qed
    then have "(\<exists>r \<in> set rules. peer AND snd (entry r) = fst (entry r)) \<longleftrightarrow>
        (\<exists>r \<in> set rules. case r of (a, b, c, d, n) \<Rightarrow> drop_bit (32 - n) peer = drop_bit (32 - n) (cidr_addr (a, b, c, d, n)))" by (rule bex_cong[OF refl])
    then show ?thesis unfolding allow_loop_iff split_beta by simp
  qed
  ultimately show ?thesis by (intro exI[of _ "map entry rules"]) (auto simp: ip_allowed_def)
qed

theorem allowlist_exact_witness:
  "\<exists>entries. map parse_cidr (map cidr_text [(10, 1, 0, 0, 16), (192, 168, 7, 9, 32)]) = map Some entries \<and>
     ip_allowed entries 0x0A01FE01 \<and> \<not> ip_allowed entries 0x0A02FE01"
proof -
  let ?r = "[(10, 1, 0, 0, 16), (192, 168, 7, 9, 32)] :: (nat \<times> nat \<times> nat \<times> nat \<times> nat) list"
  have r: "\<forall>(a, b, c, d, n) \<in> set ?r. a < 256 \<and> b < 256 \<and> c < 256 \<and> d < 256 \<and> n \<le> 32" by simp
  let ?in = "\<lambda>peer :: u32. \<exists>(a, b, c, d, n) \<in> set ?r. drop_bit (32 - n) peer = drop_bit (32 - n) (cidr_addr (a, b, c, d, n))"
  have i: "?in 0x0A01FE01" "\<not> (drop_bit 24 (0x0A02FE01 :: u32) = 127 \<or> ?r = [] \<or> ?in 0x0A02FE01)" by (simp_all add: cidr_addr_def)
  obtain es where es: "map parse_cidr (map cidr_text ?r) = map Some es" "ip_allowed es 0x0A01FE01"
    using allowlist_exact[OF r, of "0x0A01FE01"] i(1) by blast
  obtain es' where es': "map parse_cidr (map cidr_text ?r) = map Some es'" "\<not> ip_allowed es' 0x0A02FE01"
    using allowlist_exact[OF r, of "0x0A02FE01"] i(2) by blast
  have "es' = es" using es(1) es'(1) by (metis inj_Some list.inj_map_strong option.inject)
  then show ?thesis using es es' by blast
qed

end
