(* ===== verification/Acl.thy ===== *)
theory Acl
  imports Cmd_Table Sha Config_Parse
begin

text \<open>
  Credentials (\<open>auth/cred.cpp\<close>) and access control lists: users, the modifiers of \<open>ACL SETUSER\<close>, the permission
  checks and the rendering of a user as a line of the configuration file (\<open>commands/commands.cpp\<close>,
  \<open>core/state.cpp\<close>). The Argon2 library and the system's random bytes are parameters.
\<close>

unbundle bit_operations_syntax

section \<open>Credentials\<close>

text \<open>
  What the build offers: whether Argon2 is compiled in, the encoded hash of a password under a salt, and the
  verification of a password against an encoded hash; \<open>argon_params\<close> is the memory cost, the time cost and the parallelism
  \<open>sscanf\<close> reads from a stored hash. \<open>entropy n\<close> is what \<open>fill_random\<close> delivers.
\<close>

record cred_ops =
  have_argon2 :: bool
  argon2_hash :: "string \<Rightarrow> u8 list \<Rightarrow> string option"
  argon2_verify :: "string \<Rightarrow> string \<Rightarrow> bool"
  argon_params :: "string \<Rightarrow> (nat \<times> nat \<times> nat) option"
  entropy :: "nat \<Rightarrow> u8 list option"

definition PHC :: string where
  "PHC = ''$argon2id$''"

definition starts_with :: "string \<Rightarrow> string \<Rightarrow> bool" where
  "starts_with p s \<longleftrightarrow> take (length p) s = p"

definition cred_random_hex :: "cred_ops \<Rightarrow> nat \<Rightarrow> string" where
  "cred_random_hex K nhex =
     (case entropy K ((nhex + 1) div 2) of
        None \<Rightarrow> []
      | Some bs \<Rightarrow> map (\<lambda>i. let b = bs ! (i div 2) in hx (if odd i then b AND 0xf else drop_bit 4 b)) [0..<nhex])"

definition cred_hash_new :: "cred_ops \<Rightarrow> string \<Rightarrow> string" where
  "cred_hash_new K plain =
     (if have_argon2 K then
        (case entropy K 16 of
           None \<Rightarrow> []
         | Some salt \<Rightarrow> (case argon2_hash K plain salt of None \<Rightarrow> [] | Some enc \<Rightarrow> c_str enc))
      else sha256_hex plain)"

definition cred_verify :: "cred_ops \<Rightarrow> string \<Rightarrow> string \<Rightarrow> bool" where
  "cred_verify K plain stored =
     (if starts_with PHC stored then have_argon2 K \<and> argon2_verify K (c_str stored) plain
      else if length stored = 64 then ct_equal (sha256_hex plain) stored
      else False)"

definition cred_needs_rehash :: "cred_ops \<Rightarrow> string \<Rightarrow> bool" where
  "cred_needs_rehash K stored =
     (if have_argon2 K then
        if \<not> starts_with PHC stored then True
        else case argon_params K (c_str stored) of
               None \<Rightarrow> True
             | Some (m, t, p) \<Rightarrow> m < 19456 \<or> t < 2 \<or> p < 1
      else False)"

definition cred_dummy :: "cred_ops \<Rightarrow> string" where
  "cred_dummy K =
     (let plain = cred_random_hex K 32;
          plain = (if plain = [] then replicate 32 (CHR ''x'') else plain);
          h = cred_hash_new K plain
      in if h = [] then replicate 64 (CHR ''0'') else h)"

section \<open>Users\<close>

text \<open>\<open>cmd_overrides\<close> is a hash map; the list holds each name once, in the order the map would be walked.\<close>

record user =
  allow_cats :: u64
  cmd_overrides :: "(string \<times> bool) list"
  pw_hashes :: "string list"
  key_patterns :: "string list"
  channel_patterns :: "string list"
  uname :: string
  uenable :: bool
  all_keys :: bool
  all_channels :: bool

definition new_user :: user where
  "new_user = \<lparr>allow_cats = 0, cmd_overrides = [], pw_hashes = [], key_patterns = [], channel_patterns = [],
               uname = [], uenable = True, all_keys = False, all_channels = False\<rparr>"

definition isxdigit :: "char \<Rightarrow> bool" where
  "isxdigit c \<longleftrightarrow> isdigit c \<or> 65 \<le> byte_of c \<and> byte_of c \<le> 70 \<or> 97 \<le> byte_of c \<and> byte_of c \<le> 102"

definition acl_cats_list :: "(string \<times> u64) list" where
  "acl_cats_list =
     [(''read'', CAT_READ), (''write'', CAT_WRITE), (''keyspace'', CAT_KEYSPACE), (''admin'', CAT_ADMIN),
      (''dangerous'', CAT_DANGEROUS), (''fast'', CAT_FAST), (''slow'', CAT_SLOW), (''connection'', CAT_CONNECTION),
      (''transaction'', CAT_TRANSACTION)]"

definition acl_cat_bit :: "string \<Rightarrow> u64" where
  "acl_cat_bit n = (case map_of acl_cats_list n of Some b \<Rightarrow> b | None \<Rightarrow> if n = ''all'' then CAT_ALL else 0)"

definition acl_token_ok :: "string \<Rightarrow> bool" where
  "acl_token_ok s \<longleftrightarrow> s \<noteq> [] \<and> list_all (\<lambda>c. \<not> (byte_of c \<le> 32 \<or> byte_of c = 127)) s"

text \<open>\<open>m[k] = v\<close> on a hash map.\<close>

definition alist_put :: "'k \<Rightarrow> 'v \<Rightarrow> ('k \<times> 'v) list \<Rightarrow> ('k \<times> 'v) list" where
  "alist_put k v m = (if map_of m k = None then m @ [(k, v)] else map (\<lambda>p. if fst p = k then (k, v) else p) m)"

definition acl_apply_rule :: "cred_ops \<Rightarrow> user \<Rightarrow> string \<Rightarrow> user option" where
  "acl_apply_rule K u t =
     (if t = ''on'' then Some (u\<lparr>uenable := True\<rparr>)
      else if t = ''off'' then Some (u\<lparr>uenable := False\<rparr>)
      else if t = ''reset'' then Some new_user
      else if t = ''resetpass'' \<or> t = ''nopass'' then Some (u\<lparr>pw_hashes := []\<rparr>)
      else if t = ''resetkeys'' then Some (u\<lparr>key_patterns := [], all_keys := False\<rparr>)
      else if length t = 65 \<and> t ! 0 = CHR ''#'' then
        (if list_all isxdigit (tl t) then Some (u\<lparr>pw_hashes := pw_hashes u @ [tl t]\<rparr>) else None)
      else if t = ''allchannels'' \<or> t = ''&*'' then Some (u\<lparr>all_channels := True, channel_patterns := []\<rparr>)
      else if t = ''resetchannels'' then Some (u\<lparr>channel_patterns := [], all_channels := False\<rparr>)
      else if 1 < length t \<and> t ! 0 = CHR ''&'' then
        (if acl_token_ok (tl t) then Some (u\<lparr>channel_patterns := channel_patterns u @ [tl t]\<rparr>) else None)
      else if t = ''allkeys'' \<or> t = ''~*'' then Some (u\<lparr>all_keys := True, key_patterns := []\<rparr>)
      else if t = ''allcommands'' \<or> t = ''+@all'' then Some (u\<lparr>allow_cats := CAT_ALL, cmd_overrides := []\<rparr>)
      else if t = ''nocommands'' \<or> t = ''-@all'' then Some (u\<lparr>allow_cats := 0, cmd_overrides := []\<rparr>)
      else if 1 < length t \<and> t ! 0 = CHR ''>'' then
        (let h = cred_hash_new K (tl t) in if h = [] then None else Some (u\<lparr>pw_hashes := pw_hashes u @ [h]\<rparr>))
      else if 1 < length t \<and> t ! 0 = CHR ''<'' then
        Some (u\<lparr>pw_hashes := filter (\<lambda>stored. \<not> cred_verify K (tl t) stored) (pw_hashes u)\<rparr>)
      else if starts_with PHC t then
        (if 512 < length t then None else Some (u\<lparr>pw_hashes := pw_hashes u @ [t]\<rparr>))
      else if 1 < length t \<and> t ! 0 = CHR ''~'' then
        (if acl_token_ok (tl t) then Some (u\<lparr>key_patterns := key_patterns u @ [tl t]\<rparr>) else None)
      else if starts_with ''+@'' t then
        (let b = acl_cat_bit (drop 2 t) in if b = 0 then None else Some (u\<lparr>allow_cats := allow_cats u OR b\<rparr>))
      else if starts_with ''-@'' t then
        (let b = acl_cat_bit (drop 2 t) in if b = 0 then None else Some (u\<lparr>allow_cats := allow_cats u AND NOT b\<rparr>))
      else if 1 < length t \<and> (t ! 0 = CHR ''+'' \<or> t ! 0 = CHR ''-'') then
        (let c = lower (tl t)
         in if command_is_known c then Some (u\<lparr>cmd_overrides := alist_put c (t ! 0 = CHR ''+'') (cmd_overrides u)\<rparr>) else None)
      else None)"

fun acl_apply_rules :: "cred_ops \<Rightarrow> user \<Rightarrow> string list \<Rightarrow> user option" where
  "acl_apply_rules K u [] = Some u"
| "acl_apply_rules K u (t # ts) = (case acl_apply_rule K u t of None \<Rightarrow> None | Some u \<Rightarrow> acl_apply_rules K u ts)"

text \<open>
  \<open>ACL SETUSER\<close> stages the modifiers on a copy, so a rejected one leaves the table as it was; \<open>ACL DELUSER\<close> refuses
  the default user. \<^const>\<open>Inl\<close> carries the error reply.
\<close>

fun stage_rules :: "cred_ops \<Rightarrow> user \<Rightarrow> string list \<Rightarrow> string + user" where
  "stage_rules K u [] = Inr u"
| "stage_rules K u (t # ts) =
     (case acl_apply_rule K u t of
        None \<Rightarrow> Inl (c_str (''ERR Error in ACL SETUSER modificer '' @ [CHR 0x27] @ t @ [CHR 0x27]))
      | Some u \<Rightarrow> stage_rules K u ts)"

definition acl_setuser :: "cred_ops \<Rightarrow> string list \<Rightarrow> (string \<times> user) list \<Rightarrow> string + (string \<times> user) list" where
  "acl_setuser K cmd users =
     (if length cmd < 3 then Inl (''ERR wrong number of arguments for '' @ [CHR 0x27] @ ''acl|setuser'' @ [CHR 0x27])
      else if \<not> acl_token_ok (cmd ! 2) then Inl ''ERR ACL username contains a space or control byte''
      else let staged = (case map_of users (cmd ! 2) of Some u \<Rightarrow> u | None \<Rightarrow> new_user);
               staged = (if uname staged = [] then staged\<lparr>uname := cmd ! 2\<rparr> else staged)
           in case stage_rules K staged (drop 3 cmd) of
                Inl e \<Rightarrow> Inl e
              | Inr u \<Rightarrow> Inr (alist_put (cmd ! 2) (if uname u = [] then u\<lparr>uname := cmd ! 2\<rparr> else u) users))"

subsection \<open>Checks\<close>

text \<open>\<^const>\<open>None\<close> when the pattern matcher leaves the string.\<close>

fun any_match :: "string list \<Rightarrow> string \<Rightarrow> bool option" where
  "any_match [] s = Some False"
| "any_match (p # ps) s = (case glob_match p s of None \<Rightarrow> None | Some True \<Rightarrow> Some True | Some False \<Rightarrow> any_match ps s)"

definition acl_key_allowed :: "user \<Rightarrow> string \<Rightarrow> bool option" where
  "acl_key_allowed u key = any_match (key_patterns u) key"

fun keys_allowed :: "user \<Rightarrow> string list \<Rightarrow> bool option" where
  "keys_allowed u [] = Some True"
| "keys_allowed u (k # ks) =
     (case acl_key_allowed u k of None \<Rightarrow> None | Some False \<Rightarrow> Some False | Some True \<Rightarrow> keys_allowed u ks)"

definition MSG_DISABLED :: string where "MSG_DISABLED = ''NOPERM this user is disable''"
definition MSG_NOCMD :: string where "MSG_NOCMD = ''NOPERM this user has no permissions to run this command''"
definition MSG_NOKEY :: string where "MSG_NOKEY = ''NOPERM no permissions to access one of the keys used as arguments''"
definition MSG_NOCHAN :: string where "MSG_NOCHAN = ''NOPERM no permissions to access one of the channels used as arguments''"

definition acl_check :: "user option \<Rightarrow> string \<Rightarrow> cmd_spec \<Rightarrow> string list \<Rightarrow> string option option" where
  "acl_check usr name spec cmd =
     (case usr of
        None \<Rightarrow> Some (Some MSG_DISABLED)
      | Some u \<Rightarrow>
          if \<not> uenable u then Some (Some MSG_DISABLED)
          else let ok = (case map_of (cmd_overrides u) name of Some b \<Rightarrow> b | None \<Rightarrow> acl_cats spec AND allow_cats u \<noteq> 0)
               in if \<not> ok then Some (Some MSG_NOCMD)
                  else if all_keys u then Some None
                  else map_option (\<lambda>b. if b then None else Some MSG_NOKEY) (keys_allowed u (cmd_collect_keys spec cmd)))"

definition acl_channel_check :: "user option \<Rightarrow> string \<Rightarrow> bool \<Rightarrow> string option option" where
  "acl_channel_check usr chan literal =
     (case usr of
        None \<Rightarrow> Some (Some MSG_NOCHAN)
      | Some u \<Rightarrow>
          if all_channels u then Some None
          else map_option (\<lambda>b. if b then None else Some MSG_NOCHAN)
                 (if literal then Some (chan \<in> set (channel_patterns u)) else any_match (channel_patterns u) chan))"

subsection \<open>Rendering\<close>

definition quote_tok :: "string \<Rightarrow> string" where
  "quote_tok s = [CHR 0x22] @ s @ [CHR 0x22]"

definition acl_format_user :: "string \<Rightarrow> user \<Rightarrow> bool \<Rightarrow> string" where
  "acl_format_user name u for_config =
     ''user '' @ name @ (if uenable u then '' on'' else '' off'') @
     (if pw_hashes u = [] then '' nopass''
      else concat (map (\<lambda>h. if \<not> for_config then '' #<hash>''
                            else if starts_with PHC h then '' '' @ quote_tok h
                            else '' '' @ quote_tok (''#'' @ h)) (pw_hashes u))) @
     (if all_keys u then '' ~*'' else concat (map (\<lambda>p. '' ~'' @ p) (key_patterns u))) @
     (if all_channels u then '' &*'' else concat (map (\<lambda>p. '' &'' @ p) (channel_patterns u))) @
     (if allow_cats u = CAT_ALL then '' +@all''
      else '' -@all'' @ concat (map (\<lambda>(n, b). if allow_cats u AND b \<noteq> 0 then '' +@'' @ n else []) acl_cats_list)) @
     concat (map (\<lambda>(c, b). '' '' @ (if b then ''+'' else ''-'') @ c) (cmd_overrides u))"

text \<open>The directive \<open>user\<close> of the configuration file applies the rest of its line to the user it names.\<close>

definition cfg_user :: "cred_ops \<Rightarrow> string list \<Rightarrow> (string \<times> user) list \<Rightarrow> (string \<times> user) list option" where
  "cfg_user K args users =
     (let name = args ! 0;
          u = (case map_of users name of None \<Rightarrow> new_user | Some u \<Rightarrow> u);
          u = (if uname u = [] then u\<lparr>uname := name\<rparr> else u)
      in map_option (\<lambda>u. alist_put name (if uname u = [] then u\<lparr>uname := name\<rparr> else u) users)
           (acl_apply_rules K u (drop 1 args)))"

text \<open>
  What \<open>CONFIG REWRITE\<close> prints for the user table. The default user gets no line; it is rebuilt at the next start by
  \<open>acl_bootstrap_default\<close>.
\<close>

definition emit_users :: "(string \<times> user) list \<Rightarrow> string" where
  "emit_users users =
     concat (map (\<lambda>(n, u). if n = ''default'' then [] else c_str (acl_format_user n u True) @ [LF]) users)"

subsection \<open>The default user\<close>

definition acl_bootstrap_default :: "string \<Rightarrow> (string \<times> user) list \<Rightarrow> (string \<times> user) list" where
  "acl_bootstrap_default password users =
     (case map_of users ''default'' of
        Some u \<Rightarrow>
          (if pw_hashes u = [] \<and> password \<noteq> [] then alist_put ''default'' (u\<lparr>pw_hashes := [password]\<rparr>) users else users)
      | None \<Rightarrow>
          alist_put ''default''
            (new_user\<lparr>uname := ''default'', uenable := True, allow_cats := CAT_ALL, all_keys := True, all_channels := True,
              pw_hashes := (if password = [] then [] else [password])\<rparr>) users)"

text \<open>The user of a connection before any \<open>AUTH\<close>, by name.\<close>

definition acl_initial_user :: "(string \<times> user) list \<Rightarrow> string option" where
  "acl_initial_user users =
     (case map_of users ''default'' of
        None \<Rightarrow> None
      | Some d \<Rightarrow> if uenable d \<and> pw_hashes d = [] then Some ''default'' else None)"

section \<open>Reading a rendered user\<close>

text \<open>A line as a sequence of tokens, each bare or in quotes.\<close>

definition render :: "(bool \<times> string) list \<Rightarrow> string" where
  "render ps = concat (map (\<lambda>(q, s). '' '' @ (if q then quote_tok s else s)) ps)"

definition quote_safe :: "string \<Rightarrow> bool" where
  "quote_safe s \<longleftrightarrow> CHR 0x22 \<notin> set s \<and> CHR 0x5C \<notin> set s \<and> NUL \<notin> set s \<and> LF \<notin> set s"

lemma esc_safe: "CHR 0x22 \<notin> set s \<Longrightarrow> CHR 0x5C \<notin> set s \<Longrightarrow> esc_quotes s = s"
  by (induction s) auto

lemma tokens_render:
  "\<forall>(q, s) \<in> set ps. if q then quote_safe s else plain_word s \<Longrightarrow> tokens (render ps @ [LF]) = map snd ps"
proof (induction ps)
  case Nil
  then show ?case using tokens_space[OF space_chars(2), of "[]"] by (simp add: render_def)
next
  case (Cons p ps)
  obtain q s where p: "p = (q, s)" by fastforce
  have ih: "tokens (render ps @ [LF]) = map snd ps" using Cons by simp
  have sp: "isspace (hd (render ps @ [LF]))" using space_chars by (cases ps) (auto simp: render_def split_beta)
  show ?case
  proof (cases q)
    case True
    then have "esc_quotes s = s" using Cons(2) p by (intro esc_safe) (auto simp: quote_safe_def)
    then have "tokens (quote_tok s @ render ps @ [LF]) = s # tokens (render ps @ [LF])" using tokens_quoted[of s "render ps @ [LF]"] by (simp add: quote_tok_def)
    then show ?thesis using True p ih tokens_space[OF space_chars(1)] by (simp add: render_def)
  next
    case False
    then have "plain_word s" using Cons(2) p by simp
    then have "tokens (s @ render ps @ [LF]) = s # tokens (render ps @ [LF])"
      using tokens_word[of s "render ps @ [LF]"] sp by (auto simp: plain_word_def list_all_iff)
    then show ?thesis using False p ih tokens_space[OF space_chars(1)] by (simp add: render_def)
  qed
qed

definition user_tokens :: "string \<Rightarrow> user \<Rightarrow> (bool \<times> string) list" where
  "user_tokens name u =
     [(False, name), (False, if uenable u then ''on'' else ''off'')] @
     (if pw_hashes u = [] then [(False, ''nopass'')]
      else map (\<lambda>h. (True, if starts_with PHC h then h else ''#'' @ h)) (pw_hashes u)) @
     (if all_keys u then [(False, ''~*'')] else map (\<lambda>p. (False, ''~'' @ p)) (key_patterns u)) @
     (if all_channels u then [(False, ''&*'')] else map (\<lambda>p. (False, ''&'' @ p)) (channel_patterns u)) @
     (if allow_cats u = CAT_ALL then [(False, ''+@all'')]
      else (False, ''-@all'') # map (\<lambda>(n, b). (False, ''+@'' @ n)) (filter (\<lambda>(n, b). allow_cats u AND b \<noteq> 0) acl_cats_list)) @
     map (\<lambda>(c, b). (False, (if b then ''+'' else ''-'') @ c)) (cmd_overrides u)"

lemma render_append: "render (ps @ qs) = render ps @ render qs"
  by (simp add: render_def)

lemma format_render: "acl_format_user name u True = ''user'' @ render (user_tokens name u)"
proof -
  have f: "concat (map (\<lambda>(n, b). if allow_cats u AND b \<noteq> 0 then '' +@'' @ n else []) cs) =
      render (map (\<lambda>(n, b). (False, ''+@'' @ n)) (filter (\<lambda>(n, b). allow_cats u AND b \<noteq> 0) cs))" for cs
    by (induction cs) (auto simp: render_def)
  have h: "concat (map (\<lambda>h. if starts_with PHC h then '' '' @ quote_tok h else '' '' @ quote_tok (''#'' @ h)) hs) =
      render (map (\<lambda>h. (True, if starts_with PHC h then h else ''#'' @ h)) hs)" for hs
    by (induction hs) (auto simp: render_def)
  have k: "concat (map (\<lambda>p. '' ~'' @ p) ps) = render (map (\<lambda>p. (False, ''~'' @ p)) ps)"
    "concat (map (\<lambda>p. '' &'' @ p) ps) = render (map (\<lambda>p. (False, ''&'' @ p)) ps)" for ps
    by (induction ps) (auto simp: render_def)
  have o: "concat (map (\<lambda>(c, b). '' '' @ (if b then ''+'' else ''-'') @ c) os) =
      render (map (\<lambda>(c, b). (False, (if b then ''+'' else ''-'') @ c)) os)" for os
    by (induction os) (auto simp: render_def)
  have nil: "render [] = []" by (simp add: render_def)
  have cons: "render ((False, s) # ps) = '' '' @ s @ render ps" for s ps by (simp add: render_def)
  show ?thesis
    unfolding acl_format_user_def user_tokens_def render_append f[symmetric] h[symmetric] k[symmetric] o[symmetric]
    by (simp add: cons nil f h k o)
qed

text \<open>What a user looks like whose modifiers the parser accepted.\<close>

definition hash_ok :: "string \<Rightarrow> bool" where
  "hash_ok h \<longleftrightarrow> (if starts_with PHC h then length h \<le> 512 \<and> quote_safe h else length h = 64 \<and> list_all isxdigit h)"

definition pattern_ok :: "string \<Rightarrow> bool" where
  "pattern_ok p \<longleftrightarrow> acl_token_ok p \<and> p \<noteq> ''*''"

definition user_ok :: "user \<Rightarrow> bool" where
  "user_ok u \<longleftrightarrow> list_all hash_ok (pw_hashes u) \<and> list_all pattern_ok (key_patterns u) \<and> list_all pattern_ok (channel_patterns u) \<and>
     distinct (map fst (cmd_overrides u)) \<and> list_all (\<lambda>(c, b). command_is_known c) (cmd_overrides u)"

lemma known_names:
  assumes "command_is_known c"
  shows "list_all (\<lambda>x. 97 \<le> byte_of x \<and> byte_of x \<le> 122) c" "c \<noteq> []"
proof -
  have "list_all (\<lambda>n. n \<noteq> [] \<and> list_all (\<lambda>x. 97 \<le> byte_of x \<and> byte_of x \<le> 122) n) (map fst k_cmd_rows)"
    unfolding k_cmd_rows_def by (simp add: byte_of_def)
  moreover have "c \<in> set (map fst k_cmd_rows)" using assms by (auto simp: command_is_known_def map_of_eq_None_iff)
  ultimately show "list_all (\<lambda>x. 97 \<le> byte_of x \<and> byte_of x \<le> 122) c" "c \<noteq> []" by (auto simp: list_all_iff)
qed

lemma known_lower: "command_is_known c \<Longrightarrow> lower c = c"
  using known_names(1)[of c] by (auto simp: lower_def tolower_def list_all_iff intro!: map_idI)

lemma known_head: "command_is_known c \<Longrightarrow> hd c \<noteq> CHR ''@''"
  using known_names[of c] by (cases c) (auto simp: byte_of_def)

lemma token_plain: "acl_token_ok p \<Longrightarrow> list_all (\<lambda>c. \<not> isspace c \<and> c \<noteq> NUL) p"
  by (auto simp: acl_token_ok_def list_all_iff isspace_def byte_of_def)

lemma rules_append:
  "acl_apply_rules K u (xs @ ys) = (case acl_apply_rules K u xs of None \<Rightarrow> None | Some u \<Rightarrow> acl_apply_rules K u ys)"
  by (induction K u xs rule: acl_apply_rules.induct) (auto split: option.splits)

lemma rule_hash:
  assumes "hash_ok h"
  shows "acl_apply_rule K u (if starts_with PHC h then h else ''#'' @ h) = Some (u\<lparr>pw_hashes := pw_hashes u @ [h]\<rparr>)"
proof (cases "starts_with PHC h")
  case True
  then obtain r where r: "h = PHC @ r" unfolding starts_with_def by (metis append_take_drop_id)
  then show ?thesis using assms True by (simp add: acl_apply_rule_def hash_ok_def PHC_def starts_with_def)
next
  case False
  then show ?thesis using assms by (simp add: acl_apply_rule_def hash_ok_def)
qed

lemma rules_hashes:
  "list_all hash_ok hs \<Longrightarrow>
   acl_apply_rules K u (map (\<lambda>h. if starts_with PHC h then h else ''#'' @ h) hs) = Some (u\<lparr>pw_hashes := pw_hashes u @ hs\<rparr>)"
  by (induction hs arbitrary: u) (simp_all add: rule_hash)

lemma rule_key: "pattern_ok p \<Longrightarrow> acl_apply_rule K u (''~'' @ p) = Some (u\<lparr>key_patterns := key_patterns u @ [p]\<rparr>)"
  by (auto simp: acl_apply_rule_def pattern_ok_def acl_token_ok_def starts_with_def PHC_def)

lemma rules_keys:
  "list_all pattern_ok ps \<Longrightarrow> acl_apply_rules K u (map (\<lambda>p. ''~'' @ p) ps) = Some (u\<lparr>key_patterns := key_patterns u @ ps\<rparr>)"
  by (induction ps arbitrary: u) (use rule_key in simp_all)

lemma rule_chan: "pattern_ok p \<Longrightarrow> acl_apply_rule K u (''&'' @ p) = Some (u\<lparr>channel_patterns := channel_patterns u @ [p]\<rparr>)"
  by (auto simp: acl_apply_rule_def pattern_ok_def acl_token_ok_def)

lemma rules_chans:
  "list_all pattern_ok ps \<Longrightarrow> acl_apply_rules K u (map (\<lambda>p. ''&'' @ p) ps) = Some (u\<lparr>channel_patterns := channel_patterns u @ ps\<rparr>)"
  by (induction ps arbitrary: u) (use rule_chan in simp_all)

lemma cat_bits: "(n, b) \<in> set acl_cats_list \<Longrightarrow> acl_cat_bit n = b \<and> b \<noteq> 0 \<and> n \<noteq> ''all''"
proof -
  have "list_all (\<lambda>(n, b). acl_cat_bit n = b \<and> b \<noteq> 0 \<and> n \<noteq> ''all'') acl_cats_list"
    by (simp add: acl_cats_list_def acl_cat_bit_def cat_defs)
  then show "(n, b) \<in> set acl_cats_list \<Longrightarrow> ?thesis" by (auto simp: list_all_iff)
qed

lemma rule_cat: "(n, b) \<in> set acl_cats_list \<Longrightarrow> acl_apply_rule K u (''+@'' @ n) = Some (u\<lparr>allow_cats := allow_cats u OR b\<rparr>)"
  using cat_bits[of n b] by (simp add: acl_apply_rule_def starts_with_def PHC_def)

lemma rules_cats:
  "set cs \<subseteq> set acl_cats_list \<Longrightarrow>
   acl_apply_rules K u (map (\<lambda>(n, b). ''+@'' @ n) cs) = Some (u\<lparr>allow_cats := foldl (\<lambda>a (n, b). a OR b) (allow_cats u) cs\<rparr>)"
proof (induction cs arbitrary: u)
  case (Cons c cs)
  obtain n b where c: "c = (n, b)" by fastforce
  then have "acl_apply_rule K u (''+@'' @ n) = Some (u\<lparr>allow_cats := allow_cats u OR b\<rparr>)" using Cons(2) by (intro rule_cat) auto
  then show ?case using Cons c by simp
qed simp

lemma cats_sum:
  "foldl (\<lambda>a (n, b). a OR b) 0 (filter (\<lambda>(n, b). w AND b \<noteq> 0) acl_cats_list) = w AND 0x1FF"
proof -
  have f: "foldl (\<lambda>a (n, b). a OR b) a (filter (\<lambda>(n, b). w AND b \<noteq> 0) cs) = foldl (\<lambda>a (n, b). a OR (if w AND b \<noteq> 0 then b else 0)) a cs"
    for a :: u64 and cs :: "(string \<times> u64) list"
    by (induction cs arbitrary: a) auto
  have e: "(if w AND p \<noteq> 0 then p else 0) = w AND p" if "p = 2 ^ k" for p and k :: nat
  proof -
    have "w AND p = (if bit w k then p else 0)" unfolding that by (rule bit_eqI) (auto simp: bit_and_iff bit_exp_iff)
    then show ?thesis by simp
  qed
  have ee: "(if w AND 1 \<noteq> 0 then 1 else 0) = w AND 1" "(if w AND 2 \<noteq> 0 then 2 else 0) = w AND 2" "(if w AND 4 \<noteq> 0 then 4 else 0) = w AND 4"
    "(if w AND 8 \<noteq> 0 then 8 else 0) = w AND 8" "(if w AND 16 \<noteq> 0 then 16 else 0) = w AND 16" "(if w AND 32 \<noteq> 0 then 32 else 0) = w AND 32"
    "(if w AND 64 \<noteq> 0 then 64 else 0) = w AND 64" "(if w AND 128 \<noteq> 0 then 128 else 0) = w AND 128" "(if w AND 256 \<noteq> 0 then 256 else 0) = w AND 256"
    using e[of 1 0] e[of 2 1] e[of 4 2] e[of 8 3] e[of 16 4] e[of 32 5] e[of 64 6] e[of 128 7] e[of 256 8] by simp_all
  have "(0x1FF :: u64) = 1 OR 2 OR 4 OR 8 OR 16 OR 32 OR 64 OR 128 OR 256" by simp
  then show ?thesis
    unfolding f acl_cats_list_def cat_defs foldl.simps prod.case ee by (simp only: bit.conj_disj_distrib or.assoc or.left_neutral)
qed

lemma rule_cmd:
  assumes "command_is_known c"
  shows "acl_apply_rule K u ((if b then ''+'' else ''-'') @ c) = Some (u\<lparr>cmd_overrides := alist_put c b (cmd_overrides u)\<rparr>)"
proof -
  obtain x xs where c: "c = x # xs" "x \<noteq> CHR ''@''" using known_names(2)[OF assms] known_head[OF assms] by (cases c) auto
  then show ?thesis using assms known_lower[OF assms] by (cases b) (simp_all add: acl_apply_rule_def starts_with_def PHC_def)
qed

lemma rules_cmds:
  "list_all (\<lambda>(c, b). command_is_known c) os \<Longrightarrow> distinct (map fst (cmd_overrides u @ os)) \<Longrightarrow>
   acl_apply_rules K u (map (\<lambda>(c, b). (if b then ''+'' else ''-'') @ c) os) = Some (u\<lparr>cmd_overrides := cmd_overrides u @ os\<rparr>)"
proof (induction os arbitrary: u)
  case (Cons x os)
  obtain c b where x: "x = (c, b)" by fastforce
  have "map_of (cmd_overrides u) c = None" using Cons(3) x by (auto simp: map_of_eq_None_iff)
  then have "alist_put c b (cmd_overrides u) = cmd_overrides u @ [(c, b)]" by (simp add: alist_put_def)
  then show ?case using Cons x rule_cmd[of c K u b] by simp
qed simp

lemma alist_put_keys: "map fst (alist_put k v m) = (if k \<in> fst ` set m then map fst m else map fst m @ [k])"
  by (auto simp: alist_put_def map_of_eq_None_iff)

lemma alist_put_set: "(k', v') \<in> set (alist_put k v m) \<Longrightarrow> (k', v') \<in> set m \<or> k' = k"
  by (auto simp: alist_put_def split: if_splits)

lemma rule_user_ok:
  assumes "user_ok u" "acl_apply_rule K u t = Some u'" "starts_with PHC t \<Longrightarrow> quote_safe t"
    and "\<And>p. cred_hash_new K p \<noteq> [] \<Longrightarrow> hash_ok (cred_hash_new K p)"
  shows "user_ok u' \<and> uname u' \<in> {[], uname u}"
proof -
  have hx: "hash_ok (tl t)" if "length t = 65" "list_all isxdigit (tl t)"
  proof -
    have "\<not> isxdigit (CHR ''$'')" by (simp add: isxdigit_def isdigit_def byte_of_def)
    then have "\<not> starts_with PHC (tl t)" using that by (cases "tl t") (auto simp: starts_with_def PHC_def)
    then show ?thesis using that by (simp add: hash_ok_def)
  qed
  have star: "acl_token_ok (tl t) \<Longrightarrow> t \<noteq> [x, CHR ''*''] \<Longrightarrow> t ! 0 = x \<Longrightarrow> 1 < length t \<Longrightarrow> pattern_ok (tl t)" for x
    by (cases t) (auto simp: pattern_ok_def)
  have new: "user_ok new_user" by (simp add: user_ok_def new_user_def)
  have ov: "user_ok (u\<lparr>cmd_overrides := alist_put c b (cmd_overrides u)\<rparr>)" if "command_is_known c" for c b
  proof -
    have "distinct (map fst (alist_put c b (cmd_overrides u)))" using assms(1) by (auto simp: alist_put_keys user_ok_def)
    moreover have "list_all (\<lambda>(c, b). command_is_known c) (alist_put c b (cmd_overrides u))"
      using assms(1) that by (auto simp: user_ok_def list_all_iff dest!: alist_put_set)
    ultimately show ?thesis using assms(1) by (simp add: user_ok_def)
  qed
  have sub: "list_all hash_ok (filter P (pw_hashes u))" for P using assms(1) by (auto simp: user_ok_def list_all_iff)
  have base: "list_all hash_ok (pw_hashes u)" "list_all pattern_ok (key_patterns u)" "list_all pattern_ok (channel_patterns u)"
    "distinct (map fst (cmd_overrides u))" "list_all (\<lambda>(c, b). command_is_known c) (cmd_overrides u)"
    using assms(1) by (auto simp: user_ok_def)
  have phc: "starts_with PHC t \<Longrightarrow> \<not> 512 < length t \<Longrightarrow> hash_ok t" using assms(3) by (simp add: hash_ok_def)
  have cats: "user_ok (u\<lparr>allow_cats := w\<rparr>)" "user_ok (u\<lparr>allow_cats := w, cmd_overrides := []\<rparr>)" for w
    using base by (simp_all add: user_ok_def)
  have rest: "user_ok (u\<lparr>uenable := b\<rparr>)" "user_ok (u\<lparr>pw_hashes := []\<rparr>)" "user_ok (u\<lparr>pw_hashes := filter P (pw_hashes u)\<rparr>)"
    "user_ok (u\<lparr>key_patterns := [], all_keys := b\<rparr>)" "user_ok (u\<lparr>channel_patterns := [], all_channels := b\<rparr>)"
    "user_ok (u\<lparr>all_keys := b, key_patterns := []\<rparr>)" "user_ok (u\<lparr>all_channels := b, channel_patterns := []\<rparr>)"
    "hash_ok h \<Longrightarrow> user_ok (u\<lparr>pw_hashes := pw_hashes u @ [h]\<rparr>)"
    "pattern_ok p \<Longrightarrow> user_ok (u\<lparr>key_patterns := key_patterns u @ [p]\<rparr>)"
    "pattern_ok p \<Longrightarrow> user_ok (u\<lparr>channel_patterns := channel_patterns u @ [p]\<rparr>)" for b P h p
    using base sub by (simp_all add: user_ok_def)
  let ?P = "pred_option (\<lambda>v. user_ok v \<and> uname v \<in> {[], uname u})"
  have pick: "?P (if c then a else b)" if "c \<Longrightarrow> ?P a" "\<not> c \<Longrightarrow> ?P b" for c a b
    using that by simp
  have "?P (acl_apply_rule K u t)"
    unfolding acl_apply_rule_def Let_def
    by (intro pick) (use star[of "CHR ''&''"] star[of "CHR ''~''"] new in
        \<open>simp_all add: rest cats ov hx phc assms(4) new_user_def\<close>)
  then show ?thesis using assms(2) by simp
qed

text \<open>The user that reading the line gives: bits outside the named categories and patterns under a wildcard are gone.\<close>

definition user_image :: "user \<Rightarrow> user" where
  "user_image u = u\<lparr>allow_cats := (if allow_cats u = CAT_ALL then CAT_ALL else allow_cats u AND 0x1FF),
     key_patterns := (if all_keys u then [] else key_patterns u),
     channel_patterns := (if all_channels u then [] else channel_patterns u)\<rparr>"

lemma read_user_tokens:
  assumes "user_ok u" "uname u = name" "map_of us name = None"
  shows "cfg_user K (map snd (user_tokens name u)) us = Some (us @ [(name, user_image u)])"
proof -
  have ok: "list_all hash_ok (pw_hashes u)" "list_all pattern_ok (key_patterns u)" "list_all pattern_ok (channel_patterns u)"
    "distinct (map fst (cmd_overrides u))" "list_all (\<lambda>(c, b). command_is_known c) (cmd_overrides u)" using assms(1) by (auto simp: user_ok_def)
  let ?on = "acl_apply_rules K (new_user\<lparr>uname := name\<rparr>)"
  define h where "h = (if pw_hashes u = [] then [''nopass''] else map (\<lambda>h. if starts_with PHC h then h else ''#'' @ h) (pw_hashes u))"
  define k where "k = (if all_keys u then [''~*''] else map (\<lambda>p. ''~'' @ p) (key_patterns u))"
  define c where "c = (if all_channels u then [''&*''] else map (\<lambda>p. ''&'' @ p) (channel_patterns u))"
  define cs where "cs = filter (\<lambda>(n, b). allow_cats u AND b \<noteq> 0) acl_cats_list"
  define ct where "ct = (if allow_cats u = CAT_ALL then [''+@all''] else ''-@all'' # map (\<lambda>(n, b). ''+@'' @ n) cs)"
  define cm where "cm = map (\<lambda>(c, b). (if b then ''+'' else ''-'') @ c) (cmd_overrides u)"
  have toks: "map snd (user_tokens name u) = name # (if uenable u then ''on'' else ''off'') # h @ k @ c @ ct @ cm"
    unfolding user_tokens_def h_def k_def c_def ct_def cm_def cs_def by (simp add: comp_def split_beta)
  have s1: "acl_apply_rules K v h = Some (v\<lparr>pw_hashes := pw_hashes u\<rparr>)" if "pw_hashes v = []" for v
    using rules_hashes[OF ok(1), of K v] that by (auto simp: h_def acl_apply_rule_def)
  have s2: "acl_apply_rules K v k = Some (v\<lparr>key_patterns := (if all_keys u then [] else key_patterns u), all_keys := all_keys u\<rparr>)"
    if "key_patterns v = []" "\<not> all_keys v" for v
    using rules_keys[OF ok(2), of K v] that by (auto simp: k_def acl_apply_rule_def)
  have s3: "acl_apply_rules K v c = Some (v\<lparr>channel_patterns := (if all_channels u then [] else channel_patterns u), all_channels := all_channels u\<rparr>)"
    if "channel_patterns v = []" "\<not> all_channels v" for v
    using rules_chans[OF ok(3), of K v] that by (auto simp: c_def acl_apply_rule_def)
  have "set cs \<subseteq> set acl_cats_list" by (auto simp: cs_def)
  note rc = rules_cats[OF this, of K]
  have s4: "acl_apply_rules K v ct = Some (v\<lparr>allow_cats := (if allow_cats u = CAT_ALL then CAT_ALL else allow_cats u AND 0x1FF)\<rparr>)"
    if "cmd_overrides v = []" for v
    using rc[of "v\<lparr>allow_cats := 0, cmd_overrides := []\<rparr>"] cats_sum[of "allow_cats u"] that
    by (auto simp: ct_def acl_apply_rule_def cs_def)
  have s5: "acl_apply_rules K v cm = Some (v\<lparr>cmd_overrides := cmd_overrides u\<rparr>)" if "cmd_overrides v = []" for v
    using rules_cmds[OF ok(5), of v K] ok(4) that by (simp add: cm_def)
  have on: "acl_apply_rule K v (if uenable u then ''on'' else ''off'') = Some (v\<lparr>uenable := uenable u\<rparr>)" for v
    by (simp add: acl_apply_rule_def)
  have "acl_apply_rules K (new_user\<lparr>uname := name\<rparr>) ((if uenable u then ''on'' else ''off'') # h @ k @ c @ ct @ cm) = Some (user_image u)"
    using assms(2) by (simp add: on rules_append s1 s2 s3 s4 s5 new_user_def user_image_def)
  moreover have "uname (user_image u) = name" using assms(2) by (simp add: user_image_def)
  ultimately show ?thesis unfolding cfg_user_def toks Let_def using assms(3) by (auto simp: alist_put_def new_user_def)
qed

lemma cred_hash_ok:
  assumes "\<forall>p s e. argon2_hash K p s = Some e \<longrightarrow> starts_with PHC e \<and> length e \<le> 512 \<and> quote_safe e"
    and "cred_hash_new K p \<noteq> []"
  shows "hash_ok (cred_hash_new K p)"
proof (cases "have_argon2 K")
  case True
  then obtain s e where e: "argon2_hash K p s = Some e" "cred_hash_new K p = c_str e"
    using assms(2) by (auto simp: cred_hash_new_def split: option.splits)
  moreover have "c_str e = e" using assms(1) e(1) by (intro c_str_id) (auto simp: quote_safe_def)
  ultimately show ?thesis using assms(1) by (auto simp: hash_ok_def)
next
  case False
  have hex: "length (sha256_hex p) = 64" "set (sha256_hex p) \<subseteq> set ''0123456789abcdef''"
    using hex_word_ok by (simp_all add: sha256_hex_def Let_def)
  have "list_all isxdigit ''0123456789abcdef''" by (simp add: isxdigit_def isdigit_def byte_of_def)
  then have all: "list_all isxdigit (sha256_hex p)" using hex(2) by (auto simp: list_all_iff simp del: list.set)
  have "\<not> isxdigit (CHR ''$'')" by (simp add: isxdigit_def isdigit_def byte_of_def)
  then have "\<not> starts_with PHC (sha256_hex p)" using all by (cases "sha256_hex p") (auto simp: starts_with_def PHC_def)
  then show ?thesis using False all hex(1) by (simp add: hash_ok_def cred_hash_new_def)
qed

lemma stage_rules_ok:
  "stage_rules K u ts = Inr u' \<Longrightarrow> user_ok u \<Longrightarrow> \<forall>t \<in> set ts. starts_with PHC t \<longrightarrow> quote_safe t \<Longrightarrow>
   \<forall>p s e. argon2_hash K p s = Some e \<longrightarrow> starts_with PHC e \<and> length e \<le> 512 \<and> quote_safe e \<Longrightarrow>
   user_ok u' \<and> uname u' \<in> {[], uname u}"
proof (induction K u ts rule: stage_rules.induct)
  case (2 K u t ts)
  then obtain v where v: "acl_apply_rule K u t = Some v" "stage_rules K v ts = Inr u'" by (auto split: option.splits)
  have "user_ok v \<and> uname v \<in> {[], uname u}" using rule_user_ok[OF 2(3) v(1)] 2(4) cred_hash_ok[OF 2(5)] by auto
  then show ?case using 2(1)[OF v] 2(4,5) by auto
qed simp

lemma user_tokens_ok:
  assumes "user_ok u" "plain_word name"
  shows "\<forall>(q, s) \<in> set (user_tokens name u). if q then quote_safe s else plain_word s"
proof -
  have pw: "plain_word (x # p)" if "acl_token_ok p" "x \<in> set ''~&+-''" for x p
    using token_plain[OF that(1)] that(2) by (auto simp: plain_word_def isspace_def byte_of_def)
  have hq: "quote_safe (if starts_with PHC h then h else ''#'' @ h)" if "hash_ok h" for h
  proof -
    have "\<not> isxdigit (CHR 0x22)" "\<not> isxdigit (CHR 0x5C)" "\<not> isxdigit NUL" "\<not> isxdigit LF"
      by (simp_all add: isxdigit_def isdigit_def byte_of_def)
    then show ?thesis using that by (cases "starts_with PHC h") (auto simp: hash_ok_def quote_safe_def list_all_iff)
  qed
  have cats: "list_all (\<lambda>(n, b). plain_word (''+@'' @ n)) acl_cats_list"
    by (simp add: acl_cats_list_def plain_word_def isspace_def byte_of_def)
  have cmd: "plain_word (x # c)" if "command_is_known c" "x \<in> set ''+-''" for x c
    using known_names(1)[OF that(1)] that(2) by (auto simp: plain_word_def list_all_iff isspace_def byte_of_def)
  have lit: "plain_word ''on''" "plain_word ''off''" "plain_word ''nopass''" "plain_word ''~*''" "plain_word ''&*''" "plain_word ''+@all''" "plain_word ''-@all''"
    by (simp_all add: plain_word_def isspace_def byte_of_def)
  have ok: "\<forall>h \<in> set (pw_hashes u). hash_ok h" "\<forall>p \<in> set (key_patterns u) \<union> set (channel_patterns u). acl_token_ok p"
    "\<forall>(c, b) \<in> set (cmd_overrides u). command_is_known c" using assms(1) by (auto simp: user_ok_def list_all_iff pattern_ok_def)
  let ?Q = "\<lambda>p. case p of (q, s) \<Rightarrow> if q then quote_safe s else plain_word s"
  have "Ball (set (map (\<lambda>h. (True, if starts_with PHC h then h else ''#'' @ h)) (pw_hashes u))) ?Q" using ok(1) hq by simp
  moreover have "Ball (set (map (\<lambda>p. (False, ''~'' @ p)) (key_patterns u))) ?Q" "Ball (set (map (\<lambda>p. (False, ''&'' @ p)) (channel_patterns u))) ?Q"
    using ok(2) pw by simp_all
  moreover have "Ball (set (map (\<lambda>(n, b). (False, ''+@'' @ n)) (filter (\<lambda>(n, b). allow_cats u AND b \<noteq> 0) acl_cats_list))) ?Q"
    using cats by (auto simp: list_all_iff)
  moreover have "Ball (set (map (\<lambda>(c, b). (False, (if b then ''+'' else ''-'') @ c)) (cmd_overrides u))) ?Q"
    using ok(3) cmd by fastforce
  ultimately show ?thesis unfolding user_tokens_def set_append ball_Un using assms(2) lit by simp
qed

lemma format_line:
  assumes "user_ok u" "plain_word name"
  shows "config_tokenize (acl_format_user name u True @ [LF]) = ''user'' # map snd (user_tokens name u)"
    and "LF \<notin> set (acl_format_user name u True)"
    and "c_str (acl_format_user name u True) = acl_format_user name u True"
proof -
  note ok = user_tokens_ok[OF assms]
  have chars: "NUL \<notin> set s \<and> LF \<notin> set s" if "if q then quote_safe s else plain_word s" for q s
    using that space_chars(2) by (cases q) (auto simp: quote_safe_def plain_word_def list_all_iff)
  have "NUL \<notin> set (render ps) \<and> LF \<notin> set (render ps)" if "\<forall>(q, s) \<in> set ps. NUL \<notin> set s \<and> LF \<notin> set s" for ps
    using that by (induction ps) (auto simp: render_def quote_tok_def)
  moreover have "\<forall>(q, s) \<in> set (user_tokens name u). NUL \<notin> set s \<and> LF \<notin> set s" using ok chars by fastforce
  ultimately have r: "NUL \<notin> set (render (user_tokens name u))" "LF \<notin> set (render (user_tokens name u))" by blast+
  then show "LF \<notin> set (acl_format_user name u True)" by (simp add: format_render)
  show "c_str (acl_format_user name u True) = acl_format_user name u True" using r(1) by (intro c_str_id) (simp add: format_render)
  have sp: "isspace (hd (render (user_tokens name u) @ [LF]))" using space_chars(1) by (simp add: user_tokens_def render_def)
  have "c_str (acl_format_user name u True @ [LF]) = ''user'' @ render (user_tokens name u) @ [LF]"
    using r(1) by (subst c_str_id) (auto simp: format_render)
  moreover have "tokens (''user'' @ render (user_tokens name u) @ [LF]) = ''user'' # tokens (render (user_tokens name u) @ [LF])"
    using sp by (intro tokens_word) (auto simp: isspace_def byte_of_def)
  ultimately show "config_tokenize (acl_format_user name u True @ [LF]) = ''user'' # map snd (user_tokens name u)"
    using tokens_render[OF ok] by (simp add: config_tokenize_def)
qed

lemma map_of_alist_put: "map_of (alist_put k v m) k' = (if k' = k then Some v else map_of m k')"
proof -
  have "k' \<noteq> k \<Longrightarrow> map_of (map (\<lambda>p. if fst p = k then (k, v) else p) m) k' = map_of m k'" by (induction m) auto
  moreover have "map_of m k \<noteq> None \<Longrightarrow> map_of (map (\<lambda>p. if fst p = k then (k, v) else p) m) k = Some v" by (induction m) auto
  ultimately show ?thesis by (auto simp: alist_put_def map_add_def split: option.splits)
qed

lemma table_cats:
  assumes "(n, spec) \<in> set k_cmd_table"
  shows "acl_cats spec AND 0x1FF = acl_cats spec"
proof -
  have ex: "\<forall>(n, e) \<in> set acl_extra. e AND 0x1FF = e" by (simp add: acl_extra_def cat_defs)
  have ex1: "e AND 0x1FF = e" if "map_of acl_extra n = Some e" for e using map_of_SomeD[OF that] ex by fastforce
  have "(b AND m) OR (e AND m) = (b OR e) AND m" "(c AND z) AND m = (c AND m) AND z" for b e c m z :: u64
    by (rule bit_eqI, simp only: bit_or_iff bit_and_iff, blast)+
  note bits = this
  have base: "CAT_WRITE AND 0x1FF = CAT_WRITE" "CAT_READ AND 0x1FF = CAT_READ" by (simp_all add: cat_defs)
  have orr: "(b OR e) AND 0x1FF = b OR e" if "b AND 0x1FF = b" "e AND 0x1FF = e" for b e :: u64 using bits(1)[of b "0x1FF" e] that by simp
  have andd: "(c AND z) AND 0x1FF = c AND z" if "c AND 0x1FF = c" for c z :: u64 using bits(2)[of c z "0x1FF"] that by simp
  show ?thesis using assms ex1 base
    by (auto simp: k_cmd_table_def acl_init_row_def Let_def orr andd split: option.splits)
qed

lemma image_checks:
  assumes "(n, spec) \<in> set k_cmd_table"
  shows "acl_check (Some (user_image u)) c spec cmd = acl_check (Some u) c spec cmd"
proof -
  have "acl_cats spec AND (w AND 0x1FF) = acl_cats spec AND w" for w
  proof -
    have "acl_cats spec AND (w AND 0x1FF) = (acl_cats spec AND 0x1FF) AND w" by (simp add: and.left_commute and.commute)
    then show ?thesis using table_cats[OF assms] by simp
  qed
  moreover have "keys_allowed (u\<lparr>allow_cats := w, channel_patterns := p\<rparr>) ks = keys_allowed u ks" for w p ks
    by (induction ks) (auto simp: acl_key_allowed_def split: option.splits bool.splits)
  ultimately show ?thesis by (auto simp: acl_check_def user_image_def Let_def split: option.splits)
qed

lemma image_channels: "acl_channel_check (Some (user_image u)) chan lit = acl_channel_check (Some u) chan lit"
  by (simp add: acl_channel_check_def user_image_def)

definition table_ok :: "(string \<times> user) list \<Rightarrow> bool" where
  "table_ok users \<longleftrightarrow> distinct (map fst users) \<and> list_all (\<lambda>(n, u). user_ok u \<and> uname u = n) users"

text \<open>The directives of a file that has only \<open>user\<close> lines, applied one after the other.\<close>

fun read_users :: "cred_ops \<Rightarrow> string list list \<Rightarrow> (string \<times> user) list \<Rightarrow> (string \<times> user) list option" where
  "read_users K [] users = Some users"
| "read_users K (args # ls) users = Option.bind (cfg_user K args users) (read_users K ls)"

abbreviation writable :: "string \<times> user \<Rightarrow> bool" where
  "writable p \<equiv> case p of (n, u) \<Rightarrow> plain_word n \<and> length (acl_format_user n u True) < 1023"

abbreviation named :: "(string \<times> user) list \<Rightarrow> (string \<times> user) list" where
  "named users \<equiv> filter (\<lambda>(n, u). n \<noteq> ''default'') users"

text \<open>Two users of the same name whom every check treats alike.\<close>

abbreviation same_user :: "string \<Rightarrow> user \<Rightarrow> user \<Rightarrow> bool" where
  "same_user n u' u \<equiv>
     uname u' = n \<and> uenable u' = uenable u \<and> pw_hashes u' = pw_hashes u \<and> cmd_overrides u' = cmd_overrides u \<and>
     (\<forall>chan lit. acl_channel_check (Some u') chan lit = acl_channel_check (Some u) chan lit) \<and>
     (\<forall>(c, spec) \<in> set k_cmd_table. \<forall>cmd. acl_check (Some u') c spec cmd = acl_check (Some u) c spec cmd)"

lemma emit_lines:
  "list_all (\<lambda>(n, u). user_ok u) us \<Longrightarrow> \<forall>p \<in> set (named us). writable p \<Longrightarrow>
   map config_tokenize (fgets_lines (emit_users us)) = map (\<lambda>(n, u). ''user'' # map snd (user_tokens n u)) (named us)"
proof (induction us)
  case (Cons p us)
  obtain n u where p: "p = (n, u)" by fastforce
  have IH: "map config_tokenize (fgets_lines (emit_users us)) = map (\<lambda>(n, u). ''user'' # map snd (user_tokens n u)) (named us)"
    using Cons by auto
  show ?case
  proof (cases "n = ''default''")
    case True
    then have "emit_users (p # us) = emit_users us" "named (p # us) = named us" using p by (simp_all add: emit_users_def)
    then show ?thesis using IH by simp
  next
    case False
    have ok: "user_ok u" "plain_word n" "length (acl_format_user n u True) < 1023" using Cons(2,3) p False by auto
    have "emit_users (p # us) = (acl_format_user n u True @ [LF]) @ emit_users us" "named (p # us) = (n, u) # named us"
      using p False format_line(3)[OF ok(1,2)] by (simp_all add: emit_users_def)
    then show ?thesis using fgets_line[OF format_line(2)[OF ok(1,2)] ok(3), of "emit_users us"] format_line(1)[OF ok(1,2)] IH
      by (simp add: p False)
  qed
qed (simp add: emit_users_def fgets_lines.simps)

lemma read_lines:
  "list_all (\<lambda>(n, u). user_ok u \<and> uname u = n) us \<Longrightarrow> distinct (map fst (acc @ us)) \<Longrightarrow>
   read_users K (map (\<lambda>(n, u). map snd (user_tokens n u)) us) acc = Some (acc @ map (\<lambda>(n, u). (n, user_image u)) us)"
proof (induction us arbitrary: acc)
  case (Cons p us)
  obtain n u where p: "p = (n, u)" by fastforce
  have "map_of acc n = None" using Cons(3) p by (auto simp: map_of_eq_None_iff)
  then have "cfg_user K (map snd (user_tokens n u)) acc = Some (acc @ [(n, user_image u)])"
    using Cons(2) p by (intro read_user_tokens) simp_all
  moreover have "distinct (map fst ((acc @ [(n, user_image u)]) @ us))" using Cons(3) p by simp
  ultimately show ?case using Cons(1)[of "acc @ [(n, user_image u)]"] Cons(2) p by simp
qed simp

lemma setuser_table:
  assumes set: "acl_setuser K (''acl'' # ''setuser'' # name # rules) users = Inr users'"
    and table: "table_ok users" and phc: "\<forall>t \<in> set rules. starts_with PHC t \<longrightarrow> quote_safe t"
    and argon: "\<forall>p s e. argon2_hash K p s = Some e \<longrightarrow> starts_with PHC e \<and> length e \<le> 512 \<and> quote_safe e"
  shows "table_ok users' \<and> map_of users' name \<noteq> None \<and> (\<forall>n. n \<noteq> name \<longrightarrow> map_of users' n = map_of users n)"
proof -
  have arg: "(''acl'' # ''setuser'' # name # rules) ! 2 = name" by simp
  have nn: "name \<noteq> []" using set by (auto simp: acl_setuser_def acl_token_ok_def arg split: if_splits)
  define s where "s = (case map_of users name of Some u \<Rightarrow> u | None \<Rightarrow> new_user\<lparr>uname := name\<rparr>)"
  have s: "user_ok s" "uname s = name"
    using table by (auto simp: s_def table_ok_def list_all_iff user_ok_def new_user_def split: option.splits dest!: map_of_SomeD)
  have st: "acl_setuser K (''acl'' # ''setuser'' # name # rules) users =
      (if \<not> acl_token_ok name then Inl ''ERR ACL username contains a space or control byte''
       else case stage_rules K s rules of Inl e \<Rightarrow> Inl e
            | Inr u \<Rightarrow> Inr (alist_put name (if uname u = [] then u\<lparr>uname := name\<rparr> else u) users))"
    unfolding acl_setuser_def arg using s nn by (cases "map_of users name") (simp_all add: s_def Let_def new_user_def)
  obtain v where v: "stage_rules K s rules = Inr v" "users' = alist_put name (if uname v = [] then v\<lparr>uname := name\<rparr> else v) users"
    using set unfolding st by (cases "stage_rules K s rules") (simp_all split: if_splits)
  define u where "u = (if uname v = [] then v\<lparr>uname := name\<rparr> else v)"
  have u: "user_ok u" "uname u = name" using stage_rules_ok[OF v(1) s(1) phc argon] s(2) by (auto simp: u_def user_ok_def)
  have users': "users' = alist_put name u users" using v(2) by (simp add: u_def)
  have "distinct (map fst users')" using table unfolding users' alist_put_keys table_ok_def by auto
  moreover have "list_all (\<lambda>(n, u). user_ok u \<and> uname u = n) users'" using table u unfolding users' table_ok_def alist_put_def by (auto simp: list_all_iff)
  ultimately show ?thesis by (simp add: users' map_of_alist_put table_ok_def)
qed


definition K_plain :: cred_ops where
  "K_plain = \<lparr>have_argon2 = False, argon2_hash = \<lambda>_ _. None, argon2_verify = \<lambda>_ _. False, argon_params = \<lambda>_. None,
     entropy = \<lambda>_. None\<rparr>"

definition u_bob :: user where
  "u_bob = new_user\<lparr>uname := ''bob'', key_patterns := [''app:*''], allow_cats := CAT_READ, cmd_overrides := [(''get'', False)]\<rparr>"

definition u_off :: user where
  "u_off = new_user\<lparr>uname := ''default'', uenable := False\<rparr>"


text \<open>
  C39. Taking a category away does not take away its commands: every command marked dangerous carries another
  category as well, and \<open>acl_check\<close> lets a command through when any of its categories is granted. A user set up with
  \<open>+@all -@dangerous ~*\<close> may still run every command of the table, \<open>FLUSHALL\<close>, \<open>CONFIG\<close> and \<open>ACL\<close> included.
\<close>

theorem acl_minus_dangerous_keeps_all:
  "\<exists>u. acl_apply_rules K new_user [''+@all'', ''-@dangerous'', ''~*''] = Some u \<and> allow_cats u AND CAT_DANGEROUS = 0 \<and>
     (\<forall>(c, spec) \<in> set k_cmd_table. \<forall>cmd. acl_check (Some u) c spec cmd = Some None)"
proof -
  let ?u = "new_user\<lparr>allow_cats := CAT_ALL AND NOT CAT_DANGEROUS, all_keys := True\<rparr>"
  have "acl_apply_rules K new_user [''+@all'', ''-@dangerous'', ''~*''] = Some ?u"
    by (simp add: acl_apply_rule_def starts_with_def PHC_def acl_cat_bit_def acl_cats_list_def CAT_DANGEROUS_def new_user_def)
  moreover have "allow_cats ?u AND CAT_DANGEROUS = 0" by (simp add: CAT_DANGEROUS_def CAT_ALL_def)
  moreover have "\<forall>(c, spec) \<in> set k_cmd_table. \<forall>cmd. acl_check (Some ?u) c spec cmd = Some None"
    using row_cats by (auto simp: acl_check_def new_user_def CAT_ALL_def)
  ultimately show ?thesis by blast
qed

theorem acl_minus_dangerous_keeps_all_witness:
  "\<exists>u spec. acl_apply_rules K_plain new_user [''+@all'', ''-@dangerous'', ''~*''] = Some u \<and>
     (''flushall'', spec) \<in> set k_cmd_table \<and> acl_cats spec AND CAT_DANGEROUS \<noteq> 0 \<and> acl_check (Some u) ''flushall'' spec [''flushall''] = Some None"
proof -
  obtain u where u: "acl_apply_rules K_plain new_user [''+@all'', ''-@dangerous'', ''~*''] = Some u"
    "\<forall>(c, spec) \<in> set k_cmd_table. \<forall>cmd. acl_check (Some u) c spec cmd = Some None"
    using acl_minus_dangerous_keeps_all[of K_plain] by blast
  define spec where "spec = snd (acl_init_row (''flushall'', 1, 1, True, False, False))"
  have "acl_cats spec AND CAT_DANGEROUS \<noteq> 0"
    by (simp add: spec_def acl_init_row_def acl_extra_def cat_defs)
  moreover have "(''flushall'', 1, 1, True, False, False) \<in> set k_cmd_rows" by (simp add: k_cmd_rows_def)
  then have "acl_init_row (''flushall'', 1, 1, True, False, False) \<in> set k_cmd_table" unfolding k_cmd_table_def by (simp only: set_map imageI)
  then have "(''flushall'', spec) \<in> set k_cmd_table" by (simp add: spec_def acl_init_row_def Let_def)
  ultimately show ?thesis using u by blast
qed

end
