(* ===== verification/Spec2Isabelle.thy ===== *)
theory Spec2Isabelle
  imports Ttl_Heap Hashtable_Scan Hash_Type Set_Type Zset Deque Resp Cmd_Run Aof Acl
begin

text \<open>
  \<^bold>\<open>A verification development for the MYRED key-value server.\<close>

  \<^bold>\<open>The program.\<close> One thread runs an event loop over client connections (\<open>server/server.cpp\<close>). Bytes of a
  connection collect in a buffer (\<open>protocol/buffer.cpp\<close>), the request parser cuts argument vectors out of it
  (\<open>protocol/resp.cpp\<close>), the dispatcher looks the command up in a table, checks the permissions of the user and calls a
  handler (\<open>commands/commands.cpp\<close>). Handlers work on one key space (\<open>core/state.cpp\<close>): a hash table from
  keys to entries, a heap of deadlines, and per entry a value of one of five types (\<open>types\<close>, \<open>ds\<close>). Writes are
  appended to a log (\<open>persistence/aof.cpp\<close>) and to the replication stream.

  \<^bold>\<open>Theories, bottom up.\<close>
  \<^item> \<open>Prelude\<close>: machine integers, C++ strings with their capacity, character classes, decimal text, shared lemmas.
  \<^item> \<open>Ttl_Heap\<close> (\<open>ds/heap.cpp\<close>, \<open>entry_set_ttl\<close> of \<open>core/state.cpp\<close>): the heap with back pointers into the entries refines
    a map of deadlines; after any history of calls its root is the earliest one. Locale \<open>expiry_queue\<close>.
  \<^item> \<open>Hashtable\<close>, \<open>Hashtable_Scan\<close> (\<open>ds/hashtable.cpp\<close>): chaining with progressive rehashing refines a multiset of nodes; the
    reverse-binary cursor of \<open>hm_scan\<close> misses no element that stays, and ends.
  \<^item> \<open>Str_Table\<close>, \<open>Hash_Type\<close>, \<open>Set_Type\<close> (\<open>ds/str_node.h\<close>, \<open>types/hash.cpp\<close>, \<open>types/set.cpp\<close>): string-keyed
    tables as finite maps and sets, with exact byte counters. Locale \<open>string_table\<close>.
  \<^item> \<open>Avl\<close>, \<open>Zset\<close> (\<open>ds/avl.cpp\<close>, \<open>types/zset.cpp\<close>): the tree with cached heights and counts at 32 bits, parent pointers as
    zipper frames; a sorted set refines a map of scores and its logarithmic queries equal a scan.
  \<^item> \<open>Deque\<close> (\<open>ds/deque.cpp\<close>): the ring buffer of a list refines a list. Locale \<open>two_ended\<close>.
  \<^item> \<open>Buffer\<close>, \<open>Resp\<close>, \<open>Reply\<close> (\<open>protocol\<close>): the byte queue (locale \<open>byte_queue\<close>), the request parser and the encoders;
    requests round-trip, verdicts are stable under more input, and prefixes wait.
  \<^item> \<open>State\<close>, \<open>Keyspace\<close> (\<open>core/state.h\<close>, \<open>core/state.cpp\<close>): the record \<open>gdata\<close> of the global state, expiry,
    memory accounting and access stamps; the invariant \<open>g_ok\<close> and the abstraction \<open>live\<close> to a map of keys that have not
    expired. Locale \<open>keyspace\<close>.
  \<^item> \<open>Num_Parse\<close>, \<open>Glob\<close>: the integer parser and the pattern matcher of \<open>commands/commands.cpp\<close>, against their meaning.
  \<^item> \<open>Cmd_String\<close>, \<open>Cmd_Keys\<close>, \<open>Cmd_List\<close>, \<open>Cmd_Hash\<close>, \<open>Cmd_Set\<close>, \<open>Cmd_Zset\<close>: the handlers, one definition each, with the names
    of the source. \<open>Entry_Type\<close> is the interface between a container and the handlers on it; its locale is interpreted once
    per type. The writing handlers refine updates of the map of live keys on every branch and keep \<open>g_ok\<close>.
  \<^item> \<open>Evict\<close> (\<open>server/server.cpp\<close>, \<open>commands/commands.cpp\<close>): the expiry timers and the eviction loop; eviction removes whole
    keys only, at most 99 per call, and gives up only when the policy has nothing left to take.
  \<^item> \<open>Cmd_Run\<close> (\<open>do_request\<close>, the handler column of \<open>k_cmd_table\<close>): the step relation \<open>reachable\<close> of commands, timers and
    evictions from an empty server; every state it reaches satisfies \<open>g_ok\<close>, and \<open>MEMORY DOCTOR\<close> finds no drift in it.
  \<^item> \<open>Aof\<close> (\<open>persistence/aof.cpp\<close>): the frames of the log, the snapshot preamble, \<open>aof_load\<close> and the offline check; recovery after a
    cut at any byte.
  \<^item> \<open>Sha\<close> (\<open>auth/sha256.h\<close>): the streaming digest equals the block function over the padded message. The table of
    round constants is computed by the rule of the standard; its length and sums are those of the literals of the source.
  \<^item> \<open>Config_Parse\<close> (\<open>core/state.cpp\<close>): value parsers, the line reader and writer of the configuration, the address list.
  \<^item> \<open>Cmd_Table\<close>: the command table, its side tables and the dispatch map under renames.
  \<^item> \<open>Acl\<close> (\<open>auth/cred.cpp\<close>, \<open>commands/commands.cpp\<close>): credentials, users, the modifiers of \<open>ACL SETUSER\<close>, the checks,
    and the lines of the users in the configuration file.

  \<^bold>\<open>Conventions.\<close> A handler maps the environment (clocks, configuration, protocol version, random draws), the argument
  vector and the state to the state after it and the list of reply tokens. A handler that can run into undefined behaviour or not end
  returns an option, and its theorems state when the value exists. The products and differences of \<open>SETEX\<close>,
  \<open>EXPIRE\<close> and \<open>EXPIREAT\<close> are such cases (\<open>exact_i64\<close>); the other signed operations that could overflow (the negated count
  of \<open>LREM\<close> at \<open>INT64_MIN\<close>, a deadline of \<open>GETEX\<close> far in the past, the rounding of \<open>TTL\<close>) are modelled with wrap-around. Effects on other parts of the server (notifications, frames for
  the log, touched watches) are recorded in the field \<open>events\<close>. \<open>int64_t\<close> is \<^typ>\<open>int\<close> with \<open>i64\<close> for the wrap,
  \<open>uint32_t\<close> and \<open>uint64_t\<close> are words, \<open>size_t\<close> is \<^typ>\<open>nat\<close> except for
  \<open>used_memory\<close> and the byte counter of a list, which are 64-bit words. Loops are structural or have a termination proof; two
  may fail to end by their form (\<open>avl_offset_loop\<close>, a partial function, and the matching loop of \<open>Glob\<close>, by \<open>while_option\<close>), and their results are proved
  to exist. The bounds are those of the source (100 attempts of eviction, 2000 timers, 65536 arguments); \<open>cube_root\<close> computes 35 bits, the 3 of
  the whole part and the 32 of the fraction that a round constant has.

  \<^bold>\<open>Parameters.\<close> Floating point (\<open>dbl_ops\<close>: \<open>strtod\<close>, classification, addition, with any linear order of scores), long double
  arithmetic of \<open>INCRBYFLOAT\<close> (\<open>ld_ops\<close>), the Argon2 library and the system's random bytes (\<open>cred_ops\<close>), and, in \<open>aof_load\<close>, the loader of
  the snapshot and the execution of a command.

  \<^bold>\<open>Faults the theorems show.\<close> \<open>SETEX\<close> has undefined behaviour on a huge argument that \<open>SET ... EX\<close> refuses; a failing match after a
  star leaves the string; \<open>LREM\<close> makes the byte counter of a list drift; the offline check empties a rewritten log with no line feed
  at its start; \<open>-@dangerous\<close> takes no command away; what \<open>ACL SETUSER default\<close> sets is lost by \<open>CONFIG REWRITE\<close> and a restart.

  \<^bold>\<open>Not modelled.\<close> The event loop but for its expiry timers, sockets, TLS and the thread pool (\<open>server\<close>): system calls and
  threads. The snapshot format (\<open>persistence/rdb.cpp\<close>) and the background rewrite of the log: the encoding of five value
  types and process control. Replication and failover, publish/subscribe, \<open>MULTI\<close>/\<open>EXEC\<close>/\<open>WATCH\<close>, the asynchronous \<open>AUTH\<close> and the
  gates of the dispatcher \<open>do_request\<close> that depend on them: they need the connections, of which there is no model; the handlers
  record what they would hand to them. \<open>INFO\<close> and the table of configuration directives with its self-check: text over many fields.
  The client program (its request encoder is in \<open>Resp\<close>).
\<close>

end
